(* ===== verification/NR_Prelude.thy ===== *)
theory NR_Prelude
  imports Main "HOL-Library.Word" "HOL-Library.Code_Target_Numeral"
begin

text \<open>
  Shared vocabulary of the NornRune development.

  \<^item> Machine words: a Go \<^verbatim>\<open>uint64\<close> bit-plane word is \<open>u64\<close>, a \<^verbatim>\<open>ReasonMask\<close> is \<open>u16\<close>.
    Identifiers, counts and offsets (\<^verbatim>\<open>uint32\<close>, \<^verbatim>\<open>uint16\<close>) are naturals; the code only
    compares them, adds them after widening, and subtracts one from a checked nonzero value.
    Where a Go expression can wrap, the reduction modulo the width is written out.
  \<^item> Errors and panics: a fallible Go function is a function into \<open>'a res\<close>. \<open>Err\<close> is a
    returned sentinel error, \<open>Panic\<close> is a Go panic (an explicit \<^verbatim>\<open>panic\<close> or an index or
    slice expression out of range).
  \<^item> Slices: \<open>idx\<close>, \<open>subslice\<close> and \<open>upd\<close> are the bounds-checked Go expressions
    \<^verbatim>\<open>s[i]\<close>, \<^verbatim>\<open>s[a:b]\<close> and \<^verbatim>\<open>s[i] = v\<close>.
  \<^item> Bitmaps: \<open>wbit\<close> reads one row of a slice of 64-bit words.
  \<^item> \<open>binary_search\<close> is \<^verbatim>\<open>slices.BinarySearch\<close> of the Go standard library.
\<close>

unbundle bit_operations_syntax

named_theorems res_simps \<open>equations of the result monad and of bounds-checked slice access\<close>
named_theorems wbit_simps \<open>row-wise reading of bitmap operations\<close>

type_synonym u64 = "64 word"
type_synonym u16 = "16 word"

abbreviation MaxUint16 :: nat where "MaxUint16 \<equiv> 65535"
abbreviation MaxUint32 :: nat where "MaxUint32 \<equiv> 4294967295"
abbreviation MaxUint64 :: nat where "MaxUint64 \<equiv> 18446744073709551615"
abbreviation MaxInt :: nat where "MaxInt \<equiv> 9223372036854775807"

section \<open>Results, errors and panics\<close>

datatype err =
    ErrInvalidProgram | ErrBatchTooLarge | ErrInvalidEvidenceProgram
  | ErrInvalidBuilder | ErrInvalidRow | ErrInvalidField | ErrValueKind | ErrInvalidValue
  | ErrInvalidEvidence | ErrIncompleteBatch
  | ErrInvalidSchema | ErrInvalidPolicy | ErrInvalidQuery | ErrInvalidFactIndex | ErrIndexTooLarge
  | ErrInvalidOutcomeTable | ErrInvalidRemediationTable | ErrInvalidResolutionTable
  | ErrInvalidOutcomeReference | ErrInvalidRemediationReference | ErrInvalidExplanationReference
  | ErrInvalidGeneratedProgram | ErrProgramTooLarge | ErrInvalidDocument
  | ErrInvalidRegistry | ErrPolicyNotFound
  | ErrInvalidShardResult | ErrResultBatchTooLarge
  | ErrDuplicateField | ErrInvalidValueKind | ErrInvalidFieldGroup | ErrInvalidSymbol
  | ErrTooLarge | ErrInvalidRetainedExecution
  | ErrCompileFailed
  | ErrInvalidScheduler | ErrSchedulerClosed | ErrInvalidArena | ErrInvalidCapacity | ErrInvalidContext
  | ErrInvalidLease | ErrLeaseExpired | ErrDoubleReturn | ErrOutputClaimed | ErrOutputNotClaimed | ErrOutputEscaped
  | ErrCanceled

datatype 'a res = Ok 'a | Err err | Panic string

fun rbind :: "'a res \<Rightarrow> ('a \<Rightarrow> 'b res) \<Rightarrow> 'b res" where
  "rbind (Ok x) f = f x"
| "rbind (Err e) f = Err e"
| "rbind (Panic s) f = Panic s"

fun is_panic :: "'a res \<Rightarrow> bool" where
  "is_panic (Panic s) = True"
| "is_panic r = False"

fun res_map :: "('a \<Rightarrow> 'b) \<Rightarrow> 'a res \<Rightarrow> 'b res" where
  "res_map f (Ok x) = Ok (f x)"
| "res_map f (Err e) = Err e"
| "res_map f (Panic s) = Panic s"

definition res_guard :: "bool \<Rightarrow> 'a res \<Rightarrow> 'a res \<Rightarrow> 'a res" where
  "res_guard c bad r = (if c then r else bad)"

declare rbind.simps [res_simps]

lemma rbind_Ok_iff: "rbind m f = Ok y \<longleftrightarrow> (\<exists>x. m = Ok x \<and> f x = Ok y)"
  by (cases m) auto

lemma rbind_assoc: "rbind (rbind m f) g = rbind m (\<lambda>x. rbind (f x) g)"
  by (cases m) auto

lemma rbind_cong [fundef_cong]:
  "m = m' \<Longrightarrow> (\<And>x. m' = Ok x \<Longrightarrow> f x = f' x) \<Longrightarrow> rbind m f = rbind m' f'"
  by (cases m') auto

lemma res_map_rbind: "res_map f m = rbind m (\<lambda>x. Ok (f x))"
  by (cases m) auto

text \<open>Running a fallible action over a list, stopping at the first error or panic.\<close>

fun res_mapM :: "('a \<Rightarrow> 'b res) \<Rightarrow> 'a list \<Rightarrow> 'b list res" where
  "res_mapM f [] = Ok []"
| "res_mapM f (x # xs) = rbind (f x) (\<lambda>y. rbind (res_mapM f xs) (\<lambda>ys. Ok (y # ys)))"

fun res_foldM :: "('a \<Rightarrow> 's \<Rightarrow> 's res) \<Rightarrow> 'a list \<Rightarrow> 's \<Rightarrow> 's res" where
  "res_foldM f [] s = Ok s"
| "res_foldM f (x # xs) s = rbind (f x s) (\<lambda>s'. res_foldM f xs s')"

lemma res_mapM_Ok: "(\<And>x. x \<in> set xs \<Longrightarrow> f x = Ok (g x)) \<Longrightarrow> res_mapM f xs = Ok (map g xs)"
  by (induction xs) auto

lemma res_foldM_Ok:
  "(\<And>x s. x \<in> set xs \<Longrightarrow> f x s = Ok (g x s)) \<Longrightarrow> res_foldM f xs s = Ok (fold g xs s)"
  by (induction xs arbitrary: s) auto

lemma res_foldM_append:
  "res_foldM f (xs @ ys) s = rbind (res_foldM f xs s) (\<lambda>s'. res_foldM f ys s')"
  by (induction xs arbitrary: s) (simp_all add: rbind_assoc, auto intro: rbind_cong)

lemma res_foldM_inv:
  assumes "res_foldM f xs s = Ok t" and "P s"
    and "\<And>x s t. x \<in> set xs \<Longrightarrow> P s \<Longrightarrow> f x s = Ok t \<Longrightarrow> P t"
  shows "P t"
  using assms by (induction xs arbitrary: s) (auto simp: rbind_Ok_iff)

section \<open>Bounds-checked slices\<close>

definition idx :: "'a list \<Rightarrow> nat \<Rightarrow> 'a res" where
  "idx xs i = (if i < length xs then Ok (xs ! i) else Panic ''index out of range'')"

definition upd :: "'a list \<Rightarrow> nat \<Rightarrow> 'a \<Rightarrow> 'a list res" where
  "upd xs i v = (if i < length xs then Ok (xs[i := v]) else Panic ''index out of range'')"

definition subslice :: "'a list \<Rightarrow> nat \<Rightarrow> nat \<Rightarrow> 'a list res" where
  "subslice xs a b =
     (if a \<le> b \<and> b \<le> length xs then Ok (take (b - a) (drop a xs))
      else Panic ''slice bounds out of range'')"

text \<open>Writing a view back into the backing array it was sliced from.\<close>

definition splice :: "'a list \<Rightarrow> nat \<Rightarrow> 'a list \<Rightarrow> 'a list" where
  "splice xs a ys = take a xs @ ys @ drop (a + length ys) xs"

lemma idx_Ok [simp, res_simps]: "i < length xs \<Longrightarrow> idx xs i = Ok (xs ! i)"
  by (simp add: idx_def)

lemma idx_Ok_iff: "idx xs i = Ok v \<longleftrightarrow> i < length xs \<and> v = xs ! i"
  by (auto simp: idx_def)

lemma upd_Ok [simp, res_simps]: "i < length xs \<Longrightarrow> upd xs i v = Ok (xs[i := v])"
  by (simp add: upd_def)

lemma subslice_Ok [simp, res_simps]:
  "a \<le> b \<Longrightarrow> b \<le> length xs \<Longrightarrow> subslice xs a b = Ok (take (b - a) (drop a xs))"
  by (simp add: subslice_def)

lemma length_splice [simp]: "a + length ys \<le> length xs \<Longrightarrow> length (splice xs a ys) = length xs"
  by (simp add: splice_def)

lemma nth_splice:
  "a + length ys \<le> length xs \<Longrightarrow> i < length xs \<Longrightarrow>
   splice xs a ys ! i = (if a \<le> i \<and> i < a + length ys then ys ! (i - a) else xs ! i)"
  by (auto simp: splice_def nth_append)

text \<open>A window that the write misses is unchanged; the written window is the new value.\<close>

lemma window_splice_other:
  assumes "a + length ys \<le> length xs" and "c + n \<le> length xs" and "c + n \<le> a \<or> a + length ys \<le> c"
  shows "take n (drop c (splice xs a ys)) = take n (drop c xs)"
  using assms by (intro nth_equalityI) (auto simp: nth_splice)

lemma window_splice_same:
  "a + length ys \<le> length xs \<Longrightarrow> take (length ys) (drop a (splice xs a ys)) = ys"
  by (intro nth_equalityI) (auto simp: nth_splice)

section \<open>Bitmaps over 64-bit words\<close>

definition word_count :: "nat \<Rightarrow> nat" where
  "word_count rows = (rows + 63) div 64"

definition wbit :: "u64 list \<Rightarrow> nat \<Rightarrow> bool" where
  "wbit ws row \<longleftrightarrow> row div 64 < length ws \<and> bit (ws ! (row div 64)) (row mod 64)"

definition row_bit :: "nat \<Rightarrow> u64" where
  "row_bit row = push_bit (row mod 64) 1"

lemma word_count_iff: "w < word_count rows \<longleftrightarrow> 64 * w < rows"
  by (auto simp: word_count_def)

lemma row_word_lt [simp]: "row < rows \<Longrightarrow> row div 64 < word_count rows"
  by (simp add: word_count_def)

lemma word_count_0 [simp]: "word_count 0 = 0"
  by (simp add: word_count_def)

lemma word_count_eq_0_iff [simp]: "word_count rows = 0 \<longleftrightarrow> rows = 0"
  by (auto simp: word_count_def)

lemma bit_row_bit [simp]: "bit (row_bit row) n \<longleftrightarrow> n = row mod 64"
  by (auto simp: row_bit_def bit_exp_iff)

lemma bit_low_mask: "bit ((2 :: u64) ^ r - 1) n \<longleftrightarrow> n < r \<and> n < 64"
proof -
  have "(2 :: u64) ^ r - 1 = mask r"
    by (simp add: mask_eq_exp_minus_1)
  then show ?thesis by (auto simp: bit_mask_iff)
qed

lemma and_row_bit_eq_0: "w AND row_bit row = 0 \<longleftrightarrow> \<not> bit w (row mod 64)"
proof
  assume "w AND row_bit row = 0"
  then have "\<not> bit (w AND row_bit row) (row mod 64)" by simp
  then show "\<not> bit w (row mod 64)" by (simp add: bit_and_iff)
next
  assume "\<not> bit w (row mod 64)"
  then show "w AND row_bit row = 0"
    by (intro bit_eqI) (auto simp: bit_and_iff)
qed

lemma wbit_nth [wbit_simps]:
  "row < rows \<Longrightarrow> length ws = word_count rows \<Longrightarrow> wbit ws row = bit (ws ! (row div 64)) (row mod 64)"
  by (simp add: wbit_def)

lemma wbit_Nil [simp]: "\<not> wbit [] row"
  by (simp add: wbit_def)

lemma wbit_replicate_0 [simp]: "\<not> wbit (replicate n 0) row"
  by (auto simp: wbit_def)

lemma wbit_map_upt:
  "wbit (map f [0..<n]) row \<longleftrightarrow> row div 64 < n \<and> bit (f (row div 64)) (row mod 64)"
  by (auto simp: wbit_def)

lemma wbit_list_update_or:
  "row div 64 < length ws \<Longrightarrow>
   wbit (ws[row div 64 := ws ! (row div 64) OR row_bit row]) r \<longleftrightarrow> wbit ws r \<or> r = row"
proof -
  assume l: "row div 64 < length ws"
  have "r = row \<longleftrightarrow> r div 64 = row div 64 \<and> r mod 64 = row mod 64"
    by (metis div_mult_mod_eq)
  with l show ?thesis
    by (auto simp: wbit_def bit_or_iff nth_list_update)
qed

text \<open>Two bitmaps of the same width agree once every row of the padded width agrees.\<close>

lemma bitmap_eqI:
  assumes "length xs = length ys"
    and "\<And>row. row < 64 * length ys \<Longrightarrow> wbit xs row = wbit ys row"
  shows "xs = ys"
proof (rule nth_equalityI)
  show "length xs = length ys" by (rule assms)
next
  fix i assume "i < length xs"
  then have i: "i < length ys" using assms(1) by simp
  show "xs ! i = ys ! i"
  proof (rule bit_eqI)
    fix n assume "possible_bit TYPE(64 word) n"
    then have n: "n < 64" by simp
    have "64 * i + n < 64 * length ys" using i n by linarith
    moreover have "(64 * i + n) div 64 = i" "(64 * i + n) mod 64 = n" using n by auto
    ultimately show "bit (xs ! i) n = bit (ys ! i) n"
      using assms(2)[of "64 * i + n"] i assms(1) by (simp add: wbit_def)
  qed
qed

text \<open>
  The loop \<^verbatim>\<open>for r := a; r < b; r++ { if P(r) { w |= 1 << (r & 63) } }\<close> over one word, and the
  bitmap of a row predicate: the normal form that every bitmap of the evaluator is compared with.
\<close>

definition or_rows :: "(nat \<Rightarrow> bool) \<Rightarrow> nat list \<Rightarrow> u64 \<Rightarrow> u64" where
  "or_rows P rs w = fold (\<lambda>r w. if P r then w OR row_bit r else w) rs w"

definition mk_bitmap :: "nat \<Rightarrow> (nat \<Rightarrow> bool) \<Rightarrow> u64 list" where
  "mk_bitmap rows P =
     map (\<lambda>w. or_rows P [64 * w..<min (64 * w + 64) rows] 0) [0..<word_count rows]"

lemma bit_or_rows: "bit (or_rows P rs w) n \<longleftrightarrow> bit w n \<or> (\<exists>r \<in> set rs. P r \<and> n = r mod 64)"
  by (induction rs arbitrary: w) (auto simp: or_rows_def bit_or_iff)

lemma length_mk_bitmap [simp]: "length (mk_bitmap rows P) = word_count rows"
  by (simp add: mk_bitmap_def)

lemma bit_or_rows_word:
  assumes "n < 64"
  shows "bit (or_rows P [64 * w..<min (64 * w + 64) rows] 0) n \<longleftrightarrow>
     64 * w + n < rows \<and> P (64 * w + n)"
proof -
  have "(\<exists>r \<in> {64 * w..<min (64 * w + 64) rows}. P r \<and> n = r mod 64) \<longleftrightarrow>
      64 * w + n < rows \<and> P (64 * w + n)" (is "?L = ?R")
  proof
    assume ?L
    then obtain r where r: "64 * w \<le> r" "r < 64 * w + 64" "r < rows" "P r" "n = r mod 64" by auto
    from r(1) obtain m where m: "r = 64 * w + m" using le_Suc_ex by blast
    have "m < 64" using r(2) unfolding m by linarith
    then have "n = m" using r(5) unfolding m by simp
    with r(3,4) m show ?R by metis
  next
    assume R: ?R
    have "64 * w + n \<in> {64 * w..<min (64 * w + 64) rows}" using R assms by simp
    moreover have "n = (64 * w + n) mod 64" using assms by simp
    ultimately show ?L using R by blast
  qed
  then show ?thesis by (simp add: bit_or_rows)
qed

lemma wbit_mk_bitmap [simp]: "wbit (mk_bitmap rows P) row \<longleftrightarrow> row < rows \<and> P row"
proof -
  have "wbit (mk_bitmap rows P) row \<longleftrightarrow> row div 64 < word_count rows \<and>
      64 * (row div 64) + row mod 64 < rows \<and> P (64 * (row div 64) + row mod 64)"
    unfolding mk_bitmap_def wbit_map_upt by (simp add: bit_or_rows_word)
  then show ?thesis by auto
qed

lemma eq_mk_bitmapI:
  assumes "length ws = word_count rows" and "\<And>row. wbit ws row \<longleftrightarrow> row < rows \<and> P row"
  shows "ws = mk_bitmap rows P"
  using assms by (intro bitmap_eqI) simp_all

lemma mk_bitmap_cong:
  assumes "\<And>row. row < rows \<Longrightarrow> P row \<longleftrightarrow> Q row"
  shows "mk_bitmap rows P = mk_bitmap rows Q"
proof (rule eq_mk_bitmapI)
  show "length (mk_bitmap rows P) = word_count rows" by simp
  show "wbit (mk_bitmap rows P) row \<longleftrightarrow> row < rows \<and> Q row" for row
    unfolding wbit_mk_bitmap using assms by blast
qed

text \<open>\<^verbatim>\<open>dst[row>>6] |= 1 << (row & 63)\<close>, alone and in a loop over rows.\<close>

definition set_row :: "u64 list \<Rightarrow> nat \<Rightarrow> u64 list" where
  "set_row ws row = ws[row div 64 := ws ! (row div 64) OR row_bit row]"

definition set_rows :: "(nat \<Rightarrow> bool) \<Rightarrow> nat list \<Rightarrow> u64 list \<Rightarrow> u64 list" where
  "set_rows P rs ws = fold (\<lambda>row ws. if P row then set_row ws row else ws) rs ws"

lemma length_set_row [simp]: "length (set_row ws row) = length ws"
  by (simp add: set_row_def)

lemma length_set_rows [simp]: "length (set_rows P rs ws) = length ws"
  by (induction rs arbitrary: ws) (auto simp: set_rows_def)

lemma wbit_set_row:
  "row div 64 < length ws \<Longrightarrow> wbit (set_row ws row) r \<longleftrightarrow> wbit ws r \<or> r = row"
  by (simp add: set_row_def wbit_list_update_or)

lemma wbit_set_rows:
  "(\<And>r. r \<in> set rs \<Longrightarrow> P r \<Longrightarrow> r div 64 < length ws) \<Longrightarrow>
   wbit (set_rows P rs ws) x \<longleftrightarrow> wbit ws x \<or> (x \<in> set rs \<and> P x)"
proof (induction rs arbitrary: ws)
  case Nil
  then show ?case by (simp add: set_rows_def)
next
  case (Cons r rs)
  let ?ws = "if P r then set_row ws r else ws"
  have e: "set_rows P (r # rs) ws = set_rows P rs ?ws" by (simp add: set_rows_def)
  have l: "length ?ws = length ws" by simp
  have "wbit (set_rows P rs ?ws) x \<longleftrightarrow> wbit ?ws x \<or> (x \<in> set rs \<and> P x)"
    using Cons.prems l by (intro Cons.IH) (metis list.set_intros(2))
  moreover have "wbit ?ws x \<longleftrightarrow> wbit ws x \<or> (P r \<and> x = r)"
    using Cons.prems wbit_set_row by simp
  ultimately show ?case unfolding e by auto
qed

lemma wbit_set_rows_upt:
  assumes "length ws = word_count rows"
  shows "wbit (set_rows P [0..<rows] ws) x \<longleftrightarrow> wbit ws x \<or> (x < rows \<and> P x)"
proof -
  have "wbit (set_rows P [0..<rows] ws) x \<longleftrightarrow> wbit ws x \<or> (x \<in> set [0..<rows] \<and> P x)"
    by (rule wbit_set_rows) (simp add: assms)
  then show ?thesis by simp
qed

lemma set_rows_bitmap: "set_rows P [0..<rows] (replicate (word_count rows) 0) = mk_bitmap rows P"
  by (rule eq_mk_bitmapI) (simp_all add: wbit_set_rows_upt)

text \<open>The mask of the valid rows of one word, \<^verbatim>\<open>(1 << (rows & 63)) - 1\<close> in the last word.\<close>

definition valid_bits :: "nat \<Rightarrow> nat \<Rightarrow> u64" where
  "valid_bits rows w = (if w + 1 \<noteq> word_count rows \<or> rows mod 64 = 0 then NOT 0
     else push_bit (rows mod 64) 1 - 1)"

lemma word_count_add:
  assumes "r < 64"
  shows "word_count (64 * q + r) = (if r = 0 then q else q + 1)"
proof (cases r)
  case 0
  have "word_count (64 * q + r) = (63 + 64 * q) div 64" by (simp add: word_count_def 0 add.commute)
  then show ?thesis using 0 by simp
next
  case (Suc k)
  have "word_count (64 * q + r) = (k + 64 * (q + 1)) div 64"
    by (simp add: word_count_def Suc algebra_simps)
  then show ?thesis using Suc assms by simp
qed

lemma rows_split: obtains q r :: nat where "rows = 64 * q + r" "r < 64"
proof (rule that)
  show "rows = 64 * (rows div 64) + rows mod 64" by simp
  show "rows mod 64 < 64" by simp
qed

lemma bit_valid_bits:
  assumes "w < word_count rows" "n < 64"
  shows "bit (valid_bits rows w) n \<longleftrightarrow> 64 * w + n < rows"
proof -
  obtain q r where r: "rows = 64 * q + r" "r < 64" by (rule rows_split)
  have m: "rows mod 64 = r" using r by simp
  have wc: "word_count rows = (if r = 0 then q else q + 1)" using word_count_add r by simp
  show ?thesis
  proof (cases "w + 1 \<noteq> word_count rows \<or> r = 0")
    case True
    then have "w + 1 \<le> q" using assms(1) wc by (cases "r = 0") simp_all
    then have "64 * w + n < rows" using assms(2) r(1) by linarith
    with True assms m show ?thesis by (simp add: valid_bits_def bit_not_iff)
  next
    case False
    then have "bit (valid_bits rows w) n \<longleftrightarrow> n < r"
      using assms m by (simp add: valid_bits_def bit_low_mask)
    moreover have "w = q" using False wc by (auto split: if_splits)
    ultimately show ?thesis using r(1) by simp
  qed
qed

text \<open>Bitmaps of row predicates are closed under the word-wise operations and under row updates.\<close>

lemma bit_mk_bitmap:
  assumes "w < word_count rows" "n < 64"
  shows "bit (mk_bitmap rows P ! w) n \<longleftrightarrow> 64 * w + n < rows \<and> P (64 * w + n)"
  using assms by (simp add: mk_bitmap_def bit_or_rows_word)

lemma mk_bitmap_wordwise:
  assumes "\<And>a b n. n < 64 \<Longrightarrow> bit (f a b) n \<longleftrightarrow> g (bit a n) (bit b n)" and "\<not> g False False"
  shows "map (\<lambda>w. f (mk_bitmap rows P ! w) (mk_bitmap rows Q ! w)) [0..<word_count rows] =
    mk_bitmap rows (\<lambda>r. g (P r) (Q r))"
proof (rule eq_mk_bitmapI)
  show "wbit (map (\<lambda>w. f (mk_bitmap rows P ! w) (mk_bitmap rows Q ! w)) [0..<word_count rows]) row
      \<longleftrightarrow> row < rows \<and> g (P row) (Q row)" for row
    unfolding wbit_map_upt using assms
    by (cases "row < rows"; cases "row div 64 < word_count rows") (auto simp: bit_mk_bitmap)
qed simp

lemma mk_bitmap_and:
  "map (\<lambda>w. mk_bitmap rows P ! w AND mk_bitmap rows Q ! w) [0..<word_count rows] =
   mk_bitmap rows (\<lambda>r. P r \<and> Q r)"
  by (rule mk_bitmap_wordwise) (auto simp: bit_and_iff)

lemma mk_bitmap_or:
  "map (\<lambda>w. mk_bitmap rows P ! w OR mk_bitmap rows Q ! w) [0..<word_count rows] =
   mk_bitmap rows (\<lambda>r. P r \<or> Q r)"
  by (rule mk_bitmap_wordwise) (auto simp: bit_or_iff)

lemma mk_bitmap_andnot:
  "map (\<lambda>w. mk_bitmap rows P ! w AND NOT (mk_bitmap rows Q ! w)) [0..<word_count rows] =
   mk_bitmap rows (\<lambda>r. P r \<and> \<not> Q r)"
  by (rule mk_bitmap_wordwise) (auto simp: bit_and_iff bit_not_iff)

lemma set_row_mk_bitmap:
  "r < rows \<Longrightarrow> set_row (mk_bitmap rows P) r = mk_bitmap rows (\<lambda>x. P x \<or> x = r)"
  by (rule eq_mk_bitmapI) (auto simp: wbit_set_row)

lemma clear_row_mk_bitmap:
  assumes "r < rows"
  shows "(mk_bitmap rows P)[r div 64 := mk_bitmap rows P ! (r div 64) AND NOT (row_bit r)] =
    mk_bitmap rows (\<lambda>x. P x \<and> x \<noteq> r)"
proof (rule eq_mk_bitmapI)
  fix row
  have e: "row = r \<longleftrightarrow> row div 64 = r div 64 \<and> row mod 64 = r mod 64" by (metis div_mult_mod_eq)
  have "wbit ((mk_bitmap rows P)[r div 64 := mk_bitmap rows P ! (r div 64) AND NOT (row_bit r)]) row \<longleftrightarrow>
      wbit (mk_bitmap rows P) row \<and> row \<noteq> r"
    using assms unfolding e by (auto simp: wbit_def nth_list_update bit_and_iff bit_not_iff)
  then show "wbit ((mk_bitmap rows P)[r div 64 := mk_bitmap rows P ! (r div 64) AND NOT (row_bit r)]) row
      \<longleftrightarrow> row < rows \<and> P row \<and> row \<noteq> r" by auto
qed simp

lemma mk_bitmap_all: "map (valid_bits rows) [0..<word_count rows] = mk_bitmap rows (\<lambda>_. True)"
proof (rule eq_mk_bitmapI)
  show "wbit (map (valid_bits rows) [0..<word_count rows]) row \<longleftrightarrow> row < rows \<and> True" for row
    unfolding wbit_map_upt by (auto simp: bit_valid_bits)
qed simp

lemma mk_bitmap_zero_iff: "mk_bitmap rows P = replicate (word_count rows) 0 \<longleftrightarrow> (\<forall>r < rows. \<not> P r)"
proof
  assume e: "mk_bitmap rows P = replicate (word_count rows) 0"
  have "\<not> wbit (mk_bitmap rows P) r" for r unfolding e by simp
  then show "\<forall>r < rows. \<not> P r" by simp
next
  assume "\<forall>r < rows. \<not> P r"
  then show "mk_bitmap rows P = replicate (word_count rows) 0"
    by (intro eq_mk_bitmapI[symmetric]) auto
qed

text \<open>
  A slab of fixed-width bitmaps, laid out one block after the other: \<^verbatim>\<open>slab[b*words : (b+1)*words]\<close>.
\<close>

definition block :: "'a list \<Rightarrow> nat \<Rightarrow> nat \<Rightarrow> 'a list" where
  "block ms words b = take words (drop (b * words) ms)"

lemma block_bound: "b < nb \<Longrightarrow> b * words + words \<le> nb * (words::nat)"
  by (metis Suc_leI add.commute mult_Suc mult_le_mono1)

lemma block_index_eq: "w < words \<Longrightarrow> w' < words \<Longrightarrow> b * words + w = b' * words + w' \<longleftrightarrow> b = b' \<and> w = (w'::nat)"
  by (metis add.commute div_mult_self1 div_less less_nat_zero_code mod_less mod_mult_self1 add_0)

lemma length_block [simp]: "length ms = nb * words \<Longrightarrow> b < nb \<Longrightarrow> length (block ms words b) = words"
  using block_bound[of b nb words] by (simp add: block_def)

lemma nth_block: "length ms = nb * words \<Longrightarrow> b < nb \<Longrightarrow> w < words \<Longrightarrow> block ms words b ! w = ms ! (b * words + w)"
  using block_bound[of b nb words] by (simp add: block_def)

lemma block_index_bound: "b < nb \<Longrightarrow> w < words \<Longrightarrow> b * words + w < nb * (words::nat)"
  using block_bound[of b nb words] by linarith

lemma block_subslice:
  "length ms = nb * words \<Longrightarrow> b < nb \<Longrightarrow> subslice ms (b * words) ((b + 1) * words) = Ok (block ms words b)"
  using block_bound[of b nb words] by (simp add: block_def add.commute)

lemma block_update:
  assumes "length ms = nb * words" "b < nb" "b' < nb" "w < words"
  shows "block (ms[b * words + w := x]) words b' =
    (if b' = b then (block ms words b)[w := x] else block ms words b')"
proof (rule nth_equalityI)
  show "length (block (ms[b * words + w := x]) words b') =
      length (if b' = b then (block ms words b)[w := x] else block ms words b')"
    using assms by simp
next
  fix i assume "i < length (block (ms[b * words + w := x]) words b')"
  then have i: "i < words" using assms by simp
  have "block (ms[b * words + w := x]) words b' ! i = (ms[b * words + w := x]) ! (b' * words + i)"
    using assms i by (intro nth_block) auto
  also have "\<dots> = (if b' * words + i = b * words + w then x else ms ! (b' * words + i))"
    using assms block_index_bound[OF assms(2,4)] by (auto simp: nth_list_update)
  also have "\<dots> = (if b' = b then (block ms words b)[w := x] else block ms words b') ! i"
    using assms i block_index_eq[OF i assms(4), of b' b] by (auto simp: nth_list_update nth_block[OF assms(1)])
  finally show "block (ms[b * words + w := x]) words b' ! i = \<dots>" .
qed

lemma block_splice:
  assumes "length ms = nb * words" "b < nb" "b' < nb" "length ys = words"
  shows "block (splice ms (b * words) ys) words b' = (if b' = b then ys else block ms words b')"
proof (cases "b' = b")
  case True
  then show ?thesis
    using assms block_bound[OF assms(2), of words] window_splice_same[of "b * words" ys ms]
    by (simp add: block_def)
next
  case False
  then have "b' * words + words \<le> b * words \<or> b * words + length ys \<le> b' * words"
    using block_bound[of b' b words] block_bound[of b b' words] assms(4) by (metis nat_neq_iff)
  then show ?thesis
    using False assms block_bound[OF assms(2), of words] block_bound[OF assms(3), of words]
      window_splice_other[of "b * words" ys ms "b' * words" words]
    by (simp add: block_def)
qed

lemma block_concat_replicate: "b < nb \<Longrightarrow> block (concat (replicate nb xs)) (length xs) b = xs"
proof (induction nb arbitrary: b)
  case 0
  then show ?case by simp
next
  case (Suc nb)
  then show ?case by (cases b) (auto simp: block_def)
qed

lemma block_replicate: "b < nb \<Longrightarrow> block (replicate (nb * words) x) words b = replicate words x"
  using block_bound[of b nb words] by (simp add: block_def min_absorb1)

section \<open>Compressed rows\<close>

text \<open>
  A CSR table: the lists \<open>g k\<close> for \<open>k \<in> ks\<close> stored one after the other, with their starts.
\<close>

definition csr_start :: "('k \<Rightarrow> 'v list) \<Rightarrow> 'k list \<Rightarrow> nat \<Rightarrow> nat" where
  "csr_start g ks b = length (concat (map g (take b ks)))"

lemma csr_start_Suc: "b < length ks \<Longrightarrow> csr_start g ks (Suc b) = csr_start g ks b + length (g (ks ! b))"
  by (simp add: csr_start_def take_Suc_conv_app_nth)

lemma csr_split:
  assumes "b < length ks"
  shows "concat (map g ks) = concat (map g (take b ks)) @ g (ks ! b) @ concat (map g (drop (Suc b) ks))"
  by (metis (no_types) assms concat.simps(2) concat_append id_take_nth_drop list.simps(9) map_append)

lemma csr_range:
  assumes "b < length ks"
  shows "take (length (g (ks ! b))) (drop (csr_start g ks b) (concat (map g ks))) = g (ks ! b)"
    and "csr_start g ks b + length (g (ks ! b)) \<le> length (concat (map g ks))"
  unfolding csr_split[OF assms] csr_start_def by simp_all

lemma csr_start_last: "csr_start g ks (length ks) = length (concat (map g ks))"
  by (simp add: csr_start_def)

lemma csr_start_mono: "b \<le> b' \<Longrightarrow> csr_start g ks b \<le> csr_start g ks b'"
proof -
  assume "b \<le> b'"
  then have "take b' ks = take b ks @ take (b' - b) (drop b ks)" by (metis le_add_diff_inverse take_add)
  then show ?thesis by (simp add: csr_start_def)
qed

lemma csr_unique:
  assumes "b < length ks" "b' < length ks"
    and "csr_start g ks b \<le> v" "v < csr_start g ks b + length (g (ks ! b))"
    and "csr_start g ks b' \<le> v" "v < csr_start g ks b' + length (g (ks ! b'))"
  shows "b = b'"
proof (rule ccontr)
  assume "b \<noteq> b'"
  then consider "Suc b \<le> b'" | "Suc b' \<le> b" by linarith
  then show False
  proof cases
    case 1
    from csr_start_mono[OF this, of g ks] show False using assms csr_start_Suc[of b ks g] by linarith
  next
    case 2
    from csr_start_mono[OF this, of g ks] show False using assms csr_start_Suc[of b' ks g] by linarith
  qed
qed

lemma csr_owner:
  assumes "v < length (concat (map g ks))"
  obtains b where "b < length ks" "csr_start g ks b \<le> v" "v < csr_start g ks b + length (g (ks ! b))"
proof -
  have "\<exists>b < length ks. csr_start g ks b \<le> v \<and> v < csr_start g ks b + length (g (ks ! b))"
    using assms
  proof (induction ks rule: rev_induct)
    case Nil
    then show ?case by simp
  next
    case (snoc k ks)
    show ?case
    proof (cases "v < length (concat (map g ks))")
      case True
      then obtain b where "b < length ks" "csr_start g ks b \<le> v" "v < csr_start g ks b + length (g (ks ! b))"
        using snoc.IH by blast
      then show ?thesis by (intro exI[of _ b]) (simp add: csr_start_def nth_append)
    next
      case False
      then show ?thesis using snoc.prems by (intro exI[of _ "length ks"]) (simp add: csr_start_def)
    qed
  qed
  then show ?thesis using that by blast
qed

section \<open>Binary search\<close>

text \<open>\<^verbatim>\<open>slices.BinarySearch\<close>: the loop keeps \<^verbatim>\<open>x[i-1] < target <= x[j]\<close>.\<close>

function bsearch_loop :: "nat list \<Rightarrow> nat \<Rightarrow> nat \<Rightarrow> nat \<Rightarrow> nat" where
  "bsearch_loop xs t i j =
     (if i < j then
        (let h = (i + j) div 2 in
         if xs ! h < t then bsearch_loop xs t (h + 1) j else bsearch_loop xs t i h)
      else i)"
  by pat_completeness auto
termination
  by (relation "measure (\<lambda>(xs, t, i, j). j - i)") auto

declare bsearch_loop.simps [simp del]

definition binary_search :: "nat list \<Rightarrow> nat \<Rightarrow> nat \<times> bool" where
  "binary_search xs t =
     (let i = bsearch_loop xs t 0 (length xs) in (i, i < length xs \<and> xs ! i = t))"

lemma bsearch_loop_spec:
  assumes "sorted xs" "i \<le> j" "j \<le> length xs"
    and "\<forall>k < i. xs ! k < t" and "\<forall>k. j \<le> k \<and> k < length xs \<longrightarrow> t \<le> xs ! k"
  shows "bsearch_loop xs t i j \<le> length xs \<and> (\<forall>k < bsearch_loop xs t i j. xs ! k < t) \<and>
     (\<forall>k. bsearch_loop xs t i j \<le> k \<and> k < length xs \<longrightarrow> t \<le> xs ! k)"
  using assms
proof (induction xs t i j rule: bsearch_loop.induct)
  case (1 xs t i j)
  let ?h = "(i + j) div 2"
  show ?case
  proof (cases "i < j")
    case False
    then have "bsearch_loop xs t i j = i" by (subst bsearch_loop.simps) simp
    with False "1.prems" show ?thesis by auto
  next
    case True
    then have h: "i \<le> ?h" "?h < j" "?h < length xs" using "1.prems"(3) by auto
    show ?thesis
    proof (cases "xs ! ?h < t")
      case lt: True
      have "\<forall>k < ?h + 1. xs ! k < t"
        using lt h "1.prems"(1) by (metis Suc_eq_plus1 less_Suc_eq_le order.strict_trans1 sorted_iff_nth_mono)
      then have "bsearch_loop xs t (?h + 1) j \<le> length xs \<and>
          (\<forall>k < bsearch_loop xs t (?h + 1) j. xs ! k < t) \<and>
          (\<forall>k. bsearch_loop xs t (?h + 1) j \<le> k \<and> k < length xs \<longrightarrow> t \<le> xs ! k)"
        using True lt h "1.prems" by (intro "1.IH"(1)) auto
      moreover have "bsearch_loop xs t i j = bsearch_loop xs t (?h + 1) j"
        using True lt by (subst bsearch_loop.simps) (simp add: Let_def)
      ultimately show ?thesis by simp
    next
      case ge: False
      have "\<forall>k. ?h \<le> k \<and> k < length xs \<longrightarrow> t \<le> xs ! k"
        using ge "1.prems"(1) by (meson le_trans not_le sorted_iff_nth_mono)
      then have "bsearch_loop xs t i ?h \<le> length xs \<and>
          (\<forall>k < bsearch_loop xs t i ?h. xs ! k < t) \<and>
          (\<forall>k. bsearch_loop xs t i ?h \<le> k \<and> k < length xs \<longrightarrow> t \<le> xs ! k)"
        using True ge h "1.prems" by (intro "1.IH"(2)) auto
      moreover have "bsearch_loop xs t i j = bsearch_loop xs t i ?h"
        using True ge by (subst bsearch_loop.simps) (simp add: Let_def)
      ultimately show ?thesis by simp
    qed
  qed
qed

lemma binary_search_found:
  assumes "sorted xs" and "binary_search xs t = (i, True)"
  shows "i < length xs" and "xs ! i = t"
  using assms by (auto simp: binary_search_def Let_def)

lemma binary_search_iff:
  assumes "sorted xs"
  shows "snd (binary_search xs t) \<longleftrightarrow> t \<in> set xs"
proof
  assume "snd (binary_search xs t)"
  then show "t \<in> set xs" by (auto simp: binary_search_def Let_def in_set_conv_nth)
next
  assume "t \<in> set xs"
  then obtain k where k: "k < length xs" "xs ! k = t" by (auto simp: in_set_conv_nth)
  let ?i = "bsearch_loop xs t 0 (length xs)"
  have s: "\<forall>k < ?i. xs ! k < t" "\<forall>k. ?i \<le> k \<and> k < length xs \<longrightarrow> t \<le> xs ! k"
    using bsearch_loop_spec[OF assms, of 0 "length xs" t] by auto
  have "?i \<le> k" using s(1) k by (metis less_irrefl not_le)
  then have "?i < length xs" "xs ! ?i \<le> t" "t \<le> xs ! ?i"
    using k s(2) assms by (auto simp: sorted_iff_nth_mono)
  then show "snd (binary_search xs t)" by (simp add: binary_search_def Let_def)
qed

lemma binary_search_distinct:
  assumes "sorted xs" "distinct xs" "k < length xs"
  shows "binary_search xs (xs ! k) = (k, True)"
proof -
  obtain i f where r: "binary_search xs (xs ! k) = (i, f)" by (cases "binary_search xs (xs ! k)")
  have "f" using binary_search_iff[OF assms(1), of "xs ! k"] r assms(3) by simp
  with r have "binary_search xs (xs ! k) = (i, True)" by simp
  from binary_search_found[OF assms(1) this] assms(2,3) have "i = k"
    by (simp add: nth_eq_iff_index_eq)
  with r \<open>f\<close> show ?thesis by simp
qed

end
