(* ===== verification/NR_Truth.thy ===== *)
theory NR_Truth
  imports NR_Prelude
begin

text \<open>
  The package \<^verbatim>\<open>internal/truth\<close>: four-valued truth as two bit-planes, and reason masks.

  \<open>planes\<close> is the struct \<^verbatim>\<open>Planes\<close>; \<open>truth_Set\<close>, \<open>truth_Not\<close>, \<open>truth_And\<close> and \<open>truth_Or\<close>
  are the batch operations. Each takes the destination first, as the code does, checks every
  operand's shape before it writes, and returns the new value of the destination; the code
  allows a destination to be a source as a whole, and its word-by-word loop then reads each
  word before it writes it, so the new value depends only on the sources' old values.
  The abstract specification is the lattice of pairs (positive, negative): \<open>tv_not\<close>, \<open>tv_and\<close>,
  \<open>tv_or\<close> on one row. The locale \<open>plane_binop\<close> is the contract of a binary plane operation;
  the evaluator's group reduction relies on it only.
\<close>

section \<open>Four-valued truth of one row\<close>

type_synonym tv = "bool \<times> bool"

fun tv_not :: "tv \<Rightarrow> tv" where "tv_not (p, n) = (n, p)"
fun tv_and :: "tv \<Rightarrow> tv \<Rightarrow> tv" where "tv_and (p, n) (p', n') = (p \<and> p', n \<or> n')"
fun tv_or :: "tv \<Rightarrow> tv \<Rightarrow> tv" where "tv_or (p, n) (p', n') = (p \<or> p', n \<and> n')"

definition tv_resolved :: "tv \<Rightarrow> bool" where
  "tv_resolved v \<longleftrightarrow> fst v \<noteq> snd v"

section \<open>Planes\<close>

record planes =
  pl_Positive :: "u64 list"
  pl_Negative :: "u64 list"

definition notWord :: "u64 \<Rightarrow> u64 \<Rightarrow> u64 \<times> u64" where
  "notWord positive negative = (negative, positive)"

definition andWord :: "u64 \<Rightarrow> u64 \<Rightarrow> u64 \<Rightarrow> u64 \<Rightarrow> u64 \<times> u64" where
  "andWord lPositive lNegative rPositive rNegative =
     (lPositive AND rPositive, lNegative OR rNegative)"

definition orWord :: "u64 \<Rightarrow> u64 \<Rightarrow> u64 \<Rightarrow> u64 \<Rightarrow> u64 \<times> u64" where
  "orWord lPositive lNegative rPositive rNegative =
     (lPositive OR rPositive, lNegative AND rNegative)"

definition has_shape :: "nat \<Rightarrow> planes \<Rightarrow> bool" where
  "has_shape words pl \<longleftrightarrow> length (pl_Positive pl) = words \<and> length (pl_Negative pl) = words"

definition requireShape :: "planes \<Rightarrow> nat \<Rightarrow> unit res" where
  "requireShape pl words =
     (if length (pl_Positive pl) \<noteq> words \<or> length (pl_Negative pl) \<noteq> words
      then Panic ''truth: plane length does not match row count'' else Ok ())"

definition maskTail :: "planes \<Rightarrow> nat \<Rightarrow> planes res" where
  "maskTail dst rows =
     (let remaining = rows mod 64 in
      if remaining = 0 then Ok dst
      else
        (let last = length (pl_Positive dst) - 1; mask = push_bit remaining 1 - 1 in
         rbind (idx (pl_Positive dst) last) (\<lambda>p.
         rbind (idx (pl_Negative dst) last) (\<lambda>n.
         Ok (dst\<lparr>pl_Positive := (pl_Positive dst)[last := p AND mask],
                 pl_Negative := (pl_Negative dst)[last := n AND mask]\<rparr>)))))"

definition truth_Set :: "planes \<Rightarrow> bool \<Rightarrow> nat \<Rightarrow> planes res" where
  "truth_Set dst v rows =
     (let words = word_count rows in
      rbind (requireShape dst words) (\<lambda>_.
      let (positive, negative) = (if v then (NOT 0, 0) else (0, NOT 0)) in
      maskTail \<lparr>pl_Positive = replicate words positive, pl_Negative = replicate words negative\<rparr> rows))"

definition truth_Not :: "planes \<Rightarrow> planes \<Rightarrow> nat \<Rightarrow> planes res" where
  "truth_Not dst src rows =
     (let words = word_count rows in
      rbind (requireShape dst words) (\<lambda>_.
      rbind (requireShape src words) (\<lambda>_.
      let out = map (\<lambda>i. notWord (pl_Positive src ! i) (pl_Negative src ! i)) [0..<words] in
      maskTail \<lparr>pl_Positive = map fst out, pl_Negative = map snd out\<rparr> rows)))"

definition plane_word_op ::
  "(u64 \<Rightarrow> u64 \<Rightarrow> u64 \<Rightarrow> u64 \<Rightarrow> u64 \<times> u64) \<Rightarrow> planes \<Rightarrow> planes \<Rightarrow> planes \<Rightarrow> nat \<Rightarrow> planes res" where
  "plane_word_op f dst left right rows =
     (let words = word_count rows in
      rbind (requireShape dst words) (\<lambda>_.
      rbind (requireShape left words) (\<lambda>_.
      rbind (requireShape right words) (\<lambda>_.
      let out = map (\<lambda>i. f (pl_Positive left ! i) (pl_Negative left ! i)
                         (pl_Positive right ! i) (pl_Negative right ! i)) [0..<words] in
      maskTail \<lparr>pl_Positive = map fst out, pl_Negative = map snd out\<rparr> rows))))"

definition truth_And :: "planes \<Rightarrow> planes \<Rightarrow> planes \<Rightarrow> nat \<Rightarrow> planes res" where
  "truth_And = plane_word_op andWord"

definition truth_Or :: "planes \<Rightarrow> planes \<Rightarrow> planes \<Rightarrow> nat \<Rightarrow> planes res" where
  "truth_Or = plane_word_op orWord"

section \<open>Rows of planes\<close>

definition truth_at :: "planes \<Rightarrow> nat \<Rightarrow> tv" where
  "truth_at pl row = (wbit (pl_Positive pl) row, wbit (pl_Negative pl) row)"

definition mk_planes :: "nat \<Rightarrow> (nat \<Rightarrow> tv) \<Rightarrow> planes" where
  "mk_planes rows g =
     \<lparr>pl_Positive = mk_bitmap rows (\<lambda>r. fst (g r)), pl_Negative = mk_bitmap rows (\<lambda>r. snd (g r))\<rparr>"

text \<open>Canonical planes have the shape of the batch and no bit set beyond the last row.\<close>

definition planes_canon :: "nat \<Rightarrow> planes \<Rightarrow> bool" where
  "planes_canon rows pl \<longleftrightarrow> has_shape (word_count rows) pl \<and>
     (\<forall>row \<ge> rows. \<not> wbit (pl_Positive pl) row \<and> \<not> wbit (pl_Negative pl) row)"

lemma truth_at_mk_planes [simp]: "row < rows \<Longrightarrow> truth_at (mk_planes rows g) row = g row"
  by (simp add: truth_at_def mk_planes_def)

lemma mk_planes_shape [simp]: "has_shape (word_count rows) (mk_planes rows g)"
  by (simp add: has_shape_def mk_planes_def)

lemma mk_planes_canon [simp]: "planes_canon rows (mk_planes rows g)"
  by (simp add: planes_canon_def mk_planes_def has_shape_def)

lemma mk_planes_cong: "(\<And>row. row < rows \<Longrightarrow> g row = h row) \<Longrightarrow> mk_planes rows g = mk_planes rows h"
  unfolding mk_planes_def by (auto intro!: mk_bitmap_cong)

lemma planes_canon_eq: "planes_canon rows pl \<Longrightarrow> pl = mk_planes rows (truth_at pl)"
  by (cases pl)
    (auto simp: planes_canon_def mk_planes_def has_shape_def truth_at_def not_le intro!: eq_mk_bitmapI
      dest: leI)

lemma requireShape_Ok [simp, res_simps]: "has_shape words pl \<Longrightarrow> requireShape pl words = Ok ()"
  by (simp add: requireShape_def has_shape_def)

lemma requireShape_Panic:
  "\<not> has_shape words pl \<Longrightarrow>
   requireShape pl words = Panic ''truth: plane length does not match row count''"
  by (auto simp: requireShape_def has_shape_def)

text \<open>Masking the last word of a bitmap clears exactly the rows beyond the batch.\<close>

lemma wbit_mask_last:
  assumes "length ws = word_count rows" "rows mod 64 \<noteq> 0"
  shows "wbit (ws[length ws - 1 := ws ! (length ws - 1) AND (push_bit (rows mod 64) 1 - 1)]) row
     \<longleftrightarrow> row < rows \<and> wbit ws row"
proof -
  obtain q r where r: "rows = 64 * q + r" "r < 64" by (rule rows_split)
  obtain q' r' where r': "row = 64 * q' + r'" "r' < 64" by (rule rows_split)
  have m: "rows mod 64 = r" "row mod 64 = r'" "row div 64 = q'" using r r' by simp_all
  then have "r \<noteq> 0" using assms(2) by simp
  then have wc: "word_count rows = q + 1" using r word_count_add by simp
  show ?thesis
  proof (cases "q' = q")
    case True
    then show ?thesis using assms m wc r r' by (auto simp: wbit_def bit_and_iff bit_low_mask)
  next
    case False
    then have "q' < q + 1 \<longrightarrow> row < rows" using r r' by linarith
    with False show ?thesis using assms m wc by (auto simp: wbit_def nth_list_update)
  qed
qed

lemma mask_last_bitmap:
  assumes "length ws = word_count rows" "rows mod 64 \<noteq> 0"
    and "\<And>row. row < rows \<Longrightarrow> wbit ws row = P row"
  shows "ws[length ws - 1 := ws ! (length ws - 1) AND (push_bit (rows mod 64) 1 - 1)] = mk_bitmap rows P"
proof (rule eq_mk_bitmapI)
  show "length (ws[length ws - 1 := ws ! (length ws - 1) AND (push_bit (rows mod 64) 1 - 1)]) = word_count rows"
    using assms(1) by simp
  show "wbit (ws[length ws - 1 := ws ! (length ws - 1) AND (push_bit (rows mod 64) 1 - 1)]) row
      \<longleftrightarrow> row < rows \<and> P row" for row
    unfolding wbit_mask_last[OF assms(1,2)] using assms(3) by blast
qed

lemma maskTail_rows:
  assumes "has_shape (word_count rows) pl"
    and "\<And>row. row < rows \<Longrightarrow> truth_at pl row = g row"
  shows "maskTail pl rows = Ok (mk_planes rows g)"
proof (cases "rows mod 64 = 0")
  case True
  have "64 * word_count rows = rows"
    using True rows_split[of rows] by (metis add.right_neutral mod_less mod_mult_self4 word_count_add)
  then have "row \<ge> rows \<Longrightarrow> \<not> row div 64 < word_count rows" for row
    by (metis div_le_mono div_mult_self1_is_m not_le zero_less_numeral)
  then have "planes_canon rows pl"
    using assms(1) by (auto simp: planes_canon_def wbit_def has_shape_def)
  then have "pl = mk_planes rows (truth_at pl)" by (rule planes_canon_eq)
  also have "\<dots> = mk_planes rows g" using assms(2) by (rule mk_planes_cong)
  finally show ?thesis using True by (simp add: maskTail_def)
next
  case False
  let ?m = "push_bit (rows mod 64) 1 - 1 :: u64"
  let ?P = "pl_Positive pl" and ?N = "pl_Negative pl"
  have len: "length ?P = word_count rows" "length ?N = word_count rows"
    using assms(1) by (simp_all add: has_shape_def)
  have pos: "word_count rows > 0" using False by (metis gr0I mod_0 word_count_eq_0_iff)
  have g: "row < rows \<Longrightarrow> fst (g row) = wbit ?P row \<and> snd (g row) = wbit ?N row" for row
    by (simp add: assms(2)[symmetric] truth_at_def)
  have P: "?P[length ?P - 1 := ?P ! (length ?P - 1) AND ?m] = mk_bitmap rows (\<lambda>r. fst (g r))"
    using len(1) False g by (intro mask_last_bitmap) simp_all
  have N: "?N[length ?N - 1 := ?N ! (length ?N - 1) AND ?m] = mk_bitmap rows (\<lambda>r. snd (g r))"
    using len(2) False g by (intro mask_last_bitmap) simp_all
  show ?thesis
    using False P N len pos by (simp add: maskTail_def Let_def mk_planes_def)
qed

lemma truth_at_map_words:
  assumes "row < rows"
  shows "truth_at \<lparr>pl_Positive = map f [0..<word_count rows], pl_Negative = map h [0..<word_count rows]\<rparr> row
    = (bit (f (row div 64)) (row mod 64), bit (h (row div 64)) (row mod 64))"
  using assms by (simp add: truth_at_def wbit_map_upt)

lemma truth_at_nth:
  "row < rows \<Longrightarrow> has_shape (word_count rows) pl \<Longrightarrow>
   truth_at pl row = (bit (pl_Positive pl ! (row div 64)) (row mod 64),
                      bit (pl_Negative pl ! (row div 64)) (row mod 64))"
  by (simp add: truth_at_def wbit_def has_shape_def)

lemma has_shape_map_words [simp]:
  "has_shape n \<lparr>pl_Positive = map f [0..<n], pl_Negative = map h [0..<n]\<rparr>"
  by (simp add: has_shape_def)

lemma truth_Set_rows:
  assumes "has_shape (word_count rows) dst"
  shows "truth_Set dst v rows = Ok (mk_planes rows (\<lambda>_. (v, \<not> v)))"
proof -
  have "maskTail \<lparr>pl_Positive = replicate (word_count rows) (if v then NOT 0 else 0),
      pl_Negative = replicate (word_count rows) (if v then 0 else NOT 0)\<rparr> rows
    = Ok (mk_planes rows (\<lambda>_. (v, \<not> v)))"
    by (rule maskTail_rows) (auto simp: has_shape_def truth_at_def wbit_def bit_not_iff)
  then show ?thesis using assms by (cases v) (simp_all add: truth_Set_def)
qed

lemma truth_Not_rows:
  assumes "has_shape (word_count rows) dst" "has_shape (word_count rows) src"
  shows "truth_Not dst src rows = Ok (mk_planes rows (\<lambda>row. tv_not (truth_at src row)))"
proof -
  have "maskTail \<lparr>pl_Positive = map (\<lambda>i. pl_Negative src ! i) [0..<word_count rows],
      pl_Negative = map (\<lambda>i. pl_Positive src ! i) [0..<word_count rows]\<rparr> rows
    = Ok (mk_planes rows (\<lambda>row. tv_not (truth_at src row)))"
    using assms(2) by (intro maskTail_rows) (simp_all add: truth_at_map_words truth_at_nth)
  then show ?thesis using assms by (simp add: truth_Not_def notWord_def Let_def comp_def)
qed

section \<open>The contract of a binary plane operation\<close>

text \<open>
  A binary plane operation that computes \<open>f\<close> on every row, whatever the destination held, and
  leaves canonical planes. Group reduction folds such an operation over the operands' planes.
\<close>

locale plane_binop =
  fixes bop :: "planes \<Rightarrow> planes \<Rightarrow> planes \<Rightarrow> nat \<Rightarrow> planes res"
    and f :: "tv \<Rightarrow> tv \<Rightarrow> tv"
  assumes bop_rows:
    "has_shape (word_count rows) dst \<Longrightarrow> has_shape (word_count rows) l \<Longrightarrow>
     has_shape (word_count rows) r \<Longrightarrow>
     bop dst l r rows = Ok (mk_planes rows (\<lambda>row. f (truth_at l row) (truth_at r row)))"
begin

lemma fold_rows:
  assumes "has_shape (word_count rows) acc"
    and "\<And>x. x \<in> set xs \<Longrightarrow> has_shape (word_count rows) (src x)"
  shows "\<exists>out. res_foldM (\<lambda>x acc. bop acc acc (src x) rows) xs acc = Ok out \<and>
     has_shape (word_count rows) out \<and>
     (\<forall>row < rows. truth_at out row = fold (\<lambda>x v. f v (truth_at (src x) row)) xs (truth_at acc row)) \<and>
     (xs \<noteq> [] \<longrightarrow> planes_canon rows out)"
  using assms
proof (induction xs arbitrary: acc)
  case Nil
  then show ?case by simp
next
  case (Cons x xs)
  let ?a = "mk_planes rows (\<lambda>row. f (truth_at acc row) (truth_at (src x) row))"
  have b: "bop acc acc (src x) rows = Ok ?a"
    using Cons.prems by (intro bop_rows) simp_all
  have "\<exists>out. res_foldM (\<lambda>x acc. bop acc acc (src x) rows) xs ?a = Ok out \<and>
     has_shape (word_count rows) out \<and>
     (\<forall>row < rows. truth_at out row = fold (\<lambda>x v. f v (truth_at (src x) row)) xs (truth_at ?a row)) \<and>
     (xs \<noteq> [] \<longrightarrow> planes_canon rows out)"
    using Cons.prems by (intro Cons.IH) simp_all
  then show ?case using b by (cases "xs = []") auto
qed

lemma bop_canon: "has_shape (word_count rows) dst \<Longrightarrow> has_shape (word_count rows) l \<Longrightarrow>
   has_shape (word_count rows) r \<Longrightarrow> bop dst l r rows = Ok out \<Longrightarrow> planes_canon rows out"
  using bop_rows by auto

end

lemma plane_word_op_rows:
  assumes f: "\<And>a b c d n. n < 64 \<Longrightarrow>
      (bit (fst (f a b c d)) n, bit (snd (f a b c d)) n) = g (bit a n, bit b n) (bit c n, bit d n)"
    and s: "has_shape (word_count rows) dst" "has_shape (word_count rows) l"
      "has_shape (word_count rows) r"
  shows "plane_word_op f dst l r rows = Ok (mk_planes rows (\<lambda>row. g (truth_at l row) (truth_at r row)))"
proof -
  let ?out = "\<lambda>i. f (pl_Positive l ! i) (pl_Negative l ! i) (pl_Positive r ! i) (pl_Negative r ! i)"
  have "maskTail \<lparr>pl_Positive = map (\<lambda>i. fst (?out i)) [0..<word_count rows],
      pl_Negative = map (\<lambda>i. snd (?out i)) [0..<word_count rows]\<rparr> rows
    = Ok (mk_planes rows (\<lambda>row. g (truth_at l row) (truth_at r row)))"
    using s f by (intro maskTail_rows) (simp_all add: truth_at_map_words truth_at_nth)
  then show ?thesis using s by (simp add: plane_word_op_def Let_def comp_def)
qed

interpretation truthAnd: plane_binop truth_And tv_and
  by unfold_locales
    (simp add: truth_And_def plane_word_op_rows andWord_def bit_and_iff bit_or_iff)

interpretation truthOr: plane_binop truth_Or tv_or
  by unfold_locales
    (simp add: truth_Or_def plane_word_op_rows orWord_def bit_and_iff bit_or_iff)

text \<open>A malformed operand is refused before any word is written.\<close>

lemma plane_word_op_shape:
  "\<not> (has_shape (word_count rows) dst \<and> has_shape (word_count rows) l \<and> has_shape (word_count rows) r) \<Longrightarrow>
   plane_word_op f dst l r rows = Panic ''truth: plane length does not match row count''"
  by (cases "has_shape (word_count rows) dst"; cases "has_shape (word_count rows) l")
    (auto simp: plane_word_op_def Let_def requireShape_Panic)

section \<open>Reason masks\<close>

abbreviation ReasonCount :: nat where "ReasonCount \<equiv> 9"
abbreviation ReasonMissing :: nat where "ReasonMissing \<equiv> 1"
abbreviation ReasonStale :: nat where "ReasonStale \<equiv> 2"
abbreviation ReasonUnclear :: nat where "ReasonUnclear \<equiv> 3"
abbreviation ReasonUnverifiable :: nat where "ReasonUnverifiable \<equiv> 4"
abbreviation ReasonWrongScope :: nat where "ReasonWrongScope \<equiv> 5"
abbreviation ReasonWrongSubject :: nat where "ReasonWrongSubject \<equiv> 6"
abbreviation ReasonWrongTiming :: nat where "ReasonWrongTiming \<equiv> 7"
abbreviation ReasonInvalid :: nat where "ReasonInvalid \<equiv> 8"
abbreviation ReasonConflict :: nat where "ReasonConflict \<equiv> 9"

definition AllReasonsMask :: u16 where "AllReasonsMask = push_bit ReasonCount 1 - 1"

definition ReasonBit :: "nat \<Rightarrow> u16" where
  "ReasonBit reason =
     (if reason < ReasonMissing \<or> reason > ReasonConflict then 0 else push_bit (reason - 1) 1)"

definition mask_With :: "u16 \<Rightarrow> nat \<Rightarrow> u16" where
  "mask_With m reason = m OR ReasonBit reason"

definition mask_Has :: "u16 \<Rightarrow> nat \<Rightarrow> bool" where
  "mask_Has m reason = (let b = ReasonBit reason in b \<noteq> 0 \<and> m AND b \<noteq> 0)"

definition mask_Valid :: "u16 \<Rightarrow> bool" where
  "mask_Valid m \<longleftrightarrow> m AND NOT AllReasonsMask = 0"

definition is_reason :: "nat \<Rightarrow> bool" where
  "is_reason reason \<longleftrightarrow> ReasonMissing \<le> reason \<and> reason \<le> ReasonConflict"

lemma bit_ReasonBit: "bit (ReasonBit reason) n \<longleftrightarrow> is_reason reason \<and> n = reason - 1"
  by (auto simp: ReasonBit_def is_reason_def bit_exp_iff)

lemma mask_Has_iff: "mask_Has m reason \<longleftrightarrow> is_reason reason \<and> bit m (reason - 1)"
proof (cases "is_reason reason")
  case True
  have "m AND ReasonBit reason = 0 \<longleftrightarrow> \<not> bit m (reason - 1)"
  proof
    assume "m AND ReasonBit reason = 0"
    then have "\<not> bit (m AND ReasonBit reason) (reason - 1)" by simp
    then show "\<not> bit m (reason - 1)" using True by (simp add: bit_and_iff bit_ReasonBit)
  next
    assume "\<not> bit m (reason - 1)"
    then show "m AND ReasonBit reason = 0"
      by (intro bit_eqI) (auto simp: bit_and_iff bit_ReasonBit)
  qed
  moreover have "bit (ReasonBit reason) (reason - 1)" using True by (simp add: bit_ReasonBit)
  then have "ReasonBit reason \<noteq> 0" by auto
  ultimately show ?thesis using True by (simp add: mask_Has_def Let_def)
next
  case False
  then show ?thesis by (auto simp: mask_Has_def ReasonBit_def is_reason_def Let_def)
qed

lemma mask_Has_With [simp]:
  "mask_Has (mask_With m r) s \<longleftrightarrow> mask_Has m s \<or> (is_reason s \<and> s = r)"
  by (auto simp: mask_Has_iff mask_With_def bit_or_iff bit_ReasonBit is_reason_def)

lemma mask_Has_or [simp]: "mask_Has (a OR b) s \<longleftrightarrow> mask_Has a s \<or> mask_Has b s"
  by (auto simp: mask_Has_iff bit_or_iff)

lemma mask_Has_0 [simp]: "\<not> mask_Has 0 s"
  by (simp add: mask_Has_iff)

lemma bit_AllReasonsMask: "bit AllReasonsMask n \<longleftrightarrow> n < 9"
proof -
  have "AllReasonsMask = mask 9" by (simp add: AllReasonsMask_def mask_eq_exp_minus_1)
  then have "bit AllReasonsMask n = bit (mask 9 :: u16) n" by (simp only:)
  then show ?thesis by (auto simp: bit_mask_iff)
qed

lemma mask_Valid_iff: "mask_Valid m \<longleftrightarrow> (\<forall>n. bit m n \<longrightarrow> n < 9)"
proof
  assume "mask_Valid m"
  then have "\<not> bit (m AND NOT AllReasonsMask) n" for n by (simp add: mask_Valid_def)
  then show "\<forall>n. bit m n \<longrightarrow> n < 9"
    using bit_imp_le_length[of m] by (auto simp: bit_and_iff bit_not_iff bit_AllReasonsMask)
next
  assume "\<forall>n. bit m n \<longrightarrow> n < 9"
  then show "mask_Valid m"
    unfolding mask_Valid_def by (intro bit_eqI) (auto simp: bit_and_iff bit_not_iff bit_AllReasonsMask)
qed

lemma mask_Valid_0 [simp]: "mask_Valid 0"
  by (simp add: mask_Valid_iff)

lemma mask_Valid_or [simp]: "mask_Valid (a OR b) \<longleftrightarrow> mask_Valid a \<and> mask_Valid b"
  by (auto simp: mask_Valid_iff bit_or_iff)

lemma mask_Valid_ReasonBit [simp]: "mask_Valid (ReasonBit r)"
  by (auto simp: mask_Valid_iff bit_ReasonBit is_reason_def)

lemma mask_Valid_With [simp]: "mask_Valid (mask_With m r) \<longleftrightarrow> mask_Valid m"
  by (simp add: mask_With_def)

text \<open>A valid mask is the set of its reasons.\<close>

lemma mask_ext:
  assumes "mask_Valid a" "mask_Valid b" "\<And>s. is_reason s \<Longrightarrow> mask_Has a s = mask_Has b s"
  shows "a = b"
proof (rule bit_eqI)
  fix n assume "possible_bit TYPE(16 word) n"
  show "bit a n = bit b n"
  proof (cases "n < 9")
    case True
    then have "is_reason (n + 1)" by (simp add: is_reason_def)
    then show ?thesis using assms(3)[of "n + 1"] by (simp add: mask_Has_iff)
  next
    case False
    then show ?thesis using assms(1,2) by (auto simp: mask_Valid_iff)
  qed
qed

lemma mask_nonzero_iff: "mask_Valid m \<Longrightarrow> m \<noteq> 0 \<longleftrightarrow> (\<exists>s. mask_Has m s)"
  using mask_ext[of m 0] by auto

section \<open>Properties\<close>

text \<open>C25: the plane operations compute four-valued negation, conjunction and disjunction on every
  row of the batch, whatever the destination held before, and leave every bit beyond the last row
  clear; \<^verbatim>\<open>Set\<close> makes every row definitely true or definitely false.\<close>

theorem plane_operations_rowwise:
  assumes "has_shape (word_count rows) dst" "has_shape (word_count rows) l" "has_shape (word_count rows) r"
  shows "truth_And dst l r rows = Ok (mk_planes rows (\<lambda>row. tv_and (truth_at l row) (truth_at r row))) \<and>
    truth_Or dst l r rows = Ok (mk_planes rows (\<lambda>row. tv_or (truth_at l row) (truth_at r row))) \<and>
    truth_Not dst l rows = Ok (mk_planes rows (\<lambda>row. tv_not (truth_at l row))) \<and>
    truth_Set dst v rows = Ok (mk_planes rows (\<lambda>_. (v, \<not> v)))"
  using assms by (simp add: truthAnd.bop_rows truthOr.bop_rows truth_Not_rows truth_Set_rows)

theorem plane_operations_rowwise_witness:
  "truth_And \<lparr>pl_Positive = [0, 0], pl_Negative = [7, 7]\<rparr> (mk_planes 70 (\<lambda>r. (r < 66, False)))
     (mk_planes 70 (\<lambda>r. (r = 65, True))) 70
   = Ok (mk_planes 70 (\<lambda>row. tv_and (truth_at (mk_planes 70 (\<lambda>r. (r < 66, False))) row)
                                  (truth_at (mk_planes 70 (\<lambda>r. (r = 65, True))) row)))"
proof -
  have "has_shape (word_count 70) \<lparr>pl_Positive = [0, 0], pl_Negative = [7, 7]\<rparr>"
    by (simp add: has_shape_def word_count_def)
  from plane_operations_rowwise[OF this mk_planes_shape mk_planes_shape] show ?thesis by blast
qed

end
