(* ===== verification/NR_Result.thy ===== *)
theory NR_Result
  imports NR_Truth
begin

text \<open>
  The package \<^verbatim>\<open>internal/result\<close>: the outcome, remediation and resolution tables, the resolver,
  and the columns of a result batch.

  \<open>better\<close> is the policy's preference between outcomes (higher precedence, then lower
  identifier); the locale \<open>preference\<close> is the interface a selection loop relies on, and both
  selection loops of the program (\<^verbatim>\<open>Resolver.Resolve\<close> over reasons, the executor over clauses)
  are instances of its \<open>pick_best\<close>.
\<close>

section \<open>Outcome table\<close>

record outcome_table =
  ot_Names :: "nat list"
  ot_Precedence :: "nat list"
  ot_Terminal :: "bool list"

record outcome =
  oc_Name :: nat
  oc_Precedence :: nat
  oc_Terminal :: bool

definition outcome_index :: "outcome_table \<Rightarrow> nat \<Rightarrow> nat option" where
  "outcome_index t oid =
     (if oid = 0 then None
      else let i = oid - 1 in
        if i \<ge> length (ot_Names t) \<or> i \<ge> length (ot_Precedence t) \<or> i \<ge> length (ot_Terminal t)
        then None else Some i)"

definition Outcome_Lookup :: "outcome_table \<Rightarrow> nat \<Rightarrow> outcome option" where
  "Outcome_Lookup t oid =
     (case outcome_index t oid of None \<Rightarrow> None
      | Some i \<Rightarrow> Some \<lparr>oc_Name = ot_Names t ! i, oc_Precedence = ot_Precedence t ! i,
                       oc_Terminal = ot_Terminal t ! i\<rparr>)"

definition preferKnown :: "outcome_table \<Rightarrow> nat \<Rightarrow> nat \<Rightarrow> nat res" where
  "preferKnown t current candidate =
     (if current = 0 then Ok candidate
      else if candidate = 0 then Ok current
      else rbind (idx (ot_Precedence t) (current - 1)) (\<lambda>cur.
           rbind (idx (ot_Precedence t) (candidate - 1)) (\<lambda>cand.
           if cand > cur \<or> (cand = cur \<and> candidate < current) then Ok candidate else Ok current)))"

definition Prefer :: "outcome_table \<Rightarrow> nat \<Rightarrow> nat \<Rightarrow> nat option res" where
  "Prefer t current candidate =
     (if current = 0 then
        (if candidate = 0 then Ok (Some 0)
         else case outcome_index t candidate of None \<Rightarrow> Ok None | Some _ \<Rightarrow> Ok (Some candidate))
      else case outcome_index t current of None \<Rightarrow> Ok None
        | Some _ \<Rightarrow>
          (if candidate = 0 then Ok (Some current)
           else case outcome_index t candidate of None \<Rightarrow> Ok None
             | Some _ \<Rightarrow> rbind (preferKnown t current candidate) (\<lambda>w. Ok (Some w))))"

definition outcomes_valid :: "outcome_table \<Rightarrow> bool" where
  "outcomes_valid t =
     (let n = length (ot_Names t) in
      \<not> (n = 0 \<or> length (ot_Precedence t) \<noteq> n \<or> length (ot_Terminal t) \<noteq> n) \<and>
      list_all (\<lambda>name. name \<noteq> 0) (ot_Names t))"

section \<open>Preference between outcomes\<close>

definition prec :: "outcome_table \<Rightarrow> nat \<Rightarrow> nat" where
  "prec t oid = ot_Precedence t ! (oid - 1)"

definition better :: "outcome_table \<Rightarrow> nat \<Rightarrow> nat \<Rightarrow> bool" where
  "better t a b \<longleftrightarrow> prec t a > prec t b \<or> (prec t a = prec t b \<and> a < b)"

text \<open>A selection loop keeps the current choice unless the next one is strictly better.\<close>

fun pick_step :: "('k \<Rightarrow> 'k \<Rightarrow> bool) \<Rightarrow> 'k \<times> 'p \<Rightarrow> ('k \<times> 'p) option \<Rightarrow> ('k \<times> 'p) option" where
  "pick_step bt x None = Some x"
| "pick_step bt x (Some y) = (if bt (fst x) (fst y) then Some x else Some y)"

definition pick_best :: "('k \<Rightarrow> 'k \<Rightarrow> bool) \<Rightarrow> ('k \<times> 'p) list \<Rightarrow> ('k \<times> 'p) option" where
  "pick_best bt xs = fold (pick_step bt) xs None"

locale preference =
  fixes bt :: "'k \<Rightarrow> 'k \<Rightarrow> bool"
  assumes bt_irrefl: "\<not> bt a a"
    and bt_trans: "bt a b \<Longrightarrow> bt b c \<Longrightarrow> bt a c"
    and bt_total: "a \<noteq> b \<Longrightarrow> bt a b \<or> bt b a"
begin

lemma pick_fold_spec:
  "\<exists>z. fold (pick_step bt) xs (Some y) = Some z \<and>
     (z = y \<or> (\<exists>ys zs. xs = ys @ z # zs \<and> (\<forall>w \<in> insert y (set ys). bt (fst z) (fst w)))) \<and>
     (\<forall>w \<in> insert y (set xs). \<not> bt (fst w) (fst z))"
proof (induction xs arbitrary: y)
  case Nil
  then show ?case by (simp add: bt_irrefl)
next
  case (Cons x xs)
  show ?case
  proof (cases "bt (fst x) (fst y)")
    case True
    from Cons.IH[of x] obtain z where z: "fold (pick_step bt) xs (Some x) = Some z"
      "z = x \<or> (\<exists>ys zs. xs = ys @ z # zs \<and> (\<forall>w \<in> insert x (set ys). bt (fst z) (fst w)))"
      "\<forall>w \<in> insert x (set xs). \<not> bt (fst w) (fst z)" by blast
    have zy: "bt (fst z) (fst y)" using z(2) True bt_trans by blast
    then have "\<not> bt (fst y) (fst z)" using bt_trans bt_irrefl by blast
    moreover have "\<exists>ys zs. x # xs = ys @ z # zs \<and> (\<forall>w \<in> insert y (set ys). bt (fst z) (fst w))"
      using z(2)
    proof
      assume "z = x"
      then show ?thesis using True by (intro exI[of _ "[]"] exI[of _ xs]) simp
    next
      assume "\<exists>ys zs. xs = ys @ z # zs \<and> (\<forall>w \<in> insert x (set ys). bt (fst z) (fst w))"
      then obtain ys zs where "xs = ys @ z # zs" "\<forall>w \<in> insert x (set ys). bt (fst z) (fst w)" by blast
      then show ?thesis using zy by (intro exI[of _ "x # ys"] exI[of _ zs]) simp
    qed
    ultimately show ?thesis using z True by auto
  next
    case False
    from Cons.IH[of y] obtain z where z: "fold (pick_step bt) xs (Some y) = Some z"
      "z = y \<or> (\<exists>ys zs. xs = ys @ z # zs \<and> (\<forall>w \<in> insert y (set ys). bt (fst z) (fst w)))"
      "\<forall>w \<in> insert y (set xs). \<not> bt (fst w) (fst z)" by blast
    have xz: "\<not> bt (fst x) (fst z)" using z(2,3) False bt_trans bt_total
      by (metis insertCI)
    show ?thesis
    proof (cases "z = y")
      case True
      then show ?thesis using z xz False by auto
    next
      case neq: False
      then obtain ys zs where s: "xs = ys @ z # zs" "\<forall>w \<in> insert y (set ys). bt (fst z) (fst w)"
        using z(2) by blast
      have "bt (fst z) (fst x)" using s(2) False bt_total bt_trans by (metis insertI1)
      then have "\<exists>ys zs. x # xs = ys @ z # zs \<and> (\<forall>w \<in> insert y (set ys). bt (fst z) (fst w))"
        using s by (intro exI[of _ "x # ys"] exI[of _ zs]) simp
      then show ?thesis using z xz False by auto
    qed
  qed
qed

lemma pick_best_Some:
  assumes "pick_best bt xs = Some z"
  shows "z \<in> set xs" and "\<forall>w \<in> set xs. \<not> bt (fst w) (fst z)"
    and "\<exists>ys zs. xs = ys @ z # zs \<and> (\<forall>w \<in> set ys. bt (fst z) (fst w))"
proof -
  obtain x xs' where xs: "xs = x # xs'" using assms by (cases xs) (auto simp: pick_best_def)
  then have f: "fold (pick_step bt) xs' (Some x) = Some z" using assms by (simp add: pick_best_def)
  from pick_fold_spec[of xs' x] f have z:
    "z = x \<or> (\<exists>ys zs. xs' = ys @ z # zs \<and> (\<forall>w \<in> insert x (set ys). bt (fst z) (fst w)))"
    "\<forall>w \<in> insert x (set xs'). \<not> bt (fst w) (fst z)" by auto
  show s: "\<exists>ys zs. xs = ys @ z # zs \<and> (\<forall>w \<in> set ys. bt (fst z) (fst w))"
    using z(1)
  proof
    assume "z = x"
    then show ?thesis using xs by (intro exI[of _ "[]"] exI[of _ xs']) simp
  next
    assume "\<exists>ys zs. xs' = ys @ z # zs \<and> (\<forall>w \<in> insert x (set ys). bt (fst z) (fst w))"
    then obtain ys zs where "xs' = ys @ z # zs" "\<forall>w \<in> insert x (set ys). bt (fst z) (fst w)" by blast
    then show ?thesis using xs by (intro exI[of _ "x # ys"] exI[of _ zs]) simp
  qed
  then show "z \<in> set xs" by auto
  show "\<forall>w \<in> set xs. \<not> bt (fst w) (fst z)" using z(2) xs by simp
qed

lemma pick_best_None_iff: "pick_best bt xs = None \<longleftrightarrow> xs = []"
proof (cases xs)
  case Nil
  then show ?thesis by (simp add: pick_best_def)
next
  case (Cons x xs')
  then show ?thesis using pick_fold_spec[of xs' x] by (auto simp: pick_best_def)
qed

end

interpretation outcome_pref: preference "better t" for t
  by unfold_locales (auto simp: better_def)

lemma outcome_index_Some_iff:
  "outcome_index t oid = Some i \<longleftrightarrow> oid \<noteq> 0 \<and> i = oid - 1 \<and> i < length (ot_Names t) \<and>
     i < length (ot_Precedence t) \<and> i < length (ot_Terminal t)"
  by (auto simp: outcome_index_def Let_def)

lemma Outcome_Lookup_Some:
  "Outcome_Lookup t oid = Some oc \<Longrightarrow> oid \<noteq> 0 \<and> oid - 1 < length (ot_Precedence t) \<and>
     oid - 1 < length (ot_Terminal t) \<and> oc_Precedence oc = prec t oid \<and> oc_Terminal oc = ot_Terminal t ! (oid - 1)"
  by (auto simp: Outcome_Lookup_def outcome_index_def prec_def Let_def split: option.splits if_splits)

lemma outcome_index_Lookup: "(\<exists>i. outcome_index t oid = Some i) \<longleftrightarrow> (\<exists>oc. Outcome_Lookup t oid = Some oc)"
  by (auto simp: Outcome_Lookup_def split: option.splits)

lemma preferKnown_valid:
  "a - 1 < length (ot_Precedence t) \<Longrightarrow> b - 1 < length (ot_Precedence t) \<Longrightarrow> a \<noteq> 0 \<Longrightarrow> b \<noteq> 0 \<Longrightarrow>
   preferKnown t a b = Ok (if better t b a then b else a)"
  by (auto simp: preferKnown_def better_def prec_def)

lemma Prefer_valid:
  "Outcome_Lookup t a = Some x \<Longrightarrow> Outcome_Lookup t b = Some y \<Longrightarrow>
   Prefer t a b = Ok (Some (if better t b a then b else a))"
  by (auto simp: Prefer_def Outcome_Lookup_def outcome_index_Some_iff preferKnown_valid split: option.splits)

lemma Prefer_absent: "Outcome_Lookup t b = Some y \<Longrightarrow> Prefer t 0 b = Ok (Some b)"
  by (auto simp: Prefer_def Outcome_Lookup_def split: option.splits)

section \<open>Remediation table\<close>

datatype remediation_kind = RemediationInvalid | RemediationSetField | RemediationAddEvidence
  | RemediationRaw nat

definition remediation_kind_Valid :: "remediation_kind \<Rightarrow> bool" where
  "remediation_kind_Valid k \<longleftrightarrow> k = RemediationSetField \<or> k = RemediationAddEvidence"

record remediation_table =
  rt_Kinds :: "remediation_kind list"
  rt_Fields :: "nat list"
  rt_Values :: "nat list"
  rt_EvidenceKinds :: "nat list"

record remediation =
  rm_Kind :: remediation_kind
  rm_Field :: nat
  rm_Value :: nat
  rm_EvidenceKind :: nat

definition remediation_index :: "remediation_table \<Rightarrow> nat \<Rightarrow> nat option" where
  "remediation_index t rid =
     (if rid = 0 then None
      else let i = rid - 1 in
        if i \<ge> length (rt_Kinds t) \<or> i \<ge> length (rt_Fields t) \<or> i \<ge> length (rt_Values t) \<or>
           i \<ge> length (rt_EvidenceKinds t) then None else Some i)"

definition Remediation_Lookup :: "remediation_table \<Rightarrow> nat \<Rightarrow> remediation option" where
  "Remediation_Lookup t rid =
     (case remediation_index t rid of None \<Rightarrow> None
      | Some i \<Rightarrow> Some \<lparr>rm_Kind = rt_Kinds t ! i, rm_Field = rt_Fields t ! i,
                       rm_Value = rt_Values t ! i, rm_EvidenceKind = rt_EvidenceKinds t ! i\<rparr>)"

definition remediation_row_valid :: "remediation_table \<Rightarrow> nat \<Rightarrow> bool" where
  "remediation_row_valid t i =
     (case rt_Kinds t ! i of
        RemediationSetField \<Rightarrow>
          \<not> (rt_Fields t ! i = 0 \<or> rt_Values t ! i = 0 \<or> rt_EvidenceKinds t ! i \<noteq> 0)
      | RemediationAddEvidence \<Rightarrow>
          \<not> (rt_Fields t ! i \<noteq> 0 \<or> rt_Values t ! i \<noteq> 0 \<or> rt_EvidenceKinds t ! i = 0)
      | _ \<Rightarrow> False)"

definition remediations_valid :: "remediation_table \<Rightarrow> bool" where
  "remediations_valid t =
     (let n = length (rt_Kinds t) in
      \<not> (length (rt_Fields t) \<noteq> n \<or> length (rt_Values t) \<noteq> n \<or> length (rt_EvidenceKinds t) \<noteq> n) \<and>
      list_all (remediation_row_valid t) [0..<n])"

section \<open>Resolution table and resolver\<close>

record resolution_table =
  rs_OutcomeIDs :: "nat list"
  rs_ExplanationIDs :: "nat list"
  rs_RemediationStarts :: "nat list"
  rs_RemediationCounts :: "nat list"
  rs_RemediationIDs :: "nat list"

record resolver =
  rv_outcomes :: outcome_table
  rv_remediations :: remediation_table
  rv_rules :: resolution_table

record resolution =
  rn_Remediations :: "nat list"
  rn_Outcome :: nat
  rn_Explanation :: nat
  rn_Reason :: nat
  rn_Terminal :: bool

definition NewResolver :: "outcome_table \<Rightarrow> remediation_table \<Rightarrow> resolution_table \<Rightarrow> resolver res" where
  "NewResolver outcomes remediations rules =
     (if \<not> outcomes_valid outcomes then Err ErrInvalidOutcomeTable
      else if \<not> remediations_valid remediations then Err ErrInvalidRemediationTable
      else let n = length (rs_OutcomeIDs rules) in
      if n = 0 \<or> length (rs_ExplanationIDs rules) \<noteq> n \<or> length (rs_RemediationStarts rules) \<noteq> n \<or>
         length (rs_RemediationCounts rules) \<noteq> n then Err ErrInvalidResolutionTable
      else if n mod ReasonCount \<noteq> 0 then Err ErrInvalidResolutionTable
      else if \<not> list_all (\<lambda>oid. Outcome_Lookup outcomes oid \<noteq> None) (rs_OutcomeIDs rules)
        then Err ErrInvalidOutcomeReference
      else if \<not> list_all (\<lambda>xid. xid \<noteq> 0) (rs_ExplanationIDs rules) then Err ErrInvalidExplanationReference
      else if \<not> list_all (\<lambda>i. rs_RemediationStarts rules ! i + rs_RemediationCounts rules ! i
                              \<le> length (rs_RemediationIDs rules)) [0..<n]
        then Err ErrInvalidResolutionTable
      else if \<not> list_all (\<lambda>rid. Remediation_Lookup remediations rid \<noteq> None) (rs_RemediationIDs rules)
        then Err ErrInvalidRemediationReference
      else Ok \<lparr>rv_outcomes = outcomes, rv_remediations = remediations, rv_rules = rules\<rparr>)"

text \<open>One iteration of the scan: state is (current outcome, reason, winning row).\<close>

definition resolve_step :: "resolver \<Rightarrow> nat \<Rightarrow> u16 \<Rightarrow> nat \<Rightarrow> nat \<times> nat \<times> nat \<Rightarrow> (nat \<times> nat \<times> nat) res" where
  "resolve_step r base reasons off st =
     (if reasons AND push_bit off 1 = 0 then Ok st
      else case st of (current, reason, winRow) \<Rightarrow>
        let row = base + off in
        rbind (idx (rs_OutcomeIDs (rv_rules r)) row) (\<lambda>oid.
        rbind (preferKnown (rv_outcomes r) current oid) (\<lambda>winner.
        Ok (if winner \<noteq> current then (winner, off + 1, row) else (current, reason, winRow)))))"

definition Resolve :: "resolver \<Rightarrow> nat \<Rightarrow> u16 \<Rightarrow> resolution option res" where
  "Resolve r ruleSet reasons =
     (if \<not> mask_Valid reasons then Panic ''result: invalid reason mask''
      else let blocks = length (rs_OutcomeIDs (rv_rules r)) div ReasonCount in
      if ruleSet = 0 \<or> ruleSet > blocks then Panic ''result: invalid rule set''
      else if reasons = 0 then Ok None
      else let base = (ruleSet - 1) * ReasonCount in
        rbind (res_foldM (resolve_step r base reasons) [0..<ReasonCount] (0, 0, base)) (\<lambda>(current, reason, winRow).
        rbind (idx (rs_RemediationStarts (rv_rules r)) winRow) (\<lambda>start.
        rbind (idx (rs_RemediationCounts (rv_rules r)) winRow) (\<lambda>count.
        rbind (idx (rs_ExplanationIDs (rv_rules r)) winRow) (\<lambda>xid.
        rbind (idx (ot_Terminal (rv_outcomes r)) (current - 1)) (\<lambda>term.
        rbind (subslice (rs_RemediationIDs (rv_rules r)) start (start + count)) (\<lambda>rems.
        Ok (Some \<lparr>rn_Remediations = rems, rn_Outcome = current, rn_Explanation = xid,
                   rn_Reason = reason, rn_Terminal = term\<rparr>))))))))"

definition resolver_ok :: "resolver \<Rightarrow> bool" where
  "resolver_ok r \<longleftrightarrow> NewResolver (rv_outcomes r) (rv_remediations r) (rv_rules r) = Ok r"

lemma NewResolver_ok: "NewResolver o' m r = Ok v \<Longrightarrow> resolver_ok v"
  by (auto simp: NewResolver_def resolver_ok_def Let_def split: if_splits)

lemma resolver_okD:
  assumes "resolver_ok r"
  defines "n \<equiv> length (rs_OutcomeIDs (rv_rules r))"
  shows "length (rs_ExplanationIDs (rv_rules r)) = n" "length (rs_RemediationStarts (rv_rules r)) = n"
    "length (rs_RemediationCounts (rv_rules r)) = n" "n mod ReasonCount = 0"
    "\<And>i. i < n \<Longrightarrow> \<exists>oc. Outcome_Lookup (rv_outcomes r) (rs_OutcomeIDs (rv_rules r) ! i) = Some oc"
    "\<And>i. i < n \<Longrightarrow> rs_RemediationStarts (rv_rules r) ! i + rs_RemediationCounts (rv_rules r) ! i
        \<le> length (rs_RemediationIDs (rv_rules r))"
    "\<And>rid. rid \<in> set (rs_RemediationIDs (rv_rules r)) \<Longrightarrow> Remediation_Lookup (rv_remediations r) rid \<noteq> None"
    "\<And>i. i < n \<Longrightarrow> rs_ExplanationIDs (rv_rules r) ! i \<noteq> 0"
  using assms(1) unfolding resolver_ok_def NewResolver_def n_def
  by (auto simp: Let_def list_all_length in_set_conv_nth split: if_splits)


section \<open>What Resolve selects\<close>

text \<open>The rule rows a reason mask selects, as (outcome, reason offset), in reason order.\<close>

definition rule_choices :: "resolver \<Rightarrow> nat \<Rightarrow> u16 \<Rightarrow> (nat \<times> nat) list" where
  "rule_choices r base reasons =
     map (\<lambda>off. (rs_OutcomeIDs (rv_rules r) ! (base + off), off)) (filter (bit reasons) [0..<ReasonCount])"

definition resolution_row :: "resolver \<Rightarrow> nat \<Rightarrow> nat \<times> nat \<Rightarrow> resolution" where
  "resolution_row r base c =
     (let row = base + snd c; start = rs_RemediationStarts (rv_rules r) ! row in
      \<lparr>rn_Remediations = take (rs_RemediationCounts (rv_rules r) ! row) (drop start (rs_RemediationIDs (rv_rules r))),
       rn_Outcome = fst c, rn_Explanation = rs_ExplanationIDs (rv_rules r) ! row,
       rn_Reason = snd c + 1, rn_Terminal = ot_Terminal (rv_outcomes r) ! (fst c - 1)\<rparr>)"

fun scan_state :: "nat \<Rightarrow> (nat \<times> nat) option \<Rightarrow> nat \<times> nat \<times> nat" where
  "scan_state base None = (0, 0, base)"
| "scan_state base (Some (oid, off)) = (oid, off + 1, base + off)"

lemma resolve_scan:
  assumes "resolver_ok r" "base + ReasonCount \<le> length (rs_OutcomeIDs (rv_rules r))"
    and "\<forall>x \<in> set offs. x < ReasonCount"
    and "case st of None \<Rightarrow> True | Some (k, _) \<Rightarrow> Outcome_Lookup (rv_outcomes r) k \<noteq> None"
  shows "res_foldM (resolve_step r base reasons) offs (scan_state base st) =
     Ok (scan_state base (fold (pick_step (better (rv_outcomes r)))
       (map (\<lambda>off. (rs_OutcomeIDs (rv_rules r) ! (base + off), off)) (filter (bit reasons) offs)) st))"
  using assms(3,4)
proof (induction offs arbitrary: st)
  case Nil
  then show ?case by simp
next
  case (Cons off offs)
  let ?oid = "rs_OutcomeIDs (rv_rules r) ! (base + off)"
  let ?st = "if bit reasons off then pick_step (better (rv_outcomes r)) (?oid, off) st else st"
  have row: "base + off < length (rs_OutcomeIDs (rv_rules r))" using Cons.prems assms(2) by simp
  obtain oc where oc: "Outcome_Lookup (rv_outcomes r) ?oid = Some oc"
    using resolver_okD(5)[OF assms(1) row] by blast
  note v = Outcome_Lookup_Some[OF oc]
  have step: "resolve_step r base reasons off (scan_state base st) = Ok (scan_state base ?st)"
  proof (cases st)
    case None
    then show ?thesis using row v
      by (simp add: resolve_step_def and_exp_eq_0_iff_not_bit preferKnown_def Let_def)
  next
    case (Some p)
    obtain k o' where p: "p = (k, o')" by (cases p)
    obtain kc where "Outcome_Lookup (rv_outcomes r) k = Some kc" using Cons.prems Some p by auto
    note kv = Outcome_Lookup_Some[OF this]
    show ?thesis using row v kv Some p outcome_pref.bt_irrefl[of "rv_outcomes r" k]
      by (auto simp: resolve_step_def and_exp_eq_0_iff_not_bit preferKnown_valid Let_def)
  qed
  have "case ?st of None \<Rightarrow> True | Some (k, _) \<Rightarrow> Outcome_Lookup (rv_outcomes r) k \<noteq> None"
    using Cons.prems(2) oc by (cases st) auto
  then have "res_foldM (resolve_step r base reasons) offs (scan_state base ?st) =
     Ok (scan_state base (fold (pick_step (better (rv_outcomes r)))
       (map (\<lambda>off. (rs_OutcomeIDs (rv_rules r) ! (base + off), off)) (filter (bit reasons) offs)) ?st))"
    using Cons.prems(1) by (intro Cons.IH) simp_all
  then show ?case using step by (cases "bit reasons off") simp_all
qed

lemma Resolve_pick:
  assumes "resolver_ok r" "mask_Valid reasons" "reasons \<noteq> 0"
    and "ruleSet \<noteq> 0" "ruleSet * ReasonCount \<le> length (rs_OutcomeIDs (rv_rules r))"
  defines "base \<equiv> (ruleSet - 1) * ReasonCount"
  shows "\<exists>c. pick_best (better (rv_outcomes r)) (rule_choices r base reasons) = Some c \<and>
     Resolve r ruleSet reasons = Ok (Some (resolution_row r base c))"
proof -
  let ?t = "rv_outcomes r" and ?cs = "rule_choices r base reasons"
  have b: "base + ReasonCount \<le> length (rs_OutcomeIDs (rv_rules r))"
    using assms(4,5) unfolding base_def by (cases ruleSet) simp_all
  obtain off where off: "off < 9" "bit reasons off"
    using assms(2,3) bit_eq_iff[of reasons 0] by (auto simp: mask_Valid_iff)
  then have "?cs \<noteq> []" by (force simp: rule_choices_def filter_empty_conv)
  then obtain k o' where c: "pick_best (better ?t) ?cs = Some (k, o')"
    using outcome_pref.pick_best_None_iff[of ?t ?cs] by fastforce
  have "(k, o') \<in> set ?cs" using outcome_pref.pick_best_Some(1)[OF c] .
  then have o': "o' < 9" "k = rs_OutcomeIDs (rv_rules r) ! (base + o')" by (auto simp: rule_choices_def)
  then have row: "base + o' < length (rs_OutcomeIDs (rv_rules r))" using b by simp
  obtain oc where "Outcome_Lookup ?t k = Some oc" using resolver_okD(5)[OF assms(1) row] o' by blast
  note kv = Outcome_Lookup_Some[OF this]
  have scan: "res_foldM (resolve_step r base reasons) [0..<ReasonCount] (0, 0, base) = Ok (k, o' + 1, base + o')"
    using resolve_scan[OF assms(1) b, of "[0..<ReasonCount]" None reasons] c
    by (simp add: rule_choices_def pick_best_def)
  have blocks: "\<not> (ruleSet = 0 \<or> ruleSet > length (rs_OutcomeIDs (rv_rules r)) div ReasonCount)"
    using assms(4,5) by (simp add: less_eq_div_iff_mult_less_eq not_less)
  note d = resolver_okD[OF assms(1)]
  have "Resolve r ruleSet reasons = Ok (Some (resolution_row r base (k, o')))"
    unfolding Resolve_def Let_def base_def[symmetric]
    using assms(2,3) blocks scan d(1,2,3) d(6)[OF row] row kv by (simp add: resolution_row_def Let_def)
  with c show ?thesis by blast
qed

text \<open>Resolve on invalid input, and on an empty mask.\<close>

lemma Resolve_empty:
  "ruleSet \<noteq> 0 \<Longrightarrow> ruleSet \<le> length (rs_OutcomeIDs (rv_rules r)) div ReasonCount \<Longrightarrow>
   Resolve r ruleSet 0 = Ok None"
  by (simp add: Resolve_def Let_def)

lemma resolution_valid:
  assumes "resolver_ok r" "mask_Valid reasons" "reasons \<noteq> 0"
    and "ruleSet \<noteq> 0" "ruleSet * ReasonCount \<le> length (rs_OutcomeIDs (rv_rules r))"
    and "Resolve r ruleSet reasons = Ok (Some v)"
  shows "Outcome_Lookup (rv_outcomes r) (rn_Outcome v) \<noteq> None"
    and "rn_Explanation v \<noteq> 0" and "mask_Has reasons (rn_Reason v)"
    and "\<forall>rid \<in> set (rn_Remediations v). Remediation_Lookup (rv_remediations r) rid \<noteq> None"
proof -
  let ?base = "(ruleSet - 1) * ReasonCount"
  obtain k off where c: "pick_best (better (rv_outcomes r)) (rule_choices r ?base reasons) = Some (k, off)"
    and v: "v = resolution_row r ?base (k, off)"
    using Resolve_pick[OF assms(1-5)] assms(6) by force
  have "(k, off) \<in> set (rule_choices r ?base reasons)" using outcome_pref.pick_best_Some(1)[OF c] .
  then have o': "off < 9" "bit reasons off" "k = rs_OutcomeIDs (rv_rules r) ! (?base + off)"
    by (auto simp: rule_choices_def)
  have row: "?base + off < length (rs_OutcomeIDs (rv_rules r))"
    using o'(1) assms(4,5) by (cases ruleSet) simp_all
  note d = resolver_okD[OF assms(1)]
  show "Outcome_Lookup (rv_outcomes r) (rn_Outcome v) \<noteq> None"
    using d(5)[OF row] o' v by (auto simp: resolution_row_def Let_def)
  show "rn_Explanation v \<noteq> 0" using d(8)[OF row] v by (simp add: resolution_row_def Let_def)
  show "mask_Has reasons (rn_Reason v)"
    using o' v by (simp add: resolution_row_def Let_def mask_Has_iff is_reason_def)
  show "\<forall>rid \<in> set (rn_Remediations v). Remediation_Lookup (rv_remediations r) rid \<noteq> None"
    using d(7) v by (auto simp: resolution_row_def Let_def dest!: in_set_takeD in_set_dropD)
qed

end
