(* ===== verification/NR_Templates.thy ===== *)
theory NR_Templates
  imports NR_Result
begin

text \<open>
  Explanation templates and explanation rows, \<^verbatim>\<open>internal/result/templates.go\<close> and
  \<^verbatim>\<open>internal/result/explanation_table.go\<close>: the validators that a compiled policy passes before
  publication and the lookups that rely on them.
\<close>

type_synonym byte = "8 word"

section \<open>Template table\<close>

datatype template_op =
    TemplateOpInvalid | TemplateOpLiteral | TemplateOpPolicyName | TemplateOpPolicyVersion
  | TemplateOpRequestID | TemplateOpOutcome | TemplateOpRequirementID | TemplateOpClauseID
  | TemplateOpNodeID | TemplateOpReason | TemplateOpEvidenceKind | TemplateOpEvidenceState
  | TemplateOpRequiredEvidenceState | TemplateOpEvidenceID | TemplateOpRaw nat

fun template_op_num :: "template_op \<Rightarrow> nat" where
  "template_op_num TemplateOpInvalid = 0"
| "template_op_num TemplateOpLiteral = 1"
| "template_op_num TemplateOpPolicyName = 2"
| "template_op_num TemplateOpPolicyVersion = 3"
| "template_op_num TemplateOpRequestID = 4"
| "template_op_num TemplateOpOutcome = 5"
| "template_op_num TemplateOpRequirementID = 6"
| "template_op_num TemplateOpClauseID = 7"
| "template_op_num TemplateOpNodeID = 8"
| "template_op_num TemplateOpReason = 9"
| "template_op_num TemplateOpEvidenceKind = 10"
| "template_op_num TemplateOpEvidenceState = 11"
| "template_op_num TemplateOpRequiredEvidenceState = 12"
| "template_op_num TemplateOpEvidenceID = 13"
| "template_op_num (TemplateOpRaw n) = 14 + n"

definition template_op_Valid :: "template_op \<Rightarrow> bool" where
  "template_op_Valid op \<longleftrightarrow> template_op_num op \<ge> template_op_num TemplateOpLiteral \<and>
     template_op_num op \<le> template_op_num TemplateOpEvidenceID"

abbreviation MaxTemplateOperations :: nat where "MaxTemplateOperations \<equiv> 32"
abbreviation MaxRenderedTemplateBytes :: nat where "MaxRenderedTemplateBytes \<equiv> 1024"
abbreviation MaxAssumptionTemplates :: nat where "MaxAssumptionTemplates \<equiv> 8"
abbreviation MaxUncertaintyTemplates :: nat where "MaxUncertaintyTemplates \<equiv> 8"
abbreviation MaxRenderedExplanationBytes :: nat where "MaxRenderedExplanationBytes \<equiv> 4096"

record template_table =
  tt_LiteralBytes :: "byte list"
  tt_OpStarts :: "nat list"
  tt_OpCounts :: "nat list"
  tt_LiteralStarts :: "nat list"
  tt_MaxBytes :: "nat list"
  tt_Ops :: "template_op list"
  tt_Args :: "nat list"

record template =
  tm_LiteralBytes :: "byte list"
  tm_Ops :: "template_op list"
  tm_Args :: "nat list"
  tm_MaxBytes :: nat

definition empty_templates :: template_table where
  "empty_templates = \<lparr>tt_LiteralBytes = [], tt_OpStarts = [], tt_OpCounts = [], tt_LiteralStarts = [],
     tt_MaxBytes = [], tt_Ops = [], tt_Args = []\<rparr>"

text \<open>The operation loop shared by \<^verbatim>\<open>Validate\<close> and \<^verbatim>\<open>Lookup\<close>: the literal bytes of one row.\<close>

fun literal_bytes :: "(template_op \<times> nat) list \<Rightarrow> nat \<Rightarrow> nat option" where
  "literal_bytes [] acc = Some acc"
| "literal_bytes ((op, arg) # rest) acc =
     (if \<not> template_op_Valid op then None
      else if op = TemplateOpLiteral then (if arg = 0 then None else literal_bytes rest (acc + arg))
      else if arg \<noteq> 0 then None
      else literal_bytes rest acc)"

definition row_ops :: "template_table \<Rightarrow> nat \<Rightarrow> (template_op \<times> nat) list" where
  "row_ops t row = (let start = tt_OpStarts t ! row; count = tt_OpCounts t ! row in
     zip (take count (drop start (tt_Ops t))) (take count (drop start (tt_Args t))))"

definition validate_template_row :: "template_table \<Rightarrow> nat \<Rightarrow> nat \<times> nat \<Rightarrow> (nat \<times> nat) option" where
  "validate_template_row t row cursors =
     (case cursors of (opCursor, literalCursor) \<Rightarrow>
      let start = tt_OpStarts t ! row; count = tt_OpCounts t ! row; end = start + count in
      if count > MaxTemplateOperations \<or> start \<noteq> opCursor \<or> end > length (tt_Ops t) then None
      else if tt_LiteralStarts t ! row \<noteq> literalCursor \<or> tt_MaxBytes t ! row > MaxRenderedTemplateBytes then None
      else case literal_bytes (row_ops t row) 0 of None \<Rightarrow> None
        | Some literalBytes \<Rightarrow>
          let literalEnd = literalCursor + literalBytes in
          if literalEnd > length (tt_LiteralBytes t) \<or> literalBytes > tt_MaxBytes t ! row then None
          else Some (end, literalEnd))"

fun validate_template_rows :: "template_table \<Rightarrow> nat list \<Rightarrow> nat \<times> nat \<Rightarrow> (nat \<times> nat) option" where
  "validate_template_rows t [] cursors = Some cursors"
| "validate_template_rows t (row # rows) cursors =
     (case validate_template_row t row cursors of None \<Rightarrow> None
      | Some cursors' \<Rightarrow> validate_template_rows t rows cursors')"

definition Templates_Validate :: "template_table \<Rightarrow> bool" where
  "Templates_Validate t =
     (let rows = length (tt_OpStarts t) in
      if length (tt_OpCounts t) \<noteq> rows \<or> length (tt_LiteralStarts t) \<noteq> rows \<or> length (tt_MaxBytes t) \<noteq> rows \<or>
         length (tt_Ops t) \<noteq> length (tt_Args t) then False
      else case validate_template_rows t [0..<rows] (0, 0) of None \<Rightarrow> False
        | Some (opCursor, literalCursor) \<Rightarrow>
          opCursor = length (tt_Ops t) \<and> literalCursor = length (tt_LiteralBytes t))"

definition Template_Lookup :: "template_table \<Rightarrow> nat \<Rightarrow> template option" where
  "Template_Lookup t tid =
     (if tid = 0 then None
      else let row = tid - 1 in
      if row \<ge> length (tt_OpStarts t) \<or> row \<ge> length (tt_OpCounts t) \<or> row \<ge> length (tt_LiteralStarts t) \<or>
         row \<ge> length (tt_MaxBytes t) then None
      else let start = tt_OpStarts t ! row; count = tt_OpCounts t ! row; end = start + count in
      if count > MaxTemplateOperations \<or> end > length (tt_Ops t) \<or> end > length (tt_Args t) \<or>
         tt_MaxBytes t ! row > MaxRenderedTemplateBytes then None
      else case literal_bytes (row_ops t row) 0 of None \<Rightarrow> None
        | Some literalBytes \<Rightarrow>
          let literalStart = tt_LiteralStarts t ! row; literalEnd = literalStart + literalBytes in
          if literalEnd > length (tt_LiteralBytes t) \<or> literalBytes > tt_MaxBytes t ! row then None
          else Some \<lparr>tm_LiteralBytes = take literalBytes (drop literalStart (tt_LiteralBytes t)),
                     tm_Ops = take count (drop start (tt_Ops t)), tm_Args = take count (drop start (tt_Args t)),
                     tm_MaxBytes = tt_MaxBytes t ! row\<rparr>)"

definition validatedTemplate :: "template_table \<Rightarrow> nat \<Rightarrow> template res" where
  "validatedTemplate t tid =
     (let row = tid - 1 in
      rbind (idx (tt_OpStarts t) row) (\<lambda>opStart.
      rbind (idx (tt_OpCounts t) row) (\<lambda>opCount.
      rbind (idx (tt_LiteralStarts t) row) (\<lambda>literalStart.
      let literalEnd = (if row + 1 < length (tt_LiteralStarts t) then tt_LiteralStarts t ! (row + 1)
                        else length (tt_LiteralBytes t)) in
      rbind (subslice (tt_LiteralBytes t) literalStart literalEnd) (\<lambda>lits.
      rbind (subslice (tt_Ops t) opStart (opStart + opCount)) (\<lambda>ops.
      rbind (subslice (tt_Args t) opStart (opStart + opCount)) (\<lambda>args.
      rbind (idx (tt_MaxBytes t) row) (\<lambda>mx.
      Ok \<lparr>tm_LiteralBytes = lits, tm_Ops = ops, tm_Args = args, tm_MaxBytes = mx\<rparr>))))))))"

section \<open>Explanation table\<close>

record explanation_table =
  et_RationaleTemplateIDs :: "nat list"
  et_UncertaintyStarts :: "nat list"
  et_UncertaintyCounts :: "nat list"
  et_UncertaintyTemplateIDs :: "nat list"
  et_AssumptionTemplateIDs :: "nat list"

record explanation =
  xp_Uncertainty :: "nat list"
  xp_Rationale :: nat

definition empty_explanations :: explanation_table where
  "empty_explanations = \<lparr>et_RationaleTemplateIDs = [], et_UncertaintyStarts = [], et_UncertaintyCounts = [],
     et_UncertaintyTemplateIDs = [], et_AssumptionTemplateIDs = []\<rparr>"

definition Explanation_Lookup :: "explanation_table \<Rightarrow> nat \<Rightarrow> explanation option" where
  "Explanation_Lookup t xid =
     (if xid = 0 then None
      else let row = xid - 1 in
      if row \<ge> length (et_RationaleTemplateIDs t) \<or> row \<ge> length (et_UncertaintyStarts t) \<or>
         row \<ge> length (et_UncertaintyCounts t) then None
      else let rationale = et_RationaleTemplateIDs t ! row; start = et_UncertaintyStarts t ! row;
               count = et_UncertaintyCounts t ! row; end = start + count in
      if rationale = 0 \<or> count > MaxUncertaintyTemplates \<or> end > length (et_UncertaintyTemplateIDs t) then None
      else let edges = take count (drop start (et_UncertaintyTemplateIDs t)) in
      if \<not> list_all (\<lambda>e. e \<noteq> 0) edges then None
      else Some \<lparr>xp_Uncertainty = edges, xp_Rationale = rationale\<rparr>)"

definition templateMaximum :: "template_table \<Rightarrow> nat \<Rightarrow> nat option" where
  "templateMaximum t tid =
     (if tid = 0 \<or> tid > length (tt_MaxBytes t) then None else Some (tt_MaxBytes t ! (tid - 1)))"

datatype explanation_error = ErrInvalidTemplateTable | ErrInvalidExplanationTable | ErrInvalidTemplateReference

text \<open>The two byte-counting loops check the bound after each addition.\<close>

fun sum_templates :: "template_table \<Rightarrow> nat list \<Rightarrow> nat \<Rightarrow> explanation_error + nat" where
  "sum_templates t [] acc = Inr acc"
| "sum_templates t (tid # tids) acc =
     (case templateMaximum t tid of None \<Rightarrow> Inl ErrInvalidTemplateReference
      | Some maximum \<Rightarrow>
        if acc + maximum > MaxRenderedExplanationBytes then Inl ErrInvalidExplanationTable
        else sum_templates t tids (acc + maximum))"

definition validate_explanation_row ::
  "template_table \<Rightarrow> explanation_table \<Rightarrow> nat \<Rightarrow> nat \<Rightarrow> nat \<Rightarrow> explanation_error + nat" where
  "validate_explanation_row t x assumptionBytes row cursor =
     (let start = et_UncertaintyStarts x ! row; count = et_UncertaintyCounts x ! row; end = start + count in
      if count > MaxUncertaintyTemplates \<or> start \<noteq> cursor \<or> end > length (et_UncertaintyTemplateIDs x)
        then Inl ErrInvalidExplanationTable
      else case templateMaximum t (et_RationaleTemplateIDs x ! row) of None \<Rightarrow> Inl ErrInvalidTemplateReference
        | Some maximum \<Rightarrow>
          (case sum_templates t (take count (drop start (et_UncertaintyTemplateIDs x))) (assumptionBytes + maximum) of
             Inl e \<Rightarrow> Inl e | Inr _ \<Rightarrow> Inr end))"

fun validate_explanation_rows ::
  "template_table \<Rightarrow> explanation_table \<Rightarrow> nat \<Rightarrow> nat list \<Rightarrow> nat \<Rightarrow> explanation_error + nat" where
  "validate_explanation_rows t x assumptionBytes [] cursor = Inr cursor"
| "validate_explanation_rows t x assumptionBytes (row # rows) cursor =
     (case validate_explanation_row t x assumptionBytes row cursor of Inl e \<Rightarrow> Inl e
      | Inr cursor' \<Rightarrow> validate_explanation_rows t x assumptionBytes rows cursor')"

definition Explanations_Validate :: "explanation_table \<Rightarrow> template_table \<Rightarrow> explanation_error + unit" where
  "Explanations_Validate x t =
     (if \<not> Templates_Validate t then Inl ErrInvalidTemplateTable
      else let rows = length (et_RationaleTemplateIDs x) in
      if rows = 0 \<or> length (et_UncertaintyStarts x) \<noteq> rows \<or> length (et_UncertaintyCounts x) \<noteq> rows \<or>
         length (et_AssumptionTemplateIDs x) > MaxAssumptionTemplates then Inl ErrInvalidExplanationTable
      else case sum_templates t (et_AssumptionTemplateIDs x) 0 of Inl e \<Rightarrow> Inl e
        | Inr assumptionBytes \<Rightarrow>
          (case validate_explanation_rows t x assumptionBytes [0..<rows] 0 of Inl e \<Rightarrow> Inl e
           | Inr cursor \<Rightarrow>
             if cursor \<noteq> length (et_UncertaintyTemplateIDs x) then Inl ErrInvalidExplanationTable else Inr ()))"

text \<open>The largest rendered size of one row: assumptions, rationale and uncertainty together.\<close>

definition max_of :: "template_table \<Rightarrow> nat \<Rightarrow> nat" where
  "max_of t tid = (case templateMaximum t tid of None \<Rightarrow> 0 | Some m \<Rightarrow> m)"

definition explanation_bytes :: "explanation_table \<Rightarrow> template_table \<Rightarrow> nat \<Rightarrow> nat" where
  "explanation_bytes x t row =
     sum_list (map (max_of t) (et_AssumptionTemplateIDs x)) + max_of t (et_RationaleTemplateIDs x ! row) +
     sum_list (map (max_of t) (take (et_UncertaintyCounts x ! row) (drop (et_UncertaintyStarts x ! row) (et_UncertaintyTemplateIDs x))))"

section \<open>Validated templates\<close>

lemma validate_template_rows_snoc:
  "validate_template_rows t (rows @ [row]) c =
     (case validate_template_rows t rows c of None \<Rightarrow> None | Some c' \<Rightarrow> validate_template_row t row c')"
  by (induction rows arbitrary: c) (auto split: option.splits)

definition template_row_ok :: "template_table \<Rightarrow> nat \<Rightarrow> nat \<Rightarrow> bool" where
  "template_row_ok t i lb \<longleftrightarrow> tt_OpCounts t ! i \<le> MaxTemplateOperations \<and>
     tt_OpStarts t ! i + tt_OpCounts t ! i \<le> length (tt_Ops t) \<and> tt_MaxBytes t ! i \<le> MaxRenderedTemplateBytes \<and>
     literal_bytes (row_ops t i) 0 = Some lb \<and> lb \<le> tt_MaxBytes t ! i \<and>
     tt_LiteralStarts t ! i + lb \<le> length (tt_LiteralBytes t)"

lemma validate_template_row_Some:
  "validate_template_row t row (oc, lc) = Some (oc', lc') \<Longrightarrow>
   \<exists>lb. template_row_ok t row lb \<and> lc = tt_LiteralStarts t ! row \<and> lc' = lc + lb"
  by (auto simp: validate_template_row_def template_row_ok_def Let_def split: if_splits option.splits)

lemma validate_template_rows_Some:
  "validate_template_rows t [0..<n] (0, 0) = Some (oc, lc) \<Longrightarrow>
   \<forall>i < n. \<exists>lb. template_row_ok t i lb \<and>
     tt_LiteralStarts t ! i + lb = (if i + 1 < n then tt_LiteralStarts t ! (i + 1) else lc)"
proof (induction n arbitrary: oc lc)
  case 0
  then show ?case by simp
next
  case (Suc n)
  then obtain oc0 lc0 where r: "validate_template_rows t [0..<n] (0, 0) = Some (oc0, lc0)"
    "validate_template_row t n (oc0, lc0) = Some (oc, lc)"
    by (auto simp: validate_template_rows_snoc split: option.splits)
  obtain lb where lb: "template_row_ok t n lb" "lc0 = tt_LiteralStarts t ! n" "lc = lc0 + lb"
    using validate_template_row_Some[OF r(2)] by blast
  show ?case
  proof (intro allI impI)
    fix i assume "i < Suc n"
    then show "\<exists>lb. template_row_ok t i lb \<and>
        tt_LiteralStarts t ! i + lb = (if i + 1 < Suc n then tt_LiteralStarts t ! (i + 1) else lc)"
      using Suc.IH[OF r(1)] lb by (cases "i = n") (auto simp: less_Suc_eq split: if_splits)
  qed
qed

lemma Templates_Validate_row:
  assumes "Templates_Validate t" "i < length (tt_OpStarts t)"
  obtains lb where "template_row_ok t i lb"
    "tt_LiteralStarts t ! i + lb = (if i + 1 < length (tt_LiteralStarts t) then tt_LiteralStarts t ! (i + 1) else length (tt_LiteralBytes t))"
    "length (tt_OpCounts t) = length (tt_OpStarts t)" "length (tt_LiteralStarts t) = length (tt_OpStarts t)"
    "length (tt_MaxBytes t) = length (tt_OpStarts t)" "length (tt_Args t) = length (tt_Ops t)"
proof -
  let ?n = "length (tt_OpStarts t)"
  have len: "length (tt_OpCounts t) = ?n" "length (tt_LiteralStarts t) = ?n" "length (tt_MaxBytes t) = ?n"
      "length (tt_Args t) = length (tt_Ops t)"
    using assms(1) by (auto simp: Templates_Validate_def Let_def split: if_splits)
  obtain oc lc where r: "validate_template_rows t [0..<?n] (0, 0) = Some (oc, lc)" "lc = length (tt_LiteralBytes t)"
    using assms(1) by (auto simp: Templates_Validate_def Let_def split: if_splits option.splits)
  from validate_template_rows_Some[OF r(1)] assms(2) r(2) len that show ?thesis by auto
qed

lemma validated_lookup:
  assumes "Templates_Validate t" "tid \<noteq> 0" "tid \<le> length (tt_OpStarts t)"
  shows "\<exists>m. Template_Lookup t tid = Some m \<and> validatedTemplate t tid = Ok m"
proof -
  let ?i = "tid - 1"
  have i: "?i < length (tt_OpStarts t)" using assms(2,3) by simp
  obtain lb where ok: "template_row_ok t ?i lb"
    and next_row: "tt_LiteralStarts t ! ?i + lb = (if ?i + 1 < length (tt_LiteralStarts t) then tt_LiteralStarts t ! (?i + 1) else length (tt_LiteralBytes t))"
    and len: "length (tt_OpCounts t) = length (tt_OpStarts t)" "length (tt_LiteralStarts t) = length (tt_OpStarts t)"
      "length (tt_MaxBytes t) = length (tt_OpStarts t)" "length (tt_Args t) = length (tt_Ops t)"
    by (rule Templates_Validate_row[OF assms(1) i])
  let ?m = "\<lparr>tm_LiteralBytes = take lb (drop (tt_LiteralStarts t ! ?i) (tt_LiteralBytes t)),
     tm_Ops = take (tt_OpCounts t ! ?i) (drop (tt_OpStarts t ! ?i) (tt_Ops t)),
     tm_Args = take (tt_OpCounts t ! ?i) (drop (tt_OpStarts t ! ?i) (tt_Args t)), tm_MaxBytes = tt_MaxBytes t ! ?i\<rparr>"
  have "Template_Lookup t tid = Some ?m"
    using assms(2) i len ok by (auto simp: Template_Lookup_def template_row_ok_def Let_def)
  moreover have "validatedTemplate t tid = Ok ?m"
    using i len ok unfolding validatedTemplate_def Let_def next_row[symmetric] by (simp add: template_row_ok_def)
  ultimately show ?thesis by blast
qed

section \<open>Validated explanations\<close>

lemma sum_templates_Inr:
  "sum_templates t tids acc = Inr n \<Longrightarrow> (\<forall>tid \<in> set tids. \<exists>m. templateMaximum t tid = Some m) \<and>
     n = acc + sum_list (map (max_of t) tids) \<and> (tids \<noteq> [] \<longrightarrow> n \<le> MaxRenderedExplanationBytes)"
proof (induction tids arbitrary: acc)
  case (Cons tid tids)
  then obtain m where m: "templateMaximum t tid = Some m" "acc + m \<le> MaxRenderedExplanationBytes"
    "sum_templates t tids (acc + m) = Inr n" by (auto split: option.splits if_splits)
  from Cons.IH[OF m(3)] m show ?case by (cases tids) (auto simp: max_of_def)
qed simp

lemma validate_explanation_rows_Inr:
  "validate_explanation_rows t x ab rows c = Inr c' \<Longrightarrow> row \<in> set rows \<Longrightarrow>
   \<exists>c1 c2. validate_explanation_row t x ab row c1 = Inr c2"
  by (induction rows arbitrary: c) (auto split: sum.splits)

lemma Explanations_Validate_row:
  assumes "Explanations_Validate x t = Inr ()" "row < length (et_RationaleTemplateIDs x)"
  shows "Templates_Validate t" "length (et_UncertaintyStarts x) = length (et_RationaleTemplateIDs x)"
    "length (et_UncertaintyCounts x) = length (et_RationaleTemplateIDs x)"
    "\<exists>c1 c2. validate_explanation_row t x (sum_list (map (max_of t) (et_AssumptionTemplateIDs x))) row c1 = Inr c2"
proof -
  let ?n = "length (et_RationaleTemplateIDs x)"
  obtain ab cur where v: "Templates_Validate t" "sum_templates t (et_AssumptionTemplateIDs x) 0 = Inr ab"
    "validate_explanation_rows t x ab [0..<?n] 0 = Inr cur" "length (et_UncertaintyStarts x) = ?n" "length (et_UncertaintyCounts x) = ?n"
    using assms(1) by (auto simp: Explanations_Validate_def Let_def split: if_splits sum.splits)
  from v show "Templates_Validate t" "length (et_UncertaintyStarts x) = ?n" "length (et_UncertaintyCounts x) = ?n" by simp_all
  have "ab = sum_list (map (max_of t) (et_AssumptionTemplateIDs x))" using sum_templates_Inr[OF v(2)] by simp
  then show "\<exists>c1 c2. validate_explanation_row t x (sum_list (map (max_of t) (et_AssumptionTemplateIDs x))) row c1 = Inr c2"
    using validate_explanation_rows_Inr[OF v(3), of row] assms(2) by simp
qed

lemma templateMaximum_nonzero: "templateMaximum t tid = Some m \<Longrightarrow> tid \<noteq> 0"
  by (auto simp: templateMaximum_def split: if_splits)

lemma validated_explanation:
  assumes "Explanations_Validate x t = Inr ()" "row < length (et_RationaleTemplateIDs x)"
  shows "\<exists>e. Explanation_Lookup x (row + 1) = Some e \<and> (\<exists>m. templateMaximum t (xp_Rationale e) = Some m) \<and>
      (\<forall>tid \<in> set (xp_Uncertainty e). \<exists>m. templateMaximum t tid = Some m)"
    and "et_UncertaintyCounts x ! row \<noteq> 0 \<Longrightarrow> explanation_bytes x t row \<le> MaxRenderedExplanationBytes"
proof -
  note v = Explanations_Validate_row[OF assms]
  let ?ab = "sum_list (map (max_of t) (et_AssumptionTemplateIDs x))"
  let ?start = "et_UncertaintyStarts x ! row" and ?count = "et_UncertaintyCounts x ! row"
  let ?edges = "take ?count (drop ?start (et_UncertaintyTemplateIDs x))" and ?rat = "et_RationaleTemplateIDs x ! row"
  obtain m n where r: "?count \<le> MaxUncertaintyTemplates" "?start + ?count \<le> length (et_UncertaintyTemplateIDs x)"
    "templateMaximum t ?rat = Some m" "sum_templates t ?edges (?ab + m) = Inr n"
    using v(4) by (auto simp: validate_explanation_row_def Let_def split: if_splits option.splits sum.splits)
  note s = sum_templates_Inr[OF r(4)]
  have nz: "list_all (\<lambda>e. e \<noteq> 0) ?edges" using s templateMaximum_nonzero by (fastforce simp: list_all_iff)
  show "\<exists>e. Explanation_Lookup x (row + 1) = Some e \<and> (\<exists>m. templateMaximum t (xp_Rationale e) = Some m) \<and>
      (\<forall>tid \<in> set (xp_Uncertainty e). \<exists>m. templateMaximum t tid = Some m)"
    using assms(2) v(2,3) r nz s templateMaximum_nonzero[OF r(3)] by (simp add: Explanation_Lookup_def Let_def)
  show "?count \<noteq> 0 \<Longrightarrow> explanation_bytes x t row \<le> MaxRenderedExplanationBytes"
    using s r(2,3) by (cases "?edges = []") (auto simp: explanation_bytes_def max_of_def)
qed

section \<open>Properties\<close>

text \<open>C29: in a validated template table every identifier resolves, and the unchecked accessor used for
  rendering returns the same row as the checked lookup, without an index error.\<close>

theorem validated_templates_resolve:
  assumes "Templates_Validate t" "tid \<noteq> 0" "tid \<le> length (tt_OpStarts t)"
  shows "\<exists>m. Template_Lookup t tid = Some m \<and> validatedTemplate t tid = Ok m"
  using assms by (rule validated_lookup)

definition sample_templates :: template_table where
  "sample_templates = \<lparr>tt_LiteralBytes = [104, 105, 33], tt_OpStarts = [0, 2], tt_OpCounts = [2, 1],
     tt_LiteralStarts = [0, 2], tt_MaxBytes = [1024, 9], tt_Ops = [TemplateOpLiteral, TemplateOpReason, TemplateOpLiteral],
     tt_Args = [2, 0, 1]\<rparr>"

theorem validated_templates_resolve_witness:
  "\<exists>m. Template_Lookup sample_templates 1 = Some m \<and> validatedTemplate sample_templates 1 = Ok m"
proof (rule validated_templates_resolve)
  show "Templates_Validate sample_templates" by code_simp
qed (simp_all add: sample_templates_def)

text \<open>C30: in a validated explanation table every row resolves, every template it names is a row of the
  template table, and a row with at least one uncertainty template renders to at most
  \<^verbatim>\<open>MaxRenderedExplanationBytes\<close> bytes, assumptions and rationale included.\<close>

theorem validated_explanations_resolve:
  assumes "Explanations_Validate x t = Inr ()" "row < length (et_RationaleTemplateIDs x)"
  shows "(\<exists>e. Explanation_Lookup x (row + 1) = Some e \<and> (\<exists>m. templateMaximum t (xp_Rationale e) = Some m) \<and>
      (\<forall>tid \<in> set (xp_Uncertainty e). \<exists>m. templateMaximum t tid = Some m)) \<and>
    (et_UncertaintyCounts x ! row \<noteq> 0 \<longrightarrow> explanation_bytes x t row \<le> MaxRenderedExplanationBytes)"
  using validated_explanation[OF assms] by blast

definition sample_explanations :: explanation_table where
  "sample_explanations = \<lparr>et_RationaleTemplateIDs = [2], et_UncertaintyStarts = [0], et_UncertaintyCounts = [1],
     et_UncertaintyTemplateIDs = [1], et_AssumptionTemplateIDs = [1, 2]\<rparr>"

theorem validated_explanations_resolve_witness:
  "(\<exists>e. Explanation_Lookup sample_explanations (0 + 1) = Some e \<and>
      (\<exists>m. templateMaximum sample_templates (xp_Rationale e) = Some m) \<and>
      (\<forall>tid \<in> set (xp_Uncertainty e). \<exists>m. templateMaximum sample_templates tid = Some m)) \<and>
    explanation_bytes sample_explanations sample_templates 0 \<le> MaxRenderedExplanationBytes"
proof -
  have "Explanations_Validate sample_explanations sample_templates = Inr ()" by code_simp
  moreover have "0 < length (et_RationaleTemplateIDs sample_explanations)" "et_UncertaintyCounts sample_explanations ! 0 \<noteq> 0"
    by (simp_all add: sample_explanations_def)
  ultimately show ?thesis using validated_explanations_resolve[of sample_explanations sample_templates 0] by blast
qed




end
