(* ===== verification/NR_Schema.thy ===== *)
theory NR_Schema
  imports NR_Prelude
begin

text \<open>
  The package \<^verbatim>\<open>internal/schema\<close> (value kinds, field groups and the field-schema builder) and the
  field index of \<^verbatim>\<open>internal/index/schema.go\<close>, which gives every field a column within the batch
  storage of its kind.

  An enumeration is a datatype with the source's constants; a value outside the declared
  constants, which the Go type \<^verbatim>\<open>uint8\<close> can hold, is the extra constructor \<open>\<dots>Raw\<close>.
\<close>

section \<open>Value kinds and field groups\<close>

datatype value_kind =
    ValueKindInvalid | ValueKindSymbol | ValueKindInteger | ValueKindBoolean
  | ValueKindTimestamp | ValueKindPresence | ValueKindRaw nat

fun kind_num :: "value_kind \<Rightarrow> nat" where
  "kind_num ValueKindInvalid = 0"
| "kind_num ValueKindSymbol = 1"
| "kind_num ValueKindInteger = 2"
| "kind_num ValueKindBoolean = 3"
| "kind_num ValueKindTimestamp = 4"
| "kind_num ValueKindPresence = 5"
| "kind_num (ValueKindRaw n) = 6 + n"

definition kind_Valid :: "value_kind \<Rightarrow> bool" where
  "kind_Valid k \<longleftrightarrow> kind_num k \<ge> kind_num ValueKindSymbol \<and> kind_num k \<le> kind_num ValueKindPresence"

definition kind_String :: "value_kind \<Rightarrow> string" where
  "kind_String k =
     (let names = [''invalid'', ''symbol'', ''integer'', ''boolean'', ''timestamp'', ''presence''] in
      if kind_num k < length names then names ! kind_num k else ''invalid'')"

datatype field_group =
    FieldGroupInvalid | FieldGroupSubject | FieldGroupAction | FieldGroupResource
  | FieldGroupOutput | FieldGroupContext | FieldGroupRaw nat

fun group_num :: "field_group \<Rightarrow> nat" where
  "group_num FieldGroupInvalid = 0"
| "group_num FieldGroupSubject = 1"
| "group_num FieldGroupAction = 2"
| "group_num FieldGroupResource = 3"
| "group_num FieldGroupOutput = 4"
| "group_num FieldGroupContext = 5"
| "group_num (FieldGroupRaw n) = 6 + n"

definition group_Valid :: "field_group \<Rightarrow> bool" where
  "group_Valid g \<longleftrightarrow> group_num g \<ge> group_num FieldGroupSubject \<and> group_num g \<le> group_num FieldGroupContext"

lemma kind_num_inject [simp]: "kind_num a = kind_num b \<longleftrightarrow> a = b"
  by (cases a; cases b) auto

lemma kind_Valid_cases:
  "kind_Valid k \<longleftrightarrow> k \<in> {ValueKindSymbol, ValueKindInteger, ValueKindBoolean,
     ValueKindTimestamp, ValueKindPresence}"
  by (cases k) (auto simp: kind_Valid_def)

lemma kind_Valid_num: "kind_Valid k \<Longrightarrow> kind_num k < 6"
  by (simp add: kind_Valid_def)

section \<open>The field-schema builder\<close>

record field_table =
  ft_names :: "nat list"
  ft_kinds :: "value_kind list"
  ft_groups :: "field_group list"

definition empty_fields :: field_table where
  "empty_fields = \<lparr>ft_names = [], ft_kinds = [], ft_groups = []\<rparr>"

definition Table_Len :: "field_table \<Rightarrow> nat" where
  "Table_Len t = length (ft_names t)"

definition Table_Name :: "field_table \<Rightarrow> nat \<Rightarrow> nat option" where
  "Table_Name t f = (if f = 0 \<or> f - 1 \<ge> length (ft_names t) then None else Some (ft_names t ! (f - 1)))"

definition Table_Kind :: "field_table \<Rightarrow> nat \<Rightarrow> value_kind option" where
  "Table_Kind t f = (if f = 0 \<or> f - 1 \<ge> length (ft_kinds t) then None else Some (ft_kinds t ! (f - 1)))"

definition Table_Group :: "field_table \<Rightarrow> nat \<Rightarrow> field_group option" where
  "Table_Group t f = (if f = 0 \<or> f - 1 \<ge> length (ft_groups t) then None else Some (ft_groups t ! (f - 1)))"

fun lookup_name :: "nat list \<Rightarrow> nat \<Rightarrow> nat \<Rightarrow> nat option" where
  "lookup_name [] name i = None"
| "lookup_name (n # ns) name i = (if n = name then Some (i + 1) else lookup_name ns name (i + 1))"

definition Table_Lookup :: "field_table \<Rightarrow> nat \<Rightarrow> nat option" where
  "Table_Lookup t name = lookup_name (ft_names t) name 0"

definition AddField :: "field_table \<Rightarrow> nat \<Rightarrow> value_kind \<Rightarrow> field_group \<Rightarrow> (field_table \<times> nat) res" where
  "AddField b name kind grp =
     (if name = 0 then Err ErrInvalidSymbol
      else if \<not> kind_Valid kind then Err ErrInvalidValueKind
      else if \<not> group_Valid grp then Err ErrInvalidFieldGroup
      else if name \<in> set (ft_names b) then Err ErrDuplicateField
      else Ok (b\<lparr>ft_names := ft_names b @ [name], ft_kinds := ft_kinds b @ [kind],
                 ft_groups := ft_groups b @ [grp]\<rparr>, length (ft_names b) + 1))"

definition Fields_Reset :: "field_table \<Rightarrow> field_table" where
  "Fields_Reset b = b\<lparr>ft_names := [], ft_kinds := [], ft_groups := []\<rparr>"

definition Fields_Finish :: "field_table \<Rightarrow> field_table" where
  "Fields_Finish b = (let n = length (ft_names b) in
     \<lparr>ft_names = take n (ft_names b), ft_kinds = take n (ft_kinds b), ft_groups = take n (ft_groups b)\<rparr>)"

text \<open>The builder's invariant: parallel columns, valid metadata, no duplicate name.\<close>

definition fields_inv :: "field_table \<Rightarrow> bool" where
  "fields_inv b \<longleftrightarrow> length (ft_kinds b) = length (ft_names b) \<and> length (ft_groups b) = length (ft_names b) \<and>
     distinct (ft_names b) \<and> 0 \<notin> set (ft_names b) \<and>
     list_all kind_Valid (ft_kinds b) \<and> list_all group_Valid (ft_groups b)"

lemma fields_inv_empty [simp]: "fields_inv empty_fields"
  by (simp add: fields_inv_def empty_fields_def)

lemma AddField_inv: "fields_inv b \<Longrightarrow> AddField b name kind grp = Ok (b', f) \<Longrightarrow> fields_inv b'"
  by (auto simp: fields_inv_def AddField_def split: if_splits)

lemma Fields_Reset_inv: "fields_inv (Fields_Reset b)"
  by (simp add: fields_inv_def Fields_Reset_def)

lemma lookup_name_spec:
  "distinct ns \<Longrightarrow> lookup_name ns name i = Some f \<longleftrightarrow> (\<exists>k < length ns. ns ! k = name \<and> f = i + k + 1)"
proof (induction ns arbitrary: i)
  case Nil
  then show ?case by simp
next
  case (Cons n ns)
  show ?case
  proof (cases "n = name")
    case True
    then have "k < length (n # ns) \<Longrightarrow> (n # ns) ! k = name \<Longrightarrow> k = 0" for k
      using Cons.prems by (cases k) (auto simp: in_set_conv_nth)
    with True show ?thesis by auto
  next
    case False
    then show ?thesis using Cons by (auto simp: less_Suc_eq_0_disj)
  qed
qed

lemma Table_Lookup_iff:
  "fields_inv b \<Longrightarrow> Table_Lookup b name = Some f \<longleftrightarrow> Table_Name b f = Some name"
  by (auto simp: Table_Lookup_def Table_Name_def fields_inv_def lookup_name_spec intro!: exI[of _ "f - 1"])

lemma AddField_Lookup:
  assumes "fields_inv b" "AddField b name kind grp = Ok (b', f)"
  shows "Table_Lookup b' name = Some f" "Table_Kind b' f = Some kind" "Table_Group b' f = Some grp"
    and "Table_Lookup b other = Some g \<Longrightarrow> Table_Lookup b' other = Some g"
  using assms AddField_inv[OF assms]
  by (auto simp: Table_Lookup_iff AddField_def Table_Name_def Table_Kind_def Table_Group_def fields_inv_def
      nth_append split: if_splits)

section \<open>The field index\<close>

record index_schema =
  is_Kinds :: "value_kind list"
  is_Columns :: "nat list"
  is_Counts :: "nat list"

definition zero_counts :: "nat list" where "zero_counts = replicate 6 0"

fun count_kinds :: "value_kind list \<Rightarrow> nat list \<Rightarrow> nat list res" where
  "count_kinds [] counts = Ok counts"
| "count_kinds (k # ks) counts =
     (if \<not> kind_Valid k then Err ErrInvalidSchema
      else count_kinds ks (counts[kind_num k := counts ! kind_num k + 1]))"

fun assign_columns :: "value_kind list \<Rightarrow> nat list \<Rightarrow> nat list" where
  "assign_columns [] nxt = []"
| "assign_columns (k # ks) nxt =
     nxt ! kind_num k # assign_columns ks (nxt[kind_num k := nxt ! kind_num k + 1])"

definition BuildSchema :: "value_kind list \<Rightarrow> index_schema res" where
  "BuildSchema kinds =
     (if length kinds > MaxUint32 then Err ErrIndexTooLarge
      else rbind (count_kinds kinds zero_counts) (\<lambda>counts.
        Ok \<lparr>is_Kinds = kinds, is_Columns = assign_columns kinds zero_counts, is_Counts = counts\<rparr>))"

definition Schema_Lookup :: "index_schema \<Rightarrow> nat \<Rightarrow> (value_kind \<times> nat) option" where
  "Schema_Lookup s field =
     (if field = 0 then None
      else let row = field - 1 in
        if row \<ge> length (is_Kinds s) \<or> row \<ge> length (is_Columns s) then None
        else Some (is_Kinds s ! row, is_Columns s ! row))"

definition ColumnCount :: "index_schema \<Rightarrow> value_kind \<Rightarrow> nat option" where
  "ColumnCount s k = (if \<not> kind_Valid k then None else Some (is_Counts s ! kind_num k))"

abbreviation kind_count :: "index_schema \<Rightarrow> value_kind \<Rightarrow> nat" where
  "kind_count s k \<equiv> is_Counts s ! kind_num k"

text \<open>\<^verbatim>\<open>validateFieldIndex\<close> of the batch builder recomputes the columns and the counts.\<close>

fun field_index_loop :: "value_kind list \<Rightarrow> nat list \<Rightarrow> nat list \<Rightarrow> nat list option" where
  "field_index_loop [] cols nxt = Some nxt"
| "field_index_loop (k # ks) cols nxt =
     (if \<not> kind_Valid k \<or> hd cols \<noteq> nxt ! kind_num k \<or> nxt ! kind_num k = MaxUint32 then None
      else field_index_loop ks (tl cols) (nxt[kind_num k := nxt ! kind_num k + 1]))"

definition validateFieldIndex :: "index_schema \<Rightarrow> bool" where
  "validateFieldIndex s =
     (if length (is_Kinds s) \<noteq> length (is_Columns s) \<or> length (is_Kinds s) > MaxUint32 then False
      else (case field_index_loop (is_Kinds s) (is_Columns s) zero_counts of
              None \<Rightarrow> False | Some nxt \<Rightarrow> nxt = is_Counts s))"

text \<open>The column of a field is the number of earlier fields of its kind.\<close>

lemma count_kinds_spec:
  "count_kinds ks c = Ok c' \<Longrightarrow> length c = 6 \<Longrightarrow>
   list_all kind_Valid ks \<and> length c' = 6 \<and>
   (\<forall>k. kind_Valid k \<longrightarrow> c' ! kind_num k = c ! kind_num k + count_list ks k)"
proof (induction ks arbitrary: c)
  case Nil
  then show ?case by simp
next
  case (Cons k ks)
  from Cons.prems have v: "kind_Valid k" and r: "count_kinds ks (c[kind_num k := c ! kind_num k + 1]) = Ok c'"
    by (auto split: if_splits)
  from Cons.IH[OF r] Cons.prems(2) v show ?case
    by (auto simp: nth_list_update kind_Valid_num)
qed

lemma count_kinds_Ok: "list_all kind_Valid ks \<Longrightarrow> \<exists>c'. count_kinds ks c = Ok c'"
  by (induction ks arbitrary: c) auto

lemma length_assign_columns [simp]: "length (assign_columns ks nxt) = length ks"
  by (induction ks arbitrary: nxt) auto

lemma assign_columns_nth:
  "list_all kind_Valid ks \<Longrightarrow> length nxt = 6 \<Longrightarrow> i < length ks \<Longrightarrow>
   assign_columns ks nxt ! i = nxt ! kind_num (ks ! i) + count_list (take i ks) (ks ! i)"
proof (induction ks arbitrary: nxt i)
  case Nil
  then show ?case by simp
next
  case (Cons k ks)
  show ?case
  proof (cases i)
    case 0
    then show ?thesis by simp
  next
    case (Suc j)
    let ?n = "nxt[kind_num k := nxt ! kind_num k + 1]"
    have "assign_columns ks ?n ! j = ?n ! kind_num (ks ! j) + count_list (take j ks) (ks ! j)"
      using Cons.prems Suc by (intro Cons.IH) auto
    moreover have "kind_num k < 6" using Cons.prems by (simp add: kind_Valid_num)
    ultimately show ?thesis using Suc Cons.prems by (auto simp: nth_list_update)
  qed
qed

lemma count_list_take_less:
  "i < j \<Longrightarrow> j \<le> length xs \<Longrightarrow> xs ! i = k \<Longrightarrow> count_list (take i xs) k < count_list (take j xs) k"
proof -
  assume a: "i < j" "j \<le> length xs" "xs ! i = k"
  have "take j xs = take i xs @ take (j - i) (drop i xs)"
    using a by (metis le_add_diff_inverse less_imp_le take_add)
  moreover have "drop i xs = k # drop (Suc i) xs" using a by (metis Cons_nth_drop_Suc less_le_trans)
  ultimately show ?thesis using a by (cases "j - i") auto
qed

text \<open>
  Two fields of one kind never share a column, and every column lies within the count of its
  kind: the storage of one field is disjoint from the storage of every other.
\<close>

definition schema_ok :: "index_schema \<Rightarrow> bool" where
  "schema_ok s \<longleftrightarrow> length (is_Columns s) = length (is_Kinds s) \<and> length (is_Counts s) = 6 \<and>
     list_all kind_Valid (is_Kinds s) \<and>
     (\<forall>i < length (is_Kinds s). is_Columns s ! i = count_list (take i (is_Kinds s)) (is_Kinds s ! i)) \<and>
     (\<forall>k. kind_Valid k \<longrightarrow> kind_count s k = count_list (is_Kinds s) k)"

lemma BuildSchema_ok: "BuildSchema kinds = Ok s \<Longrightarrow> schema_ok s \<and> is_Kinds s = kinds"
  by (auto simp: BuildSchema_def schema_ok_def rbind_Ok_iff assign_columns_nth zero_counts_def
      dest!: count_kinds_spec split: if_splits)
    (auto simp: kind_Valid_num list_all_length)

lemma schema_ok_column:
  assumes "schema_ok s" "Schema_Lookup s f = Some (k, c)"
  shows "c < kind_count s k" and "kind_Valid k"
proof -
  let ?i = "f - 1"
  have i: "?i < length (is_Kinds s)" "k = is_Kinds s ! ?i" "c = is_Columns s ! ?i" "f \<noteq> 0"
    using assms(2) by (auto simp: Schema_Lookup_def Let_def split: if_splits)
  show v: "kind_Valid k" using assms(1) i by (simp add: schema_ok_def list_all_length)
  have "count_list (take ?i (is_Kinds s)) k < count_list (take (length (is_Kinds s)) (is_Kinds s)) k"
    using i by (intro count_list_take_less) auto
  then show "c < kind_count s k" using assms(1) i v by (simp add: schema_ok_def)
qed

lemma schema_ok_disjoint:
  assumes "schema_ok s" "Schema_Lookup s f = Some (k, c)" "Schema_Lookup s g = Some (k, c)"
  shows "f = g"
proof (rule ccontr)
  assume "f \<noteq> g"
  let ?i = "f - 1" and ?j = "g - 1"
  have i: "?i < length (is_Kinds s)" "k = is_Kinds s ! ?i" "c = is_Columns s ! ?i" "f \<noteq> 0"
    and j: "?j < length (is_Kinds s)" "k = is_Kinds s ! ?j" "c = is_Columns s ! ?j" "g \<noteq> 0"
    using assms(2,3) by (auto simp: Schema_Lookup_def Let_def split: if_splits)
  then have "?i < ?j \<or> ?j < ?i" using \<open>f \<noteq> g\<close> by linarith
  then have "count_list (take ?i (is_Kinds s)) k \<noteq> count_list (take ?j (is_Kinds s)) k"
    using count_list_take_less[of ?i ?j "is_Kinds s" k] count_list_take_less[of ?j ?i "is_Kinds s" k] i j
    by auto
  moreover have "count_list (take ?i (is_Kinds s)) k = c" "count_list (take ?j (is_Kinds s)) k = c"
    using assms(1) i j by (simp_all add: schema_ok_def)
  ultimately show False by simp
qed

text \<open>The builder of a batch accepts exactly the index that the compiler builds.\<close>

lemma field_index_loop_assign:
  "length nxt = 6 \<Longrightarrow> length cols = length ks \<Longrightarrow>
   field_index_loop ks cols nxt = Some out \<Longrightarrow>
   cols = assign_columns ks nxt \<and> count_kinds ks nxt = Ok out"
proof (induction ks cols nxt rule: field_index_loop.induct)
  case (1 cols nxt)
  then show ?case by simp
next
  case (2 k ks cols nxt)
  then obtain c cs where "cols = c # cs" by (cases cols) auto
  with 2 show ?case by (auto split: if_splits)
qed

lemma assign_field_index_loop:
  "length nxt = 6 \<Longrightarrow> count_kinds ks nxt = Ok out \<Longrightarrow>
   (\<forall>k. kind_Valid k \<longrightarrow> nxt ! kind_num k + length ks \<le> MaxUint32) \<Longrightarrow>
   field_index_loop ks (assign_columns ks nxt) nxt = Some out"
proof (induction ks arbitrary: nxt)
  case Nil
  then show ?case by simp
next
  case (Cons k ks)
  from Cons.prems have v: "kind_Valid k" by (auto split: if_splits)
  let ?n = "nxt[kind_num k := nxt ! kind_num k + 1]"
  have lt: "kind_num k < 6" using v by (rule kind_Valid_num)
  have b: "nxt ! kind_num k' + length (k # ks) \<le> MaxUint32" if "kind_Valid k'" for k'
    using Cons.prems(3) that by blast
  have "\<forall>k'. kind_Valid k' \<longrightarrow> ?n ! kind_num k' + length ks \<le> MaxUint32"
  proof (intro allI impI)
    fix k' assume "kind_Valid k'"
    then show "?n ! kind_num k' + length ks \<le> MaxUint32"
      using b[of k'] lt Cons.prems(1) by (cases "k' = k") (simp_all add: nth_list_update)
  qed
  then have "field_index_loop ks (assign_columns ks ?n) ?n = Some out"
    using Cons.prems v by (intro Cons.IH) auto
  moreover have "nxt ! kind_num k \<noteq> MaxUint32" using b[OF v] by simp
  ultimately show ?case using v by simp
qed

lemma validateFieldIndex_iff:
  "validateFieldIndex s \<longleftrightarrow> BuildSchema (is_Kinds s) = Ok s"
proof
  assume "validateFieldIndex s"
  then obtain nxt where l: "length (is_Columns s) = length (is_Kinds s)" "length (is_Kinds s) \<le> MaxUint32"
    and n: "field_index_loop (is_Kinds s) (is_Columns s) zero_counts = Some nxt" "nxt = is_Counts s"
    by (auto simp: validateFieldIndex_def split: if_splits option.splits)
  from field_index_loop_assign[OF _ l(1) n(1)] n(2) l(2) show "BuildSchema (is_Kinds s) = Ok s"
    by (auto simp: BuildSchema_def zero_counts_def)
next
  assume "BuildSchema (is_Kinds s) = Ok s"
  then have l: "length (is_Kinds s) \<le> MaxUint32" and c: "count_kinds (is_Kinds s) zero_counts = Ok (is_Counts s)"
    and a: "is_Columns s = assign_columns (is_Kinds s) zero_counts"
    by (auto simp: BuildSchema_def rbind_Ok_iff split: if_splits)
      (metis index_schema.select_convs, metis index_schema.select_convs)
  have "field_index_loop (is_Kinds s) (assign_columns (is_Kinds s) zero_counts) zero_counts = Some (is_Counts s)"
    using c l by (intro assign_field_index_loop) (auto simp: zero_counts_def kind_Valid_num)
  then show "validateFieldIndex s" using a l by (simp add: validateFieldIndex_def)
qed

section \<open>Properties\<close>

text \<open>C26: the batch builder accepts a field index exactly when it is the one the compiler builds from
  the field kinds, and in an accepted index every field has a column within the count of its kind
  and no two fields share a column.\<close>

theorem field_index_exact:
  "(validateFieldIndex s \<longleftrightarrow> BuildSchema (is_Kinds s) = Ok s) \<and>
   (validateFieldIndex s \<longrightarrow>
     (\<forall>f k c. Schema_Lookup s f = Some (k, c) \<longrightarrow> c < kind_count s k \<and>
        (\<forall>g. Schema_Lookup s g = Some (k, c) \<longrightarrow> g = f)))"
proof (intro conjI impI allI)
  show "validateFieldIndex s \<longleftrightarrow> BuildSchema (is_Kinds s) = Ok s" by (rule validateFieldIndex_iff)
next
  fix f k c
  assume v: "validateFieldIndex s" and l: "Schema_Lookup s f = Some (k, c)"
  have ok: "schema_ok s" using v BuildSchema_ok unfolding validateFieldIndex_iff by blast
  show "c < kind_count s k" using schema_ok_column(1)[OF ok l] .
  fix g assume "Schema_Lookup s g = Some (k, c)"
  then show "g = f" using schema_ok_disjoint[OF ok _ l] by simp
qed

theorem field_index_exact_witness:
  "let s = \<lparr>is_Kinds = [ValueKindSymbol, ValueKindInteger, ValueKindSymbol], is_Columns = [0, 0, 1],
            is_Counts = [0, 2, 1, 0, 0, 0]\<rparr>
   in validateFieldIndex s \<and> BuildSchema (is_Kinds s) = Ok s \<and> Schema_Lookup s 3 = Some (ValueKindSymbol, 1) \<and>
      (\<forall>g. Schema_Lookup s g = Some (ValueKindSymbol, 1) \<longrightarrow> g = 3)"
proof -
  let ?s = "\<lparr>is_Kinds = [ValueKindSymbol, ValueKindInteger, ValueKindSymbol], is_Columns = [0, 0, 1],
            is_Counts = [0, 2, 1, 0, 0, 0]\<rparr>"
  have v: "validateFieldIndex ?s"
    by (simp add: validateFieldIndex_def zero_counts_def kind_Valid_def) (simp add: numeral_eq_Suc)
  have l: "Schema_Lookup ?s 3 = Some (ValueKindSymbol, 1)" by (simp add: Schema_Lookup_def)
  show ?thesis unfolding Let_def using field_index_exact[of ?s] v l by blast
qed

end
