(* ===== verification/NR_PolicyIndex.thy ===== *)
theory NR_PolicyIndex
  imports NR_Schema
begin

text \<open>
  The applicability index of \<^verbatim>\<open>internal/index/policy.go\<close> and \<^verbatim>\<open>query.go\<close>: for every selector field
  a sorted list of values, for every value a bitmap of the requirements that the value leaves
  possible, and per field a wildcard bitmap for values the index does not list.

  \<open>Policy_Build\<close> follows \<^verbatim>\<open>PolicyBuilder.Build\<close> stage by stage. The reusable scratch of the builder
  is cleared by \<^verbatim>\<open>resizeIndex\<close> before each use, so a build is a function of its arguments. The
  value scratch keeps the fixed length \<^verbatim>\<open>len(constraints.Values)\<close>, as in the code, so that copying
  into it truncates.
\<close>

section \<open>Building the index\<close>

record constraints =
  cn_Rows :: "nat list"
  cn_Fields :: "nat list"
  cn_ValueStarts :: "nat list"
  cn_ValueCounts :: "nat list"
  cn_Values :: "nat list"

record policy_index =
  pi_FieldIDs :: "nat list"
  pi_FieldValueStarts :: "nat list"
  pi_FieldValueCounts :: "nat list"
  pi_WildcardMasks :: "u64 list"
  pi_Values :: "nat list"
  pi_ValueMasks :: "u64 list"
  pi_AllMask :: "u64 list"
  pi_RequirementCount :: nat
  pi_WordCount :: nat

definition range_values :: "constraints \<Rightarrow> nat \<Rightarrow> nat list" where
  "range_values c row = take (cn_ValueCounts c ! row) (drop (cn_ValueStarts c ! row) (cn_Values c))"

definition valid_constraint_row :: "nat \<Rightarrow> constraints \<Rightarrow> nat \<Rightarrow> bool" where
  "valid_constraint_row requirementCount c row \<longleftrightarrow>
     \<not> (cn_Rows c ! row \<ge> requirementCount \<or> cn_Fields c ! row = 0 \<or> cn_ValueCounts c ! row = 0) \<and>
     cn_ValueStarts c ! row + cn_ValueCounts c ! row \<le> length (cn_Values c) \<and>
     list_all (\<lambda>v. v \<noteq> 0) (range_values c row)"

definition validateConstraints :: "nat \<Rightarrow> constraints \<Rightarrow> unit res" where
  "validateConstraints requirementCount c =
     (let n = length (cn_Rows c) in
      if length (cn_Fields c) \<noteq> n \<or> length (cn_ValueStarts c) \<noteq> n \<or> length (cn_ValueCounts c) \<noteq> n
        then Err ErrInvalidPolicy
      else if n > MaxUint32 \<or> length (cn_Values c) > MaxUint32 \<or> requirementCount > MaxInt
        then Err ErrIndexTooLarge
      else if list_all (valid_constraint_row requirementCount c) [0..<n] then Ok ()
      else Err ErrInvalidPolicy)"

text \<open>\<^verbatim>\<open>compactFields\<close> and \<^verbatim>\<open>compactSymbols\<close>: drop each element equal to its predecessor.\<close>

fun compact_ids :: "nat list \<Rightarrow> nat list" where
  "compact_ids [] = []"
| "compact_ids [x] = [x]"
| "compact_ids (x # y # xs) = (if y = x then compact_ids (x # xs) else x # compact_ids (y # xs))"

definition policyWordCount :: "nat \<Rightarrow> nat" where
  "policyWordCount requirementCount = (requirementCount + 63) div 64"

definition mark_row :: "constraints \<Rightarrow> nat \<Rightarrow> nat \<Rightarrow> bool list \<Rightarrow> bool list res" where
  "mark_row c field row marks =
     (if cn_Fields c ! row \<noteq> field then Ok marks
      else let requirementRow = cn_Rows c ! row in
        rbind (idx marks requirementRow) (\<lambda>marked.
        if marked then Err ErrInvalidPolicy else upd marks requirementRow True))"

definition check_duplicates :: "nat \<Rightarrow> constraints \<Rightarrow> nat list \<Rightarrow> unit res" where
  "check_duplicates requirementCount c flds =
     res_foldM (\<lambda>field _.
       rbind (res_foldM (mark_row c field) [0..<length (cn_Fields c)] (replicate requirementCount False))
         (\<lambda>_. Ok ())) flds ()"

definition collect_values :: "nat \<Rightarrow> constraints \<Rightarrow> nat \<Rightarrow> nat list" where
  "collect_values start c field =
     fold (\<lambda>row acc. if cn_Fields c ! row \<noteq> field then acc
        else acc @ take (length (cn_Values c) - (start + length acc)) (range_values c row))
       [0..<length (cn_Fields c)] []"

fun layout_values ::
  "constraints \<Rightarrow> nat list \<Rightarrow> nat list \<times> nat list \<times> nat list \<Rightarrow> nat list \<times> nat list \<times> nat list" where
  "layout_values c [] st = st"
| "layout_values c (field # flds) (vals, starts, counts) =
     (let start = length vals; fieldValues = compact_ids (sort (collect_values start c field)) in
      layout_values c flds (vals @ fieldValues, starts @ [start], counts @ [length fieldValues]))"

definition all_mask :: "nat \<Rightarrow> u64 list" where
  "all_mask requirementCount =
     (let words = policyWordCount requirementCount; m = replicate words (NOT 0); remainder = requirementCount mod 64 in
      if remainder \<noteq> 0 then m[words - 1 := push_bit remainder 1 - 1] else m)"

definition index_value :: "nat list \<Rightarrow> nat \<Rightarrow> nat \<Rightarrow> nat \<Rightarrow> u64 \<Rightarrow> nat \<Rightarrow> u64 list \<Rightarrow> u64 list res" where
  "index_value fieldValues fieldStart words word b v masks =
     (case binary_search fieldValues v of (relative, found) \<Rightarrow>
        if \<not> found then Panic ''index: canonical value disappeared''
        else let k = (fieldStart + relative) * words + word in
          rbind (idx masks k) (\<lambda>m. upd masks k (m OR b)))"

definition index_constraint ::
  "constraints \<Rightarrow> nat list \<Rightarrow> nat list \<Rightarrow> nat list \<Rightarrow> nat list \<Rightarrow> nat \<Rightarrow> nat \<Rightarrow>
   u64 list \<times> u64 list \<Rightarrow> (u64 list \<times> u64 list) res" where
  "index_constraint c fieldIDs starts counts vals words row st =
     (case st of (wildcard, masks) \<Rightarrow>
      case binary_search fieldIDs (cn_Fields c ! row) of (fieldRow, found) \<Rightarrow>
        if \<not> found then Panic ''index: canonical field disappeared''
        else
          let requirementRow = cn_Rows c ! row; word = requirementRow div 64; b = row_bit requirementRow;
              k = fieldRow * words + word; fieldStart = starts ! fieldRow; fieldEnd = fieldStart + counts ! fieldRow in
          rbind (idx wildcard k) (\<lambda>m. rbind (upd wildcard k (m AND NOT b)) (\<lambda>wildcard'.
          rbind (subslice vals fieldStart fieldEnd) (\<lambda>fieldValues.
          rbind (res_foldM (index_value fieldValues fieldStart words word b) (range_values c row) masks) (\<lambda>masks'.
          Ok (wildcard', masks'))))))"

definition or_wildcard :: "u64 list \<Rightarrow> nat \<Rightarrow> nat \<Rightarrow> nat \<Rightarrow> u64 list \<Rightarrow> u64 list" where
  "or_wildcard wildcard words fieldRow valueRow masks =
     splice masks (valueRow * words)
       (map (\<lambda>w. masks ! (valueRow * words + w) OR wildcard ! (fieldRow * words + w)) [0..<words])"

definition merge_wildcards ::
  "u64 list \<Rightarrow> nat list \<Rightarrow> nat list \<Rightarrow> nat \<Rightarrow> nat list \<Rightarrow> u64 list \<Rightarrow> u64 list" where
  "merge_wildcards wildcard starts counts words fieldRows masks =
     fold (\<lambda>fieldRow. fold (or_wildcard wildcard words fieldRow)
             [starts ! fieldRow..<starts ! fieldRow + counts ! fieldRow]) fieldRows masks"

definition Policy_Build :: "nat \<Rightarrow> constraints \<Rightarrow> policy_index res" where
  "Policy_Build requirementCount c =
     rbind (validateConstraints requirementCount c) (\<lambda>_.
     let n = length (cn_Fields c); flds = compact_ids (sort (cn_Fields c));
         words = policyWordCount requirementCount in
     if (length flds * words) mod 2 ^ 64 > MaxInt \<or> (length (cn_Values c) * words) mod 2 ^ 64 > MaxInt
       then Err ErrIndexTooLarge
     else
       rbind (check_duplicates requirementCount c flds) (\<lambda>_.
       case layout_values c flds ([], [], []) of (vals, starts, counts) \<Rightarrow>
       rbind (res_foldM (index_constraint c flds starts counts vals words) [0..<n]
           (concat (replicate (length flds) (all_mask requirementCount)),
            replicate (length vals * words) 0)) (\<lambda>(wildcard, masks).
       Ok \<lparr>pi_FieldIDs = flds, pi_FieldValueStarts = starts, pi_FieldValueCounts = counts,
           pi_WildcardMasks = wildcard, pi_Values = vals,
           pi_ValueMasks = merge_wildcards wildcard starts counts words [0..<length flds] masks,
           pi_AllMask = all_mask requirementCount, pi_RequirementCount = requirementCount,
           pi_WordCount = words\<rparr>)))"

section \<open>Queries\<close>

text \<open>
  The selection loop shared by \<^verbatim>\<open>Policy.Candidates\<close> and \<^verbatim>\<open>Query.Candidates\<close>: each selector yields a
  mask to intersect with, or none; the loop stops once no candidate is left.
\<close>

fun and_loop :: "nat \<Rightarrow> u64 list option res list \<Rightarrow> u64 list \<Rightarrow> u64 list res" where
  "and_loop words [] dst = Ok dst"
| "and_loop words (sel # sels) dst =
     rbind sel (\<lambda>m. case m of
        None \<Rightarrow> and_loop words sels dst
      | Some m \<Rightarrow>
          let dst' = map (\<lambda>w. dst ! w AND m ! w) [0..<words] in
          if list_all (\<lambda>w. w = 0) dst' then Ok dst' else and_loop words sels dst')"

definition select_mask :: "policy_index \<Rightarrow> nat \<Rightarrow> nat \<Rightarrow> u64 list res" where
  "select_mask p fieldRow v =
     (let valueStart = pi_FieldValueStarts p ! fieldRow;
          valueEnd = valueStart + pi_FieldValueCounts p ! fieldRow; words = pi_WordCount p in
      rbind (subslice (pi_Values p) valueStart valueEnd) (\<lambda>vals.
      case binary_search vals v of (valueRow, found) \<Rightarrow>
        if found then subslice (pi_ValueMasks p) ((valueRow + valueStart) * words) ((valueRow + valueStart + 1) * words)
        else subslice (pi_WildcardMasks p) (fieldRow * words) ((fieldRow + 1) * words)))"



definition Query_Candidates :: "policy_index \<Rightarrow> u64 list \<Rightarrow> nat list \<Rightarrow> nat list \<Rightarrow> u64 list res" where
  "Query_Candidates p dst vals present =
     (if length dst \<noteq> pi_WordCount p \<or> length vals \<noteq> length (pi_FieldIDs p) \<or>
         length present \<noteq> length (pi_FieldIDs p) then Err ErrInvalidQuery
      else and_loop (pi_WordCount p)
        (map (\<lambda>i. if present ! i = 0 then Ok None else res_map Some (select_mask p i (vals ! i)))
          [0..<length (pi_FieldIDs p)]) (pi_AllMask p))"

text \<open>\<^verbatim>\<open>validBoundPolicy\<close>, in its three groups of checks: shape, fields and values, masks.\<close>

definition bound_shape :: "policy_index \<Rightarrow> bool" where
  "bound_shape p =
     (let words = pi_WordCount p; fieldCount = length (pi_FieldIDs p); valueCount = length (pi_Values p) in
      \<not> (pi_WordCount p \<noteq> policyWordCount (pi_RequirementCount p) \<or> length (pi_AllMask p) \<noteq> words \<or>
         length (pi_FieldValueStarts p) \<noteq> fieldCount \<or> length (pi_FieldValueCounts p) \<noteq> fieldCount) \<and>
      \<not> ((fieldCount \<noteq> 0 \<and> words > MaxUint64 div fieldCount) \<or> (valueCount \<noteq> 0 \<and> words > MaxUint64 div valueCount) \<or>
         length (pi_WildcardMasks p) \<noteq> (fieldCount * words) mod 2 ^ 64 \<or>
         length (pi_ValueMasks p) \<noteq> (valueCount * words) mod 2 ^ 64))"

definition strictly_ascending :: "nat list \<Rightarrow> bool" where
  "strictly_ascending xs = list_all (\<lambda>i. xs ! i \<noteq> 0 \<and> (i \<noteq> 0 \<longrightarrow> xs ! (i - 1) < xs ! i)) [0..<length xs]"

definition bound_field :: "policy_index \<Rightarrow> nat \<Rightarrow> bool" where
  "bound_field p i =
     (let start = pi_FieldValueStarts p ! i; count = pi_FieldValueCounts p ! i in
      \<not> (pi_FieldIDs p ! i = 0 \<or> (i \<noteq> 0 \<and> pi_FieldIDs p ! i \<le> pi_FieldIDs p ! (i - 1))) \<and>
      \<not> (count = 0 \<or> start + count < start \<or> start + count > length (pi_Values p) \<or> (i = 0 \<and> start \<noteq> 0) \<or>
         (i \<noteq> 0 \<and> start \<noteq> pi_FieldValueStarts p ! (i - 1) + pi_FieldValueCounts p ! (i - 1))) \<and>
      strictly_ascending (take count (drop start (pi_Values p))))"

definition validBoundPolicy :: "policy_index \<Rightarrow> bool" where
  "validBoundPolicy p =
     (let words = pi_WordCount p; n = length (pi_FieldIDs p) in
      bound_shape p \<and>
      list_all (\<lambda>w. pi_AllMask p ! w =
        (if w + 1 = length (pi_AllMask p) \<and> pi_RequirementCount p mod 64 \<noteq> 0
         then push_bit (pi_RequirementCount p mod 64) 1 - 1 else NOT 0)) [0..<length (pi_AllMask p)] \<and>
      list_all (bound_field p) [0..<n] \<and>
      (if n = 0 then length (pi_Values p) = 0
       else pi_FieldValueStarts p ! (n - 1) + pi_FieldValueCounts p ! (n - 1) = length (pi_Values p)) \<and>
      list_all (\<lambda>w.
        list_all (\<lambda>fieldRow. pi_WildcardMasks p ! (fieldRow * words + w) AND NOT (pi_AllMask p ! w) = 0) [0..<n] \<and>
        list_all (\<lambda>valueRow. pi_ValueMasks p ! (valueRow * words + w) AND NOT (pi_AllMask p ! w) = 0)
          [0..<length (pi_Values p)]) [0..<length (pi_AllMask p)])"

text \<open>\<^verbatim>\<open>Query.Bind\<close>: a pointer that is already bound is not validated again.\<close>

definition Query_Bind :: "(nat \<times> policy_index) option \<Rightarrow> (nat \<times> policy_index) option \<Rightarrow>
    (nat \<times> policy_index) option res" where
  "Query_Bind bound arg =
     (case arg of None \<Rightarrow> Err ErrInvalidPolicy
      | Some (addr, p) \<Rightarrow>
        if map_option fst bound = Some addr then Ok bound
        else if \<not> validBoundPolicy p then Err ErrInvalidPolicy
        else Ok (Some (addr, p)))"

section \<open>Canonical lists\<close>

lemma compact_ids_eq: "compact_ids xs = remdups_adj xs"
  by (induction xs rule: compact_ids.induct) auto

lemma sorted_compact: "sorted xs \<Longrightarrow> sorted_wrt (<) (compact_ids xs)"
proof (induction xs rule: compact_ids.induct)
  case (3 x y xs)
  have "set (compact_ids (y # xs)) = set (y # xs)" by (simp add: compact_ids_eq)
  with 3 show ?case by fastforce
qed simp_all

lemma canonical_ids:
  "set (compact_ids (sort xs)) = set xs" "sorted (compact_ids (sort xs))" "distinct (compact_ids (sort xs))"
  using sorted_compact[OF sorted_sort, of xs] by (simp_all add: compact_ids_eq strict_sorted_iff)

lemma strictly_ascending_iff: "strictly_ascending xs \<longleftrightarrow> sorted_wrt (<) xs \<and> 0 \<notin> set xs"
proof
  assume a: "strictly_ascending xs"
  then have "0 \<notin> set xs" by (auto simp: strictly_ascending_def list_all_iff in_set_conv_nth)
  moreover have "sorted_wrt (<) xs"
    using a by (auto simp: sorted_wrt_iff_nth_Suc_transp strictly_ascending_def list_all_iff)
  ultimately show "sorted_wrt (<) xs \<and> 0 \<notin> set xs" by simp
next
  assume "sorted_wrt (<) xs \<and> 0 \<notin> set xs"
  then show "strictly_ascending xs"
    by (auto simp: strictly_ascending_def list_all_iff sorted_wrt_nth_less in_set_conv_nth)
qed

section \<open>What a build produces\<close>

definition field_constraints :: "constraints \<Rightarrow> nat \<Rightarrow> nat list" where
  "field_constraints c f = filter (\<lambda>row. cn_Fields c ! row = f) [0..<length (cn_Fields c)]"

definition field_values :: "constraints \<Rightarrow> nat \<Rightarrow> nat list" where
  "field_values c f = compact_ids (sort (concat (map (range_values c) (field_constraints c f))))"

text \<open>The value ranges do not need more room than the value column has; disjoint ranges satisfy this.\<close>

definition ranges_fit :: "constraints \<Rightarrow> bool" where
  "ranges_fit c \<longleftrightarrow> sum_list (cn_ValueCounts c) \<le> length (cn_Values c)"

lemma length_range_values:
  "valid_constraint_row rc c row \<Longrightarrow> length (range_values c row) = cn_ValueCounts c ! row"
  by (auto simp: valid_constraint_row_def range_values_def)

lemma field_values_canonical:
  "set (field_values c f) = (\<Union>row \<in> set (field_constraints c f). set (range_values c row))"
  "sorted (field_values c f)" "distinct (field_values c f)"
  unfolding field_values_def by (simp_all add: canonical_ids)

definition field_room :: "constraints \<Rightarrow> nat \<Rightarrow> nat" where
  "field_room c f = length (concat (map (range_values c) (field_constraints c f)))"

lemma collect_values_fit:
  assumes "start + field_room c f \<le> length (cn_Values c)"
  shows "collect_values start c f = concat (map (range_values c) (field_constraints c f))"
proof -
  let ?L = "length (cn_Values c)"
  have "start + length acc + length (concat (map (range_values c) (filter (\<lambda>r. cn_Fields c ! r = f) rows))) \<le> ?L \<Longrightarrow>
     fold (\<lambda>row acc. if cn_Fields c ! row \<noteq> f then acc
        else acc @ take (?L - (start + length acc)) (range_values c row)) rows acc =
     acc @ concat (map (range_values c) (filter (\<lambda>r. cn_Fields c ! r = f) rows))" for rows acc
    by (induction rows arbitrary: acc) auto
  from this[of "[]" "[0..<length (cn_Fields c)]"] assms show ?thesis
    by (simp add: collect_values_def field_constraints_def field_room_def)
qed

lemma length_field_values: "length (field_values c f) \<le> field_room c f"
  unfolding field_values_def compact_ids_eq field_room_def by (metis length_sort remdups_adj_length)

lemma field_room_total:
  assumes "distinct fs" "\<And>row. row < length (cn_Fields c) \<Longrightarrow> valid_constraint_row rc c row"
    and "length (cn_ValueCounts c) = length (cn_Fields c)"
  shows "sum_list (map (field_room c) fs) \<le> sum_list (cn_ValueCounts c)"
proof -
  let ?n = "length (cn_Fields c)"
  have room: "field_room c f = (\<Sum>row < ?n. if cn_Fields c ! row = f then cn_ValueCounts c ! row else 0)" for f
  proof -
    have "field_room c f = sum_list (map (\<lambda>row. cn_ValueCounts c ! row) (field_constraints c f))"
      using length_range_values[OF assms(2)]
      by (auto simp: field_room_def field_constraints_def length_concat comp_def intro!: arg_cong[of _ _ sum_list])
    also have "\<dots> = (\<Sum>row \<in> set (field_constraints c f). cn_ValueCounts c ! row)"
      by (rule sum_list_distinct_conv_sum_set) (simp add: field_constraints_def)
    also have "set (field_constraints c f) = {row \<in> {..<?n}. cn_Fields c ! row = f}"
      by (auto simp: field_constraints_def)
    finally show ?thesis by (simp only: sum.inter_filter[OF finite_lessThan])
  qed
  have "sum_list (map (field_room c) fs) = (\<Sum>f \<in> set fs. field_room c f)"
    using assms(1) by (rule sum_list_distinct_conv_sum_set)
  also have "\<dots> = (\<Sum>row < ?n. \<Sum>f \<in> set fs. if cn_Fields c ! row = f then cn_ValueCounts c ! row else 0)"
    unfolding room by (rule sum.swap)
  also have "\<dots> \<le> (\<Sum>row < ?n. cn_ValueCounts c ! row)"
    by (intro sum_mono) (simp add: sum.delta)
  also have "\<dots> = sum_list (cn_ValueCounts c)" using assms(3) by (simp add: sum_list_sum_nth atLeast0LessThan)
  finally show ?thesis .
qed

lemma layout_values_csr:
  assumes "length vals + sum_list (map (field_room c) fs) \<le> length (cn_Values c)"
  shows "layout_values c fs (vals, starts, counts) =
    (vals @ concat (map (field_values c) fs),
     starts @ map (\<lambda>b. length vals + csr_start (field_values c) fs b) [0..<length fs],
     counts @ map (\<lambda>f. length (field_values c f)) fs)"
  using assms
proof (induction fs arbitrary: vals starts counts)
  case Nil
  then show ?case by simp
next
  case (Cons f fs)
  have fv: "compact_ids (sort (collect_values (length vals) c f)) = field_values c f"
    using collect_values_fit[of "length vals" c f] Cons.prems by (simp add: field_values_def)
  have "layout_values c fs (vals @ field_values c f, starts @ [length vals], counts @ [length (field_values c f)]) =
    ((vals @ field_values c f) @ concat (map (field_values c) fs),
     (starts @ [length vals]) @ map (\<lambda>b. length (vals @ field_values c f) + csr_start (field_values c) fs b) [0..<length fs],
     (counts @ [length (field_values c f)]) @ map (\<lambda>f. length (field_values c f)) fs)"
    using Cons.prems length_field_values[of c f] by (intro Cons.IH) simp
  moreover have "map (\<lambda>b. length vals + csr_start (field_values c) (f # fs) b) [0..<length (f # fs)] =
     length vals # map (\<lambda>b. length (vals @ field_values c f) + csr_start (field_values c) fs b) [0..<length fs]"
    by (simp only: length_Cons upt_conv_Cons zero_less_Suc map_Suc_upt[symmetric] list.map)
      (simp add: csr_start_def add.assoc comp_def)
  ultimately show ?case by (simp add: Let_def fv)
qed


section \<open>The masks of a build\<close>

definition slab_is :: "nat \<Rightarrow> nat \<Rightarrow> u64 list \<Rightarrow> (nat \<Rightarrow> nat \<Rightarrow> bool) \<Rightarrow> bool" where
  "slab_is nb rows ms P \<longleftrightarrow> length ms = nb * word_count rows \<and>
     (\<forall>b < nb. block ms (word_count rows) b = mk_bitmap rows (P b))"

lemma slab_is_cong:
  assumes "slab_is nb rows ms P" "\<And>b r. b < nb \<Longrightarrow> r < rows \<Longrightarrow> P b r \<longleftrightarrow> Q b r"
  shows "slab_is nb rows ms Q"
  using assms mk_bitmap_cong unfolding slab_is_def by metis

lemma slab_nth:
  "slab_is nb rows ms P \<Longrightarrow> b < nb \<Longrightarrow> w < word_count rows \<Longrightarrow>
   ms ! (b * word_count rows + w) = mk_bitmap rows (P b) ! w"
  using nth_block[of ms nb "word_count rows" b w] by (simp add: slab_is_def)

lemma policyWordCount_eq [simp]: "policyWordCount rc = word_count rc"
  by (simp add: policyWordCount_def word_count_def)

lemma all_mask_eq: "all_mask rc = mk_bitmap rc (\<lambda>_. True)"
proof -
  have "all_mask rc = map (valid_bits rc) [0..<word_count rc]"
  proof (rule nth_equalityI)
    fix w assume "w < length (all_mask rc)"
    then have "w < word_count rc" by (auto simp: all_mask_def Let_def split: if_splits)
    then show "all_mask rc ! w = map (valid_bits rc) [0..<word_count rc] ! w"
      by (auto simp: all_mask_def valid_bits_def Let_def nth_list_update)
  qed (simp add: all_mask_def Let_def)
  then show ?thesis by (simp add: mk_bitmap_all)
qed

lemma slab_set_bit:
  assumes "slab_is nb rows ms P" "b < nb" "r < rows"
  defines "k \<equiv> b * word_count rows + r div 64"
  shows "k < length ms" "slab_is nb rows (ms[k := ms ! k OR row_bit r]) (\<lambda>b' x. P b' x \<or> (b' = b \<and> x = r))"
proof -
  have len: "length ms = nb * word_count rows" and blk: "b' < nb \<Longrightarrow> block ms (word_count rows) b' = mk_bitmap rows (P b')" for b'
    using assms(1) by (simp_all add: slab_is_def)
  have w: "r div 64 < word_count rows" using assms(3) by simp
  show "k < length ms" unfolding k_def len using assms(2) w by (rule block_index_bound)
  have mk: "ms ! k = mk_bitmap rows (P b) ! (r div 64)"
    using nth_block[OF len assms(2) w] blk[OF assms(2)] unfolding k_def by simp
  have "block (ms[k := ms ! k OR row_bit r]) (word_count rows) b' =
      mk_bitmap rows (\<lambda>x. P b' x \<or> (b' = b \<and> x = r))" if b': "b' < nb" for b'
    using block_update[OF len assms(2) b' w, of "ms ! k OR row_bit r"] blk[OF b'] blk[OF assms(2)]
      set_row_mk_bitmap[OF assms(3), of "P b"] mk
    unfolding k_def by (simp add: set_row_def)
  then show "slab_is nb rows (ms[k := ms ! k OR row_bit r]) (\<lambda>b' x. P b' x \<or> (b' = b \<and> x = r))"
    using len by (simp add: slab_is_def)
qed

lemma slab_clear_bit:
  assumes "slab_is nb rows ms P" "b < nb" "r < rows"
  defines "k \<equiv> b * word_count rows + r div 64"
  shows "k < length ms" "slab_is nb rows (ms[k := ms ! k AND NOT (row_bit r)]) (\<lambda>b' x. P b' x \<and> \<not> (b' = b \<and> x = r))"
proof -
  have len: "length ms = nb * word_count rows" and blk: "b' < nb \<Longrightarrow> block ms (word_count rows) b' = mk_bitmap rows (P b')" for b'
    using assms(1) by (simp_all add: slab_is_def)
  have w: "r div 64 < word_count rows" using assms(3) by simp
  show "k < length ms" unfolding k_def len using assms(2) w by (rule block_index_bound)
  have mk: "ms ! k = mk_bitmap rows (P b) ! (r div 64)"
    using nth_block[OF len assms(2) w] blk[OF assms(2)] unfolding k_def by simp
  have "block (ms[k := ms ! k AND NOT (row_bit r)]) (word_count rows) b' =
      mk_bitmap rows (\<lambda>x. P b' x \<and> \<not> (b' = b \<and> x = r))" if b': "b' < nb" for b'
    using block_update[OF len assms(2) b' w, of "ms ! k AND NOT (row_bit r)"] blk[OF b'] blk[OF assms(2)]
      clear_row_mk_bitmap[OF assms(3), of "P b"] mk
    unfolding k_def by (cases "b' = b") simp_all
  then show "slab_is nb rows (ms[k := ms ! k AND NOT (row_bit r)]) (\<lambda>b' x. P b' x \<and> \<not> (b' = b \<and> x = r))"
    using len by (simp add: slab_is_def)
qed

lemma index_value_fold:
  assumes "slab_is nv rows ms P" "r < rows"
    and fv: "fv = take cnt (drop start vals)" "sorted fv" "distinct fv" "start + cnt \<le> length vals" "nv = length vals"
    and "set vs \<subseteq> set fv"
  shows "\<exists>ms'. res_foldM (index_value fv start (word_count rows) (r div 64) (row_bit r)) vs ms = Ok ms' \<and>
     slab_is nv rows ms' (\<lambda>b x. P b x \<or> (x = r \<and> start \<le> b \<and> b < start + cnt \<and> vals ! b \<in> set vs))"
  using assms(1) \<open>set vs \<subseteq> set fv\<close>
proof (induction vs arbitrary: ms P)
  case Nil
  then show ?case by simp
next
  case (Cons v vs)
  have len: "length fv = cnt" using fv by simp
  obtain k where k: "k < length fv" "fv ! k = v" using Cons.prems(2) by (auto simp: in_set_conv_nth)
  have bs: "binary_search fv v = (k, True)" using binary_search_distinct[OF fv(2,3) k(1)] k(2) by simp
  have b: "start + k < nv" using k(1) len fv(4,5) by simp
  have vk: "vals ! (start + k) = v" using k fv(1,4) by auto
  have own: "start \<le> b' \<and> b' < start + cnt \<and> vals ! b' = v \<longleftrightarrow> b' = start + k" for b'
  proof
    assume a: "start \<le> b' \<and> b' < start + cnt \<and> vals ! b' = v"
    then obtain j where j: "b' = start + j" "j < cnt" by (metis add_less_cancel_left le_add_diff_inverse)
    then have "fv ! j = v" using a fv(1,4) by auto
    then have "j = k" using fv(3) k j(2) len by (metis nth_eq_iff_index_eq)
    then show "b' = start + k" using j by simp
  next
    assume "b' = start + k"
    then show "start \<le> b' \<and> b' < start + cnt \<and> vals ! b' = v" using k(1) len vk by simp
  qed
  let ?k = "(start + k) * word_count rows + r div 64"
  let ?ms = "ms[?k := ms ! ?k OR row_bit r]"
  note st = slab_set_bit[OF Cons.prems(1) b assms(2)]
  have step: "index_value fv start (word_count rows) (r div 64) (row_bit r) v ms = Ok ?ms"
    using st(1) by (simp add: index_value_def bs Let_def)
  from Cons.IH[OF st(2)] Cons.prems(2) obtain ms' where
    "res_foldM (index_value fv start (word_count rows) (r div 64) (row_bit r)) vs ?ms = Ok ms'"
    "slab_is nv rows ms' (\<lambda>b x. (P b x \<or> (b = start + k \<and> x = r)) \<or>
        (x = r \<and> start \<le> b \<and> b < start + cnt \<and> vals ! b \<in> set vs))" by auto
  moreover have "((P b x \<or> (b = start + k \<and> x = r)) \<or> (x = r \<and> start \<le> b \<and> b < start + cnt \<and> vals ! b \<in> set vs))
      \<longleftrightarrow> (P b x \<or> (x = r \<and> start \<le> b \<and> b < start + cnt \<and> vals ! b \<in> set (v # vs)))" for b x
    unfolding own[symmetric] by auto
  ultimately show ?case using step by simp
qed


text \<open>The layout of the canonical columns, as the constraint pass sees it.\<close>

abbreviation policy_fields :: "constraints \<Rightarrow> nat list" where
  "policy_fields c \<equiv> compact_ids (sort (cn_Fields c))"

definition value_start :: "constraints \<Rightarrow> nat \<Rightarrow> nat" where
  "value_start c b = csr_start (field_values c) (policy_fields c) b"

definition in_field :: "constraints \<Rightarrow> nat \<Rightarrow> nat \<Rightarrow> bool" where
  "in_field c b vr \<longleftrightarrow> value_start c b \<le> vr \<and> vr < value_start c b + length (field_values c (policy_fields c ! b))"

abbreviation policy_values :: "constraints \<Rightarrow> nat list" where
  "policy_values c \<equiv> concat (map (field_values c) (policy_fields c))"

abbreviation policy_starts :: "constraints \<Rightarrow> nat list" where
  "policy_starts c \<equiv> map (value_start c) [0..<length (policy_fields c)]"

abbreviation policy_counts :: "constraints \<Rightarrow> nat list" where
  "policy_counts c \<equiv> map (\<lambda>f. length (field_values c f)) (policy_fields c)"

definition constraint_at :: "constraints \<Rightarrow> nat \<Rightarrow> nat \<Rightarrow> nat \<Rightarrow> bool" where
  "constraint_at c i f x \<longleftrightarrow> cn_Fields c ! i = f \<and> cn_Rows c ! i = x"

lemma constraints_fold:
  assumes "\<And>row. row < length (cn_Fields c) \<Longrightarrow> valid_constraint_row rc c row" "k \<le> length (cn_Fields c)"
  shows "\<exists>w m. res_foldM (index_constraint c (policy_fields c) (policy_starts c) (policy_counts c) (policy_values c)
        (word_count rc)) [0..<k]
      (concat (replicate (length (policy_fields c)) (all_mask rc)), replicate (length (policy_values c) * word_count rc) 0)
      = Ok (w, m) \<and>
     slab_is (length (policy_fields c)) rc w (\<lambda>b x. \<not> (\<exists>i < k. constraint_at c i (policy_fields c ! b) x)) \<and>
     slab_is (length (policy_values c)) rc m (\<lambda>vr x. \<exists>i < k. \<exists>b < length (policy_fields c).
        constraint_at c i (policy_fields c ! b) x \<and> in_field c b vr \<and> policy_values c ! vr \<in> set (range_values c i))"
  using assms(2)
proof (induction k)
  case 0
  have "length (all_mask rc) = word_count rc" by (simp add: all_mask_eq)
  then have "slab_is (length (policy_fields c)) rc (concat (replicate (length (policy_fields c)) (all_mask rc))) (\<lambda>b x. True)"
    using block_concat_replicate[of _ "length (policy_fields c)" "all_mask rc"]
    by (simp add: slab_is_def length_concat sum_list_replicate all_mask_eq)
  moreover have "slab_is nv rc (replicate (nv * word_count rc) 0) (\<lambda>b x. False)" for nv
    using mk_bitmap_zero_iff[of rc "\<lambda>_. False"] by (simp add: slab_is_def block_replicate)
  ultimately show ?case by simp
next
  case (Suc k)
  let ?fs = "policy_fields c" and ?vals = "policy_values c" and ?wc = "word_count rc"
  let ?step = "index_constraint c ?fs (policy_starts c) (policy_counts c) ?vals ?wc"
  from Suc obtain w m where IH: "res_foldM ?step [0..<k]
      (concat (replicate (length ?fs) (all_mask rc)), replicate (length ?vals * ?wc) 0) = Ok (w, m)"
    and W: "slab_is (length ?fs) rc w (\<lambda>b x. \<not> (\<exists>i < k. constraint_at c i (?fs ! b) x))"
    and M: "slab_is (length ?vals) rc m (\<lambda>vr x. \<exists>i < k. \<exists>b < length ?fs.
        constraint_at c i (?fs ! b) x \<and> in_field c b vr \<and> ?vals ! vr \<in> set (range_values c i))" by auto
  let ?f = "cn_Fields c ! k" and ?r = "cn_Rows c ! k"
  have v: "valid_constraint_row rc c k" using assms(1) Suc.prems by simp
  have r: "?r < rc" using v by (simp add: valid_constraint_row_def)
  have "?f \<in> set ?fs" using Suc.prems by (simp add: canonical_ids)
  then obtain b where b: "b < length ?fs" "?fs ! b = ?f" by (auto simp: in_set_conv_nth)
  have bs: "binary_search ?fs ?f = (b, True)"
    using binary_search_distinct[OF canonical_ids(2,3) b(1)] b(2) by simp
  have uniq: "b' < length ?fs \<Longrightarrow> ?fs ! b' = ?f \<longleftrightarrow> b' = b" for b'
    using b canonical_ids(3) by (metis nth_eq_iff_index_eq)
  have rng: "take (length (field_values c ?f)) (drop (value_start c b) ?vals) = field_values c ?f"
      "value_start c b + length (field_values c ?f) \<le> length ?vals"
    using csr_range[OF b(1), of "field_values c"] b(2) by (simp_all add: value_start_def)
  have sub: "set (range_values c k) \<subseteq> set (field_values c ?f)"
    unfolding field_values_canonical(1) using Suc.prems by (auto simp: field_constraints_def Suc_le_eq)
  note wst = slab_clear_bit[OF W b(1) r]
  let ?k = "b * ?wc + ?r div 64"
  from index_value_fold[OF M r rng(1)[symmetric] _ _ rng(2) refl sub] field_values_canonical(2,3)
  obtain m' where m': "res_foldM (index_value (field_values c ?f) (value_start c b) ?wc (?r div 64) (row_bit ?r))
      (range_values c k) m = Ok m'"
    "slab_is (length ?vals) rc m' (\<lambda>vr x. (\<exists>i < k. \<exists>b < length ?fs.
        constraint_at c i (?fs ! b) x \<and> in_field c b vr \<and> ?vals ! vr \<in> set (range_values c i)) \<or>
        (x = ?r \<and> value_start c b \<le> vr \<and> vr < value_start c b + length (field_values c ?f) \<and>
          ?vals ! vr \<in> set (range_values c k)))" by blast
  have step: "?step k (w, m) = Ok (w[?k := w ! ?k AND NOT (row_bit ?r)], m')"
    using wst(1) m'(1) b rng by (simp add: index_constraint_def bs Let_def)
  have ca: "constraint_at c k (?fs ! b') x \<longleftrightarrow> b' = b \<and> x = ?r" if "b' < length ?fs" for b' x
    using uniq[OF that] by (auto simp: constraint_at_def)
  have "slab_is (length ?fs) rc (w[?k := w ! ?k AND NOT (row_bit ?r)])
      (\<lambda>b x. \<not> (\<exists>i < Suc k. constraint_at c i (?fs ! b) x))"
    by (rule slab_is_cong[OF wst(2)]) (auto simp: ca less_Suc_eq)
  moreover have "slab_is (length ?vals) rc m' (\<lambda>vr x. \<exists>i < Suc k. \<exists>b < length ?fs.
        constraint_at c i (?fs ! b) x \<and> in_field c b vr \<and> ?vals ! vr \<in> set (range_values c i))"
  proof (rule slab_is_cong[OF m'(2)], goal_cases)
    case (1 vr x)
    have "(\<exists>b' < length ?fs. constraint_at c k (?fs ! b') x \<and> in_field c b' vr \<and> ?vals ! vr \<in> set (range_values c k))
        \<longleftrightarrow> x = ?r \<and> in_field c b vr \<and> ?vals ! vr \<in> set (range_values c k)"
      using ca b(1) by blast
    then show ?case using b(2) by (simp only: less_Suc_eq ex_disj_distrib conj_disj_distribR simp_thms in_field_def conj_assoc)
  qed
  ultimately show ?case using IH step by (simp add: res_foldM_append)
qed

lemma slab_or_wildcard:
  assumes "slab_is nf rc w W" "slab_is nv rc m P" "fr < nf" "vr < nv"
  shows "slab_is nv rc (or_wildcard w (word_count rc) fr vr m) (\<lambda>b x. P b x \<or> (b = vr \<and> W fr x))"
proof -
  let ?wc = "word_count rc"
  have len: "length w = nf * ?wc" "length m = nv * ?wc"
    and blk: "block w ?wc fr = mk_bitmap rc (W fr)" "b < nv \<Longrightarrow> block m ?wc b = mk_bitmap rc (P b)" for b
    using assms by (simp_all add: slab_is_def)
  let ?ys = "map (\<lambda>i. m ! (vr * ?wc + i) OR w ! (fr * ?wc + i)) [0..<?wc]"
  have "?ys = map (\<lambda>i. mk_bitmap rc (P vr) ! i OR mk_bitmap rc (W fr) ! i) [0..<?wc]"
    using nth_block[OF len(2) assms(4)] nth_block[OF len(1) assms(3)] blk assms(4) by (intro map_cong) simp_all
  then have ys: "?ys = mk_bitmap rc (\<lambda>x. P vr x \<or> W fr x)" by (simp only: mk_bitmap_or)
  have "block (splice m (vr * ?wc) ?ys) ?wc b = mk_bitmap rc (\<lambda>x. P b x \<or> (b = vr \<and> W fr x))" if "b < nv" for b
    using block_splice[OF len(2) assms(4) that, of ?ys] blk(2)[OF that] ys by (cases "b = vr") simp_all
  moreover have "length (splice m (vr * ?wc) ?ys) = nv * ?wc"
    using block_bound[OF assms(4), of ?wc] len(2) by simp
  ultimately show ?thesis by (simp add: slab_is_def or_wildcard_def)
qed

lemma slab_merge_field:
  assumes "slab_is nf rc w W" "fr < nf" "\<forall>vr \<in> set vrs. vr < nv" "slab_is nv rc m P"
  shows "slab_is nv rc (fold (or_wildcard w (word_count rc) fr) vrs m) (\<lambda>b x. P b x \<or> (b \<in> set vrs \<and> W fr x))"
  using assms(3,4)
proof (induction vrs arbitrary: m P)
  case (Cons vr vrs)
  have "slab_is nv rc (or_wildcard w (word_count rc) fr vr m) (\<lambda>b x. P b x \<or> (b = vr \<and> W fr x))"
    using slab_or_wildcard[OF assms(1) Cons.prems(2) assms(2)] Cons.prems(1) by simp
  from Cons.IH[OF _ this] Cons.prems(1) have
    "slab_is nv rc (fold (or_wildcard w (word_count rc) fr) vrs (or_wildcard w (word_count rc) fr vr m))
       (\<lambda>b x. (P b x \<or> (b = vr \<and> W fr x)) \<or> (b \<in> set vrs \<and> W fr x))" by simp
  then have "slab_is nv rc (fold (or_wildcard w (word_count rc) fr) vrs (or_wildcard w (word_count rc) fr vr m))
       (\<lambda>b x. P b x \<or> (b \<in> set (vr # vrs) \<and> W fr x))" by (rule slab_is_cong) auto
  then show ?case by simp
qed simp

lemma slab_merge:
  assumes "slab_is nf rc w W" "\<forall>fr \<in> set frs. fr < nf \<and> starts ! fr + counts ! fr \<le> nv" "slab_is nv rc m P"
  shows "slab_is nv rc (merge_wildcards w starts counts (word_count rc) frs m)
    (\<lambda>b x. P b x \<or> (\<exists>fr \<in> set frs. starts ! fr \<le> b \<and> b < starts ! fr + counts ! fr \<and> W fr x))"
  using assms(2,3)
proof (induction frs arbitrary: m P)
  case Nil
  then show ?case by (simp add: merge_wildcards_def)
next
  case (Cons fr frs)
  let ?m = "fold (or_wildcard w (word_count rc) fr) [starts ! fr..<starts ! fr + counts ! fr] m"
  have "slab_is nv rc ?m (\<lambda>b x. P b x \<or> (b \<in> set [starts ! fr..<starts ! fr + counts ! fr] \<and> W fr x))"
    using Cons.prems by (intro slab_merge_field[OF assms(1)]) auto
  from Cons.IH[OF _ this] Cons.prems(1) have "slab_is nv rc (merge_wildcards w starts counts (word_count rc) frs ?m)
      (\<lambda>b x. (P b x \<or> (b \<in> set [starts ! fr..<starts ! fr + counts ! fr] \<and> W fr x)) \<or>
         (\<exists>fr \<in> set frs. starts ! fr \<le> b \<and> b < starts ! fr + counts ! fr \<and> W fr x))" by simp
  then show ?case by (simp add: merge_wildcards_def)
qed


section \<open>Correctness of a build\<close>

lemma marks_fold:
  assumes "\<forall>i \<in> set is. cn_Rows c ! i < length marks"
  shows "(\<exists>marks'. res_foldM (mark_row c f) is marks = Ok marks' \<and> distinct (map ((!) (cn_Rows c)) (filter (\<lambda>i. cn_Fields c ! i = f) is)) \<and>
      (\<forall>i \<in> set is. cn_Fields c ! i = f \<longrightarrow> \<not> marks ! (cn_Rows c ! i))) \<or>
     res_foldM (mark_row c f) is marks = Err ErrInvalidPolicy"
  using assms
proof (induction "is" arbitrary: marks)
  case Nil
  then show ?case by simp
next
  case (Cons i "is")
  show ?case
  proof (cases "cn_Fields c ! i = f")
    case False
    then show ?thesis using Cons.IH[of marks] Cons.prems by (simp add: mark_row_def)
  next
    case True
    show ?thesis
    proof (cases "marks ! (cn_Rows c ! i)")
      case marked: True
      then show ?thesis using True Cons.prems by (simp add: mark_row_def)
    next
      case False
      let ?m = "marks[cn_Rows c ! i := True]"
      have "mark_row c f i marks = Ok ?m" using True False Cons.prems by (simp add: mark_row_def)
      then show ?thesis using True False Cons.prems Cons.IH[of ?m]
        by (auto simp: nth_list_update split: if_splits)
    qed
  qed
qed

lemma check_duplicates_cases:
  assumes "\<And>row. row < length (cn_Fields c) \<Longrightarrow> valid_constraint_row rc c row"
  shows "(check_duplicates rc c fs = Ok () \<and>
      (\<forall>f \<in> set fs. distinct (map ((!) (cn_Rows c)) (field_constraints c f)))) \<or>
     check_duplicates rc c fs = Err ErrInvalidPolicy"
proof (induction fs)
  case Nil
  then show ?case by (simp add: check_duplicates_def)
next
  case (Cons f fs)
  have "cn_Rows c ! i < rc" if "i < length (cn_Fields c)" for i
    using assms[OF that] by (simp add: valid_constraint_row_def)
  then have "\<forall>i \<in> set [0..<length (cn_Fields c)]. cn_Rows c ! i < length (replicate rc False)" by simp
  from marks_fold[OF this, of f] Cons show ?case
    by (auto simp: check_duplicates_def field_constraints_def)
qed

lemma validateConstraints_Ok:
  assumes "validateConstraints rc c = Ok ()"
  shows "length (cn_Fields c) = length (cn_Rows c)" "length (cn_ValueStarts c) = length (cn_Rows c)"
    "length (cn_ValueCounts c) = length (cn_Fields c)"
    "\<And>row. row < length (cn_Fields c) \<Longrightarrow> valid_constraint_row rc c row"
    "length (cn_Rows c) \<le> MaxUint32" "length (cn_Values c) \<le> MaxUint32"
  using assms by (auto simp: validateConstraints_def Let_def list_all_iff split: if_splits)

lemma validateConstraints_cases:
  "validateConstraints rc c \<in> {Ok (), Err ErrInvalidPolicy, Err ErrIndexTooLarge}"
  by (simp add: validateConstraints_def Let_def)

definition requirement_allows :: "constraints \<Rightarrow> nat \<Rightarrow> nat \<Rightarrow> nat \<Rightarrow> bool" where
  "requirement_allows c f v x \<longleftrightarrow>
     (\<forall>i < length (cn_Fields c). constraint_at c i f x \<longrightarrow> v \<in> set (range_values c i))"

definition policy_built :: "nat \<Rightarrow> constraints \<Rightarrow> policy_index \<Rightarrow> bool" where
  "policy_built rc c p \<longleftrightarrow> pi_FieldIDs p = policy_fields c \<and> pi_FieldValueStarts p = policy_starts c \<and>
     pi_FieldValueCounts p = policy_counts c \<and> pi_Values p = policy_values c \<and>
     pi_AllMask p = mk_bitmap rc (\<lambda>_. True) \<and> pi_RequirementCount p = rc \<and> pi_WordCount p = word_count rc \<and>
     slab_is (length (policy_fields c)) rc (pi_WildcardMasks p)
       (\<lambda>b x. \<not> (\<exists>i < length (cn_Fields c). constraint_at c i (policy_fields c ! b) x)) \<and>
     slab_is (length (policy_values c)) rc (pi_ValueMasks p)
       (\<lambda>vr x. \<forall>b < length (policy_fields c). in_field c b vr \<longrightarrow>
          requirement_allows c (policy_fields c ! b) (policy_values c ! vr) x)"

lemma constraint_unique:
  assumes "distinct (map ((!) (cn_Rows c)) (field_constraints c f))"
    and "i < length (cn_Fields c)" "j < length (cn_Fields c)" "constraint_at c i f x" "constraint_at c j f x"
  shows "i = j"
  using assms inj_onD[of "(!) (cn_Rows c)" "set (field_constraints c f)" i j]
  by (auto simp: distinct_map field_constraints_def constraint_at_def)

lemma Policy_Build_cases:
  assumes "ranges_fit c"
  shows "(\<exists>p. Policy_Build rc c = Ok p \<and> policy_built rc c p \<and> validateConstraints rc c = Ok ()) \<or>
     Policy_Build rc c \<in> {Err ErrInvalidPolicy, Err ErrIndexTooLarge}"
proof (cases "validateConstraints rc c = Ok ()")
  case False
  then show ?thesis using validateConstraints_cases[of rc c] by (auto simp: Policy_Build_def)
next
  case True
  note v = validateConstraints_Ok[OF True]
  let ?fs = "policy_fields c" and ?vals = "policy_values c" and ?wc = "word_count rc" and ?n = "length (cn_Fields c)"
  show ?thesis
  proof (cases "(length ?fs * ?wc) mod 2 ^ 64 > MaxInt \<or> (length (cn_Values c) * ?wc) mod 2 ^ 64 > MaxInt")
    case big: True
    then show ?thesis using True by (auto simp: Policy_Build_def Let_def)
  next
    case fits: False
    consider (dup) "check_duplicates rc c ?fs = Err ErrInvalidPolicy"
      | (uniq) "check_duplicates rc c ?fs = Ok ()" "\<forall>f \<in> set ?fs. distinct (map ((!) (cn_Rows c)) (field_constraints c f))"
      using check_duplicates_cases[OF v(4)] by blast
    then show ?thesis
    proof cases
      case dup
      then show ?thesis using True fits by (auto simp: Policy_Build_def Let_def)
    next
      case uniq
      have room: "sum_list (map (field_room c) ?fs) \<le> length (cn_Values c)"
        using field_room_total[OF canonical_ids(3) v(4,3), of "cn_Fields c"] assms by (simp add: ranges_fit_def)
      have layout: "layout_values c ?fs ([], [], []) = (?vals, policy_starts c, policy_counts c)"
        using layout_values_csr[of "[]" c ?fs "[]" "[]"] room by (simp add: value_start_def)
      from constraints_fold[OF v(4) order_refl] obtain w m where
        fld: "res_foldM (index_constraint c ?fs (policy_starts c) (policy_counts c) ?vals ?wc) [0..<?n]
          (concat (replicate (length ?fs) (all_mask rc)), replicate (length ?vals * ?wc) 0) = Ok (w, m)"
        and W: "slab_is (length ?fs) rc w (\<lambda>b x. \<not> (\<exists>i < ?n. constraint_at c i (?fs ! b) x))"
        and M: "slab_is (length ?vals) rc m (\<lambda>vr x. \<exists>i < ?n. \<exists>b < length ?fs.
          constraint_at c i (?fs ! b) x \<and> in_field c b vr \<and> ?vals ! vr \<in> set (range_values c i))" by blast
      let ?m = "merge_wildcards w (policy_starts c) (policy_counts c) ?wc [0..<length ?fs] m"
      have "\<forall>fr \<in> set [0..<length ?fs]. fr < length ?fs \<and> policy_starts c ! fr + policy_counts c ! fr \<le> length ?vals"
        using csr_range(2)[of _ ?fs "field_values c"] by (simp add: value_start_def)
      from slab_merge[OF W this M] have "slab_is (length ?vals) rc ?m
          (\<lambda>vr x. \<forall>b < length ?fs. in_field c b vr \<longrightarrow> requirement_allows c (?fs ! b) (?vals ! vr) x)"
      proof (rule slab_is_cong, goal_cases)
        case (1 vr x)
        obtain b where b: "b < length ?fs" "in_field c b vr"
          using csr_owner[OF 1(1)] by (metis in_field_def value_start_def)
        have own: "b' < length ?fs \<Longrightarrow> in_field c b' vr \<longleftrightarrow> b' = b" for b'
          using csr_unique[of b ?fs b' "field_values c" vr] b by (auto simp: in_field_def value_start_def)
        have d: "distinct (map ((!) (cn_Rows c)) (field_constraints c (?fs ! b)))" using uniq(2) b(1) by simp
        have "(\<exists>fr \<in> set [0..<length ?fs]. policy_starts c ! fr \<le> vr \<and> vr < policy_starts c ! fr + policy_counts c ! fr \<and>
              \<not> (\<exists>i < ?n. constraint_at c i (?fs ! fr) x)) \<longleftrightarrow> \<not> (\<exists>i < ?n. constraint_at c i (?fs ! b) x)"
        proof -
          have "policy_starts c ! fr \<le> vr \<and> vr < policy_starts c ! fr + policy_counts c ! fr \<longleftrightarrow> fr = b"
            if "fr < length ?fs" for fr using own[OF that] that by (simp add: in_field_def)
          then show ?thesis using b(1) by (metis atLeast_upt lessThan_iff)
        qed
        moreover have "(\<exists>i < ?n. \<exists>b < length ?fs. constraint_at c i (?fs ! b) x \<and> in_field c b vr \<and>
              ?vals ! vr \<in> set (range_values c i)) \<longleftrightarrow>
            (\<exists>i < ?n. constraint_at c i (?fs ! b) x \<and> ?vals ! vr \<in> set (range_values c i))"
          using own b(1) by blast
        moreover have "(\<forall>b < length ?fs. in_field c b vr \<longrightarrow> requirement_allows c (?fs ! b) (?vals ! vr) x) \<longleftrightarrow>
            requirement_allows c (?fs ! b) (?vals ! vr) x" using own b(1) by blast
        ultimately show ?case using constraint_unique[OF d] by (auto simp: requirement_allows_def)
      qed
      then show ?thesis using True fits uniq(1) layout fld W
        by (auto simp: Policy_Build_def policy_built_def Let_def all_mask_eq)
    qed
  qed
qed


section \<open>Correctness of a query\<close>

lemma list_all_zero_iff: "list_all (\<lambda>w. w = 0) xs \<longleftrightarrow> xs = replicate (length xs) 0"
  by (induction xs) auto

lemma and_loop_bitmap:
  "and_loop (word_count rows) (map (\<lambda>i. Ok (if A i then Some (mk_bitmap rows (S i)) else None)) xs) (mk_bitmap rows P) =
   Ok (mk_bitmap rows (\<lambda>r. P r \<and> (\<forall>i \<in> set xs. A i \<longrightarrow> S i r)))"
proof (induction xs arbitrary: P)
  case Nil
  then show ?case by simp
next
  case (Cons i xs)
  show ?case
  proof (cases "A i")
    case False
    then show ?thesis using Cons by (auto intro!: mk_bitmap_cong)
  next
    case True
    let ?d = "mk_bitmap rows (\<lambda>r. P r \<and> S i r)"
    have z: "list_all (\<lambda>w. w = 0) ?d \<longleftrightarrow> (\<forall>r < rows. \<not> (P r \<and> S i r))"
      unfolding mk_bitmap_zero_iff[symmetric] list_all_zero_iff by simp
    have "and_loop (word_count rows) (map (\<lambda>i. Ok (if A i then Some (mk_bitmap rows (S i)) else None)) (i # xs)) (mk_bitmap rows P) =
      (if list_all (\<lambda>w. w = 0) ?d then Ok ?d
       else and_loop (word_count rows) (map (\<lambda>i. Ok (if A i then Some (mk_bitmap rows (S i)) else None)) xs) ?d)"
      using True by (simp add: mk_bitmap_and)
    also have "\<dots> = Ok (mk_bitmap rows (\<lambda>r. P r \<and> (\<forall>j \<in> set (i # xs). A j \<longrightarrow> S j r)))"
      unfolding Cons.IH z using True by (auto intro!: mk_bitmap_cong)
    finally show ?thesis .
  qed
qed

definition mask_of :: "policy_index \<Rightarrow> nat \<Rightarrow> nat \<Rightarrow> u64 list" where
  "mask_of p fieldRow v =
     (let start = pi_FieldValueStarts p ! fieldRow in
      case binary_search (take (pi_FieldValueCounts p ! fieldRow) (drop start (pi_Values p))) v of (k, found) \<Rightarrow>
        if found then block (pi_ValueMasks p) (pi_WordCount p) (start + k)
        else block (pi_WildcardMasks p) (pi_WordCount p) fieldRow)"

text \<open>What a query relies on: the shape of the columns, and no mask bit beyond the last requirement.\<close>

definition query_ok :: "policy_index \<Rightarrow> bool" where
  "query_ok p \<longleftrightarrow> pi_WordCount p = word_count (pi_RequirementCount p) \<and>
     pi_AllMask p = mk_bitmap (pi_RequirementCount p) (\<lambda>_. True) \<and>
     sorted (pi_FieldIDs p) \<and> distinct (pi_FieldIDs p) \<and>
     (\<forall>i < length (pi_FieldIDs p). pi_FieldValueStarts p ! i + pi_FieldValueCounts p ! i \<le> length (pi_Values p) \<and>
        sorted (take (pi_FieldValueCounts p ! i) (drop (pi_FieldValueStarts p ! i) (pi_Values p)))) \<and>
     slab_is (length (pi_FieldIDs p)) (pi_RequirementCount p) (pi_WildcardMasks p)
       (\<lambda>b. wbit (block (pi_WildcardMasks p) (pi_WordCount p) b)) \<and>
     slab_is (length (pi_Values p)) (pi_RequirementCount p) (pi_ValueMasks p)
       (\<lambda>b. wbit (block (pi_ValueMasks p) (pi_WordCount p) b))"

lemma select_mask_ok:
  assumes "query_ok p" "fr < length (pi_FieldIDs p)"
  shows "select_mask p fr v = Ok (mask_of p fr v)"
    and "mask_of p fr v = mk_bitmap (pi_RequirementCount p) (wbit (mask_of p fr v))"
proof -
  let ?start = "pi_FieldValueStarts p ! fr" and ?cnt = "pi_FieldValueCounts p ! fr" and ?wc = "pi_WordCount p"
  let ?vals = "take ?cnt (drop ?start (pi_Values p))"
  have wc: "?wc = word_count (pi_RequirementCount p)" and rng: "?start + ?cnt \<le> length (pi_Values p)" "sorted ?vals"
    and W: "length (pi_WildcardMasks p) = length (pi_FieldIDs p) * ?wc"
      "block (pi_WildcardMasks p) ?wc fr = mk_bitmap (pi_RequirementCount p) (wbit (block (pi_WildcardMasks p) ?wc fr))"
    and M: "length (pi_ValueMasks p) = length (pi_Values p) * ?wc"
      "b < length (pi_Values p) \<Longrightarrow> block (pi_ValueMasks p) ?wc b = mk_bitmap (pi_RequirementCount p) (wbit (block (pi_ValueMasks p) ?wc b))" for b
    using assms unfolding query_ok_def slab_is_def by metis+
  obtain k found where bs: "binary_search ?vals v = (k, found)" by (cases "binary_search ?vals v")
  have k: "?start + k < length (pi_Values p)" if found
    using binary_search_found[OF rng(2), of v k] bs that rng(1) by auto
  show "select_mask p fr v = Ok (mask_of p fr v)"
    using rng(1) bs k block_subslice[OF W(1) assms(2)] block_subslice[OF M(1), of "?start + k"]
    by (auto simp: select_mask_def mask_of_def Let_def add.commute)
  show "mask_of p fr v = mk_bitmap (pi_RequirementCount p) (wbit (mask_of p fr v))"
  proof (cases found)
    case True
    then have m: "mask_of p fr v = block (pi_ValueMasks p) ?wc (?start + k)" using bs by (simp add: mask_of_def)
    show ?thesis unfolding m by (rule M(2)[OF k[OF True]])
  next
    case False
    then have m: "mask_of p fr v = block (pi_WildcardMasks p) ?wc fr" using bs by (simp add: mask_of_def)
    show ?thesis unfolding m by (rule W(2))
  qed
qed

lemma Query_Candidates_ok:
  assumes "query_ok p" "length dst = pi_WordCount p" "length vals = length (pi_FieldIDs p)"
    "length present = length (pi_FieldIDs p)"
  shows "Query_Candidates p dst vals present = Ok (mk_bitmap (pi_RequirementCount p)
     (\<lambda>r. \<forall>i < length (pi_FieldIDs p). present ! i \<noteq> 0 \<longrightarrow> wbit (mask_of p i (vals ! i)) r))"
proof -
  let ?rc = "pi_RequirementCount p" and ?n = "length (pi_FieldIDs p)"
  have "map (\<lambda>i. if present ! i = 0 then Ok None else res_map Some (select_mask p i (vals ! i))) [0..<?n] =
     map (\<lambda>i. Ok (if present ! i \<noteq> 0 then Some (mk_bitmap ?rc (wbit (mask_of p i (vals ! i)))) else None)) [0..<?n]"
    using select_mask_ok[OF assms(1)] by (intro map_cong) auto
  moreover have "Query_Candidates p dst vals present = and_loop (pi_WordCount p)
     (map (\<lambda>i. if present ! i = 0 then Ok None else res_map Some (select_mask p i (vals ! i))) [0..<?n]) (pi_AllMask p)"
    using assms(2-4) by (simp only: Query_Candidates_def) simp
  moreover have "pi_WordCount p = word_count ?rc" "pi_AllMask p = mk_bitmap ?rc (\<lambda>_. True)"
    using assms(1) by (simp_all add: query_ok_def)
  ultimately have "Query_Candidates p dst vals present = and_loop (word_count ?rc)
     (map (\<lambda>i. Ok (if present ! i \<noteq> 0 then Some (mk_bitmap ?rc (wbit (mask_of p i (vals ! i)))) else None)) [0..<?n])
     (mk_bitmap ?rc (\<lambda>_. True))" by (simp only:)
  then show ?thesis unfolding and_loop_bitmap by (simp add: Ball_def)
qed

lemma policy_built_query:
  assumes "policy_built rc c p"
  shows "query_ok p" and "\<And>b v r. b < length (pi_FieldIDs p) \<Longrightarrow> r < rc \<Longrightarrow>
     wbit (mask_of p b v) r \<longleftrightarrow> requirement_allows c (pi_FieldIDs p ! b) v r"
proof -
  let ?fs = "policy_fields c" and ?vals = "policy_values c"
  have p: "pi_FieldIDs p = ?fs" "pi_FieldValueStarts p = policy_starts c" "pi_FieldValueCounts p = policy_counts c"
      "pi_Values p = ?vals" "pi_AllMask p = mk_bitmap rc (\<lambda>_. True)" "pi_RequirementCount p = rc" "pi_WordCount p = word_count rc"
    and W: "slab_is (length ?fs) rc (pi_WildcardMasks p) (\<lambda>b x. \<not> (\<exists>i < length (cn_Fields c). constraint_at c i (?fs ! b) x))"
    and M: "slab_is (length ?vals) rc (pi_ValueMasks p) (\<lambda>vr x. \<forall>b < length ?fs. in_field c b vr \<longrightarrow>
          requirement_allows c (?fs ! b) (?vals ! vr) x)"
    using assms by (simp_all add: policy_built_def)
  have rng: "take (policy_counts c ! b) (drop (policy_starts c ! b) ?vals) = field_values c (?fs ! b)"
      "policy_starts c ! b + policy_counts c ! b \<le> length ?vals" if "b < length ?fs" for b
    using csr_range[OF that, of "field_values c"] that by (simp_all add: value_start_def)
  have "slab_is (length ?fs) rc (pi_WildcardMasks p) (\<lambda>b. wbit (block (pi_WildcardMasks p) (word_count rc) b))"
    using W by (rule slab_is_cong) (use W in \<open>simp add: slab_is_def\<close>)
  moreover have "slab_is (length ?vals) rc (pi_ValueMasks p) (\<lambda>b. wbit (block (pi_ValueMasks p) (word_count rc) b))"
    using M by (rule slab_is_cong) (use M in \<open>simp add: slab_is_def\<close>)
  ultimately show "query_ok p"
    using rng field_values_canonical(2) by (simp add: query_ok_def p canonical_ids)
  fix b v r assume b: "b < length (pi_FieldIDs p)" and r: "r < rc"
  then have b: "b < length ?fs" using p by simp
  let ?fv = "field_values c (?fs ! b)"
  have mo: "mask_of p b v = (case binary_search ?fv v of (k, found) \<Rightarrow>
      if found then block (pi_ValueMasks p) (word_count rc) (value_start c b + k)
      else block (pi_WildcardMasks p) (word_count rc) b)"
    unfolding mask_of_def Let_def p using rng(1)[OF b] b by (simp split: prod.splits)
  show "wbit (mask_of p b v) r \<longleftrightarrow> requirement_allows c (pi_FieldIDs p ! b) v r"
  proof (cases "v \<in> set ?fv")
    case False
    then have "\<not> snd (binary_search ?fv v)" using binary_search_iff[OF field_values_canonical(2)] by blast
    then have "mask_of p b v = block (pi_WildcardMasks p) (word_count rc) b" unfolding mo
      by (cases "binary_search ?fv v") simp
    then have "wbit (mask_of p b v) r \<longleftrightarrow> \<not> (\<exists>i < length (cn_Fields c). constraint_at c i (?fs ! b) r)"
      using W b r by (simp add: slab_is_def)
    moreover have "constraint_at c i (?fs ! b) r \<Longrightarrow> i < length (cn_Fields c) \<Longrightarrow> v \<notin> set (range_values c i)" for i
      using False unfolding field_values_canonical(1) by (auto simp: field_constraints_def constraint_at_def)
    ultimately show ?thesis unfolding p requirement_allows_def by blast
  next
    case True
    then obtain k where k: "k < length ?fv" "?fv ! k = v" by (auto simp: in_set_conv_nth)
    have "binary_search ?fv v = (k, True)"
      using binary_search_distinct[OF field_values_canonical(2,3) k(1)] k(2) by simp
    then have m: "mask_of p b v = block (pi_ValueMasks p) (word_count rc) (value_start c b + k)" unfolding mo by simp
    have vr: "value_start c b + k < length ?vals" using rng(2)[OF b] k(1) b by simp
    have "take (length ?fv) (drop (value_start c b) ?vals) = ?fv" using rng(1)[OF b] b by simp
    then have "drop (value_start c b) ?vals ! k = v" using k by (metis nth_take)
    then have v: "?vals ! (value_start c b + k) = v" using rng(2)[OF b] b by simp
    have "in_field c b' (value_start c b + k) \<longleftrightarrow> b' = b" if "b' < length ?fs" for b'
      using csr_unique[OF b that, of "field_values c" "value_start c b + k"] k(1) by (auto simp: in_field_def value_start_def)
    then have "wbit (mask_of p b v) r \<longleftrightarrow> requirement_allows c (?fs ! b) (?vals ! (value_start c b + k)) r"
      unfolding m using M vr b r by (simp add: slab_is_def)
    then show ?thesis unfolding p v .
  qed
qed


section \<open>Bound policies\<close>

lemma list_all_uptD: "list_all P [0..<n] \<Longrightarrow> i < n \<Longrightarrow> P i"
  by (simp add: list_all_iff)

lemma slab_wbitI:
  assumes "length ms = nb * word_count rows" "length am = word_count rows" "am = mk_bitmap rows (\<lambda>_. True)"
    and "\<And>b w. b < nb \<Longrightarrow> w < word_count rows \<Longrightarrow> ms ! (b * word_count rows + w) AND NOT (am ! w) = 0"
  shows "slab_is nb rows ms (\<lambda>b. wbit (block ms (word_count rows) b))"
proof -
  have "block ms (word_count rows) b = mk_bitmap rows (wbit (block ms (word_count rows) b))" if b: "b < nb" for b
  proof (rule eq_mk_bitmapI)
    show bl: "length (block ms (word_count rows) b) = word_count rows" by (rule length_block[OF assms(1) b])
    fix row
    have "row < rows" if w: "wbit (block ms (word_count rows) b) row"
    proof -
      let ?w = "row div 64" and ?n = "row mod 64"
      have wl: "?w < word_count rows" using w bl by (simp add: wbit_def)
      then have "bit (ms ! (b * word_count rows + ?w)) ?n"
        using w nth_block[OF assms(1) b wl] by (simp add: wbit_def)
      moreover have "\<not> bit (ms ! (b * word_count rows + ?w) AND NOT (am ! ?w)) ?n" using assms(4)[OF b wl] by simp
      ultimately have "bit (am ! ?w) ?n" by (simp add: bit_and_iff bit_not_iff)
      then show "row < rows" using wl by (simp add: assms(3) bit_mk_bitmap)
    qed
    then show "wbit (block ms (word_count rows) b) row \<longleftrightarrow> row < rows \<and> wbit (block ms (word_count rows) b) row" by blast
  qed
  then show ?thesis using assms(1) by (simp add: slab_is_def)
qed

lemma no_wrap: "\<not> (n \<noteq> 0 \<and> words > MaxUint64 div n) \<Longrightarrow> (n * words) mod 2 ^ 64 = n * (words :: nat)"
proof -
  assume "\<not> (n \<noteq> 0 \<and> words > MaxUint64 div n)"
  then have "n * words \<le> MaxUint64" by (cases "n = 0") (simp_all add: less_eq_div_iff_mult_less_eq mult.commute not_less)
  then show ?thesis by simp
qed

lemma validBoundPolicy_query:
  assumes "validBoundPolicy p"
  shows "query_ok p"
proof -
  let ?rc = "pi_RequirementCount p" and ?n = "length (pi_FieldIDs p)" and ?nv = "length (pi_Values p)"
  have sh: "bound_shape p" and am: "list_all (\<lambda>w. pi_AllMask p ! w =
        (if w + 1 = length (pi_AllMask p) \<and> ?rc mod 64 \<noteq> 0 then push_bit (?rc mod 64) 1 - 1 else NOT 0)) [0..<length (pi_AllMask p)]"
    and fld: "list_all (bound_field p) [0..<?n]"
    and masks: "list_all (\<lambda>w.
        list_all (\<lambda>fieldRow. pi_WildcardMasks p ! (fieldRow * pi_WordCount p + w) AND NOT (pi_AllMask p ! w) = 0) [0..<?n] \<and>
        list_all (\<lambda>valueRow. pi_ValueMasks p ! (valueRow * pi_WordCount p + w) AND NOT (pi_AllMask p ! w) = 0)
          [0..<?nv]) [0..<length (pi_AllMask p)]"
    using assms unfolding validBoundPolicy_def Let_def by blast+
  have wc: "pi_WordCount p = word_count ?rc" "length (pi_AllMask p) = word_count ?rc"
    using sh by (simp_all add: bound_shape_def Let_def)
  have "length (pi_WildcardMasks p) = (?n * pi_WordCount p) mod 2 ^ 64" "length (pi_ValueMasks p) = (?nv * pi_WordCount p) mod 2 ^ 64"
    using sh unfolding bound_shape_def Let_def by blast+
  moreover have "\<not> (?n \<noteq> 0 \<and> pi_WordCount p > MaxUint64 div ?n)" "\<not> (?nv \<noteq> 0 \<and> pi_WordCount p > MaxUint64 div ?nv)"
    using sh unfolding bound_shape_def Let_def by blast+
  ultimately have len: "length (pi_WildcardMasks p) = ?n * word_count ?rc" "length (pi_ValueMasks p) = ?nv * word_count ?rc"
    using no_wrap wc(1) by metis+
  have all: "pi_AllMask p = mk_bitmap ?rc (\<lambda>_. True)"
    unfolding mk_bitmap_all[symmetric] using am wc(2)
    by (intro nth_equalityI) (auto simp: list_all_iff valid_bits_def)
  have asc: "sorted_wrt (<) (pi_FieldIDs p)"
  proof (subst sorted_wrt_iff_nth_Suc_transp, simp, intro allI impI)
    fix i assume "Suc i < ?n"
    then have "bound_field p (Suc i)" by (rule list_all_uptD[OF fld])
    then show "pi_FieldIDs p ! i < pi_FieldIDs p ! Suc i" by (simp add: bound_field_def Let_def)
  qed
  have rng: "\<forall>i < ?n. pi_FieldValueStarts p ! i + pi_FieldValueCounts p ! i \<le> ?nv \<and>
      sorted (take (pi_FieldValueCounts p ! i) (drop (pi_FieldValueStarts p ! i) (pi_Values p)))"
  proof (intro allI impI)
    fix i assume "i < ?n"
    then have "bound_field p i" by (rule list_all_uptD[OF fld])
    then show "pi_FieldValueStarts p ! i + pi_FieldValueCounts p ! i \<le> ?nv \<and>
        sorted (take (pi_FieldValueCounts p ! i) (drop (pi_FieldValueStarts p ! i) (pi_Values p)))"
      unfolding bound_field_def Let_def strictly_ascending_iff strict_sorted_iff by linarith
  qed
  have mw: "w < word_count ?rc \<Longrightarrow> b < ?n \<Longrightarrow> pi_WildcardMasks p ! (b * word_count ?rc + w) AND NOT (pi_AllMask p ! w) = 0"
      "w < word_count ?rc \<Longrightarrow> b < ?nv \<Longrightarrow> pi_ValueMasks p ! (b * word_count ?rc + w) AND NOT (pi_AllMask p ! w) = 0" for b w
  proof -
    assume w: "w < word_count ?rc"
    note m = list_all_uptD[OF masks, unfolded wc, OF w]
    show "b < ?n \<Longrightarrow> pi_WildcardMasks p ! (b * word_count ?rc + w) AND NOT (pi_AllMask p ! w) = 0"
      by (rule list_all_uptD[OF conjunct1[OF m]])
    show "b < ?nv \<Longrightarrow> pi_ValueMasks p ! (b * word_count ?rc + w) AND NOT (pi_AllMask p ! w) = 0"
      by (rule list_all_uptD[OF conjunct2[OF m]])
  qed
  have "slab_is ?n ?rc (pi_WildcardMasks p) (\<lambda>b. wbit (block (pi_WildcardMasks p) (word_count ?rc) b))"
    "slab_is ?nv ?rc (pi_ValueMasks p) (\<lambda>b. wbit (block (pi_ValueMasks p) (word_count ?rc) b))"
    using mw by (intro slab_wbitI[OF len(1) wc(2) all], blast, intro slab_wbitI[OF len(2) wc(2) all], blast)
  then show ?thesis using wc all asc rng by (simp add: query_ok_def strict_sorted_iff)
qed

lemma policy_built_bound:
  assumes "policy_built rc c p" "validateConstraints rc c = Ok ()" "rc \<le> MaxUint32" "ranges_fit c"
  shows "validBoundPolicy p"
proof -
  let ?fs = "policy_fields c" and ?vals = "policy_values c"
  note v = validateConstraints_Ok[OF assms(2)]
  have p: "pi_FieldIDs p = ?fs" "pi_FieldValueStarts p = policy_starts c" "pi_FieldValueCounts p = policy_counts c"
      "pi_Values p = ?vals" "pi_AllMask p = mk_bitmap rc (\<lambda>_. True)" "pi_RequirementCount p = rc" "pi_WordCount p = word_count rc"
    and W: "slab_is (length ?fs) rc (pi_WildcardMasks p) (\<lambda>b x. \<not> (\<exists>i < length (cn_Fields c). constraint_at c i (?fs ! b) x))"
    and M: "slab_is (length ?vals) rc (pi_ValueMasks p) (\<lambda>vr x. \<forall>b < length ?fs. in_field c b vr \<longrightarrow>
          requirement_allows c (?fs ! b) (?vals ! vr) x)"
    using assms(1) by (simp_all add: policy_built_def)
  have wc: "word_count rc \<le> 2 ^ 26" using assms(3) by (simp add: word_count_def)
  have nfs: "length ?fs \<le> MaxUint32"
    using v(1,5) remdups_adj_length[of "sort (cn_Fields c)"] by (simp add: compact_ids_eq)
  have nv: "length ?vals \<le> MaxUint32"
  proof -
    have "length ?vals = sum_list (map (\<lambda>f. length (field_values c f)) ?fs)" by (simp add: length_concat comp_def)
    also have "\<dots> \<le> sum_list (map (field_room c) ?fs)" by (rule sum_list_mono) (rule length_field_values)
    also have "\<dots> \<le> MaxUint32"
      using field_room_total[OF canonical_ids(3) v(4,3), of "cn_Fields c"] assms(4) v(6) by (simp add: ranges_fit_def)
    finally show ?thesis .
  qed
  have small: "k * word_count rc \<le> MaxUint64" "\<not> (k \<noteq> 0 \<and> word_count rc > MaxUint64 div k)" if "k \<le> MaxUint32" for k
  proof -
    have "k * word_count rc \<le> MaxUint32 * 2 ^ 26" using that wc by (rule mult_le_mono)
    then show le: "k * word_count rc \<le> MaxUint64" by simp
    then show "\<not> (k \<noteq> 0 \<and> word_count rc > MaxUint64 div k)"
      by (cases "k = 0") (simp_all add: not_less less_eq_div_iff_mult_less_eq mult.commute)
  qed
  have shape: "bound_shape p"
    using W M small[OF nfs] small[OF nv] by (simp add: bound_shape_def p slab_is_def Let_def)
  have fields: "bound_field p b" if b: "b < length ?fs" for b
  proof -
    have f: "?fs ! b \<in> set (cn_Fields c)" using nth_mem[OF b] by (simp only: canonical_ids)
    then obtain i where i: "i < length (cn_Fields c)" "cn_Fields c ! i = ?fs ! b" by (auto simp: in_set_conv_nth)
    have vi: "valid_constraint_row rc c i" using v(4)[OF i(1)] .
    then have "range_values c i \<noteq> []" using length_range_values[OF vi] by (auto simp: valid_constraint_row_def)
    then have ne: "field_values c (?fs ! b) \<noteq> []"
      using field_values_canonical(1)[of c "?fs ! b"] i by (fastforce simp: field_constraints_def)
    have nz: "0 \<notin> set (field_values c (?fs ! b))"
      using v(4) unfolding field_values_canonical(1) by (fastforce simp: field_constraints_def valid_constraint_row_def list_all_iff)
    have asc: "b \<noteq> 0 \<Longrightarrow> ?fs ! (b - 1) < ?fs ! b"
      using sorted_wrt_nth_less[OF sorted_compact[OF sorted_sort], of "b - 1" b "cn_Fields c"] b by simp
    have st: "b \<noteq> 0 \<Longrightarrow> value_start c b = value_start c (b - 1) + length (field_values c (?fs ! (b - 1)))"
      using csr_start_Suc[of "b - 1" ?fs "field_values c"] b by (simp add: value_start_def)
    have st0: "value_start c 0 = 0" by (simp add: value_start_def csr_start_def)
    note rng = csr_range[OF b, of "field_values c", folded value_start_def]
    show ?thesis
      unfolding bound_field_def Let_def p strictly_ascending_iff
      using b i vi ne nz asc st st0 rng field_values_canonical(2,3)[of c "?fs ! b"]
      by (cases "b = 0") (auto simp: valid_constraint_row_def strict_sorted_iff not_le)
  qed
  have last: "if length ?fs = 0 then length ?vals = 0
      else policy_starts c ! (length ?fs - 1) + policy_counts c ! (length ?fs - 1) = length ?vals"
    using csr_start_last[of "field_values c" ?fs] csr_start_Suc[of "length ?fs - 1" ?fs "field_values c"]
    by (auto simp: value_start_def)
  have tail: "mk_bitmap rc P ! w AND NOT (mk_bitmap rc (\<lambda>_. True) ! w) = 0" if "w < word_count rc" for P w
    using that by (intro bit_eqI) (auto simp: bit_and_iff bit_not_iff bit_mk_bitmap)
  have wild: "pi_WildcardMasks p ! (b * word_count rc + w) AND NOT (mk_bitmap rc (\<lambda>_. True) ! w) = 0"
    if "b < length ?fs" "w < word_count rc" for b w
    unfolding slab_nth[OF W that] by (rule tail[OF that(2)])
  have vm: "pi_ValueMasks p ! (b * word_count rc + w) AND NOT (mk_bitmap rc (\<lambda>_. True) ! w) = 0"
    if "b < length ?vals" "w < word_count rc" for b w
    unfolding slab_nth[OF M that] by (rule tail[OF that(2)])
  have all: "list_all (\<lambda>w. mk_bitmap rc (\<lambda>_. True) ! w =
      (if w + 1 = word_count rc \<and> rc mod 64 \<noteq> 0 then push_bit (rc mod 64) 1 - 1 else NOT 0)) [0..<word_count rc]"
    unfolding mk_bitmap_all[symmetric] by (auto simp: list_all_iff valid_bits_def)
  show ?thesis
    unfolding validBoundPolicy_def Let_def p length_mk_bitmap
    by (intro conjI shape all last) (simp_all add: list_all_iff fields wild vm)
qed



section \<open>Properties\<close>

text \<open>C12: the applicability index is exact. For constraints whose value ranges fit the value column, a
  successful build yields a policy that the query accepts at binding, and a query returns exactly
  the requirements that no present selector rules out: a selector rules a requirement out when the
  requirement constrains that field and does not list the selected value. Missing selectors do not
  filter.\<close>

theorem policy_index_exact:
  assumes "Policy_Build rc c = Ok p" "ranges_fit c" "rc \<le> MaxUint32"
    and "length dst = pi_WordCount p" "length vals = length (pi_FieldIDs p)" "length present = length (pi_FieldIDs p)"
  shows "validBoundPolicy p \<and> Query_Candidates p dst vals present = Ok (mk_bitmap rc
     (\<lambda>r. \<forall>i < length (pi_FieldIDs p). present ! i \<noteq> 0 \<longrightarrow> requirement_allows c (pi_FieldIDs p ! i) (vals ! i) r))"
proof -
  have b: "policy_built rc c p" "validateConstraints rc c = Ok ()"
    using Policy_Build_cases[OF assms(2), of rc] assms(1) by auto
  have rc: "pi_RequirementCount p = rc" using b(1) by (simp add: policy_built_def)
  show ?thesis
    using policy_built_bound[OF b assms(3,2)] Query_Candidates_ok[OF policy_built_query(1)[OF b(1)] assms(4-6)]
      policy_built_query(2)[OF b(1)] unfolding rc by (auto intro!: mk_bitmap_cong)
qed

definition sample_constraints :: constraints where
  "sample_constraints = \<lparr>cn_Rows = [0, 2], cn_Fields = [4, 4], cn_ValueStarts = [0, 2], cn_ValueCounts = [2, 1],
     cn_Values = [7, 5, 9]\<rparr>"

definition sample_policy :: policy_index where
  "sample_policy = \<lparr>pi_FieldIDs = [4], pi_FieldValueStarts = [0], pi_FieldValueCounts = [3],
     pi_WildcardMasks = [2], pi_Values = [5, 7, 9], pi_ValueMasks = [3, 3, 6], pi_AllMask = [7],
     pi_RequirementCount = 3, pi_WordCount = 1\<rparr>"

lemma sample_policy_built: "Policy_Build 3 sample_constraints = Ok sample_policy"
  by code_simp

theorem policy_index_exact_witness:
  "validBoundPolicy sample_policy \<and> Query_Candidates sample_policy [0] [5] [1] = Ok (mk_bitmap 3
     (\<lambda>r. \<forall>i < 1. [1::nat] ! i \<noteq> 0 \<longrightarrow> requirement_allows sample_constraints ([4] ! i) ([5] ! i) r))"
  using policy_index_exact[OF sample_policy_built, of "[0]" "[5]" "[1]"]
  by (simp add: sample_policy_def sample_constraints_def ranges_fit_def)







end
