(* ===== verification/NR_FactIndex.thy ===== *)
theory NR_FactIndex
  imports NR_PolicyIndex
begin

text \<open>
  The per-batch fact index of \<^verbatim>\<open>internal/index/batch.go\<close>: for the symbol fields and values the
  compiler selects, one bitmap of the rows that hold the value.

  The builder keeps a reusable array from symbols to value rows between builds and never clears
  it as a whole: it relies on every entry being zero outside the processing of one field. The
  model therefore passes the builder's backing array explicitly; \<open>rows_clear\<close> is that invariant.
\<close>

section \<open>Specification, columns and index\<close>

record fact_spec =
  fs_FieldIDs :: "nat list"
  fs_Columns :: "nat list"
  fs_ValueStarts :: "nat list"
  fs_ValueCounts :: "nat list"
  fs_UseCounts :: "nat list"
  fs_Values :: "nat list"

record symbol_columns =
  sc_Values :: "nat list"
  sc_Rows :: nat
  sc_Count :: nat
  sc_ProgramSymbolCount :: nat
  sc_RowOffset :: nat
  sc_RowStride :: nat

record fact_index =
  fi_spec :: "fact_spec option"
  fi_ValueMasks :: "u64 list"
  fi_Rows :: nat
  fi_WordCount :: nat

definition factWordCount :: "nat \<Rightarrow> nat" where
  "factWordCount rows = (rows + 63) div 64"

definition factMaskLen :: "nat \<Rightarrow> nat \<Rightarrow> nat option" where
  "factMaskLen rows valueCount =
     (let words = factWordCount rows in
      if words \<noteq> 0 \<and> valueCount > MaxUint64 div words then None
      else let elements = (valueCount * words) mod 2 ^ 64 in
        if elements > MaxInt div 8 then None else Some elements)"

definition factColumnLen :: "nat \<Rightarrow> nat \<Rightarrow> nat option" where
  "factColumnLen rows columns =
     (let elements = (rows * columns) mod 2 ^ 64 in if elements > MaxInt div 4 then None else Some elements)"

definition fact_field_ok :: "fact_spec \<Rightarrow> nat \<Rightarrow> nat \<Rightarrow> nat \<Rightarrow> bool" where
  "fact_field_ok spec symbolColumns programSymbolCount i =
     (let start = fs_ValueStarts spec ! i; count = fs_ValueCounts spec ! i;
          vals = take count (drop start (fs_Values spec)) in
      \<not> (fs_FieldIDs spec ! i = 0 \<or> fs_Columns spec ! i \<ge> symbolColumns \<or> fs_UseCounts spec ! i = 0 \<or>
         (i \<noteq> 0 \<and> (fs_FieldIDs spec ! i \<le> fs_FieldIDs spec ! (i - 1) \<or> fs_Columns spec ! i \<le> fs_Columns spec ! (i - 1)))) \<and>
      \<not> (count = 0 \<or> start + count < start \<or> start + count > length (fs_Values spec) \<or> (i = 0 \<and> start \<noteq> 0) \<or>
         (i \<noteq> 0 \<and> start \<noteq> fs_ValueStarts spec ! (i - 1) + fs_ValueCounts spec ! (i - 1))) \<and>
      list_all (\<lambda>j. \<not> (vals ! j = 0 \<or> vals ! j > programSymbolCount \<or> (j \<noteq> 0 \<and> vals ! j \<le> vals ! (j - 1)))) [0..<length vals])"

definition validFactSpecShape :: "fact_spec \<Rightarrow> nat \<Rightarrow> nat \<Rightarrow> bool" where
  "validFactSpecShape spec symbolColumns programSymbolCount =
     (let n = length (fs_FieldIDs spec) in
      if length (fs_Columns spec) \<noteq> n \<or> length (fs_ValueStarts spec) \<noteq> n \<or> length (fs_ValueCounts spec) \<noteq> n \<or>
         length (fs_UseCounts spec) \<noteq> n \<or> n > MaxUint32 \<or> length (fs_Values spec) > MaxUint32 then False
      else if n = 0 then length (fs_Values spec) = 0
      else list_all (fact_field_ok spec symbolColumns programSymbolCount) [0..<n] \<and>
        fs_ValueStarts spec ! (n - 1) + fs_ValueCounts spec ! (n - 1) = length (fs_Values spec))"

definition FactSpec_Valid :: "fact_spec \<Rightarrow> index_schema \<Rightarrow> nat \<Rightarrow> bool" where
  "FactSpec_Valid spec flds programSymbolCount =
     (if length (is_Kinds flds) \<noteq> length (is_Columns flds) \<or>
         \<not> validFactSpecShape spec (kind_count flds ValueKindSymbol) programSymbolCount then False
      else list_all (\<lambda>i. Schema_Lookup flds (fs_FieldIDs spec ! i) = Some (ValueKindSymbol, fs_Columns spec ! i))
        [0..<length (fs_FieldIDs spec)])"

definition FactIndex_Reset :: "fact_index \<Rightarrow> fact_index" where
  "FactIndex_Reset ix = ix\<lparr>fi_spec := None, fi_ValueMasks := [], fi_Rows := 0, fi_WordCount := 0\<rparr>"

section \<open>Build and lookup\<close>

text \<open>The three loops over one selected field: publish its value rows, scan its column, clear them.\<close>

definition publish_rows :: "fact_spec \<Rightarrow> nat list \<Rightarrow> nat list \<Rightarrow> nat list res" where
  "publish_rows spec valueRowIDs valueRows =
     res_foldM (\<lambda>valueRow vr. rbind (idx (fs_Values spec) valueRow) (\<lambda>v. upd vr v (valueRow + 1))) valueRowIDs valueRows"

definition scan_row :: "nat list \<Rightarrow> nat \<Rightarrow> nat list \<Rightarrow> nat \<Rightarrow> u64 list \<Rightarrow> u64 list res" where
  "scan_row valueRows words vals row masks =
     rbind (idx vals row) (\<lambda>v.
     if v \<ge> length valueRows then Ok masks
     else let valueRow = valueRows ! v in
       if valueRow = 0 then Ok masks
       else let k = (valueRow - 1) * words + row div 64 in
         rbind (idx masks k) (\<lambda>m. upd masks k (m OR row_bit row)))"

definition clear_rows :: "nat list \<Rightarrow> nat list \<Rightarrow> nat list res" where
  "clear_rows vals valueRows = res_foldM (\<lambda>v vr. upd vr v 0) vals valueRows"

definition index_field ::
  "fact_spec \<Rightarrow> nat list \<Rightarrow> nat \<Rightarrow> nat \<Rightarrow> nat \<Rightarrow> nat \<Rightarrow> nat \<Rightarrow> nat list \<times> u64 list \<Rightarrow> (nat list \<times> u64 list) res" where
  "index_field spec colValues words rows physicalRows rowOffset fieldRow st =
     (case st of (valueRows, masks) \<Rightarrow>
      let valueStart = fs_ValueStarts spec ! fieldRow; valueEnd = valueStart + fs_ValueCounts spec ! fieldRow in
      rbind (publish_rows spec [valueStart..<valueEnd] valueRows) (\<lambda>published.
      let columnStart = fs_Columns spec ! fieldRow * physicalRows + rowOffset in
      rbind (subslice colValues columnStart (columnStart + rows)) (\<lambda>vals.
      rbind (res_foldM (scan_row published words vals) [0..<rows] masks) (\<lambda>masks'.
      rbind (subslice (fs_Values spec) valueStart valueEnd) (\<lambda>fieldValues.
      rbind (clear_rows fieldValues published) (\<lambda>cleared.
      Ok (cleared, masks')))))))"

definition FactBuilder_Build :: "nat list \<Rightarrow> fact_spec \<Rightarrow> symbol_columns \<Rightarrow> (nat list \<times> fact_index) res" where
  "FactBuilder_Build backing spec columns =
     (if sc_RowStride columns = 0 \<and> sc_RowOffset columns \<noteq> 0 then Err ErrInvalidFactIndex
      else let stride = (if sc_RowStride columns = 0 then sc_Rows columns else sc_RowStride columns) in
      if sc_RowOffset columns + sc_Rows columns > stride then Err ErrInvalidFactIndex
      else case factColumnLen stride (sc_Count columns) of None \<Rightarrow> Err ErrIndexTooLarge
      | Some columnLen \<Rightarrow>
        if length (sc_Values columns) \<noteq> columnLen \<or>
           \<not> validFactSpecShape spec (sc_Count columns) (sc_ProgramSymbolCount columns) then Err ErrInvalidFactIndex
        else case factMaskLen (sc_Rows columns) (length (fs_Values spec)) of None \<Rightarrow> Err ErrIndexTooLarge
        | Some maskLen \<Rightarrow>
          if sc_ProgramSymbolCount columns + 1 > MaxInt div 4 then Err ErrIndexTooLarge
          else
            let valueRowLen = sc_ProgramSymbolCount columns + 1;
                array = (if length backing < valueRowLen then replicate valueRowLen 0 else backing);
                words = factWordCount (sc_Rows columns) in
            rbind (res_foldM (index_field spec (sc_Values columns) words (sc_Rows columns) stride (sc_RowOffset columns))
                [0..<length (fs_Columns spec)] (take valueRowLen array, replicate maskLen 0)) (\<lambda>(valueRows, masks).
            Ok (valueRows @ drop valueRowLen array,
                \<lparr>fi_spec = Some spec, fi_ValueMasks = masks, fi_Rows = sc_Rows columns, fi_WordCount = words\<rparr>)))"

text \<open>The answer of a lookup: the field is not indexed, the value is not listed (a nil mask), or a mask.\<close>

datatype fact_lookup = NotIndexed | NilMask | RowMask "u64 list"

definition FactIndex_Lookup :: "fact_index \<Rightarrow> nat \<Rightarrow> nat \<Rightarrow> fact_lookup res" where
  "FactIndex_Lookup ix field v =
     (case fi_spec ix of None \<Rightarrow> Ok NotIndexed
      | Some spec \<Rightarrow>
        case binary_search (fs_FieldIDs spec) field of (fieldRow, found) \<Rightarrow>
        if \<not> found then Ok NotIndexed
        else
          rbind (idx (fs_ValueStarts spec) fieldRow) (\<lambda>valueStart.
          rbind (idx (fs_ValueCounts spec) fieldRow) (\<lambda>count.
          rbind (subslice (fs_Values spec) valueStart (valueStart + count)) (\<lambda>vals.
          case binary_search vals v of (relative, valueFound) \<Rightarrow>
            if \<not> valueFound then Ok NilMask
            else let words = fi_WordCount ix; maskStart = (valueStart + relative) * words in
              rbind (subslice (fi_ValueMasks ix) maskStart (maskStart + words)) (\<lambda>m. Ok (RowMask m))))))"

definition rows_clear :: "nat list \<Rightarrow> bool" where
  "rows_clear backing \<longleftrightarrow> (\<forall>v \<in> set backing. v = 0)"

section \<open>One field\<close>

lemma publish_rows_spec:
  assumes "start + m \<le> length (fs_Values spec)" "distinct (take m (drop start (fs_Values spec)))"
    and "\<forall>v \<in> set (take m (drop start (fs_Values spec))). v < length a"
  shows "\<exists>b. publish_rows spec [start..<start + m] a = Ok b \<and> length b = length a \<and>
     (\<forall>j < m. b ! (fs_Values spec ! (start + j)) = start + j + 1) \<and>
     (\<forall>v. v \<notin> set (take m (drop start (fs_Values spec))) \<longrightarrow> b ! v = a ! v)"
  using assms
proof (induction m)
  case 0
  then show ?case by (simp add: publish_rows_def)
next
  case (Suc m)
  let ?V = "fs_Values spec"
  have t: "take (Suc m) (drop start ?V) = take m (drop start ?V) @ [?V ! (start + m)]"
    using Suc.prems(1) by (simp add: take_Suc_conv_app_nth)
  from Suc obtain b where b: "publish_rows spec [start..<start + m] a = Ok b" "length b = length a"
    "\<forall>j < m. b ! (?V ! (start + j)) = start + j + 1" "\<forall>v. v \<notin> set (take m (drop start ?V)) \<longrightarrow> b ! v = a ! v"
    unfolding t by auto
  let ?v = "?V ! (start + m)"
  have v: "?v < length b" using Suc.prems(3) b(2) unfolding t by simp
  have ne: "?V ! (start + j) \<noteq> ?v" if "j < m" for j
  proof -
    have "?V ! (start + j) \<in> set (take m (drop start ?V))"
      using that Suc.prems(1) by (auto simp: in_set_conv_nth intro!: exI[of _ j])
    then show ?thesis using Suc.prems(2) unfolding t by auto
  qed
  have "publish_rows spec [start..<start + Suc m] a = Ok (b[?v := start + m + 1])"
    using b(1) v Suc.prems(1) by (simp add: publish_rows_def res_foldM_append)
  moreover have "\<forall>j < Suc m. b[?v := start + m + 1] ! (?V ! (start + j)) = start + j + 1"
  proof (intro allI impI)
    fix j assume "j < Suc m"
    then show "b[?v := start + m + 1] ! (?V ! (start + j)) = start + j + 1"
      using b(3) v ne[of j] by (cases "j = m") simp_all
  qed
  moreover have "\<forall>u. u \<notin> set (take (Suc m) (drop start ?V)) \<longrightarrow> b[?v := start + m + 1] ! u = a ! u"
    using b(4) unfolding t by simp
  ultimately show ?case using b(2) by (intro exI[of _ "b[?v := start + m + 1]"]) simp
qed

lemma clear_rows_spec:
  assumes "\<forall>v \<in> set vs. v < length a"
  shows "\<exists>b. clear_rows vs a = Ok b \<and> length b = length a \<and> (\<forall>v < length a. b ! v = (if v \<in> set vs then 0 else a ! v))"
  using assms
proof (induction vs arbitrary: a)
  case Nil
  then show ?case by (simp add: clear_rows_def)
next
  case (Cons v vs)
  then have "\<exists>b. clear_rows vs (a[v := 0]) = Ok b \<and> length b = length (a[v := 0]) \<and>
     (\<forall>u < length (a[v := 0]). b ! u = (if u \<in> set vs then 0 else a[v := 0] ! u))"
    by (intro Cons.IH) simp
  then show ?case using Cons.prems by (auto simp: clear_rows_def nth_list_update)
qed

lemma scan_rows_spec:
  assumes pub: "length b = L" "\<forall>j < m. b ! (V ! (start + j)) = start + j + 1"
      "\<forall>v < L. v \<notin> set (take m (drop start V)) \<longrightarrow> b ! v = 0"
      "\<forall>j < m. V ! (start + j) < L" "start + m \<le> length V"
    and "slab_is (length V) rows masks P" "\<forall>r \<in> set rs. r < rows" "length vals = rows"
  shows "\<exists>masks'. res_foldM (scan_row b (word_count rows) vals) rs masks = Ok masks' \<and>
     slab_is (length V) rows masks' (\<lambda>vr r. P vr r \<or> (r \<in> set rs \<and> start \<le> vr \<and> vr < start + m \<and> vals ! r = V ! vr))"
  using assms(6,7)
proof (induction rs arbitrary: masks P)
  case Nil
  then show ?case by simp
next
  case (Cons r rs)
  let ?v = "vals ! r"
  let ?Q = "\<lambda>vr x. P vr x \<or> (x = r \<and> start \<le> vr \<and> vr < start + m \<and> vals ! x = V ! vr)"
  have r: "r < rows" using Cons.prems by simp
  have "\<exists>ms. scan_row b (word_count rows) vals r masks = Ok ms \<and> slab_is (length V) rows ms ?Q"
  proof (cases "?v < L \<and> ?v \<in> set (take m (drop start V))")
    case True
    then obtain j where j: "j < m" "V ! (start + j) = ?v" using pub(5) by (auto simp: in_set_conv_nth)
    have b: "b ! ?v = start + j + 1" using pub(2) j by auto
    note st = slab_set_bit[OF Cons.prems(1) _ r, of "start + j"]
    have sl: "start + j < length V" using j pub(5) by simp
    have only: "start \<le> vr \<and> vr < start + m \<and> ?v = V ! vr \<longleftrightarrow> vr = start + j" for vr
    proof
      assume a: "start \<le> vr \<and> vr < start + m \<and> ?v = V ! vr"
      then obtain i where i: "vr = start + i" "i < m" by (metis add_less_cancel_left le_add_diff_inverse)
      then have "b ! ?v = start + i + 1" using pub(2) a by auto
      then show "vr = start + j" using b i by simp
    next
      assume "vr = start + j"
      then show "start \<le> vr \<and> vr < start + m \<and> ?v = V ! vr" using j by simp
    qed
    let ?k = "(start + j) * word_count rows + r div 64"
    have "scan_row b (word_count rows) vals r masks = Ok (masks[?k := masks ! ?k OR row_bit r])"
      using True b r assms(8) pub(1) st(1)[OF sl] by (simp add: scan_row_def Let_def)
    moreover have "slab_is (length V) rows (masks[?k := masks ! ?k OR row_bit r]) ?Q"
      by (rule slab_is_cong[OF st(2)[OF sl]]) (use only in blast)
    ultimately show ?thesis by blast
  next
    case False
    have none: "\<not> (start \<le> vr \<and> vr < start + m \<and> ?v = V ! vr)" for vr
    proof
      assume a: "start \<le> vr \<and> vr < start + m \<and> ?v = V ! vr"
      then obtain i where i: "vr = start + i" "i < m" by (metis add_less_cancel_left le_add_diff_inverse)
      then have "?v < L" "?v \<in> set (take m (drop start V))"
        using pub(4,5) a by (auto simp: in_set_conv_nth intro!: exI[of _ i])
      then show False using False by blast
    qed
    have "scan_row b (word_count rows) vals r masks = Ok masks"
      using False pub(1,3) r assms(8) by (auto simp: scan_row_def Let_def)
    moreover have "slab_is (length V) rows masks ?Q"
      by (rule slab_is_cong[OF Cons.prems(1)]) (use none in blast)
    ultimately show ?thesis by blast
  qed
  then obtain ms where ms: "scan_row b (word_count rows) vals r masks = Ok ms" "slab_is (length V) rows ms ?Q" by blast
  from Cons.IH[OF ms(2)] Cons.prems(2) obtain masks' where
    "res_foldM (scan_row b (word_count rows) vals) rs ms = Ok masks'"
    "slab_is (length V) rows masks' (\<lambda>vr x. ?Q vr x \<or> (x \<in> set rs \<and> start \<le> vr \<and> vr < start + m \<and> vals ! x = V ! vr))"
    by auto
  moreover have "slab_is (length V) rows masks' (\<lambda>vr x. P vr x \<or> (x \<in> set (r # rs) \<and> start \<le> vr \<and> vr < start + m \<and> vals ! x = V ! vr))"
    by (rule slab_is_cong[OF calculation(2)]) auto
  ultimately show ?case using ms(1) by auto
qed


section \<open>A whole build\<close>

definition stride_of :: "symbol_columns \<Rightarrow> nat" where
  "stride_of columns = (if sc_RowStride columns = 0 then sc_Rows columns else sc_RowStride columns)"

definition fact_cell :: "fact_spec \<Rightarrow> symbol_columns \<Rightarrow> nat \<Rightarrow> nat \<Rightarrow> nat" where
  "fact_cell spec columns i r = sc_Values columns ! (fs_Columns spec ! i * stride_of columns + sc_RowOffset columns + r)"

definition spec_values :: "fact_spec \<Rightarrow> nat \<Rightarrow> nat list" where
  "spec_values spec i = take (fs_ValueCounts spec ! i) (drop (fs_ValueStarts spec ! i) (fs_Values spec))"

text \<open>The value ranges of the fields follow each other; the owner of a value row is unique.\<close>

definition fact_owner :: "fact_spec \<Rightarrow> nat \<Rightarrow> nat \<Rightarrow> bool" where
  "fact_owner spec i vr \<longleftrightarrow> fs_ValueStarts spec ! i \<le> vr \<and> vr < fs_ValueStarts spec ! i + fs_ValueCounts spec ! i"

lemma ascending_vals:
  fixes vals :: "nat list"
  assumes "list_all (\<lambda>j. \<not> (vals ! j = 0 \<or> vals ! j > psc \<or> (j \<noteq> 0 \<and> vals ! j \<le> vals ! (j - 1)))) [0..<length vals]"
  shows "sorted vals" "distinct vals" "\<forall>v \<in> set vals. v \<noteq> 0 \<and> v \<le> psc"
proof -
  have a: "\<not> (vals ! j = 0 \<or> vals ! j > psc \<or> (j \<noteq> 0 \<and> vals ! j \<le> vals ! (j - 1)))" if "j < length vals" for j
    using list_all_uptD[OF assms that] .
  have "sorted_wrt (<) vals"
  proof (subst sorted_wrt_iff_nth_Suc_transp, simp, intro allI impI)
    fix j assume "Suc j < length vals"
    then show "vals ! j < vals ! Suc j" using a[of "Suc j"] by simp
  qed
  then show "sorted vals" "distinct vals" by (simp_all add: strict_sorted_iff)
  show "\<forall>v \<in> set vals. v \<noteq> 0 \<and> v \<le> psc" using a by (fastforce simp: in_set_conv_nth)
qed

lemma fact_shape_field:
  assumes "validFactSpecShape spec cnt psc" "i < length (fs_FieldIDs spec)"
  shows "fs_Columns spec ! i < cnt" "fs_ValueStarts spec ! i + fs_ValueCounts spec ! i \<le> length (fs_Values spec)"
    "sorted (spec_values spec i)" "distinct (spec_values spec i)" "\<forall>v \<in> set (spec_values spec i). v \<noteq> 0 \<and> v \<le> psc"
    "fs_FieldIDs spec ! i \<noteq> 0" "i \<noteq> 0 \<Longrightarrow> fs_FieldIDs spec ! (i - 1) < fs_FieldIDs spec ! i"
    "i \<noteq> 0 \<Longrightarrow> fs_ValueStarts spec ! i = fs_ValueStarts spec ! (i - 1) + fs_ValueCounts spec ! (i - 1)"
proof -
  let ?n = "length (fs_FieldIDs spec)"
  have "list_all (fact_field_ok spec cnt psc) [0..<?n]"
    using assms by (auto simp: validFactSpecShape_def Let_def split: if_splits)
  from list_all_uptD[OF this assms(2)] have ok: "fact_field_ok spec cnt psc i" .
  from ok show "fs_Columns spec ! i < cnt" "fs_ValueStarts spec ! i + fs_ValueCounts spec ! i \<le> length (fs_Values spec)"
    "fs_FieldIDs spec ! i \<noteq> 0" "i \<noteq> 0 \<Longrightarrow> fs_FieldIDs spec ! (i - 1) < fs_FieldIDs spec ! i"
    "i \<noteq> 0 \<Longrightarrow> fs_ValueStarts spec ! i = fs_ValueStarts spec ! (i - 1) + fs_ValueCounts spec ! (i - 1)"
    unfolding fact_field_ok_def Let_def by (meson not_le)+
  from ok have "list_all (\<lambda>j. \<not> (spec_values spec i ! j = 0 \<or> spec_values spec i ! j > psc \<or>
      (j \<noteq> 0 \<and> spec_values spec i ! j \<le> spec_values spec i ! (j - 1)))) [0..<length (spec_values spec i)]"
    unfolding fact_field_ok_def Let_def spec_values_def[symmetric] by blast
  from ascending_vals[OF this] show "sorted (spec_values spec i)" "distinct (spec_values spec i)"
    "\<forall>v \<in> set (spec_values spec i). v \<noteq> 0 \<and> v \<le> psc" by blast+
qed

lemma fact_shape_lengths:
  assumes "validFactSpecShape spec cnt psc"
  shows "length (fs_Columns spec) = length (fs_FieldIDs spec)" "length (fs_ValueStarts spec) = length (fs_FieldIDs spec)"
    "length (fs_ValueCounts spec) = length (fs_FieldIDs spec)" "length (fs_Values spec) \<le> MaxUint32"
  using assms by (auto simp: validFactSpecShape_def Let_def split: if_splits)

lemma fact_fields_ascending:
  assumes "validFactSpecShape spec cnt psc"
  shows "sorted (fs_FieldIDs spec)" "distinct (fs_FieldIDs spec)"
proof -
  have "sorted_wrt (<) (fs_FieldIDs spec)"
  proof (subst sorted_wrt_iff_nth_Suc_transp, simp, intro allI impI)
    fix j assume "Suc j < length (fs_FieldIDs spec)"
    then show "fs_FieldIDs spec ! j < fs_FieldIDs spec ! Suc j" using fact_shape_field(7)[OF assms, of "Suc j"] by simp
  qed
  then show "sorted (fs_FieldIDs spec)" "distinct (fs_FieldIDs spec)" by (simp_all add: strict_sorted_iff)
qed

lemma fact_owner_unique:
  assumes "validFactSpecShape spec cnt psc" "i < length (fs_FieldIDs spec)" "j < length (fs_FieldIDs spec)"
    and "fact_owner spec i vr" "fact_owner spec j vr"
  shows "i = j"
proof -
  have mono: "fs_ValueStarts spec ! i + fs_ValueCounts spec ! i \<le> fs_ValueStarts spec ! j"
    if "i < j" "j < length (fs_FieldIDs spec)" for i j
    using that
  proof (induction j)
    case (Suc j)
    have "fs_ValueStarts spec ! Suc j = fs_ValueStarts spec ! j + fs_ValueCounts spec ! j"
      using fact_shape_field(8)[OF assms(1), of "Suc j"] Suc.prems by simp
    with Suc show ?case by (cases "i = j") auto
  qed simp
  from mono[of i j] mono[of j i] assms(2-5) show ?thesis by (cases i j rule: linorder_cases) (auto simp: fact_owner_def)
qed

lemma index_field_spec:
  assumes sh: "validFactSpecShape spec cnt psc" and i: "i < length (fs_FieldIDs spec)"
    and a: "length a = psc + 1" "\<forall>v < psc + 1. a ! v = 0"
    and M: "slab_is (length (fs_Values spec)) rows masks P"
    and C: "off + rows \<le> stride" "length colv = stride * cnt"
  shows "\<exists>a' masks'. index_field spec colv (word_count rows) rows stride off i (a, masks) = Ok (a', masks') \<and>
     length a' = psc + 1 \<and> (\<forall>v < psc + 1. a' ! v = 0) \<and>
     slab_is (length (fs_Values spec)) rows masks' (\<lambda>vr r. P vr r \<or>
        (fact_owner spec i vr \<and> colv ! (fs_Columns spec ! i * stride + off + r) = fs_Values spec ! vr))"
proof -
  let ?V = "fs_Values spec" and ?start = "fs_ValueStarts spec ! i" and ?m = "fs_ValueCounts spec ! i"
  let ?cs = "fs_Columns spec ! i * stride + off"
  let ?vals = "take rows (drop ?cs colv)"
  note f = fact_shape_field[OF sh i]
  have fv: "take ?m (drop ?start ?V) = spec_values spec i" by (simp add: spec_values_def)
  have lt: "\<forall>v \<in> set (spec_values spec i). v < length a" using f(5) a(1) by auto
  from publish_rows_spec[of ?start ?m spec a] f(2,4) lt obtain b where
    b: "publish_rows spec [?start..<?start + ?m] a = Ok b" "length b = psc + 1"
      "\<forall>j < ?m. b ! (?V ! (?start + j)) = ?start + j + 1" "\<forall>v. v \<notin> set (spec_values spec i) \<longrightarrow> b ! v = a ! v"
    using a(1) unfolding fv by auto
  have "fs_Columns spec ! i * stride + stride \<le> cnt * stride" by (rule block_bound[OF f(1)])
  then have cs: "?cs + rows \<le> length colv" using C by (simp add: mult.commute)
  have Vj: "\<forall>j < ?m. ?V ! (?start + j) < psc + 1"
  proof (intro allI impI)
    fix j assume "j < ?m"
    then have "?V ! (?start + j) \<in> set (spec_values spec i)"
      using f(2) by (auto simp: spec_values_def in_set_conv_nth intro!: exI[of _ j])
    then show "?V ! (?start + j) < psc + 1" using lt a(1) by simp
  qed
  have b0: "\<forall>v < psc + 1. v \<notin> set (take ?m (drop ?start ?V)) \<longrightarrow> b ! v = 0" using b(4) a(2) unfolding fv by simp
  have rs: "\<forall>r \<in> set [0..<rows]. r < rows" by simp
  have vl: "length ?vals = rows" using cs by simp
  from scan_rows_spec[OF b(2,3) b0 Vj f(2) M rs vl] obtain masks' where
    m: "res_foldM (scan_row b (word_count rows) ?vals) [0..<rows] masks = Ok masks'"
      "slab_is (length ?V) rows masks' (\<lambda>vr r. P vr r \<or> (r \<in> set [0..<rows] \<and> ?start \<le> vr \<and> vr < ?start + ?m \<and> ?vals ! r = ?V ! vr))"
    by blast
  from clear_rows_spec[of "spec_values spec i" b] lt a(1) b(2) obtain a' where
    a': "clear_rows (spec_values spec i) b = Ok a'" "length a' = psc + 1"
      "\<forall>v < psc + 1. a' ! v = (if v \<in> set (spec_values spec i) then 0 else b ! v)" by auto
  have "index_field spec colv (word_count rows) rows stride off i (a, masks) = Ok (a', masks')"
    using b(1) cs m(1) f(2) a'(1) fv by (simp add: index_field_def Let_def)
  moreover have "\<forall>v < psc + 1. a' ! v = 0" using a'(3) b(4) a(2) by simp
  moreover have "slab_is (length ?V) rows masks' (\<lambda>vr r. P vr r \<or> (fact_owner spec i vr \<and> colv ! (?cs + r) = ?V ! vr))"
    by (rule slab_is_cong[OF m(2)]) (use cs in \<open>auto simp: fact_owner_def\<close>)
  ultimately show ?thesis using a'(2) by blast
qed

lemma index_fields_fold:
  assumes sh: "validFactSpecShape spec cnt psc"
    and a: "length a = psc + 1" "\<forall>v < psc + 1. a ! v = 0"
    and C: "off + rows \<le> stride" "length colv = stride * cnt" and "k \<le> length (fs_FieldIDs spec)"
  shows "\<exists>a' masks. res_foldM (index_field spec colv (word_count rows) rows stride off) [0..<k]
       (a, replicate (length (fs_Values spec) * word_count rows) 0) = Ok (a', masks) \<and>
     length a' = psc + 1 \<and> (\<forall>v < psc + 1. a' ! v = 0) \<and>
     slab_is (length (fs_Values spec)) rows masks (\<lambda>vr r. \<exists>i < k. fact_owner spec i vr \<and>
        colv ! (fs_Columns spec ! i * stride + off + r) = fs_Values spec ! vr)"
  using assms(6)
proof (induction k)
  case 0
  have "slab_is nv rows (replicate (nv * word_count rows) 0) (\<lambda>b x. False)" for nv
    using mk_bitmap_zero_iff[of rows "\<lambda>_. False"] by (simp add: slab_is_def block_replicate)
  then show ?case using a by simp
next
  case (Suc k)
  then obtain a' masks where IH: "res_foldM (index_field spec colv (word_count rows) rows stride off) [0..<k]
       (a, replicate (length (fs_Values spec) * word_count rows) 0) = Ok (a', masks)"
     "length a' = psc + 1" "\<forall>v < psc + 1. a' ! v = 0"
     "slab_is (length (fs_Values spec)) rows masks (\<lambda>vr r. \<exists>i < k. fact_owner spec i vr \<and>
        colv ! (fs_Columns spec ! i * stride + off + r) = fs_Values spec ! vr)" by auto
  from index_field_spec[OF sh _ IH(2,3,4) C, of k] Suc.prems obtain a2 m2 where
    "index_field spec colv (word_count rows) rows stride off k (a', masks) = Ok (a2, m2)"
    "length a2 = psc + 1" "\<forall>v < psc + 1. a2 ! v = 0"
    and m2: "slab_is (length (fs_Values spec)) rows m2 (\<lambda>vr r. (\<exists>i < k. fact_owner spec i vr \<and>
        colv ! (fs_Columns spec ! i * stride + off + r) = fs_Values spec ! vr) \<or>
        (fact_owner spec k vr \<and> colv ! (fs_Columns spec ! k * stride + off + r) = fs_Values spec ! vr))" by auto
  moreover have "slab_is (length (fs_Values spec)) rows m2 (\<lambda>vr r. \<exists>i < Suc k. fact_owner spec i vr \<and>
        colv ! (fs_Columns spec ! i * stride + off + r) = fs_Values spec ! vr)"
    by (rule slab_is_cong[OF m2]) (auto simp: less_Suc_eq)
  ultimately show ?case using IH(1) by (simp add: res_foldM_append)
qed


text \<open>The widths of the Go fields of \<^verbatim>\<open>SymbolColumns\<close>.\<close>

definition columns_u32 :: "symbol_columns \<Rightarrow> bool" where
  "columns_u32 columns \<longleftrightarrow> sc_Rows columns \<le> MaxUint32 \<and> sc_Count columns \<le> MaxUint32 \<and>
     sc_RowStride columns \<le> MaxUint32 \<and> sc_ProgramSymbolCount columns \<le> MaxUint32"

definition fact_built :: "fact_spec \<Rightarrow> symbol_columns \<Rightarrow> fact_index \<Rightarrow> bool" where
  "fact_built spec columns ix \<longleftrightarrow>
     validFactSpecShape spec (sc_Count columns) (sc_ProgramSymbolCount columns) \<and>
     fi_spec ix = Some spec \<and> fi_Rows ix = sc_Rows columns \<and> fi_WordCount ix = word_count (sc_Rows columns) \<and>
     slab_is (length (fs_Values spec)) (sc_Rows columns) (fi_ValueMasks ix) (\<lambda>vr r. \<exists>i < length (fs_FieldIDs spec).
        fact_owner spec i vr \<and> fact_cell spec columns i r = fs_Values spec ! vr)"

lemma factWordCount_eq [simp]: "factWordCount rows = word_count rows"
  by (simp add: factWordCount_def word_count_def)

lemma factMaskLen_Some: "factMaskLen rows n = Some k \<Longrightarrow> k = n * word_count rows"
  using no_wrap[of "word_count rows" n]
  by (auto simp: factMaskLen_def Let_def mult.commute split: if_splits)

lemma factColumnLen_Some:
  assumes "factColumnLen rows cols = Some k" "rows \<le> MaxUint32" "cols \<le> MaxUint32"
  shows "k = rows * cols"
proof -
  have "rows * cols \<le> MaxUint32 * MaxUint32" using assms(2,3) by (rule mult_le_mono)
  then have "rows * cols < 2 ^ 64" by simp
  then show ?thesis using assms(1) by (auto simp: factColumnLen_def Let_def split: if_splits)
qed

text \<open>A build whose shapes are right and whose sizes fit succeeds.\<close>

definition fact_shapes :: "fact_spec \<Rightarrow> symbol_columns \<Rightarrow> bool" where
  "fact_shapes spec columns \<longleftrightarrow> (sc_RowStride columns = 0 \<longrightarrow> sc_RowOffset columns = 0) \<and>
     sc_RowOffset columns + sc_Rows columns \<le> stride_of columns \<and>
     length (sc_Values columns) = stride_of columns * sc_Count columns \<and>
     validFactSpecShape spec (sc_Count columns) (sc_ProgramSymbolCount columns)"

lemma FactBuilder_Build_Ok:
  assumes "rows_clear backing" "columns_u32 columns" and sh: "fact_shapes spec columns"
    and cl: "factColumnLen (stride_of columns) (sc_Count columns) = Some cl"
    and ml: "factMaskLen (sc_Rows columns) (length (fs_Values spec)) = Some ml"
    and psc: "sc_ProgramSymbolCount columns + 1 \<le> MaxInt div 4"
  shows "\<exists>backing' ix. FactBuilder_Build backing spec columns = Ok (backing', ix) \<and> rows_clear backing' \<and>
      fact_built spec columns ix"
proof -
  let ?psc = "sc_ProgramSymbolCount columns" and ?rows = "sc_Rows columns" and ?cnt = "sc_Count columns"
  let ?stride = "stride_of columns"
  let ?array = "if length backing < ?psc + 1 then replicate (?psc + 1) 0 else backing"
  have vs: "validFactSpecShape spec ?cnt ?psc" and off: "sc_RowOffset columns + ?rows \<le> ?stride"
    and len: "length (sc_Values columns) = ?stride * ?cnt" and so: "\<not> (sc_RowStride columns = 0 \<and> sc_RowOffset columns \<noteq> 0)"
    using sh by (auto simp: fact_shapes_def)
  have "?stride \<le> MaxUint32" using assms(2) by (simp add: stride_of_def columns_u32_def)
  then have cl': "cl = ?stride * ?cnt" using factColumnLen_Some[OF cl] assms(2) by (simp add: columns_u32_def)
  have "\<forall>v \<in> set ?array. v = 0" using assms(1) by (simp add: rows_clear_def)
  moreover have arr: "length (take (?psc + 1) ?array) = ?psc + 1" by simp
  ultimately have arr0: "\<forall>v < ?psc + 1. take (?psc + 1) ?array ! v = 0" by (metis in_set_takeD nth_mem)
  from index_fields_fold[OF vs arr arr0 off len order_refl] obtain a' masks where
    fld: "res_foldM (index_field spec (sc_Values columns) (word_count ?rows) ?rows ?stride (sc_RowOffset columns))
       [0..<length (fs_FieldIDs spec)] (take (?psc + 1) ?array, replicate (length (fs_Values spec) * word_count ?rows) 0) = Ok (a', masks)"
    and a': "length a' = ?psc + 1" "\<forall>v < ?psc + 1. a' ! v = 0"
    and M: "slab_is (length (fs_Values spec)) ?rows masks (\<lambda>vr r. \<exists>i < length (fs_FieldIDs spec).
        fact_owner spec i vr \<and> sc_Values columns ! (fs_Columns spec ! i * ?stride + sc_RowOffset columns + r) = fs_Values spec ! vr)"
    by blast
  let ?ix = "\<lparr>fi_spec = Some spec, fi_ValueMasks = masks, fi_Rows = ?rows, fi_WordCount = word_count ?rows\<rparr>"
  have "FactBuilder_Build backing spec columns = Ok (a' @ drop (?psc + 1) ?array, ?ix)"
    using off len cl cl' ml vs fld psc fact_shape_lengths(1)[OF vs] factMaskLen_Some[OF ml]
    unfolding FactBuilder_Build_def stride_of_def[symmetric] Let_def by (simp, use so in auto)
  moreover have "rows_clear (a' @ drop (?psc + 1) ?array)"
  proof -
    have "\<forall>v \<in> set a'. v = 0" using a' by (auto simp: in_set_conv_nth)
    moreover have "\<forall>v \<in> set (drop (?psc + 1) ?array). v = 0"
      using assms(1) by (auto simp: rows_clear_def dest: in_set_dropD)
    ultimately show ?thesis unfolding rows_clear_def by auto
  qed
  moreover have "fact_built spec columns ?ix" using vs M by (simp add: fact_built_def fact_cell_def)
  ultimately show ?thesis by blast
qed

lemma FactBuilder_Build_cases:
  assumes "rows_clear backing" "columns_u32 columns"
  shows "(\<exists>backing' ix. FactBuilder_Build backing spec columns = Ok (backing', ix) \<and> rows_clear backing' \<and>
      fact_built spec columns ix) \<or>
     (FactBuilder_Build backing spec columns = Err ErrInvalidFactIndex \<and> \<not> fact_shapes spec columns) \<or>
     FactBuilder_Build backing spec columns = Err ErrIndexTooLarge"
proof -
  let ?psc = "sc_ProgramSymbolCount columns" and ?rows = "sc_Rows columns" and ?cnt = "sc_Count columns"
  let ?stride = "stride_of columns"
  have st: "?stride \<le> MaxUint32" "?cnt \<le> MaxUint32" using assms(2) by (simp_all add: stride_of_def columns_u32_def)
  show ?thesis
  proof (cases "(sc_RowStride columns = 0 \<and> sc_RowOffset columns \<noteq> 0) \<or> sc_RowOffset columns + ?rows > ?stride \<or>
      factColumnLen ?stride ?cnt = None \<or>
      (\<exists>k. factColumnLen ?stride ?cnt = Some k \<and> (length (sc_Values columns) \<noteq> k \<or> \<not> validFactSpecShape spec ?cnt ?psc)) \<or>
      factMaskLen ?rows (length (fs_Values spec)) = None \<or> ?psc + 1 > MaxInt div 4")
    case True
    then show ?thesis using factColumnLen_Some[OF _ st]
      by (auto simp: FactBuilder_Build_def fact_shapes_def stride_of_def[symmetric] Let_def split: option.splits)
  next
    case False
    then obtain cl ml where cl: "factColumnLen ?stride ?cnt = Some cl" and ml: "factMaskLen ?rows (length (fs_Values spec)) = Some ml"
      and sh: "validFactSpecShape spec ?cnt ?psc" "length (sc_Values columns) = cl"
      and off: "sc_RowOffset columns + ?rows \<le> ?stride"
      by fastforce
    have "fact_shapes spec columns" using False sh off factColumnLen_Some[OF cl st] by (auto simp: fact_shapes_def)
    from FactBuilder_Build_Ok[OF assms this cl ml] False show ?thesis by simp
  qed
qed

lemma fact_built_Lookup:
  assumes "fact_built spec columns ix"
  shows "f \<notin> set (fs_FieldIDs spec) \<Longrightarrow> FactIndex_Lookup ix f v = Ok NotIndexed"
    and "i < length (fs_FieldIDs spec) \<Longrightarrow> fs_FieldIDs spec ! i = f \<Longrightarrow> FactIndex_Lookup ix f v =
      Ok (if v \<in> set (spec_values spec i) then RowMask (mk_bitmap (sc_Rows columns) (\<lambda>r. fact_cell spec columns i r = v)) else NilMask)"
proof -
  let ?rows = "sc_Rows columns" and ?V = "fs_Values spec" and ?cnt = "sc_Count columns" and ?psc = "sc_ProgramSymbolCount columns"
  have sh: "validFactSpecShape spec ?cnt ?psc" and ix: "fi_spec ix = Some spec" "fi_WordCount ix = word_count ?rows"
    and M: "slab_is (length ?V) ?rows (fi_ValueMasks ix) (\<lambda>vr r. \<exists>i < length (fs_FieldIDs spec).
        fact_owner spec i vr \<and> fact_cell spec columns i r = ?V ! vr)"
    using assms by (simp_all add: fact_built_def)
  note srt = fact_fields_ascending[OF sh]
  {
    assume "f \<notin> set (fs_FieldIDs spec)"
    then have "\<not> snd (binary_search (fs_FieldIDs spec) f)" using binary_search_iff[OF srt(1)] by blast
    then show "FactIndex_Lookup ix f v = Ok NotIndexed"
      by (cases "binary_search (fs_FieldIDs spec) f") (simp add: FactIndex_Lookup_def ix)
  next
    assume i: "i < length (fs_FieldIDs spec)" "fs_FieldIDs spec ! i = f"
    have bs: "binary_search (fs_FieldIDs spec) f = (i, True)" using binary_search_distinct[OF srt i(1)] i(2) by simp
    note fo = fact_shape_field[OF sh i(1)] and ln = fact_shape_lengths[OF sh]
    let ?start = "fs_ValueStarts spec ! i" and ?m = "fs_ValueCounts spec ! i"
    have lk: "FactIndex_Lookup ix f v = (case binary_search (spec_values spec i) v of (relative, valueFound) \<Rightarrow>
        if \<not> valueFound then Ok NilMask
        else rbind (subslice (fi_ValueMasks ix) ((?start + relative) * word_count ?rows)
             ((?start + relative) * word_count ?rows + word_count ?rows)) (\<lambda>m. Ok (RowMask m)))"
      unfolding FactIndex_Lookup_def ix Let_def spec_values_def using i(1) fo(2) ln by (simp add: bs)
    show "FactIndex_Lookup ix f v =
      Ok (if v \<in> set (spec_values spec i) then RowMask (mk_bitmap ?rows (\<lambda>r. fact_cell spec columns i r = v)) else NilMask)"
    proof (cases "v \<in> set (spec_values spec i)")
      case False
      then have "\<not> snd (binary_search (spec_values spec i) v)" using binary_search_iff[OF fo(3)] by blast
      then show ?thesis using False unfolding lk by (cases "binary_search (spec_values spec i) v") simp
    next
      case True
      then obtain k where k: "k < length (spec_values spec i)" "spec_values spec i ! k = v" by (auto simp: in_set_conv_nth)
      have bv: "binary_search (spec_values spec i) v = (k, True)" using binary_search_distinct[OF fo(3,4) k(1)] k(2) by simp
      have km: "k < ?m" and vk: "?V ! (?start + k) = v" using k fo(2) by (auto simp: spec_values_def)
      have vr: "?start + k < length ?V" using km fo(2) by simp
      have own: "fact_owner spec j (?start + k) \<longleftrightarrow> j = i" if "j < length (fs_FieldIDs spec)" for j
        using fact_owner_unique[OF sh that i(1), of "?start + k"] km by (auto simp: fact_owner_def)
      have "block (fi_ValueMasks ix) (word_count ?rows) (?start + k) = mk_bitmap ?rows (\<lambda>r. \<exists>j < length (fs_FieldIDs spec).
          fact_owner spec j (?start + k) \<and> fact_cell spec columns j r = ?V ! (?start + k))"
        using M vr by (simp add: slab_is_def)
      also have "\<dots> = mk_bitmap ?rows (\<lambda>r. fact_cell spec columns i r = v)"
        by (intro mk_bitmap_cong) (simp add: own i(1) vk cong: conj_cong)
      finally have "subslice (fi_ValueMasks ix) ((?start + k) * word_count ?rows)
             ((?start + k) * word_count ?rows + word_count ?rows) = Ok (mk_bitmap ?rows (\<lambda>r. fact_cell spec columns i r = v))"
        using block_subslice[of "fi_ValueMasks ix" "length ?V" "word_count ?rows" "?start + k"] M vr
        by (simp add: slab_is_def add.commute)
      then show ?thesis using True bv unfolding lk by simp
    qed
  }
qed

section \<open>Properties\<close>

text \<open>C13: the fact index is exact and its builder reusable. With a clear value-row array, a build never
  panics; after a successful build the array is clear again and a lookup answers: not indexed for a
  field the specification does not list, a nil mask for a value it does not list, and otherwise
  exactly the rows of the batch whose cell of that field holds the value.\<close>

theorem fact_index_exact:
  assumes "rows_clear backing" "columns_u32 columns"
  shows "\<not> is_panic (FactBuilder_Build backing spec columns) \<and>
    (\<forall>backing' ix. FactBuilder_Build backing spec columns = Ok (backing', ix) \<longrightarrow> rows_clear backing' \<and>
      (\<forall>f v. (f \<notin> set (fs_FieldIDs spec) \<longrightarrow> FactIndex_Lookup ix f v = Ok NotIndexed) \<and>
        (\<forall>i < length (fs_FieldIDs spec). fs_FieldIDs spec ! i = f \<longrightarrow> FactIndex_Lookup ix f v =
          Ok (if v \<in> set (spec_values spec i)
              then RowMask (mk_bitmap (sc_Rows columns) (\<lambda>r. fact_cell spec columns i r = v)) else NilMask))))"
proof -
  have ok: "rows_clear backing' \<and> fact_built spec columns ix"
    if "FactBuilder_Build backing spec columns = Ok (backing', ix)" for backing' ix
    using FactBuilder_Build_cases[OF assms, of spec] that by auto
  have "\<not> is_panic (FactBuilder_Build backing spec columns)" using FactBuilder_Build_cases[OF assms, of spec] by auto
  moreover have "(f \<notin> set (fs_FieldIDs spec) \<longrightarrow> FactIndex_Lookup ix f v = Ok NotIndexed) \<and>
      (\<forall>i < length (fs_FieldIDs spec). fs_FieldIDs spec ! i = f \<longrightarrow> FactIndex_Lookup ix f v =
        Ok (if v \<in> set (spec_values spec i)
            then RowMask (mk_bitmap (sc_Rows columns) (\<lambda>r. fact_cell spec columns i r = v)) else NilMask))"
    if "fact_built spec columns ix" for ix f v
    using fact_built_Lookup[OF that] by blast
  ultimately show ?thesis using ok by blast
qed

definition sample_spec :: fact_spec where
  "sample_spec = \<lparr>fs_FieldIDs = [2, 5], fs_Columns = [0, 1], fs_ValueStarts = [0, 2], fs_ValueCounts = [2, 1],
     fs_UseCounts = [2, 2], fs_Values = [3, 4, 3]\<rparr>"

definition sample_columns :: symbol_columns where
  "sample_columns = \<lparr>sc_Values = [3, 4, 9, 3, 1, 3, 3, 2], sc_Rows = 3, sc_Count = 2, sc_ProgramSymbolCount = 6,
     sc_RowOffset = 1, sc_RowStride = 4\<rparr>"

theorem fact_index_exact_witness:
  "(case FactBuilder_Build [0, 0] sample_spec sample_columns of Ok (backing', ix) \<Rightarrow>
      rows_clear backing' \<and> FactIndex_Lookup ix 5 3 = Ok (RowMask (mk_bitmap 3 (\<lambda>r. fact_cell sample_spec sample_columns 1 r = 3)))
    | _ \<Rightarrow> False)"
proof -
  have "rows_clear [0, 0]" "columns_u32 sample_columns" by (simp_all add: rows_clear_def columns_u32_def sample_columns_def)
  note t = fact_index_exact[OF this, of sample_spec]
  have "case FactBuilder_Build [0, 0] sample_spec sample_columns of Ok (backing', ix) \<Rightarrow> True | _ \<Rightarrow> False" by code_simp
  moreover have "fs_FieldIDs sample_spec ! 1 = 5" "1 < length (fs_FieldIDs sample_spec)" "3 \<in> set (spec_values sample_spec 1)"
    "sc_Rows sample_columns = 3" by code_simp+
  ultimately show ?thesis using t by (auto split: res.splits)
qed

end
