(* ===== verification/NR_Program.thy ===== *)
theory NR_Program
  imports NR_Templates NR_FactIndex
begin

text \<open>
  The package \<^verbatim>\<open>internal/program\<close>: opcodes, root flags, the compiled \<^verbatim>\<open>Program\<close> and its lookups, and
  the symbol hash of \<^verbatim>\<open>internal/schema/symbols.go\<close>.

  \<open>program\<close> has one field per column of the Go struct that the evaluator, the validators or the
  registry read; it is declared in four record extensions, in the order of the struct. The columns
  that only carry source spans or policy text (catalog spans, input bytes) are left out.
\<close>

section \<open>Opcodes and root flags\<close>

datatype opcode =
    OpcodeInvalid | OpcodeEqual | OpcodeNotEqual | OpcodeIn | OpcodeExists | OpcodeLess
  | OpcodeLessEqual | OpcodeGreater | OpcodeGreaterEqual | OpcodeEvidence | OpcodeAll | OpcodeAny
  | OpcodeNot | OpcodeBoolean | OpcodeDefined | OpcodeRaw nat

fun opcode_num :: "opcode \<Rightarrow> nat" where
  "opcode_num OpcodeInvalid = 0"
| "opcode_num OpcodeEqual = 1"
| "opcode_num OpcodeNotEqual = 2"
| "opcode_num OpcodeIn = 3"
| "opcode_num OpcodeExists = 4"
| "opcode_num OpcodeLess = 5"
| "opcode_num OpcodeLessEqual = 6"
| "opcode_num OpcodeGreater = 7"
| "opcode_num OpcodeGreaterEqual = 8"
| "opcode_num OpcodeEvidence = 9"
| "opcode_num OpcodeAll = 10"
| "opcode_num OpcodeAny = 11"
| "opcode_num OpcodeNot = 12"
| "opcode_num OpcodeBoolean = 13"
| "opcode_num OpcodeDefined = 14"
| "opcode_num (OpcodeRaw n) = 15 + n"

definition opcode_Valid :: "opcode \<Rightarrow> bool" where
  "opcode_Valid op \<longleftrightarrow> opcode_num op \<ge> opcode_num OpcodeEqual \<and> opcode_num op \<le> opcode_num OpcodeDefined"

definition opcode_IsGroup :: "opcode \<Rightarrow> bool" where
  "opcode_IsGroup op \<longleftrightarrow> op = OpcodeAll \<or> op = OpcodeAny"

abbreviation RootApplicability :: byte where "RootApplicability \<equiv> 1"
abbreviation RootAssertion :: byte where "RootAssertion \<equiv> 2"
abbreviation RootEvidence :: byte where "RootEvidence \<equiv> 4"

definition flags_Has :: "byte \<Rightarrow> byte \<Rightarrow> bool" where
  "flags_Has f flag \<longleftrightarrow> f AND flag = flag"

section \<open>The program\<close>

record program_schedule =
  p_Opcodes :: "opcode list"
  p_Fields :: "nat list"
  p_Values :: "nat list"
  p_ListStarts :: "nat list"
  p_ListCounts :: "nat list"
  p_OperandStarts :: "nat list"
  p_OperandCounts :: "nat list"
  p_EvidenceKinds :: "nat list"
  p_EvidenceStates :: "nat list"
  p_EvidenceSubjects :: "nat list"
  p_EvidenceScopes :: "nat list"
  p_EvidenceTimings :: "nat list"
  p_RootFlags :: "byte list"
  p_TruthSlots :: "nat list"
  p_ReasonSlots :: "nat list"
  p_InstructionNodes :: "nat list"
  p_InstructionSourceStarts :: "nat list"
  p_InstructionSourceEnds :: "nat list"
  p_ListValues :: "nat list"
  p_Operands :: "nat list"

record program_catalog = program_schedule +
  p_SymbolBytes :: "byte list"
  p_SymbolStarts :: "nat list"
  p_SymbolLengths :: "nat list"
  p_SymbolHashes :: "u64 list"
  p_SymbolIDs :: "nat list"
  p_ValueKinds :: "value_kind list"
  p_ValueRefs :: "nat list"
  p_IntegerValues :: "int list"
  p_BooleanValues :: "u64 list"
  p_TimestampValues :: "int list"
  p_FieldNames :: "nat list"
  p_FieldKinds :: "value_kind list"
  p_FieldGroups :: "field_group list"
  p_EvidenceKindNames :: "nat list"
  p_EvidenceStateNames :: "nat list"

record program_semantics = program_catalog +
  p_RequirementIDs :: "nat list"
  p_RequirementRoots :: "nat list"
  p_RequirementSourceNodeIDs :: "nat list"
  p_RequirementClauseStarts :: "nat list"
  p_RequirementClauseCounts :: "nat list"
  p_RequirementClauseIDs :: "nat list"
  p_ClauseAssertionRoots :: "nat list"
  p_ClauseAssertionSourceNodeIDs :: "nat list"
  p_ClauseEvidenceStarts :: "nat list"
  p_ClauseEvidenceCounts :: "nat list"
  p_ClauseEvidenceIDs :: "nat list"
  p_ClauseEvidenceSourceNodeIDs :: "nat list"
  p_ClauseOnSatisfied :: "nat list"
  p_ClauseOnFalse :: "nat list"
  p_ClauseExplanationIDs :: "nat list"
  p_ClauseRemediationStarts :: "nat list"
  p_ClauseRemediationCounts :: "nat list"
  p_ClauseRemediationIDs :: "nat list"

record program = program_semantics +
  p_TemplateColumns :: template_table
  p_ExplanationColumns :: explanation_table
  p_EvidenceIssueNodeIDs :: "nat list"
  p_EvidenceIssueTemplateIDs :: "nat list"
  p_Templates :: template_table
  p_Explanations :: explanation_table
  p_Outcomes :: outcome_table
  p_Remediations :: remediation_table
  p_Resolutions :: resolution_table
  p_resolver :: resolver
  p_ApplicabilityIndex :: policy_index
  p_FactIndexSpec :: fact_spec
  p_FieldIndex :: index_schema
  p_ContentHash :: "byte list"
  p_ProgramSymbolCount :: nat
  p_TruthSlotCount :: nat
  p_ReasonSlotCount :: nat

definition InstructionCount :: "program \<Rightarrow> nat" where
  "InstructionCount p = length (p_Opcodes p)"

section \<open>Symbols and values\<close>

text \<open>\<^verbatim>\<open>HashSymbol\<close>, FNV-1a over 64-bit words with wrap-around multiplication.\<close>

definition fnvOffset :: u64 where "fnvOffset = 14695981039346656037"
definition fnvPrime :: u64 where "fnvPrime = 1099511628211"

definition HashSymbol :: "byte list \<Rightarrow> u64" where
  "HashSymbol b = fold (\<lambda>c h. (h XOR ucast c) * fnvPrime) b fnvOffset"

definition Program_Symbol :: "program \<Rightarrow> nat \<Rightarrow> byte list option" where
  "Program_Symbol p sid =
     (if sid = 0 then None
      else let i = sid - 1 in
      if i \<ge> length (p_SymbolStarts p) \<or> i \<ge> length (p_SymbolLengths p) then None
      else let start = p_SymbolStarts p ! i; len = p_SymbolLengths p ! i in
      if start + len > length (p_SymbolBytes p) then None
      else Some (take len (drop start (p_SymbolBytes p))))"

text \<open>The probe loop of \<^verbatim>\<open>LookupSymbol\<close>; the first argument is the number of probes left.\<close>

fun probe_symbol :: "nat \<Rightarrow> program \<Rightarrow> byte list \<Rightarrow> u64 \<Rightarrow> nat \<Rightarrow> nat option" where
  "probe_symbol 0 p v h slot = None"
| "probe_symbol (Suc probes) p v h slot =
     (let sid = p_SymbolIDs p ! slot in
      if sid = 0 then None
      else if p_SymbolHashes p ! slot = h \<and> Program_Symbol p sid = Some v then Some sid
      else probe_symbol probes p v h ((slot + 1) mod length (p_SymbolHashes p)))"

definition LookupSymbol :: "program \<Rightarrow> byte list \<Rightarrow> nat option" where
  "LookupSymbol p v =
     (let n = length (p_SymbolHashes p) in
      if n = 0 \<or> n \<noteq> length (p_SymbolIDs p) \<or> n AND (n - 1) \<noteq> 0 then None
      else let h = HashSymbol v in probe_symbol n p v h (unat h mod n))"

definition Program_ValueKind :: "program \<Rightarrow> nat \<Rightarrow> value_kind option" where
  "Program_ValueKind p vid =
     (if vid = 0 then None
      else let i = vid - 1 in
      if i \<ge> length (p_ValueKinds p) \<or> i \<ge> length (p_ValueRefs p) then None else Some (p_ValueKinds p ! i))"

section \<open>Result tables\<close>

datatype tables_error =
    TablesTemplate | TablesExplanation explanation_error | TablesResolver err
  | TablesEvidenceIssue | TablesTemplateReference | TablesExplanationReference | TablesPanic string

definition empty_resolver :: resolver where
  "empty_resolver = \<lparr>rv_outcomes = \<lparr>ot_Names = [], ot_Precedence = [], ot_Terminal = []\<rparr>,
     rv_remediations = \<lparr>rt_Kinds = [], rt_Fields = [], rt_Values = [], rt_EvidenceKinds = []\<rparr>,
     rv_rules = \<lparr>rs_OutcomeIDs = [], rs_ExplanationIDs = [], rs_RemediationStarts = [], rs_RemediationCounts = [],
       rs_RemediationIDs = []\<rparr>\<rparr>"

definition ClearResultResolver :: "program \<Rightarrow> program" where
  "ClearResultResolver p = p\<lparr>p_resolver := empty_resolver, p_Templates := empty_templates,
     p_Explanations := empty_explanations\<rparr>"

text \<open>
  \<^verbatim>\<open>ValidateResultTables\<close>: the program with its result state cleared, and the error, or the program
  with the validated tables installed.
\<close>

definition ValidateResultTables :: "program \<Rightarrow> program \<times> tables_error option" where
  "ValidateResultTables p0 =
     (let p = ClearResultResolver p0; templates = p_TemplateColumns p; explanations = p_ExplanationColumns p in
      if \<not> Templates_Validate templates then (p, Some TablesTemplate)
      else case Explanations_Validate explanations templates of Inl e \<Rightarrow> (p, Some (TablesExplanation e))
      | Inr _ \<Rightarrow>
        (case NewResolver (p_Outcomes p) (p_Remediations p) (p_Resolutions p) of
           Err e \<Rightarrow> (p, Some (TablesResolver e))
         | Panic m \<Rightarrow> (p, Some (TablesPanic m))
         | Ok resolver \<Rightarrow>
           if length (p_EvidenceIssueNodeIDs p) * ReasonCount \<noteq> length (p_EvidenceIssueTemplateIDs p)
             then (p, Some TablesEvidenceIssue)
           else if \<not> strictly_ascending (p_EvidenceIssueNodeIDs p) then (p, Some TablesEvidenceIssue)
           else if \<not> list_all (\<lambda>tid. Template_Lookup templates tid \<noteq> None) (p_EvidenceIssueTemplateIDs p)
             then (p, Some TablesTemplateReference)
           else if \<not> list_all (\<lambda>xid. Explanation_Lookup explanations xid \<noteq> None) (p_ClauseExplanationIDs p)
             then (p, Some TablesExplanationReference)
           else if \<not> list_all (\<lambda>xid. Explanation_Lookup explanations xid \<noteq> None) (rs_ExplanationIDs (p_Resolutions p))
             then (p, Some TablesExplanationReference)
           else (p\<lparr>p_Templates := templates, p_Explanations := explanations, p_resolver := resolver\<rparr>, None)))"

end
