(* ===== verification/NR_Simdops.thy ===== *)
theory NR_Simdops
  imports NR_Truth
begin

text \<open>
  The package \<^verbatim>\<open>internal/simdops\<close>: column comparisons, word-wise bitmap operations and mask
  packing. The portable functions (\<^verbatim>\<open>purego.go\<close>, \<^verbatim>\<open>ops.go\<close>) are modelled in full: each writes
  the prefix of the destination that every operand covers and keeps the rest.

  The other build calls the third-party library \<^verbatim>\<open>github.com/sebishogun/simd\<close>, which is not
  part of the repository. The evaluator is therefore a function of a \<open>simd_backend\<close>, the
  exported functions of the package together with the runtime facts the evaluator reads from
  \<^verbatim>\<open>simdops.Runtime()\<close>. The locale \<open>simd_contract\<close> states the documented behaviour, that every
  kernel computes what the portable function computes, and \<open>purego_backend\<close> satisfies it.
\<close>

abbreviation CmpEqual :: nat where "CmpEqual \<equiv> 1"
abbreviation CmpNotEqual :: nat where "CmpNotEqual \<equiv> 2"
abbreviation CmpLess :: nat where "CmpLess \<equiv> 3"
abbreviation CmpLessEqual :: nat where "CmpLessEqual \<equiv> 4"
abbreviation CmpGreater :: nat where "CmpGreater \<equiv> 5"
abbreviation CmpGreaterEqual :: nat where "CmpGreaterEqual \<equiv> 6"

definition Comparison_Valid :: "nat \<Rightarrow> bool" where
  "Comparison_Valid c \<longleftrightarrow> c \<ge> CmpEqual \<and> c \<le> CmpGreaterEqual"

definition maskWordCount :: "nat \<Rightarrow> nat" where
  "maskWordCount rows = (let words = rows div 64 in if rows mod 64 \<noteq> 0 then words + 1 else words)"

definition packMaskPortable :: "u64 list \<Rightarrow> bool list \<Rightarrow> u64 list res" where
  "packMaskPortable dst src =
     (let words = maskWordCount (length src) in
      if length dst < words then Panic ''simdops: mask destination too short''
      else Ok (set_rows (\<lambda>row. src ! row) [0..<length src] (replicate words 0 @ drop words dst)))"

definition compare_by :: "nat \<Rightarrow> 'a::linorder \<Rightarrow> 'a \<Rightarrow> bool" where
  "compare_by c x v =
     (if c = CmpEqual then x = v else if c = CmpNotEqual then x \<noteq> v
      else if c = CmpLess then x < v else if c = CmpLessEqual then x \<le> v
      else if c = CmpGreater then x > v else x \<ge> v)"

definition compare_column :: "bool list \<Rightarrow> 'a::linorder list \<Rightarrow> 'a \<Rightarrow> nat \<Rightarrow> bool list res" where
  "compare_column dst src v c =
     (if \<not> Comparison_Valid c then Panic ''simdops: invalid comparison''
      else let n = min (length dst) (length src) in
           Ok (map (\<lambda>i. compare_by c (src ! i) v) [0..<n] @ drop n dst))"

definition CompareU32 :: "bool list \<Rightarrow> nat list \<Rightarrow> nat \<Rightarrow> nat \<Rightarrow> bool list res" where
  "CompareU32 = compare_column"

definition CompareI64 :: "bool list \<Rightarrow> int list \<Rightarrow> int \<Rightarrow> nat \<Rightarrow> bool list res" where
  "CompareI64 = compare_column"

definition zip_prefix :: "('a \<Rightarrow> 'a \<Rightarrow> 'a) \<Rightarrow> 'a list \<Rightarrow> 'a list \<Rightarrow> 'a list \<Rightarrow> 'a list" where
  "zip_prefix f dst a b =
     (let n = min (length dst) (min (length a) (length b)) in
      map (\<lambda>i. f (a ! i) (b ! i)) [0..<n] @ drop n dst)"

definition AndWords :: "u64 list \<Rightarrow> u64 list \<Rightarrow> u64 list \<Rightarrow> u64 list" where
  "AndWords = zip_prefix (\<lambda>x y. x AND y)"

definition OrWords :: "u64 list \<Rightarrow> u64 list \<Rightarrow> u64 list \<Rightarrow> u64 list" where
  "OrWords = zip_prefix (\<lambda>x y. x OR y)"

definition XorWords :: "u64 list \<Rightarrow> u64 list \<Rightarrow> u64 list \<Rightarrow> u64 list" where
  "XorWords = zip_prefix (\<lambda>x y. x XOR y)"

definition AndNotWords :: "u64 list \<Rightarrow> u64 list \<Rightarrow> u64 list \<Rightarrow> u64 list" where
  "AndNotWords = zip_prefix (\<lambda>x y. x AND NOT y)"

definition AndMask :: "bool list \<Rightarrow> bool list \<Rightarrow> bool list \<Rightarrow> bool list" where
  "AndMask = zip_prefix (\<lambda>x y. x \<and> y)"

definition OrMask :: "bool list \<Rightarrow> bool list \<Rightarrow> bool list \<Rightarrow> bool list" where
  "OrMask = zip_prefix (\<lambda>x y. x \<or> y)"

definition XorMask :: "bool list \<Rightarrow> bool list \<Rightarrow> bool list \<Rightarrow> bool list" where
  "XorMask = zip_prefix (\<lambda>x y. x \<noteq> y)"

definition NotMask :: "bool list \<Rightarrow> bool list \<Rightarrow> bool list" where
  "NotMask dst src = (let n = min (length dst) (length src) in map (\<lambda>i. \<not> src ! i) [0..<n] @ drop n dst)"

definition PackMask :: "u64 list \<Rightarrow> bool list \<Rightarrow> u64 list res" where
  "PackMask = packMaskPortable"

text \<open>\<^verbatim>\<open>CompressU32\<close>: the loop stops early when the destination is full.\<close>

fun compress_loop :: "nat list \<Rightarrow> (nat \<times> bool) list \<Rightarrow> nat \<Rightarrow> nat list \<times> nat" where
  "compress_loop dst [] written = (dst, written)"
| "compress_loop dst ((x, m) # rest) written =
     (if \<not> m then compress_loop dst rest written
      else if written = length dst then (dst, written)
      else compress_loop (dst[written := x]) rest (written + 1))"

definition CompressU32 :: "nat list \<Rightarrow> nat list \<Rightarrow> bool list \<Rightarrow> nat list \<times> nat" where
  "CompressU32 dst src sel = compress_loop dst (zip src sel) 0"

section \<open>Row-wise behaviour\<close>

lemma maskWordCount_eq [simp]: "maskWordCount rows = word_count rows"
proof -
  obtain q r where r: "rows = 64 * q + r" "r < 64" by (rule rows_split)
  then show ?thesis using word_count_add[of r q] by (simp add: maskWordCount_def)
qed

lemma packMaskPortable_rows:
  assumes "length dst = word_count (length src)"
  shows "packMaskPortable dst src = Ok (mk_bitmap (length src) (\<lambda>row. src ! row))"
  using assms by (simp add: packMaskPortable_def Let_def set_rows_bitmap)

lemma zip_prefix_full:
  "length a = length dst \<Longrightarrow> length b = length dst \<Longrightarrow>
   zip_prefix f dst a b = map (\<lambda>i. f (a ! i) (b ! i)) [0..<length dst]"
  by (simp add: zip_prefix_def)

lemma length_zip_prefix [simp]: "length (zip_prefix f dst a b) = length dst"
  by (simp add: zip_prefix_def Let_def)

lemma wbit_zip_prefix:
  assumes "length a = length dst" "length b = length dst" "row div 64 < length dst"
  shows "wbit (zip_prefix f dst a b) row =
     bit (f (a ! (row div 64)) (b ! (row div 64))) (row mod 64)"
  using assms by (simp add: zip_prefix_full wbit_map_upt)

lemma compare_column_full:
  "Comparison_Valid c \<Longrightarrow> length dst = length src \<Longrightarrow>
   compare_column dst src v c = Ok (map (\<lambda>x. compare_by c x v) src)"
  by (simp add: compare_column_def Let_def) (intro nth_equalityI; simp)

text \<open>Compression packs the selected values in order, as many as fit.\<close>

lemma compress_loop_spec:
  "written \<le> length dst \<Longrightarrow> compress_loop dst xs written =
     (let sel = take (length dst - written) (map fst (filter snd xs)) in
      (take written dst @ sel @ drop (written + length sel) dst, written + length sel))"
proof (induction dst xs written rule: compress_loop.induct)
  case (1 dst written)
  then show ?case by simp
next
  case (2 dst x m rest written)
  show ?case
  proof (cases "m \<and> written \<noteq> length dst")
    case False
    with 2 show ?thesis by (auto simp: Let_def)
  next
    case True
    with 2 have w: "written < length dst" by simp
    then have t: "take (length dst - written) (x # ys) = x # take (length dst - (written + 1)) ys" for ys
      by (metis Suc_diff_Suc Suc_eq_plus1 take_Suc_Cons)
    show ?thesis using True w 2 t
      by (simp add: Let_def take_Suc_conv_app_nth)
  qed
qed

section \<open>The backend interface\<close>

record simd_backend =
  sb_PureGo :: bool
  sb_Tier :: string
  sb_WordBitwise :: nat
  sb_CompareU32 :: "bool list \<Rightarrow> nat list \<Rightarrow> nat \<Rightarrow> nat \<Rightarrow> bool list res"
  sb_CompareI64 :: "bool list \<Rightarrow> int list \<Rightarrow> int \<Rightarrow> nat \<Rightarrow> bool list res"
  sb_AndWords :: "u64 list \<Rightarrow> u64 list \<Rightarrow> u64 list \<Rightarrow> u64 list"
  sb_OrWords :: "u64 list \<Rightarrow> u64 list \<Rightarrow> u64 list \<Rightarrow> u64 list"
  sb_AndNotWords :: "u64 list \<Rightarrow> u64 list \<Rightarrow> u64 list \<Rightarrow> u64 list"
  sb_PackMask :: "u64 list \<Rightarrow> bool list \<Rightarrow> u64 list res"

definition purego_backend :: simd_backend where
  "purego_backend =
     \<lparr>sb_PureGo = True, sb_Tier = ''scalar'', sb_WordBitwise = 0,
      sb_CompareU32 = CompareU32, sb_CompareI64 = CompareI64, sb_AndWords = AndWords,
      sb_OrWords = OrWords, sb_AndNotWords = AndNotWords, sb_PackMask = PackMask\<rparr>"

text \<open>What the evaluator relies on: every kernel computes the portable function.\<close>

locale simd_contract =
  fixes K :: simd_backend
  assumes kernel_CompareU32: "sb_CompareU32 K = CompareU32"
    and kernel_CompareI64: "sb_CompareI64 K = CompareI64"
    and kernel_AndWords: "sb_AndWords K = AndWords"
    and kernel_OrWords: "sb_OrWords K = OrWords"
    and kernel_AndNotWords: "sb_AndNotWords K = AndNotWords"
    and kernel_PackMask: "sb_PackMask K = PackMask"
begin

lemmas kernels = kernel_CompareU32 kernel_CompareI64 kernel_AndWords kernel_OrWords
  kernel_AndNotWords kernel_PackMask

lemma kernel_compare_u32_rows:
  "Comparison_Valid c \<Longrightarrow> length dst = length src \<Longrightarrow>
   sb_CompareU32 K dst src v c = Ok (map (\<lambda>x. compare_by c x v) src)"
  by (simp add: kernels CompareU32_def compare_column_full)

lemma kernel_compare_i64_rows:
  "Comparison_Valid c \<Longrightarrow> length dst = length src \<Longrightarrow>
   sb_CompareI64 K dst src v c = Ok (map (\<lambda>x. compare_by c x v) src)"
  by (simp add: kernels CompareI64_def compare_column_full)

lemma kernel_pack_rows:
  "length dst = word_count (length src) \<Longrightarrow>
   sb_PackMask K dst src = Ok (mk_bitmap (length src) (\<lambda>row. src ! row))"
  by (simp add: kernels PackMask_def packMaskPortable_rows)

end

interpretation purego: simd_contract purego_backend
  by unfold_locales (simp_all add: purego_backend_def)

end
