(* ===== verification/NR_Batch.thy ===== *)
theory NR_Batch
  imports NR_Program NR_Simdops
begin

text \<open>
  Request batches and leaf outputs of \<^verbatim>\<open>internal/eval\<close>: \<^verbatim>\<open>batch.go\<close>, \<^verbatim>\<open>evidence.go\<close> and \<^verbatim>\<open>scalar.go\<close>.

  A batch stores each kind of fact column-major. A range view of a batch keeps the source columns
  and selects rows by \<open>b_rowBase\<close> and \<open>b_rowStride\<close>; \<open>row_column\<close> and \<open>word_column\<close> are the windows
  the evaluator reads, and \<open>b_present\<close>, \<open>b_symbol\<close>, \<dots> the facts of one row. Reason planes are one
  slab of nine bitmaps; \<open>mk_reasons\<close> is the slab of a row-wise reason mask.
\<close>

section \<open>Batches\<close>

record evidence_batch =
  ev_IDs :: "nat list"
  ev_Kinds :: "nat list"
  ev_States :: "nat list"
  ev_Subjects :: "nat list"
  ev_Scopes :: "nat list"
  ev_Reviewers :: "nat list"
  ev_Timings :: "nat list"
  ev_Timestamps :: "int list"

record batch =
  b_SymbolValues :: "nat list"
  b_IntegerValues :: "int list"
  b_TimestampValues :: "int list"
  b_BooleanValues :: "u64 list"
  b_PresenceMasks :: "u64 list"
  b_RequestIDs :: "nat list"
  b_EvidenceOffsets :: "nat list"
  b_EvidenceRefs :: "nat list"
  b_Evidence :: evidence_batch
  b_Rows :: nat
  b_rowBase :: nat
  b_rowStride :: nat

definition sourceRows :: "batch \<Rightarrow> nat" where
  "sourceRows b = (if b_rowStride b = 0 then b_Rows b else b_rowStride b)"

definition sourceWords :: "batch \<Rightarrow> nat" where
  "sourceWords b = (sourceRows b + 63) div 64"

definition wordBase :: "batch \<Rightarrow> nat" where
  "wordBase b = b_rowBase b div 64"

definition validPhysicalRange :: "batch \<Rightarrow> bool" where
  "validPhysicalRange b =
     (if b_rowBase b mod 64 \<noteq> 0 \<or> (b_rowStride b = 0 \<and> b_rowBase b \<noteq> 0) then False
      else b_rowBase b + b_Rows b \<le> sourceRows b)"

definition Batch_WordCount :: "batch \<Rightarrow> nat" where
  "Batch_WordCount b = (b_Rows b + 63) div 64"

definition batchRowColumn :: "batch \<Rightarrow> 'a list \<Rightarrow> nat \<Rightarrow> 'a list res" where
  "batchRowColumn b vals column =
     (let start = column * sourceRows b + b_rowBase b; end = start + b_Rows b in
      if end < start \<or> end > length vals then Panic ''eval: invalid batch row column''
      else subslice vals start end)"

definition batchWordColumn :: "batch \<Rightarrow> u64 list \<Rightarrow> nat \<Rightarrow> u64 list res" where
  "batchWordColumn b vals column =
     (let start = column * sourceWords b + wordBase b; end = start + Batch_WordCount b in
      if end < start \<or> end > length vals then Panic ''eval: invalid batch word column''
      else subslice vals start end)"

definition Batch_Present :: "batch \<Rightarrow> nat \<Rightarrow> nat \<Rightarrow> bool" where
  "Batch_Present b field row =
     (if field = 0 \<or> row \<ge> b_Rows b \<or> \<not> validPhysicalRange b then False
      else let word = (field - 1) * sourceWords b + wordBase b + row div 64 in
      if word \<ge> length (b_PresenceMasks b) then False
      else b_PresenceMasks b ! word AND row_bit row \<noteq> 0)"

definition row_value :: "batch \<Rightarrow> 'a list \<Rightarrow> nat \<Rightarrow> nat \<Rightarrow> 'a option" where
  "row_value b vals column row =
     (if row \<ge> b_Rows b \<or> \<not> validPhysicalRange b then None
      else let index = column * sourceRows b + b_rowBase b + row in
      if index \<ge> length vals then None else Some (vals ! index))"

definition Batch_Symbol :: "batch \<Rightarrow> nat \<Rightarrow> nat \<Rightarrow> nat option" where
  "Batch_Symbol b column row = row_value b (b_SymbolValues b) column row"

definition Batch_Integer :: "batch \<Rightarrow> nat \<Rightarrow> nat \<Rightarrow> int option" where
  "Batch_Integer b column row = row_value b (b_IntegerValues b) column row"

definition Batch_Timestamp :: "batch \<Rightarrow> nat \<Rightarrow> nat \<Rightarrow> int option" where
  "Batch_Timestamp b column row = row_value b (b_TimestampValues b) column row"

definition Batch_Boolean :: "batch \<Rightarrow> nat \<Rightarrow> nat \<Rightarrow> bool" where
  "Batch_Boolean b column row =
     (if row \<ge> b_Rows b \<or> \<not> validPhysicalRange b then False
      else let word = column * sourceWords b + wordBase b + row div 64 in
      if word \<ge> length (b_BooleanValues b) then False
      else b_BooleanValues b ! word AND row_bit row \<noteq> 0)"

definition EvidenceRange :: "batch \<Rightarrow> nat \<Rightarrow> (nat \<times> nat) option" where
  "EvidenceRange b row =
     (if row \<ge> b_Rows b \<or> row + 1 \<ge> length (b_EvidenceOffsets b) then None
      else let start = b_EvidenceOffsets b ! row; end = b_EvidenceOffsets b ! (row + 1) in
      if start > end \<or> end > length (b_EvidenceRefs b) then None else Some (start, end))"

section \<open>Windows of a batch\<close>

definition row_column :: "batch \<Rightarrow> 'a list \<Rightarrow> nat \<Rightarrow> 'a list" where
  "row_column b vals column = take (b_Rows b) (drop (column * sourceRows b + b_rowBase b) vals)"

definition word_column :: "batch \<Rightarrow> u64 list \<Rightarrow> nat \<Rightarrow> u64 list" where
  "word_column b vals column = take (word_count (b_Rows b)) (drop (column * sourceWords b + wordBase b) vals)"

lemma sourceWords_eq: "sourceWords b = word_count (sourceRows b)"
  by (simp add: sourceWords_def word_count_def)

lemma Batch_WordCount_eq: "Batch_WordCount b = word_count (b_Rows b)"
  by (simp add: Batch_WordCount_def word_count_def)

lemma word_count_shift: "word_count (64 * q + rows) = q + word_count rows"
  by (simp add: word_count_def)

lemma word_count_mono: "a \<le> b \<Longrightarrow> word_count a \<le> word_count b"
  by (simp add: word_count_def div_le_mono)

lemma word_window_fits:
  assumes "validPhysicalRange b"
  shows "wordBase b + word_count (b_Rows b) \<le> sourceWords b"
proof -
  have m: "b_rowBase b mod 64 = 0" and l: "b_rowBase b + b_Rows b \<le> sourceRows b"
    using assms by (auto simp: validPhysicalRange_def split: if_splits)
  have "64 * wordBase b = b_rowBase b" using m by (auto simp: wordBase_def)
  then have "wordBase b + word_count (b_Rows b) = word_count (b_rowBase b + b_Rows b)"
    using word_count_shift[of "wordBase b" "b_Rows b"] by simp
  then show ?thesis using word_count_mono[OF l] by (simp add: sourceWords_eq)
qed

lemma batchRowColumn_Ok:
  assumes "validPhysicalRange b" "length vals = count * sourceRows b" "column < count"
  shows "batchRowColumn b vals column = Ok (row_column b vals column)"
    and "length (row_column b vals column) = b_Rows b"
    and "row < b_Rows b \<Longrightarrow> row_column b vals column ! row = vals ! (column * sourceRows b + b_rowBase b + row)"
proof -
  have "b_rowBase b + b_Rows b \<le> sourceRows b"
    using assms(1) by (auto simp: validPhysicalRange_def split: if_splits)
  then have e: "column * sourceRows b + b_rowBase b + b_Rows b \<le> length vals"
    using block_bound[OF assms(3), of "sourceRows b"] assms(2) by linarith
  then show "batchRowColumn b vals column = Ok (row_column b vals column)"
    by (simp add: batchRowColumn_def row_column_def)
  show "length (row_column b vals column) = b_Rows b" using e by (simp add: row_column_def)
  show "row < b_Rows b \<Longrightarrow> row_column b vals column ! row = vals ! (column * sourceRows b + b_rowBase b + row)"
    using e by (simp add: row_column_def)
qed

lemma batchWordColumn_Ok:
  assumes "validPhysicalRange b" "length vals = count * sourceWords b" "column < count"
  shows "batchWordColumn b vals column = Ok (word_column b vals column)"
    and "length (word_column b vals column) = word_count (b_Rows b)"
    and "w < word_count (b_Rows b) \<Longrightarrow> word_column b vals column ! w = vals ! (column * sourceWords b + wordBase b + w)"
proof -
  have e: "column * sourceWords b + wordBase b + word_count (b_Rows b) \<le> length vals"
    using block_bound[OF assms(3), of "sourceWords b"] assms(2) word_window_fits[OF assms(1)] by linarith
  then show "batchWordColumn b vals column = Ok (word_column b vals column)"
    by (simp add: batchWordColumn_def word_column_def Batch_WordCount_eq)
  show "length (word_column b vals column) = word_count (b_Rows b)" using e by (simp add: word_column_def)
  show "w < word_count (b_Rows b) \<Longrightarrow> word_column b vals column ! w = vals ! (column * sourceWords b + wordBase b + w)"
    using e by (simp add: word_column_def)
qed

text \<open>The accessors of \<^verbatim>\<open>Batch\<close> read the windows.\<close>

lemma row_value_window:
  assumes "validPhysicalRange b" "length vals = count * sourceRows b" "column < count" "row < b_Rows b"
  shows "row_value b vals column row = Some (row_column b vals column ! row)"
proof -
  have "b_rowBase b + b_Rows b \<le> sourceRows b"
    using assms(1) by (auto simp: validPhysicalRange_def split: if_splits)
  then have "column * sourceRows b + b_rowBase b + row < length vals"
    using block_bound[OF assms(3), of "sourceRows b"] assms(2,4) by linarith
  then show ?thesis using assms batchRowColumn_Ok(3)[OF assms(1-3), of row] by (simp add: row_value_def Let_def)
qed

lemma word_window_bit:
  assumes "validPhysicalRange b" "length vals = count * sourceWords b" "column < count" "row < b_Rows b"
  shows "column * sourceWords b + wordBase b + row div 64 < length vals"
    and "wbit (word_column b vals column) row \<longleftrightarrow>
      vals ! (column * sourceWords b + wordBase b + row div 64) AND row_bit row \<noteq> 0"
proof -
  have w: "row div 64 < word_count (b_Rows b)" using assms(4) by simp
  then show "column * sourceWords b + wordBase b + row div 64 < length vals"
    using block_bound[OF assms(3), of "sourceWords b"] word_window_fits[OF assms(1)] assms(2) by linarith
  show "wbit (word_column b vals column) row \<longleftrightarrow>
      vals ! (column * sourceWords b + wordBase b + row div 64) AND row_bit row \<noteq> 0"
    using batchWordColumn_Ok(2,3)[OF assms(1-3)] w by (simp add: wbit_def and_row_bit_eq_0)
qed

lemma Batch_Present_window:
  assumes "validPhysicalRange b" "length (b_PresenceMasks b) = count * sourceWords b" "field - 1 < count" "field \<noteq> 0"
    "row < b_Rows b"
  shows "Batch_Present b field row \<longleftrightarrow> wbit (word_column b (b_PresenceMasks b) (field - 1)) row"
  using assms word_window_bit[OF assms(1-3,5)] by (simp add: Batch_Present_def Let_def not_le)

lemma Batch_Boolean_window:
  assumes "validPhysicalRange b" "length (b_BooleanValues b) = count * sourceWords b" "column < count" "row < b_Rows b"
  shows "Batch_Boolean b column row \<longleftrightarrow> wbit (word_column b (b_BooleanValues b) column) row"
  using assms word_window_bit[OF assms] by (simp add: Batch_Boolean_def Let_def not_le)

section \<open>Reason planes\<close>

text \<open>\<^verbatim>\<open>ReasonPlanes\<close> is one slab of \<open>ReasonCount\<close> bitmaps, reason-major.\<close>

definition reason_plane :: "u64 list \<Rightarrow> nat \<Rightarrow> nat \<Rightarrow> u64 list res" where
  "reason_plane ws reason words = (let start = (reason - 1) * words in subslice ws start (start + words))"

definition Plane :: "u64 list \<Rightarrow> nat \<Rightarrow> nat \<Rightarrow> u64 list res" where
  "Plane ws reason rows =
     (let words = word_count rows in
      if reason < ReasonMissing \<or> reason > ReasonConflict \<or> length ws \<noteq> ReasonCount * words
      then Panic ''eval: invalid reason plane'' else reason_plane ws reason words)"

definition resetLeafOutputs :: "planes \<Rightarrow> u64 list \<Rightarrow> nat \<Rightarrow> (planes \<times> u64 list \<times> nat) res" where
  "resetLeafOutputs dst reasons rows =
     (let words = word_count rows in
      if length (pl_Positive dst) \<noteq> words \<or> length (pl_Negative dst) \<noteq> words \<or>
         length reasons \<noteq> ReasonCount * words then Panic ''eval: invalid leaf output shape''
      else Ok (\<lparr>pl_Positive = replicate words 0, pl_Negative = replicate words 0\<rparr>,
               replicate (ReasonCount * words) 0, words))"

definition leafWordMask :: "nat \<Rightarrow> nat \<Rightarrow> nat \<Rightarrow> u64" where
  "leafWordMask word words rows =
     (if word + 1 \<noteq> words \<or> rows mod 64 = 0 then NOT 0 else push_bit (rows mod 64) 1 - 1)"

definition mk_reasons :: "nat \<Rightarrow> (nat \<Rightarrow> u16) \<Rightarrow> u64 list" where
  "mk_reasons rows m = concat (map (\<lambda>k. mk_bitmap rows (\<lambda>r. bit (m r) k)) [0..<ReasonCount])"

lemma leafWordMask_eq: "leafWordMask word (word_count rows) rows = valid_bits rows word"
  by (simp add: leafWordMask_def valid_bits_def)

lemma resetLeafOutputs_Ok [simp]:
  "has_shape (word_count rows) dst \<Longrightarrow> length reasons = ReasonCount * word_count rows \<Longrightarrow>
   resetLeafOutputs dst reasons rows =
     Ok (\<lparr>pl_Positive = replicate (word_count rows) 0, pl_Negative = replicate (word_count rows) 0\<rparr>,
         replicate (ReasonCount * word_count rows) 0, word_count rows)"
  by (simp add: resetLeafOutputs_def has_shape_def Let_def)

lemma length_concat_uniform: "(\<And>x. x \<in> set xs \<Longrightarrow> length (f x) = n) \<Longrightarrow> length (concat (map f xs)) = length xs * n"
  by (induction xs) auto

lemma block_concat_map:
  "(\<And>x. x \<in> set xs \<Longrightarrow> length (f x) = n) \<Longrightarrow> b < length xs \<Longrightarrow> block (concat (map f xs)) n b = f (xs ! b)"
proof (induction xs arbitrary: b)
  case Nil
  then show ?case by simp
next
  case (Cons x xs)
  then have l: "length (f x) = n" by simp
  show ?case
  proof (cases b)
    case 0
    then show ?thesis using l by (simp add: block_def)
  next
    case (Suc c)
    have "block (concat (map f (x # xs))) n b = block (concat (map f xs)) n c"
      using l Suc by (simp add: block_def)
    then show ?thesis using Cons Suc by simp
  qed
qed

lemma length_mk_reasons [simp]: "length (mk_reasons rows m) = ReasonCount * word_count rows"
  unfolding mk_reasons_def by (subst length_concat_uniform[where n = "word_count rows"]) simp_all

lemma block_mk_reasons:
  "k < ReasonCount \<Longrightarrow> block (mk_reasons rows m) (word_count rows) k = mk_bitmap rows (\<lambda>r. bit (m r) k)"
  unfolding mk_reasons_def by (subst block_concat_map) (simp_all del: upt_Suc)

text \<open>A slab is determined by its blocks.\<close>

lemma blocks_eqI:
  assumes "length xs = nb * n" "length ys = nb * n" "\<And>b. b < nb \<Longrightarrow> block xs n b = block ys n b"
  shows "xs = ys"
proof (rule nth_equalityI)
  show "length xs = length ys" using assms by simp
  fix i assume i: "i < length xs"
  then have n: "n > 0" using assms(1) by (cases n) auto
  have b: "i div n < nb" using i assms(1) n by (metis less_mult_imp_div_less)
  have m: "i mod n < n" and e: "i div n * n + i mod n = i" using n by simp_all
  have "xs ! i = block xs n (i div n) ! (i mod n)" unfolding nth_block[OF assms(1) b m] e ..
  also have "\<dots> = block ys n (i div n) ! (i mod n)" unfolding assms(3)[OF b] ..
  also have "\<dots> = ys ! i" unfolding nth_block[OF assms(2) b m] e ..
  finally show "xs ! i = ys ! i" .
qed

lemma eq_mk_reasonsI:
  assumes "length ws = ReasonCount * word_count rows"
    and "\<And>k. k < ReasonCount \<Longrightarrow> block ws (word_count rows) k = mk_bitmap rows (\<lambda>r. bit (m r) k)"
  shows "ws = mk_reasons rows m"
proof (rule blocks_eqI[OF assms(1) length_mk_reasons])
  fix k :: nat assume k: "k < ReasonCount"
  show "block ws (word_count rows) k = block (mk_reasons rows m) (word_count rows) k"
    unfolding assms(2)[OF k] block_mk_reasons[OF k] ..
qed

lemma mk_reasons_cong: "(\<And>row. row < rows \<Longrightarrow> m row = m' row) \<Longrightarrow> mk_reasons rows m = mk_reasons rows m'"
  unfolding mk_reasons_def by (intro arg_cong[of _ _ concat] map_cong refl mk_bitmap_cong) simp

lemma mk_reasons_zero: "mk_reasons rows (\<lambda>_. 0) = replicate (ReasonCount * word_count rows) 0"
proof (rule eq_mk_reasonsI[symmetric])
  fix k :: nat assume "k < ReasonCount"
  then have "block (replicate (ReasonCount * word_count rows) (0 :: u64)) (word_count rows) k = replicate (word_count rows) 0"
    by (rule block_replicate)
  then show "block (replicate (ReasonCount * word_count rows) 0) (word_count rows) k =
      mk_bitmap rows (\<lambda>r. bit (0 :: u16) k)"
    using mk_bitmap_zero_iff[of rows "\<lambda>_. False"] by simp
qed simp

text \<open>The union of two slabs, word by word.\<close>

lemma mk_reasons_or:
  "map (\<lambda>w. mk_reasons rows m ! w OR mk_reasons rows m' ! w) [0..<ReasonCount * word_count rows] =
   mk_reasons rows (\<lambda>r. m r OR m' r)"
proof (rule eq_mk_reasonsI)
  fix k :: nat assume k: "k < ReasonCount"
  let ?n = "word_count rows" and ?f = "\<lambda>w. mk_reasons rows m ! w OR mk_reasons rows m' ! w"
  have "block (map ?f [0..<ReasonCount * ?n]) ?n k = map (\<lambda>w. ?f (k * ?n + w)) [0..<?n]"
  proof (rule nth_equalityI)
    have l: "length (map ?f [0..<ReasonCount * ?n]) = ReasonCount * ?n" by simp
    show "length (block (map ?f [0..<ReasonCount * ?n]) ?n k) = length (map (\<lambda>w. ?f (k * ?n + w)) [0..<?n])"
      using length_block[OF l k] by simp
    fix i assume "i < length (block (map ?f [0..<ReasonCount * ?n]) ?n k)"
    then have i: "i < ?n" using length_block[OF l k] by simp
    show "block (map ?f [0..<ReasonCount * ?n]) ?n k ! i = map (\<lambda>w. ?f (k * ?n + w)) [0..<?n] ! i"
      using nth_block[OF l k i] block_index_bound[OF k i] i by simp
  qed
  also have "\<dots> = map (\<lambda>w. mk_bitmap rows (\<lambda>r. bit (m r) k) ! w OR mk_bitmap rows (\<lambda>r. bit (m' r) k) ! w) [0..<?n]"
    using nth_block[OF length_mk_reasons k] by (intro map_cong) (simp_all add: block_mk_reasons[OF k, symmetric])
  also have "\<dots> = mk_bitmap rows (\<lambda>r. bit (m r OR m' r) k)" by (simp add: mk_bitmap_or bit_or_iff)
  finally show "block (map ?f [0..<ReasonCount * ?n]) ?n k = mk_bitmap rows (\<lambda>r. bit (m r OR m' r) k)" .
qed simp

text \<open>Writing the missing plane of a cleared slab.\<close>

lemma splice_missing:
  assumes "length ms = word_count rows" "ms = mk_bitmap rows P"
  shows "splice (replicate (ReasonCount * word_count rows) 0) 0 ms =
    mk_reasons rows (\<lambda>r. if P r then ReasonBit ReasonMissing else 0)"
proof (rule eq_mk_reasonsI)
  let ?n = "word_count rows" and ?z = "replicate (ReasonCount * word_count rows) (0 :: u64)"
  show "length (splice ?z 0 ms) = ReasonCount * ?n" using assms(1) by simp
  fix k :: nat assume k: "k < ReasonCount"
  have "block (splice ?z (0 * ?n) ms) ?n k = (if k = 0 then ms else block ?z ?n k)"
    using assms(1) k by (intro block_splice[where nb = ReasonCount]) simp_all
  also have "\<dots> = mk_bitmap rows (\<lambda>r. bit (if P r then ReasonBit ReasonMissing else 0) k)"
  proof (cases "k = 0")
    case True
    then show ?thesis using assms(2) by (auto intro!: mk_bitmap_cong simp: bit_ReasonBit is_reason_def)
  next
    case False
    then have "\<not> bit (if P r then ReasonBit ReasonMissing else 0) k" for r by (simp add: bit_ReasonBit)
    then show ?thesis
      using False block_replicate[OF k, of ?n "0 :: u64"] mk_bitmap_zero_iff[of rows "\<lambda>_. False"] by simp
  qed
  finally show "block (splice ?z 0 ms) ?n k = mk_bitmap rows (\<lambda>r. bit (if P r then ReasonBit ReasonMissing else 0) k)"
    by simp
qed

end
