(* ===== verification/NR_Predicate.thy ===== *)
theory NR_Predicate
  imports NR_Batch
begin

text \<open>
  Leaf predicates of \<^verbatim>\<open>internal/eval\<close>: \<^verbatim>\<open>predicate.go\<close> (the scalar evaluator), \<^verbatim>\<open>simd.go\<close> (the
  vectorised one, over a \<open>simd_backend\<close>) and \<^verbatim>\<open>batch_index.go\<close> (the one over the fact bitmap index).

  Each evaluator writes the two truth planes and the reason slab of one instruction. The
  specification is row-wise: \<open>leaf_truth\<close> and \<open>leaf_reasons\<close> read one row of the batch through its
  accessors. The lemmas \<open>evalPredicate_rows\<close>, \<open>evalPredicateSIMD_rows\<close> and \<open>evalPredicateIndex_rows\<close>
  show that an evaluator that accepts an instruction computes the specification on every row.
\<close>

section \<open>Predicate values\<close>

record predicate_value =
  pv_integer :: int
  pv_timestamp :: int
  pv_symbol :: nat
  pv_boolean :: bool

definition zero_value :: predicate_value where
  "zero_value = \<lparr>pv_integer = 0, pv_timestamp = 0, pv_symbol = 0, pv_boolean = False\<rparr>"

definition programPredicateValue :: "program \<Rightarrow> nat \<Rightarrow> value_kind \<Rightarrow> predicate_value res" where
  "programPredicateValue p vid want =
     (if vid = 0 then Panic ''eval: invalid predicate value''
      else let row = vid - 1 in
      if row \<ge> length (p_ValueKinds p) \<or> row \<ge> length (p_ValueRefs p) \<or> p_ValueKinds p ! row \<noteq> want
        then Panic ''eval: invalid predicate value''
      else let ref = p_ValueRefs p ! row in
      if ref = 0 then Panic ''eval: invalid predicate value''
      else case want of
        ValueKindSymbol \<Rightarrow>
          if ref > p_ProgramSymbolCount p then Panic ''eval: invalid predicate value''
          else if Program_Symbol p ref = None then Panic ''eval: invalid predicate value''
          else Ok (zero_value\<lparr>pv_symbol := ref\<rparr>)
      | ValueKindInteger \<Rightarrow>
          if ref - 1 \<ge> length (p_IntegerValues p) then Panic ''eval: invalid predicate value''
          else Ok (zero_value\<lparr>pv_integer := p_IntegerValues p ! (ref - 1)\<rparr>)
      | ValueKindBoolean \<Rightarrow>
          if ref - 1 \<ge> length (p_BooleanValues p) \<or> p_BooleanValues p ! (ref - 1) > 1
            then Panic ''eval: invalid predicate value''
          else Ok (zero_value\<lparr>pv_boolean := p_BooleanValues p ! (ref - 1) \<noteq> 0\<rparr>)
      | ValueKindTimestamp \<Rightarrow>
          if ref - 1 \<ge> length (p_TimestampValues p) then Panic ''eval: invalid predicate value''
          else Ok (zero_value\<lparr>pv_timestamp := p_TimestampValues p ! (ref - 1)\<rparr>)
      | _ \<Rightarrow> Panic ''eval: invalid predicate value kind'')"

definition requireColumnLength :: "nat \<Rightarrow> nat \<Rightarrow> nat \<Rightarrow> unit res" where
  "requireColumnLength len columns width =
     (if len \<noteq> columns * width then Panic ''eval: invalid batch column'' else Ok ())"

definition orderedPredicate :: "opcode \<Rightarrow> bool" where
  "orderedPredicate op \<longleftrightarrow> opcode_num op \<ge> opcode_num OpcodeLess \<and> opcode_num op \<le> opcode_num OpcodeGreaterEqual"

fun compareInt64 :: "opcode \<Rightarrow> int \<Rightarrow> int \<Rightarrow> bool res" where
  "compareInt64 OpcodeEqual l r = Ok (l = r)"
| "compareInt64 OpcodeNotEqual l r = Ok (l \<noteq> r)"
| "compareInt64 OpcodeLess l r = Ok (l < r)"
| "compareInt64 OpcodeLessEqual l r = Ok (l \<le> r)"
| "compareInt64 OpcodeGreater l r = Ok (l > r)"
| "compareInt64 OpcodeGreaterEqual l r = Ok (l \<ge> r)"
| "compareInt64 _ l r = Panic ''eval: invalid ordered predicate''"

section \<open>The scalar evaluator\<close>

definition set_equal :: "'a list \<Rightarrow> 'a \<Rightarrow> u64 list \<Rightarrow> u64 list" where
  "set_equal vals v dst = set_rows (\<lambda>request. vals ! request = v) [0..<length vals] dst"

definition fill_value :: "batch \<Rightarrow> value_kind \<Rightarrow> nat \<Rightarrow> predicate_value \<Rightarrow> u64 list \<Rightarrow> u64 list res" where
  "fill_value b kind column v dst =
     (case kind of
        ValueKindSymbol \<Rightarrow> rbind (batchRowColumn b (b_SymbolValues b) column) (\<lambda>vals. Ok (set_equal vals (pv_symbol v) dst))
      | ValueKindInteger \<Rightarrow> rbind (batchRowColumn b (b_IntegerValues b) column) (\<lambda>vals. Ok (set_equal vals (pv_integer v) dst))
      | ValueKindBoolean \<Rightarrow> rbind (batchWordColumn b (b_BooleanValues b) column) (\<lambda>vals.
          Ok (map (\<lambda>w. dst ! w OR (if pv_boolean v then vals ! w else NOT (vals ! w))) [0..<length dst]))
      | ValueKindTimestamp \<Rightarrow> rbind (batchRowColumn b (b_TimestampValues b) column) (\<lambda>vals. Ok (set_equal vals (pv_timestamp v) dst))
      | _ \<Rightarrow> Panic ''eval: invalid in predicate kind'')"

definition fillInMatches ::
  "u64 list \<Rightarrow> batch \<Rightarrow> program \<Rightarrow> value_kind \<Rightarrow> nat \<Rightarrow> nat \<Rightarrow> nat \<Rightarrow> u64 list res" where
  "fillInMatches dst b p kind column start count =
     res_foldM (\<lambda>i dst.
       rbind (idx (p_ListValues p) ((start + i) mod 2 ^ 32)) (\<lambda>vid.
       rbind (programPredicateValue p vid kind) (\<lambda>v. fill_value b kind column v dst))) [0..<count] dst"

text \<open>The operands of a predicate: its value, or the range of its list.\<close>

definition list_range :: "program \<Rightarrow> nat \<Rightarrow> value_kind \<Rightarrow> (nat \<times> nat) res" where
  "list_range p row kind =
     (let start = p_ListStarts p ! row; count = p_ListCounts p ! row in
      if start + count > length (p_ListValues p) then Panic ''eval: invalid in predicate''
      else rbind (res_foldM (\<lambda>i _.
             rbind (idx (p_ListValues p) ((start + i) mod 2 ^ 32)) (\<lambda>vid.
             rbind (programPredicateValue p vid kind) (\<lambda>_. Ok ()))) [0..<count] ())
           (\<lambda>_. Ok (start, count)))"

definition predicate_operands :: "program \<Rightarrow> nat \<Rightarrow> opcode \<Rightarrow> value_kind \<Rightarrow> (predicate_value \<times> nat \<times> nat) res" where
  "predicate_operands p row op kind =
     (if op = OpcodeExists \<or> op = OpcodeDefined then
        (if p_Values p ! row \<noteq> 0 then Panic ''eval: invalid value-free predicate value'' else Ok (zero_value, 0, 0))
      else if op = OpcodeIn then
        (if p_Values p ! row \<noteq> 0 \<or> row \<ge> length (p_ListStarts p) \<or> row \<ge> length (p_ListCounts p)
           then Panic ''eval: invalid in predicate''
         else rbind (list_range p row kind) (\<lambda>(start, count). Ok (zero_value, start, count)))
      else rbind (programPredicateValue p (p_Values p ! row) kind) (\<lambda>v. Ok (v, 0, 0)))"

definition require_columns :: "program \<Rightarrow> batch \<Rightarrow> value_kind \<Rightarrow> unit res" where
  "require_columns p b kind =
     (case kind of
        ValueKindSymbol \<Rightarrow> requireColumnLength (length (b_SymbolValues b)) (kind_count (p_FieldIndex p) kind) (sourceRows b)
      | ValueKindInteger \<Rightarrow> requireColumnLength (length (b_IntegerValues b)) (kind_count (p_FieldIndex p) kind) (sourceRows b)
      | ValueKindBoolean \<Rightarrow> requireColumnLength (length (b_BooleanValues b)) (kind_count (p_FieldIndex p) kind) (sourceWords b)
      | ValueKindTimestamp \<Rightarrow> requireColumnLength (length (b_TimestampValues b)) (kind_count (p_FieldIndex p) kind) (sourceRows b)
      | _ \<Rightarrow> Ok ())"

definition compare_rows :: "opcode \<Rightarrow> int list \<Rightarrow> int \<Rightarrow> nat list \<Rightarrow> u64 res" where
  "compare_rows op vals v requests =
     res_foldM (\<lambda>request matches. rbind (compareInt64 op (vals ! request) v) (\<lambda>c.
       Ok (if c then matches OR row_bit request else matches))) requests 0"

definition word_matches :: "batch \<Rightarrow> opcode \<Rightarrow> value_kind \<Rightarrow> nat \<Rightarrow> predicate_value \<Rightarrow> nat \<Rightarrow> u64 res" where
  "word_matches b op kind column v word =
     (let requests = [64 * word..<min (64 * word + 64) (b_Rows b)] in
      case kind of
        ValueKindSymbol \<Rightarrow> rbind (batchRowColumn b (b_SymbolValues b) column) (\<lambda>vals.
          Ok (or_rows (\<lambda>request. (vals ! request = pv_symbol v) = (op = OpcodeEqual)) requests 0))
      | ValueKindInteger \<Rightarrow> rbind (batchRowColumn b (b_IntegerValues b) column) (\<lambda>vals.
          compare_rows op vals (pv_integer v) requests)
      | ValueKindBoolean \<Rightarrow> rbind (batchWordColumn b (b_BooleanValues b) column) (\<lambda>vals.
          rbind (idx vals word) (\<lambda>matches.
          let matches = (if \<not> pv_boolean v then NOT matches else matches) in
          Ok (if op = OpcodeNotEqual then NOT matches else matches)))
      | ValueKindTimestamp \<Rightarrow> rbind (batchRowColumn b (b_TimestampValues b) column) (\<lambda>vals.
          compare_rows op vals (pv_timestamp v) requests)
      | _ \<Rightarrow> Ok 0)"

text \<open>One word of the output planes: positive, negative and missing.\<close>

definition leaf_word :: "opcode \<Rightarrow> u64 \<Rightarrow> u64 \<Rightarrow> u64 \<Rightarrow> u64 \<times> u64 \<times> u64" where
  "leaf_word op valid presence matches =
     (let present = presence AND valid in
      if op = OpcodeDefined then (present, valid AND NOT present, 0)
      else let missing = valid AND NOT present in
      if op = OpcodeExists then (present, 0, missing)
      else (present AND matches, present AND NOT matches, missing))"

definition leaf_words ::
  "opcode \<Rightarrow> nat \<Rightarrow> u64 list \<Rightarrow> u64 list \<Rightarrow> (nat \<Rightarrow> u64 res) \<Rightarrow> (planes \<times> u64 list) res" where
  "leaf_words op rows reasons presence matches =
     (let words = word_count rows in
      rbind (res_mapM (\<lambda>word.
          rbind (idx presence word) (\<lambda>pw.
          rbind (matches word) (\<lambda>m.
          Ok (leaf_word op (leafWordMask word words rows) pw m)))) [0..<words]) (\<lambda>out.
      Ok (\<lparr>pl_Positive = map fst out, pl_Negative = map (fst \<circ> snd) out\<rparr>,
          splice reasons 0 (map (snd \<circ> snd) out))))"

definition evalPredicate :: "planes \<Rightarrow> u64 list \<Rightarrow> batch \<Rightarrow> program \<Rightarrow> nat \<Rightarrow> (planes \<times> u64 list) res" where
  "evalPredicate dst reasons b p instruction =
     (if instruction = 0 then Panic ''eval: invalid predicate instruction''
      else let row = instruction - 1 in
      if row \<ge> length (p_Opcodes p) \<or> row \<ge> length (p_Fields p) \<or> row \<ge> length (p_Values p)
        then Panic ''eval: invalid predicate instruction''
      else let op = p_Opcodes p ! row; field = p_Fields p ! row in
      if (opcode_num op < opcode_num OpcodeEqual \<or> opcode_num op > opcode_num OpcodeGreaterEqual) \<and> op \<noteq> OpcodeDefined
        then Panic ''eval: unsupported predicate opcode''
      else case Schema_Lookup (p_FieldIndex p) field of None \<Rightarrow> Panic ''eval: invalid predicate field''
      | Some (kind, column) \<Rightarrow>
        if \<not> kind_Valid kind then Panic ''eval: invalid predicate field''
        else if column \<ge> kind_count (p_FieldIndex p) kind then Panic ''eval: invalid predicate column''
        else
          rbind (requireColumnLength (length (b_PresenceMasks b)) (length (is_Kinds (p_FieldIndex p)) mod 2 ^ 32) (sourceWords b)) (\<lambda>_.
          rbind (predicate_operands p row op kind) (\<lambda>(v, start, count).
          if kind = ValueKindPresence \<and> op \<noteq> OpcodeExists \<and> op \<noteq> OpcodeDefined
            then Panic ''eval: presence field requires exists or defined''
          else if orderedPredicate op \<and> kind \<noteq> ValueKindInteger \<and> kind \<noteq> ValueKindTimestamp
            then Panic ''eval: ordered predicate requires numeric field''
          else
          rbind (if op \<noteq> OpcodeDefined then require_columns p b kind else Ok ()) (\<lambda>_.
          rbind (resetLeafOutputs dst reasons (b_Rows b)) (\<lambda>(cleared, reasons', words).
          rbind (batchWordColumn b (b_PresenceMasks b) (field - 1)) (\<lambda>presence.
          rbind (if op = OpcodeIn then fillInMatches (pl_Positive cleared) b p kind column start count
                 else Ok (pl_Positive cleared)) (\<lambda>filled.
          leaf_words op (b_Rows b) reasons' presence
            (\<lambda>word. if op = OpcodeDefined \<or> op = OpcodeExists then Ok 0
                    else if op = OpcodeIn then idx filled word
                    else word_matches b op kind column v word))))))))"

section \<open>The vectorised evaluator\<close>

datatype execution_mode = executionAuto | executionScalar | executionSIMD | executionIndex

definition simdComparisonMinRows :: nat where "simdComparisonMinRows = 64"
definition simdWordMinWords :: nat where "simdWordMinWords = 8"
definition factIndexMinRows :: nat where "factIndexMinRows = 64"

definition useSIMDRows :: "simd_backend \<Rightarrow> execution_mode \<Rightarrow> nat \<Rightarrow> nat \<Rightarrow> bool" where
  "useSIMDRows K mode rows threshold =
     (case mode of executionSIMD \<Rightarrow> True
      | executionScalar \<Rightarrow> False | executionIndex \<Rightarrow> False
      | executionAuto \<Rightarrow> \<not> sb_PureGo K \<and> sb_Tier K \<noteq> ''scalar'' \<and> rows \<ge> threshold)"

definition useSIMDWords :: "simd_backend \<Rightarrow> execution_mode \<Rightarrow> nat \<Rightarrow> bool" where
  "useSIMDWords K mode words = useSIMDRows K mode (words mod 2 ^ 32) (max simdWordMinWords (sb_WordBitwise K))"

fun simdComparison :: "opcode \<Rightarrow> nat option" where
  "simdComparison OpcodeEqual = Some CmpEqual"
| "simdComparison OpcodeNotEqual = Some CmpNotEqual"
| "simdComparison OpcodeLess = Some CmpLess"
| "simdComparison OpcodeLessEqual = Some CmpLessEqual"
| "simdComparison OpcodeGreater = Some CmpGreater"
| "simdComparison OpcodeGreaterEqual = Some CmpGreaterEqual"
| "simdComparison _ = None"

definition maskSIMDTruthTail :: "planes \<Rightarrow> nat \<Rightarrow> planes res" where
  "maskSIMDTruthTail dst rows =
     (let remaining = rows mod 64 in
      if remaining = 0 then Ok dst
      else
        (let last = length (pl_Positive dst) - 1; mask = push_bit remaining 1 - 1 in
         rbind (idx (pl_Positive dst) last) (\<lambda>p.
         rbind (idx (pl_Negative dst) last) (\<lambda>n.
         Ok (dst\<lparr>pl_Positive := (pl_Positive dst)[last := p AND mask],
                 pl_Negative := (pl_Negative dst)[last := n AND mask]\<rparr>)))))"

text \<open>\<^verbatim>\<open>resizeExecutorScratch\<close>: the slice keeps whatever its backing array holds.\<close>

record 'a scratch =
  sl_array :: "'a list"
  sl_len :: nat

definition scratch_view :: "'a scratch \<Rightarrow> 'a list" where
  "scratch_view s = take (sl_len s) (sl_array s)"

definition scratch_write :: "'a scratch \<Rightarrow> 'a list \<Rightarrow> 'a scratch" where
  "scratch_write s xs = s\<lparr>sl_array := xs @ drop (sl_len s) (sl_array s)\<rparr>"

definition resizeExecutorScratch :: "'a \<Rightarrow> 'a scratch \<Rightarrow> nat \<Rightarrow> 'a scratch" where
  "resizeExecutorScratch z s n =
     (if length (sl_array s) < n then \<lparr>sl_array = replicate n z, sl_len = n\<rparr> else s\<lparr>sl_len := n\<rparr>)"

definition simd_missing :: "nat \<Rightarrow> u64 list \<Rightarrow> u64 list \<Rightarrow> u64 list res" where
  "simd_missing rows reasons presence =
     (let words = word_count rows in
      rbind (res_mapM (\<lambda>word. rbind (idx presence word) (\<lambda>pw. Ok (leafWordMask word words rows AND NOT pw))) [0..<words])
        (\<lambda>missing. Ok (splice reasons 0 missing)))"

definition simd_compare ::
  "simd_backend \<Rightarrow> batch \<Rightarrow> value_kind \<Rightarrow> nat \<Rightarrow> predicate_value \<Rightarrow> nat \<Rightarrow> bool list \<Rightarrow> bool list res" where
  "simd_compare K b kind column v comparison msk =
     (case kind of
        ValueKindSymbol \<Rightarrow> rbind (batchRowColumn b (b_SymbolValues b) column) (\<lambda>vals.
          sb_CompareU32 K msk vals (pv_symbol v) comparison)
      | ValueKindInteger \<Rightarrow> rbind (batchRowColumn b (b_IntegerValues b) column) (\<lambda>vals.
          sb_CompareI64 K msk vals (pv_integer v) comparison)
      | ValueKindTimestamp \<Rightarrow> rbind (batchRowColumn b (b_TimestampValues b) column) (\<lambda>vals.
          sb_CompareI64 K msk vals (pv_timestamp v) comparison)
      | _ \<Rightarrow> Ok msk)"

text \<open>The result is None when the evaluator declines the instruction (the Go function returns false).\<close>

definition evalPredicateSIMD ::
  "simd_backend \<Rightarrow> execution_mode \<Rightarrow> bool scratch \<Rightarrow> planes \<Rightarrow> u64 list \<Rightarrow> batch \<Rightarrow> program \<Rightarrow> nat \<Rightarrow>
   (planes \<times> u64 list \<times> bool scratch) option res" where
  "evalPredicateSIMD K mode compareMask dst reasons b p instruction =
     (let row = instruction - 1; op = p_Opcodes p ! row; rows = b_Rows b in
      case simdComparison op of None \<Rightarrow> Ok None
      | Some comparison \<Rightarrow>
        (case Schema_Lookup (p_FieldIndex p) (p_Fields p ! row) of None \<Rightarrow> Panic ''eval: invalid predicate field''
         | Some (kind, column) \<Rightarrow>
           if \<not> kind_Valid kind then Panic ''eval: invalid predicate field''
           else if column \<ge> kind_count (p_FieldIndex p) kind then Panic ''eval: invalid predicate column''
           else if orderedPredicate op \<and> kind \<noteq> ValueKindInteger \<and> kind \<noteq> ValueKindTimestamp
             then Panic ''eval: ordered predicate requires numeric field''
           else if kind \<noteq> ValueKindSymbol \<and> kind \<noteq> ValueKindInteger \<and> kind \<noteq> ValueKindTimestamp \<and> kind \<noteq> ValueKindBoolean
             then Ok None
           else if (if kind = ValueKindBoolean then \<not> useSIMDWords K mode (word_count rows)
                    else \<not> useSIMDRows K mode rows simdComparisonMinRows) then Ok None
           else
             rbind (programPredicateValue p (p_Values p ! row) kind) (\<lambda>v.
             rbind (resetLeafOutputs dst reasons rows) (\<lambda>(cleared, reasons0, words).
             rbind (batchWordColumn b (b_PresenceMasks b) (p_Fields p ! row - 1)) (\<lambda>presence.
             rbind (simd_missing rows reasons0 presence) (\<lambda>reasons'.
             if kind = ValueKindBoolean then
               rbind (batchWordColumn b (b_BooleanValues b) column) (\<lambda>vals.
               let pos = pl_Positive cleared; neg = pl_Negative cleared;
                   out = (if pv_boolean v = (op = OpcodeEqual)
                          then \<lparr>pl_Positive = sb_AndWords K pos presence vals, pl_Negative = sb_AndNotWords K neg presence vals\<rparr>
                          else \<lparr>pl_Positive = sb_AndNotWords K pos presence vals, pl_Negative = sb_AndWords K neg presence vals\<rparr>) in
               rbind (maskSIMDTruthTail out rows) (\<lambda>out'. Ok (Some (out', reasons', compareMask))))
             else
               (let resized = resizeExecutorScratch False compareMask rows in
               rbind (simd_compare K b kind column v comparison (scratch_view resized)) (\<lambda>mask.
               rbind (sb_PackMask K (pl_Positive cleared) mask) (\<lambda>packed.
               let pos = sb_AndWords K packed packed presence;
                   neg = sb_AndNotWords K (pl_Negative cleared) presence pos in
               rbind (maskSIMDTruthTail \<lparr>pl_Positive = pos, pl_Negative = neg\<rparr> rows) (\<lambda>out'.
               Ok (Some (out', reasons', scratch_write resized mask))))))))))))"

section \<open>The evaluator over the fact index\<close>

definition useFactIndex :: "execution_mode \<Rightarrow> nat \<Rightarrow> bool" where
  "useFactIndex mode rows =
     (case mode of executionScalar \<Rightarrow> False | executionSIMD \<Rightarrow> False | executionIndex \<Rightarrow> True
      | executionAuto \<Rightarrow> rows \<ge> factIndexMinRows)"

definition or_mask :: "simd_backend \<Rightarrow> execution_mode \<Rightarrow> nat \<Rightarrow> u64 list \<Rightarrow> u64 list \<Rightarrow> u64 list" where
  "or_mask K mode words m pos =
     (if useSIMDWords K mode words then sb_OrWords K pos pos m
      else map (\<lambda>w. if w < length m then pos ! w OR m ! w else pos ! w) [0..<length pos])"

definition fill_index_matches ::
  "simd_backend \<Rightarrow> execution_mode \<Rightarrow> fact_index \<Rightarrow> program \<Rightarrow> nat \<Rightarrow> nat \<Rightarrow> nat \<Rightarrow> nat \<Rightarrow> u64 list \<Rightarrow> u64 list res" where
  "fill_index_matches K mode fi p field start count words dst =
     res_foldM (\<lambda>i pos.
       rbind (idx (p_ListValues p) ((start + i) mod 2 ^ 32)) (\<lambda>vid.
       rbind (programPredicateValue p vid ValueKindSymbol) (\<lambda>v.
       rbind (FactIndex_Lookup fi field (pv_symbol v)) (\<lambda>l.
       Ok (case l of RowMask m \<Rightarrow> if m = [] then pos else or_mask K mode words m pos | _ \<Rightarrow> pos))))) [0..<count] dst"

definition evalPredicateIndex ::
  "simd_backend \<Rightarrow> execution_mode \<Rightarrow> fact_index \<Rightarrow> planes \<Rightarrow> u64 list \<Rightarrow> batch \<Rightarrow> program \<Rightarrow> nat \<Rightarrow>
   (planes \<times> u64 list) option res" where
  "evalPredicateIndex K mode fi dst reasons b p instruction =
     (let row = instruction - 1; op = p_Opcodes p ! row; field = p_Fields p ! row; rows = b_Rows b in
      if \<not> useFactIndex mode rows then Ok None
      else if op \<noteq> OpcodeEqual \<and> op \<noteq> OpcodeNotEqual \<and> op \<noteq> OpcodeIn then Ok None
      else case Schema_Lookup (p_FieldIndex p) field of None \<Rightarrow> Panic ''eval: invalid predicate field''
      | Some (kind, column) \<Rightarrow>
        if \<not> kind_Valid kind then Panic ''eval: invalid predicate field''
        else if column \<ge> kind_count (p_FieldIndex p) kind then Panic ''eval: invalid predicate column''
        else if kind \<noteq> ValueKindSymbol then Ok None
        else rbind (FactIndex_Lookup fi field 0) (\<lambda>probe.
        if probe = NotIndexed then Ok None
        else
          rbind (if op = OpcodeIn then
                   (if p_Values p ! row \<noteq> 0 then Panic ''eval: invalid in predicate''
                    else res_map (\<lambda>r. (r, NilMask)) (list_range p row kind))
                 else
                   rbind (programPredicateValue p (p_Values p ! row) kind) (\<lambda>v.
                   res_map (\<lambda>l. ((0, 0), l)) (FactIndex_Lookup fi field (pv_symbol v)))) (\<lambda>((start, count), equalMask).
          rbind (resetLeafOutputs dst reasons rows) (\<lambda>(cleared, reasons', words).
          rbind (if op = OpcodeIn then fill_index_matches K mode fi p field start count words (pl_Positive cleared)
                 else Ok (pl_Positive cleared)) (\<lambda>filled.
          rbind (batchWordColumn b (b_PresenceMasks b) (field - 1)) (\<lambda>presence.
          res_map Some (leaf_words op rows reasons' presence
            (\<lambda>word. if op = OpcodeIn then idx filled word
                    else rbind (case equalMask of RowMask m \<Rightarrow> idx m word | _ \<Rightarrow> Ok 0) (\<lambda>m.
                      Ok (if op = OpcodeNotEqual then NOT m else m))))))))))"

section \<open>Row-wise specification\<close>

text \<open>The checks of the executor on the columns of a batch, \<^verbatim>\<open>validExecutionBatchColumns\<close>.\<close>

definition validExecutionColumnLength :: "nat \<Rightarrow> nat \<Rightarrow> nat \<Rightarrow> bool" where
  "validExecutionColumnLength len columns stride \<longleftrightarrow>
     (columns = 0 \<or> stride \<le> MaxUint64 div columns) \<and> len = (columns * stride) mod 2 ^ 64"

definition validExecutionBatchColumns :: "program \<Rightarrow> batch \<Rightarrow> bool" where
  "validExecutionBatchColumns p b =
     (if \<not> validPhysicalRange b then False
      else let words = sourceWords b; rows = sourceRows b in
      validExecutionColumnLength (length (b_PresenceMasks b)) (length (is_Kinds (p_FieldIndex p))) words \<and>
      validExecutionColumnLength (length (b_SymbolValues b)) (kind_count (p_FieldIndex p) ValueKindSymbol) rows \<and>
      validExecutionColumnLength (length (b_IntegerValues b)) (kind_count (p_FieldIndex p) ValueKindInteger) rows \<and>
      validExecutionColumnLength (length (b_TimestampValues b)) (kind_count (p_FieldIndex p) ValueKindTimestamp) rows \<and>
      validExecutionColumnLength (length (b_BooleanValues b)) (kind_count (p_FieldIndex p) ValueKindBoolean) words)"

datatype cell = SymbolCell nat | IntegerCell int | BooleanCell bool | TimestampCell int | NoCell

fun cell_of :: "('a \<Rightarrow> cell) \<Rightarrow> 'a option \<Rightarrow> cell" where
  "cell_of f None = NoCell"
| "cell_of f (Some v) = f v"

definition batch_cell :: "batch \<Rightarrow> value_kind \<Rightarrow> nat \<Rightarrow> nat \<Rightarrow> cell" where
  "batch_cell b kind column row =
     (case kind of
        ValueKindSymbol \<Rightarrow> cell_of SymbolCell (Batch_Symbol b column row)
      | ValueKindInteger \<Rightarrow> cell_of IntegerCell (Batch_Integer b column row)
      | ValueKindBoolean \<Rightarrow> BooleanCell (Batch_Boolean b column row)
      | ValueKindTimestamp \<Rightarrow> cell_of TimestampCell (Batch_Timestamp b column row)
      | _ \<Rightarrow> NoCell)"

definition value_cell :: "value_kind \<Rightarrow> predicate_value \<Rightarrow> cell" where
  "value_cell kind v =
     (case kind of
        ValueKindSymbol \<Rightarrow> SymbolCell (pv_symbol v) | ValueKindInteger \<Rightarrow> IntegerCell (pv_integer v)
      | ValueKindBoolean \<Rightarrow> BooleanCell (pv_boolean v) | ValueKindTimestamp \<Rightarrow> TimestampCell (pv_timestamp v)
      | _ \<Rightarrow> NoCell)"

definition program_cell :: "program \<Rightarrow> value_kind \<Rightarrow> nat \<Rightarrow> cell" where
  "program_cell p kind vid = (case programPredicateValue p vid kind of Ok v \<Rightarrow> value_cell kind v | _ \<Rightarrow> NoCell)"

fun cell_less :: "cell \<Rightarrow> cell \<Rightarrow> bool" where
  "cell_less (IntegerCell a) (IntegerCell b) = (a < b)"
| "cell_less (TimestampCell a) (TimestampCell b) = (a < b)"
| "cell_less _ _ = False"

fun compare_cells :: "opcode \<Rightarrow> cell \<Rightarrow> cell \<Rightarrow> bool" where
  "compare_cells OpcodeEqual a b = (a = b)"
| "compare_cells OpcodeNotEqual a b = (a \<noteq> b)"
| "compare_cells OpcodeLess a b = cell_less a b"
| "compare_cells OpcodeLessEqual a b = (\<not> cell_less b a)"
| "compare_cells OpcodeGreater a b = cell_less b a"
| "compare_cells OpcodeGreaterEqual a b = (\<not> cell_less a b)"
| "compare_cells _ a b = False"

definition list_cells :: "program \<Rightarrow> value_kind \<Rightarrow> nat \<Rightarrow> cell list" where
  "list_cells p kind row =
     map (program_cell p kind) (take (p_ListCounts p ! row) (drop (p_ListStarts p ! row) (p_ListValues p)))"

definition leaf_holds :: "program \<Rightarrow> batch \<Rightarrow> nat \<Rightarrow> value_kind \<Rightarrow> nat \<Rightarrow> nat \<Rightarrow> bool" where
  "leaf_holds p b row kind column r =
     (if p_Opcodes p ! row = OpcodeIn then batch_cell b kind column r \<in> set (list_cells p kind row)
      else compare_cells (p_Opcodes p ! row) (batch_cell b kind column r) (program_cell p kind (p_Values p ! row)))"

fun leaf_tv :: "opcode \<Rightarrow> bool \<Rightarrow> bool \<Rightarrow> tv" where
  "leaf_tv OpcodeDefined present holds = (present, \<not> present)"
| "leaf_tv OpcodeExists present holds = (present, False)"
| "leaf_tv _ present holds = (present \<and> holds, present \<and> \<not> holds)"

definition leaf_truth :: "program \<Rightarrow> batch \<Rightarrow> nat \<Rightarrow> nat \<Rightarrow> tv" where
  "leaf_truth p b row r =
     (case Schema_Lookup (p_FieldIndex p) (p_Fields p ! row) of None \<Rightarrow> (False, False)
      | Some (kind, column) \<Rightarrow>
        leaf_tv (p_Opcodes p ! row) (Batch_Present b (p_Fields p ! row) r) (leaf_holds p b row kind column r))"

definition leaf_reasons :: "program \<Rightarrow> batch \<Rightarrow> nat \<Rightarrow> nat \<Rightarrow> u16" where
  "leaf_reasons p b row r =
     (if p_Opcodes p ! row = OpcodeDefined \<or> Batch_Present b (p_Fields p ! row) r then 0 else ReasonBit ReasonMissing)"

text \<open>What the compiler guarantees of a predicate instruction: a known field and operands of its kind.\<close>

definition is_ok :: "'a res \<Rightarrow> bool" where
  "is_ok r = (case r of Ok _ \<Rightarrow> True | _ \<Rightarrow> False)"

definition predicate_opcode :: "opcode \<Rightarrow> bool" where
  "predicate_opcode op \<longleftrightarrow> op \<in> {OpcodeEqual, OpcodeNotEqual, OpcodeIn, OpcodeExists, OpcodeLess, OpcodeLessEqual,
     OpcodeGreater, OpcodeGreaterEqual, OpcodeDefined}"

definition operands_ok :: "program \<Rightarrow> nat \<Rightarrow> opcode \<Rightarrow> value_kind \<Rightarrow> bool" where
  "operands_ok p row op kind =
     (if op = OpcodeExists \<or> op = OpcodeDefined then p_Values p ! row = 0
      else if op = OpcodeIn then
        p_Values p ! row = 0 \<and> kind \<noteq> ValueKindPresence \<and>
        p_ListStarts p ! row + p_ListCounts p ! row \<le> length (p_ListValues p) \<and>
        p_ListStarts p ! row + p_ListCounts p ! row \<le> 2 ^ 32 \<and>
        list_all (\<lambda>vid. is_ok (programPredicateValue p vid kind))
          (take (p_ListCounts p ! row) (drop (p_ListStarts p ! row) (p_ListValues p)))
      else is_ok (programPredicateValue p (p_Values p ! row) kind) \<and>
        (orderedPredicate op \<longrightarrow> kind = ValueKindInteger \<or> kind = ValueKindTimestamp))"

definition predicate_ok :: "program \<Rightarrow> nat \<Rightarrow> bool" where
  "predicate_ok p row =
     (predicate_opcode (p_Opcodes p ! row) \<and> length (is_Kinds (p_FieldIndex p)) \<le> MaxUint32 \<and>
      (case Schema_Lookup (p_FieldIndex p) (p_Fields p ! row) of None \<Rightarrow> False
       | Some (kind, column) \<Rightarrow> kind_Valid kind \<and> column < kind_count (p_FieldIndex p) kind \<and>
           operands_ok p row (p_Opcodes p ! row) kind))"

section \<open>Columns of a checked batch\<close>

lemma validExecutionColumnLength_eq: "validExecutionColumnLength len columns stride \<Longrightarrow> len = columns * stride"
  using no_wrap[of columns stride] by (cases "columns = 0") (auto simp: validExecutionColumnLength_def mult.commute)

lemma batch_columns:
  assumes "validExecutionBatchColumns p b"
  shows "validPhysicalRange b"
    and "length (b_PresenceMasks b) = length (is_Kinds (p_FieldIndex p)) * sourceWords b"
    and "length (b_SymbolValues b) = kind_count (p_FieldIndex p) ValueKindSymbol * sourceRows b"
    and "length (b_IntegerValues b) = kind_count (p_FieldIndex p) ValueKindInteger * sourceRows b"
    and "length (b_TimestampValues b) = kind_count (p_FieldIndex p) ValueKindTimestamp * sourceRows b"
    and "length (b_BooleanValues b) = kind_count (p_FieldIndex p) ValueKindBoolean * sourceWords b"
  using assms unfolding validExecutionBatchColumns_def Let_def
  by (auto split: if_splits dest!: validExecutionColumnLength_eq)

lemma require_columns_Ok [simp]: "validExecutionBatchColumns p b \<Longrightarrow> require_columns p b kind = Ok ()"
  by (auto simp: require_columns_def requireColumnLength_def batch_columns simp del: kind_num.simps split: value_kind.splits)

lemma presence_column:
  assumes "validExecutionBatchColumns p b" "Schema_Lookup (p_FieldIndex p) field = Some (kind, column)"
  shows "batchWordColumn b (b_PresenceMasks b) (field - 1) = Ok (word_column b (b_PresenceMasks b) (field - 1))"
    and "length (word_column b (b_PresenceMasks b) (field - 1)) = word_count (b_Rows b)"
    and "r < b_Rows b \<Longrightarrow> wbit (word_column b (b_PresenceMasks b) (field - 1)) r = Batch_Present b field r"
proof -
  have f: "field \<noteq> 0" "field - 1 < length (is_Kinds (p_FieldIndex p))"
    using assms(2) by (auto simp: Schema_Lookup_def Let_def split: if_splits)
  note c = batch_columns(1,2)[OF assms(1)]
  show "batchWordColumn b (b_PresenceMasks b) (field - 1) = Ok (word_column b (b_PresenceMasks b) (field - 1))"
    and "length (word_column b (b_PresenceMasks b) (field - 1)) = word_count (b_Rows b)"
    using batchWordColumn_Ok(1,2)[OF c f(2)] by simp_all
  show "r < b_Rows b \<Longrightarrow> wbit (word_column b (b_PresenceMasks b) (field - 1)) r = Batch_Present b field r"
    using Batch_Present_window[OF c f(2,1)] by simp
qed

text \<open>The cells of the rows of each kind are the entries of its window.\<close>

lemma row_cells:
  assumes "validExecutionBatchColumns p b" "r < b_Rows b"
  shows "column < kind_count (p_FieldIndex p) ValueKindSymbol \<Longrightarrow>
      batch_cell b ValueKindSymbol column r = SymbolCell (row_column b (b_SymbolValues b) column ! r)"
    and "column < kind_count (p_FieldIndex p) ValueKindInteger \<Longrightarrow>
      batch_cell b ValueKindInteger column r = IntegerCell (row_column b (b_IntegerValues b) column ! r)"
    and "column < kind_count (p_FieldIndex p) ValueKindTimestamp \<Longrightarrow>
      batch_cell b ValueKindTimestamp column r = TimestampCell (row_column b (b_TimestampValues b) column ! r)"
    and "column < kind_count (p_FieldIndex p) ValueKindBoolean \<Longrightarrow>
      batch_cell b ValueKindBoolean column r = BooleanCell (wbit (word_column b (b_BooleanValues b) column) r)"
  using row_value_window[OF batch_columns(1)[OF assms(1)] batch_columns(3)[OF assms(1)] _ assms(2)]
    row_value_window[OF batch_columns(1)[OF assms(1)] batch_columns(4)[OF assms(1)] _ assms(2)]
    row_value_window[OF batch_columns(1)[OF assms(1)] batch_columns(5)[OF assms(1)] _ assms(2)]
    Batch_Boolean_window[OF batch_columns(1)[OF assms(1)] batch_columns(6)[OF assms(1)] _ assms(2)]
  by (simp_all add: batch_cell_def Batch_Symbol_def Batch_Integer_def Batch_Timestamp_def del: kind_num.simps)

lemma row_columns:
  assumes "validExecutionBatchColumns p b"
  shows "column < kind_count (p_FieldIndex p) ValueKindSymbol \<Longrightarrow>
      batchRowColumn b (b_SymbolValues b) column = Ok (row_column b (b_SymbolValues b) column) \<and>
      length (row_column b (b_SymbolValues b) column) = b_Rows b"
    and "column < kind_count (p_FieldIndex p) ValueKindInteger \<Longrightarrow>
      batchRowColumn b (b_IntegerValues b) column = Ok (row_column b (b_IntegerValues b) column) \<and>
      length (row_column b (b_IntegerValues b) column) = b_Rows b"
    and "column < kind_count (p_FieldIndex p) ValueKindTimestamp \<Longrightarrow>
      batchRowColumn b (b_TimestampValues b) column = Ok (row_column b (b_TimestampValues b) column) \<and>
      length (row_column b (b_TimestampValues b) column) = b_Rows b"
    and "column < kind_count (p_FieldIndex p) ValueKindBoolean \<Longrightarrow>
      batchWordColumn b (b_BooleanValues b) column = Ok (word_column b (b_BooleanValues b) column) \<and>
      length (word_column b (b_BooleanValues b) column) = word_count (b_Rows b)"
  using batchRowColumn_Ok(1,2)[OF batch_columns(1,3)[OF assms]] batchRowColumn_Ok(1,2)[OF batch_columns(1,4)[OF assms]]
    batchRowColumn_Ok(1,2)[OF batch_columns(1,5)[OF assms]] batchWordColumn_Ok(1,2)[OF batch_columns(1,6)[OF assms]]
  by (simp_all del: kind_num.simps)

section \<open>One word of output\<close>

lemma words_mk_bitmap:
  assumes "\<And>w n. w < word_count rows \<Longrightarrow> n < 64 \<Longrightarrow> bit (f w) n \<longleftrightarrow> 64 * w + n < rows \<and> P (64 * w + n)"
  shows "map f [0..<word_count rows] = mk_bitmap rows P"
proof (rule eq_mk_bitmapI)
  fix row :: nat
  have e: "64 * (row div 64) + row mod 64 = row" by simp
  show "wbit (map f [0..<word_count rows]) row \<longleftrightarrow> row < rows \<and> P row"
  proof (cases "row div 64 < word_count rows")
    case True
    then show ?thesis unfolding wbit_map_upt using assms[OF True, of "row mod 64"] by (simp add: e)
  next
    case False
    then have "\<not> row < rows" using row_word_lt by blast
    with False show ?thesis unfolding wbit_map_upt by simp
  qed
qed simp

lemma leaf_words_rows:
  assumes pres: "length presence = word_count rows"
    and m: "\<And>w. w < word_count rows \<Longrightarrow> matches w = Ok (mw w)"
    and h: "\<And>r. r < rows \<Longrightarrow> op \<noteq> OpcodeDefined \<Longrightarrow> op \<noteq> OpcodeExists \<Longrightarrow> bit (mw (r div 64)) (r mod 64) = H r"
  shows "leaf_words op rows (replicate (ReasonCount * word_count rows) 0) presence matches =
    Ok (mk_planes rows (\<lambda>r. leaf_tv op (wbit presence r) (H r)),
        mk_reasons rows (\<lambda>r. if op \<noteq> OpcodeDefined \<and> \<not> wbit presence r then ReasonBit ReasonMissing else 0))"
proof -
  let ?n = "word_count rows"
  let ?out = "\<lambda>w. leaf_word op (valid_bits rows w) (presence ! w) (mw w)"
  have run: "res_mapM (\<lambda>word. rbind (idx presence word) (\<lambda>pw. rbind (matches word) (\<lambda>m.
      Ok (leaf_word op (leafWordMask word ?n rows) pw m)))) [0..<?n] = Ok (map ?out [0..<?n])"
    by (rule res_mapM_Ok) (simp add: pres m leafWordMask_eq)
  have p: "bit (presence ! w) n = wbit presence (64 * w + n)" if "w < ?n" "n < 64" for w n
    using that pres by (simp add: wbit_def)
  have hw: "bit (mw w) n = H (64 * w + n)"
    if "n < 64" "64 * w + n < rows" "op \<noteq> OpcodeDefined" "op \<noteq> OpcodeExists" for w n
    using h[of "64 * w + n"] that by simp
  have pos: "map (\<lambda>w. fst (?out w)) [0..<?n] = mk_bitmap rows (\<lambda>r. fst (leaf_tv op (wbit presence r) (H r)))"
  proof (rule words_mk_bitmap)
    fix w n :: nat assume a: "w < ?n" "n < 64"
    show "bit (fst (?out w)) n \<longleftrightarrow> 64 * w + n < rows \<and> fst (leaf_tv op (wbit presence (64 * w + n)) (H (64 * w + n)))"
      using p[OF a] bit_valid_bits[OF a] hw[OF a(2)]
      by (cases op) (auto simp: leaf_word_def Let_def bit_and_iff bit_or_iff bit_not_iff a)
  qed
  have neg: "map (\<lambda>w. fst (snd (?out w))) [0..<?n] = mk_bitmap rows (\<lambda>r. snd (leaf_tv op (wbit presence r) (H r)))"
  proof (rule words_mk_bitmap)
    fix w n :: nat assume a: "w < ?n" "n < 64"
    show "bit (fst (snd (?out w))) n \<longleftrightarrow> 64 * w + n < rows \<and> snd (leaf_tv op (wbit presence (64 * w + n)) (H (64 * w + n)))"
      using p[OF a] bit_valid_bits[OF a] hw[OF a(2)]
      by (cases op) (auto simp: leaf_word_def Let_def bit_and_iff bit_or_iff bit_not_iff a)
  qed
  have mis: "map (\<lambda>w. snd (snd (?out w))) [0..<?n] = mk_bitmap rows (\<lambda>r. op \<noteq> OpcodeDefined \<and> \<not> wbit presence r)"
  proof (rule words_mk_bitmap)
    fix w n :: nat assume a: "w < ?n" "n < 64"
    show "bit (snd (snd (?out w))) n \<longleftrightarrow> 64 * w + n < rows \<and> op \<noteq> OpcodeDefined \<and> \<not> wbit presence (64 * w + n)"
      using p[OF a] bit_valid_bits[OF a] by (auto simp: leaf_word_def Let_def bit_and_iff bit_or_iff bit_not_iff a)
  qed
  show ?thesis
    unfolding leaf_words_def Let_def run
    using pos neg splice_missing[OF _ mis] by (simp add: comp_def mk_planes_def)
qed

section \<open>The scalar evaluator computes the specification\<close>

lemma is_ok_iff: "is_ok r \<longleftrightarrow> (\<exists>v. r = Ok v)"
  by (cases r) (auto simp: is_ok_def)

lemma compareInt64_cells:
  assumes "predicate_opcode op" "op \<notin> {OpcodeIn, OpcodeExists, OpcodeDefined}"
  shows "compareInt64 op a v = Ok (compare_cells op (IntegerCell a) (IntegerCell v))"
    and "compareInt64 op a v = Ok (compare_cells op (TimestampCell a) (TimestampCell v))"
  using assms by (auto simp: predicate_opcode_def)

lemma compare_rows_Ok:
  assumes "\<And>a v. compareInt64 op a v = Ok (C a v)"
  shows "compare_rows op vals v requests = Ok (or_rows (\<lambda>r. C (vals ! r) v) requests 0)"
  unfolding compare_rows_def or_rows_def by (rule res_foldM_Ok) (simp add: assms)

lemma equal_opcode_ne: "predicate_opcode op \<Longrightarrow> op \<notin> {OpcodeIn, OpcodeExists, OpcodeDefined} \<Longrightarrow> \<not> orderedPredicate op \<Longrightarrow>
    op = OpcodeEqual \<or> op = OpcodeNotEqual"
  by (auto simp: predicate_opcode_def orderedPredicate_def)

lemma word_matches_rows:
  assumes b: "validExecutionBatchColumns p b"
    and k: "kind_Valid kind" "kind \<noteq> ValueKindPresence" "column < kind_count (p_FieldIndex p) kind"
    and op: "predicate_opcode op" "op \<notin> {OpcodeIn, OpcodeExists, OpcodeDefined}"
      "orderedPredicate op \<longrightarrow> kind = ValueKindInteger \<or> kind = ValueKindTimestamp"
    and w: "w < word_count (b_Rows b)"
  shows "\<exists>m. word_matches b op kind column v w = Ok m \<and> (\<forall>n < 64. 64 * w + n < b_Rows b \<longrightarrow>
     bit m n = compare_cells op (batch_cell b kind column (64 * w + n)) (value_cell kind v))"
proof -
  consider "kind = ValueKindSymbol" | "kind = ValueKindInteger" | "kind = ValueKindBoolean" | "kind = ValueKindTimestamp"
    using k(1,2) by (auto simp: kind_Valid_cases)
  then show ?thesis
  proof cases
    case 1
    let ?c = "row_column b (b_SymbolValues b) column"
    have c: "column < kind_count (p_FieldIndex p) ValueKindSymbol" using k(3) 1 by simp
    have eq: "op = OpcodeEqual \<or> op = OpcodeNotEqual" using equal_opcode_ne op 1 by blast
    have "word_matches b op kind column v w = Ok (or_rows (\<lambda>r. (?c ! r = pv_symbol v) = (op = OpcodeEqual))
        [64 * w..<min (64 * w + 64) (b_Rows b)] 0)"
      using row_columns(1)[OF b c] 1 by (simp add: word_matches_def)
    moreover have "bit (or_rows (\<lambda>r. (?c ! r = pv_symbol v) = (op = OpcodeEqual)) [64 * w..<min (64 * w + 64) (b_Rows b)] 0) n =
        compare_cells op (batch_cell b kind column (64 * w + n)) (value_cell kind v)" if "n < 64" "64 * w + n < b_Rows b" for n
      unfolding bit_or_rows_word[OF that(1)] using that eq row_cells(1)[OF b that(2) c] 1 by (auto simp: value_cell_def)
    ultimately show ?thesis by blast
  next
    case 2
    let ?c = "row_column b (b_IntegerValues b) column"
    have c: "column < kind_count (p_FieldIndex p) ValueKindInteger" using k(3) 2 by simp
    let ?m = "or_rows (\<lambda>r. compare_cells op (IntegerCell (?c ! r)) (IntegerCell (pv_integer v))) [64 * w..<min (64 * w + 64) (b_Rows b)] 0"
    have "word_matches b op kind column v w = Ok ?m"
      using row_columns(2)[OF b c] 2 compare_rows_Ok[of op "\<lambda>a v. compare_cells op (IntegerCell a) (IntegerCell v)", OF compareInt64_cells(1)[OF op(1,2)]]
      by (simp add: word_matches_def)
    moreover have "bit ?m n = compare_cells op (batch_cell b kind column (64 * w + n)) (value_cell kind v)"
      if "n < 64" "64 * w + n < b_Rows b" for n
      unfolding bit_or_rows_word[OF that(1)] using that row_cells(2)[OF b that(2) c] 2 by (simp add: value_cell_def)
    ultimately show ?thesis by blast
  next
    case 3
    let ?c = "word_column b (b_BooleanValues b) column"
    have c: "column < kind_count (p_FieldIndex p) ValueKindBoolean" using k(3) 3 by simp
    have eq: "op = OpcodeEqual \<or> op = OpcodeNotEqual" using equal_opcode_ne op 3 by blast
    note cl = row_columns(4)[OF b c]
    let ?m = "if (op = OpcodeNotEqual) = pv_boolean v then NOT (?c ! w) else ?c ! w"
    have "word_matches b op kind column v w = Ok ?m"
      using cl 3 w by (auto simp: word_matches_def Let_def)
    moreover have "bit ?m n = compare_cells op (batch_cell b kind column (64 * w + n)) (value_cell kind v)"
      if "n < 64" "64 * w + n < b_Rows b" for n
      using that eq row_cells(4)[OF b that(2) c] 3 cl w by (auto simp: value_cell_def wbit_def bit_not_iff)
    ultimately show ?thesis by blast
  next
    case 4
    let ?c = "row_column b (b_TimestampValues b) column"
    have c: "column < kind_count (p_FieldIndex p) ValueKindTimestamp" using k(3) 4 by simp
    let ?m = "or_rows (\<lambda>r. compare_cells op (TimestampCell (?c ! r)) (TimestampCell (pv_timestamp v))) [64 * w..<min (64 * w + 64) (b_Rows b)] 0"
    have "word_matches b op kind column v w = Ok ?m"
      using row_columns(3)[OF b c] 4 compare_rows_Ok[of op "\<lambda>a v. compare_cells op (TimestampCell a) (TimestampCell v)", OF compareInt64_cells(2)[OF op(1,2)]]
      by (simp add: word_matches_def)
    moreover have "bit ?m n = compare_cells op (batch_cell b kind column (64 * w + n)) (value_cell kind v)"
      if "n < 64" "64 * w + n < b_Rows b" for n
      unfolding bit_or_rows_word[OF that(1)] using that row_cells(3)[OF b that(2) c] 4 by (simp add: value_cell_def)
    ultimately show ?thesis by blast
  qed
qed

lemma fill_value_rows:
  assumes b: "validExecutionBatchColumns p b"
    and k: "kind_Valid kind" "kind \<noteq> ValueKindPresence" "column < kind_count (p_FieldIndex p) kind"
    and dst: "length dst = word_count (b_Rows b)"
  shows "\<exists>out. fill_value b kind column v dst = Ok out \<and> length out = word_count (b_Rows b) \<and>
     (\<forall>r < b_Rows b. wbit out r \<longleftrightarrow> wbit dst r \<or> batch_cell b kind column r = value_cell kind v)"
proof -
  have se: "length (set_equal vals x dst) = word_count (b_Rows b) \<and>
      (\<forall>r < b_Rows b. wbit (set_equal vals x dst) r \<longleftrightarrow> wbit dst r \<or> vals ! r = x)"
    if "length vals = b_Rows b" for vals :: "'z list" and x
    using wbit_set_rows_upt[OF dst] dst that by (auto simp: set_equal_def)
  consider "kind = ValueKindSymbol" | "kind = ValueKindInteger" | "kind = ValueKindBoolean" | "kind = ValueKindTimestamp"
    using k(1,2) by (auto simp: kind_Valid_cases)
  then show ?thesis
  proof cases
    case 1
    have c: "column < kind_count (p_FieldIndex p) ValueKindSymbol" using k(3) 1 by simp
    show ?thesis
      using row_columns(1)[OF b c] row_cells(1)[OF b _ c] se[of "row_column b (b_SymbolValues b) column" "pv_symbol v"] 1
      by (simp add: fill_value_def value_cell_def)
  next
    case 2
    have c: "column < kind_count (p_FieldIndex p) ValueKindInteger" using k(3) 2 by simp
    show ?thesis
      using row_columns(2)[OF b c] row_cells(2)[OF b _ c] se[of "row_column b (b_IntegerValues b) column" "pv_integer v"] 2
      by (simp add: fill_value_def value_cell_def)
  next
    case 3
    have c: "column < kind_count (p_FieldIndex p) ValueKindBoolean" using k(3) 3 by simp
    let ?c = "word_column b (b_BooleanValues b) column"
    have "wbit (map (\<lambda>w. dst ! w OR (if pv_boolean v then ?c ! w else NOT (?c ! w))) [0..<length dst]) r \<longleftrightarrow>
        wbit dst r \<or> wbit ?c r = pv_boolean v" if "r < b_Rows b" for r
      using row_word_lt[OF that] row_columns(4)[OF b c] dst by (auto simp: wbit_def bit_or_iff bit_not_iff)
    then show ?thesis
      using row_columns(4)[OF b c] row_cells(4)[OF b _ c] dst 3 by (simp add: fill_value_def value_cell_def)
  next
    case 4
    have c: "column < kind_count (p_FieldIndex p) ValueKindTimestamp" using k(3) 4 by simp
    show ?thesis
      using row_columns(3)[OF b c] row_cells(3)[OF b _ c] se[of "row_column b (b_TimestampValues b) column" "pv_timestamp v"] 4
      by (simp add: fill_value_def value_cell_def)
  qed
qed

text \<open>The list of an \<^verbatim>\<open>In\<close> predicate, entry by entry.\<close>

lemma list_entry:
  assumes "operands_ok p row OpcodeIn kind" "i < p_ListCounts p ! row"
  shows "\<exists>vid v. idx (p_ListValues p) ((p_ListStarts p ! row + i) mod 2 ^ 32) = Ok vid \<and>
    programPredicateValue p vid kind = Ok v \<and> list_cells p kind row ! i = value_cell kind v"
proof -
  let ?s = "p_ListStarts p ! row" and ?n = "p_ListCounts p ! row"
  let ?vs = "take ?n (drop ?s (p_ListValues p))"
  have l: "?s + ?n \<le> length (p_ListValues p)" "?s + ?n \<le> 2 ^ 32" "list_all (\<lambda>vid. is_ok (programPredicateValue p vid kind)) ?vs"
    using assms(1) by (auto simp: operands_ok_def)
  have m: "(?s + i) mod 2 ^ 32 = ?s + i" using l(2) assms(2) by (intro mod_less) linarith
  have e: "?vs ! i = p_ListValues p ! (?s + i)" "i < length ?vs" using l(1) assms(2) by auto
  then have "is_ok (programPredicateValue p (p_ListValues p ! (?s + i)) kind)"
    using l(3) by (metis list_all_length)
  then obtain v where "programPredicateValue p (p_ListValues p ! (?s + i)) kind = Ok v" by (auto simp: is_ok_iff)
  then show ?thesis using m l(1) assms(2) e by (simp add: list_cells_def program_cell_def)
qed

lemma length_list_cells: "operands_ok p row OpcodeIn kind \<Longrightarrow> length (list_cells p kind row) = p_ListCounts p ! row"
  by (auto simp: operands_ok_def list_cells_def)

lemma take_Suc_set: "i < length xs \<Longrightarrow> set (take (Suc i) xs) = insert (xs ! i) (set (take i xs))"
  by (simp add: take_Suc_conv_app_nth)

text \<open>A loop over the list whose step adds the rows equal to one entry adds the rows equal to any entry.\<close>

lemma fill_list_rows:
  assumes ok: "operands_ok p row OpcodeIn kind"
    and step: "\<And>v dst. length dst = word_count rows \<Longrightarrow> value_cell kind v \<in> set (list_cells p kind row) \<Longrightarrow>
      (\<exists>vid. programPredicateValue p vid kind = Ok v) \<Longrightarrow>
      \<exists>out. f v dst = Ok out \<and> length out = word_count rows \<and>
        (\<forall>r < rows. wbit out r \<longleftrightarrow> wbit dst r \<or> C r = value_cell kind v)"
    and n: "n \<le> p_ListCounts p ! row"
  shows "\<exists>out. res_foldM (\<lambda>i dst. rbind (idx (p_ListValues p) ((p_ListStarts p ! row + i) mod 2 ^ 32)) (\<lambda>vid.
       rbind (programPredicateValue p vid kind) (\<lambda>v. f v dst))) [0..<n] (replicate (word_count rows) 0) = Ok out \<and>
     length out = word_count rows \<and> (\<forall>r < rows. wbit out r \<longleftrightarrow> C r \<in> set (take n (list_cells p kind row)))"
  using n
proof (induction n)
  case 0
  then show ?case by simp
next
  case (Suc n)
  then have n: "n < p_ListCounts p ! row" by simp
  then have nl: "n < length (list_cells p kind row)" using length_list_cells[OF ok] by simp
  obtain out where out: "res_foldM (\<lambda>i dst. rbind (idx (p_ListValues p) ((p_ListStarts p ! row + i) mod 2 ^ 32)) (\<lambda>vid.
       rbind (programPredicateValue p vid kind) (\<lambda>v. f v dst))) [0..<n] (replicate (word_count rows) 0) = Ok out"
    "length out = word_count rows" "\<forall>r < rows. wbit out r \<longleftrightarrow> C r \<in> set (take n (list_cells p kind row))"
    using Suc.IH n by auto
  obtain vid v where v: "idx (p_ListValues p) ((p_ListStarts p ! row + n) mod 2 ^ 32) = Ok vid"
    "programPredicateValue p vid kind = Ok v" "list_cells p kind row ! n = value_cell kind v"
    using list_entry[OF ok n] by blast
  have "value_cell kind v \<in> set (list_cells p kind row)" using v(3) nl by (metis nth_mem)
  then obtain out' where out': "f v out = Ok out'" "length out' = word_count rows"
    "\<forall>r < rows. wbit out' r \<longleftrightarrow> wbit out r \<or> C r = value_cell kind v"
    using step[OF out(2)] v(2) by blast
  show ?case
    using out out' v nl by (auto simp: res_foldM_append take_Suc_set)
qed

lemma list_range_Ok:
  assumes "operands_ok p row OpcodeIn kind"
  shows "list_range p row kind = Ok (p_ListStarts p ! row, p_ListCounts p ! row)"
proof -
  have "res_foldM (\<lambda>i _. rbind (idx (p_ListValues p) ((p_ListStarts p ! row + i) mod 2 ^ 32)) (\<lambda>vid.
      rbind (programPredicateValue p vid kind) (\<lambda>_. Ok ()))) [0..<p_ListCounts p ! row] () =
    Ok (fold (\<lambda>_ _. ()) [0..<p_ListCounts p ! row] ())"
    by (rule res_foldM_Ok) (use list_entry[OF assms] in fastforce)
  then show ?thesis using assms by (simp add: list_range_def operands_ok_def Let_def)
qed

lemma fillInMatches_rows:
  assumes "validExecutionBatchColumns p b" "kind_Valid kind" "column < kind_count (p_FieldIndex p) kind"
    and ok: "operands_ok p row OpcodeIn kind"
  shows "\<exists>out. fillInMatches (replicate (word_count (b_Rows b)) 0) b p kind column (p_ListStarts p ! row) (p_ListCounts p ! row) = Ok out \<and>
     length out = word_count (b_Rows b) \<and>
     (\<forall>r < b_Rows b. wbit out r \<longleftrightarrow> batch_cell b kind column r \<in> set (list_cells p kind row))"
proof -
  have k: "kind \<noteq> ValueKindPresence" using ok by (simp add: operands_ok_def)
  from fill_list_rows[OF ok, of "b_Rows b" "fill_value b kind column" "batch_cell b kind column", OF
      fill_value_rows[OF assms(1,2) k assms(3)] order_refl]
  show ?thesis using length_list_cells[OF ok] by (simp add: fillInMatches_def)
qed

text \<open>The schedule columns that a predicate reads are parallel to its opcodes.\<close>

definition predicate_columns :: "program \<Rightarrow> bool" where
  "predicate_columns p \<longleftrightarrow> length (p_Fields p) = length (p_Opcodes p) \<and> length (p_Values p) = length (p_Opcodes p) \<and>
     length (p_ListStarts p) = length (p_Opcodes p) \<and> length (p_ListCounts p) = length (p_Opcodes p)"

lemma leaf_spec_eq:
  assumes "Schema_Lookup (p_FieldIndex p) (p_Fields p ! row) = Some (kind, column)"
  shows "leaf_truth p b row r =
      leaf_tv (p_Opcodes p ! row) (Batch_Present b (p_Fields p ! row) r) (leaf_holds p b row kind column r)"
    and "leaf_reasons p b row r =
      (if p_Opcodes p ! row \<noteq> OpcodeDefined \<and> \<not> Batch_Present b (p_Fields p ! row) r then ReasonBit ReasonMissing else 0)"
  using assms by (auto simp: leaf_truth_def leaf_reasons_def)

lemma leaf_outputs:
  assumes "validExecutionBatchColumns p b" "Schema_Lookup (p_FieldIndex p) (p_Fields p ! row) = Some (kind, column)"
  shows "mk_planes (b_Rows b) (\<lambda>r. leaf_tv (p_Opcodes p ! row)
      (wbit (word_column b (b_PresenceMasks b) (p_Fields p ! row - 1)) r) (leaf_holds p b row kind column r)) =
      mk_planes (b_Rows b) (leaf_truth p b row)"
    and "mk_reasons (b_Rows b) (\<lambda>r. if p_Opcodes p ! row \<noteq> OpcodeDefined \<and>
      \<not> wbit (word_column b (b_PresenceMasks b) (p_Fields p ! row - 1)) r then ReasonBit ReasonMissing else 0) =
      mk_reasons (b_Rows b) (leaf_reasons p b row)"
  by (rule mk_planes_cong, simp add: leaf_spec_eq[OF assms(2)] presence_column(3)[OF assms] del: One_nat_def)
    (rule mk_reasons_cong, simp add: leaf_spec_eq[OF assms(2)] presence_column(3)[OF assms] del: One_nat_def)

lemma predicate_okD:
  assumes "predicate_ok p row"
  obtains kind column where "predicate_opcode (p_Opcodes p ! row)"
    "Schema_Lookup (p_FieldIndex p) (p_Fields p ! row) = Some (kind, column)" "kind_Valid kind"
    "column < kind_count (p_FieldIndex p) kind" "operands_ok p row (p_Opcodes p ! row) kind"
    "length (is_Kinds (p_FieldIndex p)) mod 2 ^ 32 = length (is_Kinds (p_FieldIndex p))"
  using assms by (auto simp: predicate_ok_def split: option.splits)

lemma operand_value:
  assumes "predicate_opcode op" "op \<notin> {OpcodeIn, OpcodeExists, OpcodeDefined}" "operands_ok p row op kind"
  obtains v where "programPredicateValue p (p_Values p ! row) kind = Ok v" "kind \<noteq> ValueKindPresence"
    "program_cell p kind (p_Values p ! row) = value_cell kind v"
    "orderedPredicate op \<longrightarrow> kind = ValueKindInteger \<or> kind = ValueKindTimestamp"
proof -
  have "is_ok (programPredicateValue p (p_Values p ! row) kind)"
    and o: "orderedPredicate op \<longrightarrow> kind = ValueKindInteger \<or> kind = ValueKindTimestamp"
    using assms by (auto simp: operands_ok_def)
  then obtain v where v: "programPredicateValue p (p_Values p ! row) kind = Ok v" by (auto simp: is_ok_iff)
  moreover have "kind \<noteq> ValueKindPresence" using v by (auto simp: programPredicateValue_def Let_def split: if_splits)
  moreover have "program_cell p kind (p_Values p ! row) = value_cell kind v" using v by (simp add: program_cell_def)
  ultimately show ?thesis using that o by blast
qed

text \<open>
  The matches of the three groups of opcodes: none for the value-free ones, the filled bitmap for
  \<^verbatim>\<open>In\<close>, one comparison per row otherwise.
\<close>

lemma predicate_matches:
  assumes b: "validExecutionBatchColumns p b" and k: "kind_Valid kind" "column < kind_count (p_FieldIndex p) kind"
    and op: "op = p_Opcodes p ! row" "predicate_opcode op" and ok: "operands_ok p row op kind"
    and row: "row < length (p_ListStarts p)" "row < length (p_ListCounts p)"
  obtains v start count filled mw where "predicate_operands p row op kind = Ok (v, start, count)"
    "\<not> (kind = ValueKindPresence \<and> op \<noteq> OpcodeExists \<and> op \<noteq> OpcodeDefined)"
    "\<not> (orderedPredicate op \<and> kind \<noteq> ValueKindInteger \<and> kind \<noteq> ValueKindTimestamp)"
    "(if op = OpcodeIn then fillInMatches (replicate (word_count (b_Rows b)) 0) b p kind column start count
      else Ok (replicate (word_count (b_Rows b)) 0)) = Ok filled"
    "\<forall>w < word_count (b_Rows b). (if op = OpcodeDefined \<or> op = OpcodeExists then Ok 0
       else if op = OpcodeIn then idx filled w else word_matches b op kind column v w) = Ok (mw w)"
    "\<forall>r < b_Rows b. op \<noteq> OpcodeDefined \<longrightarrow> op \<noteq> OpcodeExists \<longrightarrow>
       bit (mw (r div 64)) (r mod 64) = leaf_holds p b row kind column r"
proof -
  consider "op = OpcodeExists \<or> op = OpcodeDefined" | "op = OpcodeIn" | "op \<notin> {OpcodeIn, OpcodeExists, OpcodeDefined}"
    by blast
  then show ?thesis
  proof cases
    case 1
    then show ?thesis using ok
      by (intro that[of zero_value 0 0 "replicate (word_count (b_Rows b)) 0" "\<lambda>_. 0"])
        (auto simp: predicate_operands_def operands_ok_def orderedPredicate_def)
  next
    case 2
    have ok': "operands_ok p row OpcodeIn kind" using ok 2 by simp
    obtain out where out: "fillInMatches (replicate (word_count (b_Rows b)) 0) b p kind column (p_ListStarts p ! row) (p_ListCounts p ! row) = Ok out"
      "length out = word_count (b_Rows b)"
      "\<forall>r < b_Rows b. wbit out r \<longleftrightarrow> batch_cell b kind column r \<in> set (list_cells p kind row)"
      using fillInMatches_rows[OF b k ok'] by blast
    show ?thesis
    proof (rule that[of zero_value "p_ListStarts p ! row" "p_ListCounts p ! row" out "\<lambda>w. out ! w"])
      show "predicate_operands p row op kind = Ok (zero_value, p_ListStarts p ! row, p_ListCounts p ! row)"
        using 2 ok' row list_range_Ok[OF ok'] by (simp add: predicate_operands_def operands_ok_def)
    next
      have "bit (out ! (r div 64)) (r mod 64) = leaf_holds p b row kind column r" if r: "r < b_Rows b" for r
      proof -
        have "leaf_holds p b row kind column r \<longleftrightarrow> wbit out r" using out(3) r 2 op(1) by (simp add: leaf_holds_def)
        then show ?thesis using out(2) r by (simp add: wbit_def)
      qed
      then show "\<forall>r < b_Rows b. op \<noteq> OpcodeDefined \<longrightarrow> op \<noteq> OpcodeExists \<longrightarrow>
          bit (out ! (r div 64)) (r mod 64) = leaf_holds p b row kind column r" by blast
    qed (use 2 ok' out in \<open>auto simp: operands_ok_def orderedPredicate_def\<close>)
  next
    case 3
    obtain v where v: "programPredicateValue p (p_Values p ! row) kind = Ok v" "kind \<noteq> ValueKindPresence"
      "program_cell p kind (p_Values p ! row) = value_cell kind v"
      "orderedPredicate op \<longrightarrow> kind = ValueKindInteger \<or> kind = ValueKindTimestamp"
      using operand_value[OF op(2) 3 ok] by blast
    have "\<forall>w. \<exists>m. w < word_count (b_Rows b) \<longrightarrow> word_matches b op kind column v w = Ok m \<and>
        (\<forall>n < 64. 64 * w + n < b_Rows b \<longrightarrow> bit m n = compare_cells op (batch_cell b kind column (64 * w + n)) (value_cell kind v))"
      using word_matches_rows[OF b k(1) v(2) k(2) op(2) 3 v(4)] by blast
    from choice[OF this] obtain m where m: "\<And>w. w < word_count (b_Rows b) \<Longrightarrow> word_matches b op kind column v w = Ok (m w)"
      "\<And>w n. w < word_count (b_Rows b) \<Longrightarrow> n < 64 \<Longrightarrow> 64 * w + n < b_Rows b \<Longrightarrow>
         bit (m w) n = compare_cells op (batch_cell b kind column (64 * w + n)) (value_cell kind v)"
      by blast
    show ?thesis
    proof (rule that[of v 0 0 "replicate (word_count (b_Rows b)) 0" m])
      have "bit (m (r div 64)) (r mod 64) = leaf_holds p b row kind column r" if r: "r < b_Rows b" for r
      proof -
        have e: "64 * (r div 64) + r mod 64 = r" by simp
        have "bit (m (r div 64)) (r mod 64) = compare_cells op (batch_cell b kind column r) (value_cell kind v)"
          using m(2)[OF row_word_lt[OF r], of "r mod 64"] r unfolding e by simp
        then show ?thesis using 3 op(1) v(3) by (simp add: leaf_holds_def)
      qed
      then show "\<forall>r < b_Rows b. op \<noteq> OpcodeDefined \<longrightarrow> op \<noteq> OpcodeExists \<longrightarrow>
          bit (m (r div 64)) (r mod 64) = leaf_holds p b row kind column r" by blast
    qed (use 3 v m in \<open>auto simp: predicate_operands_def\<close>)
  qed
qed

lemma evalPredicate_rows:
  assumes b: "validExecutionBatchColumns p b" and ok: "predicate_ok p row" and row: "row < length (p_Opcodes p)"
    and cols: "predicate_columns p"
    and dst: "has_shape (word_count (b_Rows b)) dst" "length reasons = ReasonCount * word_count (b_Rows b)"
  shows "evalPredicate dst reasons b p (row + 1) =
    Ok (mk_planes (b_Rows b) (leaf_truth p b row), mk_reasons (b_Rows b) (leaf_reasons p b row))"
proof -
  let ?op = "p_Opcodes p ! row" and ?f = "p_Fields p ! row"
  obtain kind column where k: "predicate_opcode ?op" "Schema_Lookup (p_FieldIndex p) ?f = Some (kind, column)"
    "kind_Valid kind" "column < kind_count (p_FieldIndex p) kind" "operands_ok p row ?op kind"
    "length (is_Kinds (p_FieldIndex p)) mod 2 ^ 32 = length (is_Kinds (p_FieldIndex p))"
    using predicate_okD[OF ok] by blast
  have rows: "row < length (p_Fields p)" "row < length (p_Values p)" "row < length (p_ListStarts p)" "row < length (p_ListCounts p)"
    using row cols by (simp_all add: predicate_columns_def)
  obtain v start count filled mw where
    o: "predicate_operands p row ?op kind = Ok (v, start, count)"
    and g: "\<not> (kind = ValueKindPresence \<and> ?op \<noteq> OpcodeExists \<and> ?op \<noteq> OpcodeDefined)"
      "\<not> (orderedPredicate ?op \<and> kind \<noteq> ValueKindInteger \<and> kind \<noteq> ValueKindTimestamp)"
    and fl: "(if ?op = OpcodeIn then fillInMatches (replicate (word_count (b_Rows b)) 0) b p kind column start count
      else Ok (replicate (word_count (b_Rows b)) 0)) = Ok filled"
    and mw: "\<forall>w < word_count (b_Rows b). (if ?op = OpcodeDefined \<or> ?op = OpcodeExists then Ok 0
       else if ?op = OpcodeIn then idx filled w else word_matches b ?op kind column v w) = Ok (mw w)"
      "\<forall>r < b_Rows b. ?op \<noteq> OpcodeDefined \<longrightarrow> ?op \<noteq> OpcodeExists \<longrightarrow>
       bit (mw (r div 64)) (r mod 64) = leaf_holds p b row kind column r"
    using predicate_matches[OF b k(3,4) refl k(1,5) rows(3,4)] by blast
  note pc = presence_column[OF b k(2)]
  have opc: "\<not> ((opcode_num ?op < opcode_num OpcodeEqual \<or> opcode_num ?op > opcode_num OpcodeGreaterEqual) \<and> ?op \<noteq> OpcodeDefined)"
    using k(1) by (auto simp: predicate_opcode_def)
  have "evalPredicate dst reasons b p (row + 1) =
      leaf_words ?op (b_Rows b) (replicate (ReasonCount * word_count (b_Rows b)) 0) (word_column b (b_PresenceMasks b) (?f - 1))
        (\<lambda>word. if ?op = OpcodeDefined \<or> ?op = OpcodeExists then Ok 0
                else if ?op = OpcodeIn then idx filled word else word_matches b ?op kind column v word)"
    unfolding evalPredicate_def Let_def
    using row rows k(2-4,6) o b dst pc(1) batch_columns(2)[OF b]
    by (simp add: requireColumnLength_def not_le fl g[THEN Eq_FalseI] opc[THEN Eq_FalseI]
        del: kind_num.simps opcode_num.simps split del: if_split cong: if_cong)
  also have "\<dots> = Ok (mk_planes (b_Rows b) (\<lambda>r. leaf_tv ?op (wbit (word_column b (b_PresenceMasks b) (?f - 1)) r) (leaf_holds p b row kind column r)),
        mk_reasons (b_Rows b) (\<lambda>r. if ?op \<noteq> OpcodeDefined \<and> \<not> wbit (word_column b (b_PresenceMasks b) (?f - 1)) r
          then ReasonBit ReasonMissing else 0))"
    by (rule leaf_words_rows[OF pc(2) mw[rule_format]])
  finally show ?thesis
    unfolding leaf_outputs[OF b k(2)] .
qed

end
