(* ===== verification/NR_Leaf.thy ===== *)
theory NR_Leaf
  imports NR_Predicate
begin

text \<open>
  The vectorised and the indexed leaf evaluator compute the row-wise specification of
  \<open>NR_Predicate\<close>, so the choice between the three evaluators is not visible in the planes.
\<close>

section \<open>The vectorised evaluator\<close>

lemma maskSIMDTruthTail_eq: "maskSIMDTruthTail = maskTail"
  by (intro ext) (simp add: maskSIMDTruthTail_def maskTail_def)

lemma simd_missing_rows:
  assumes "length presence = word_count rows"
  shows "simd_missing rows (replicate (ReasonCount * word_count rows) 0) presence =
    Ok (mk_reasons rows (\<lambda>r. if \<not> wbit presence r then ReasonBit ReasonMissing else 0))"
proof -
  let ?n = "word_count rows"
  have run: "res_mapM (\<lambda>word. rbind (idx presence word) (\<lambda>pw. Ok (leafWordMask word ?n rows AND NOT pw))) [0..<?n] =
      Ok (map (\<lambda>w. valid_bits rows w AND NOT (presence ! w)) [0..<?n])"
    by (rule res_mapM_Ok) (simp add: assms leafWordMask_eq)
  have m: "map (\<lambda>w. valid_bits rows w AND NOT (presence ! w)) [0..<?n] = mk_bitmap rows (\<lambda>r. \<not> wbit presence r)"
  proof (rule words_mk_bitmap)
    fix w n :: nat assume a: "w < ?n" "n < 64"
    show "bit (valid_bits rows w AND NOT (presence ! w)) n \<longleftrightarrow> 64 * w + n < rows \<and> \<not> wbit presence (64 * w + n)"
      using bit_valid_bits[OF a] a assms by (simp add: bit_and_iff bit_not_iff wbit_def)
  qed
  show ?thesis unfolding simd_missing_def Let_def run using splice_missing[OF _ m] by simp
qed

lemma simdComparison_Some:
  assumes "simdComparison op = Some c"
  shows "Comparison_Valid c" and "predicate_opcode op" and "op \<notin> {OpcodeIn, OpcodeExists, OpcodeDefined}"
    and "compare_by c x y = compare_cells op (IntegerCell x) (IntegerCell y)"
    and "compare_by c x y = compare_cells op (TimestampCell x) (TimestampCell y)"
    and "\<not> orderedPredicate op \<Longrightarrow> compare_by c s t = compare_cells op (SymbolCell s) (SymbolCell t)"
  using assms by (cases op; auto simp: Comparison_Valid_def predicate_opcode_def compare_by_def orderedPredicate_def)+

lemma value_opcode_tv: "op \<notin> {OpcodeIn, OpcodeExists, OpcodeDefined} \<Longrightarrow> leaf_tv op q h = (q \<and> h, q \<and> \<not> h)"
  by (cases op) auto

lemma length_scratch_view_len [simp]: "sl_len s \<le> length (sl_array s) \<Longrightarrow> length (scratch_view s) = sl_len s"
  by (simp add: scratch_view_def)

lemma resizeExecutorScratch_len [simp]:
  "sl_len (resizeExecutorScratch z s n) = n" "length (scratch_view (resizeExecutorScratch z s n)) = n"
  by (simp_all add: resizeExecutorScratch_def scratch_view_def)

lemma wbit_words_ops:
  assumes "length a = length dst" "length b = length dst" "row div 64 < length dst"
  shows "wbit (AndWords dst a b) row \<longleftrightarrow> wbit a row \<and> wbit b row"
    and "wbit (OrWords dst a b) row \<longleftrightarrow> wbit a row \<or> wbit b row"
    and "wbit (AndNotWords dst a b) row \<longleftrightarrow> wbit a row \<and> \<not> wbit b row"
  unfolding AndWords_def OrWords_def AndNotWords_def wbit_zip_prefix[OF assms]
  using assms by (simp_all add: wbit_def bit_and_iff bit_or_iff bit_not_iff)

lemma length_words_ops [simp]:
  "length (AndWords dst a b) = length dst" "length (OrWords dst a b) = length dst" "length (AndNotWords dst a b) = length dst"
  by (simp_all add: AndWords_def OrWords_def AndNotWords_def)

context simd_contract begin

lemma simd_compare_rows:
  assumes b: "validExecutionBatchColumns p b" and c: "simdComparison op = Some c"
    and k: "column < kind_count (p_FieldIndex p) kind" "kind \<in> {ValueKindSymbol, ValueKindInteger, ValueKindTimestamp}"
    and o: "orderedPredicate op \<longrightarrow> kind = ValueKindInteger \<or> kind = ValueKindTimestamp"
    and m: "length msk = b_Rows b"
  shows "\<exists>out. simd_compare K b kind column v c msk = Ok out \<and> length out = b_Rows b \<and>
    (\<forall>r < b_Rows b. out ! r = compare_cells op (batch_cell b kind column r) (value_cell kind v))"
proof -
  note cv = simdComparison_Some[OF c]
  from k(2) consider "kind = ValueKindSymbol" | "kind = ValueKindInteger" | "kind = ValueKindTimestamp" by blast
  then show ?thesis
  proof cases
    case 1
    then have kc: "column < kind_count (p_FieldIndex p) ValueKindSymbol" using k(1) by simp
    have no: "\<not> orderedPredicate op" using o 1 by blast
    show ?thesis
      using row_columns(1)[OF b kc] row_cells(1)[OF b _ kc] kernel_compare_u32_rows[OF cv(1)] m 1 cv(6)[OF no]
      by (simp add: simd_compare_def value_cell_def)
  next
    case 2
    then have kc: "column < kind_count (p_FieldIndex p) ValueKindInteger" using k(1) by simp
    show ?thesis
      using row_columns(2)[OF b kc] row_cells(2)[OF b _ kc] kernel_compare_i64_rows[OF cv(1)] m 2 cv(4)
      by (simp add: simd_compare_def value_cell_def)
  next
    case 3
    then have kc: "column < kind_count (p_FieldIndex p) ValueKindTimestamp" using k(1) by simp
    show ?thesis
      using row_columns(3)[OF b kc] row_cells(3)[OF b _ kc] kernel_compare_i64_rows[OF cv(1)] m 3 cv(5)
      by (simp add: simd_compare_def value_cell_def)
  qed
qed

text \<open>The two output computations, before the tail is masked.\<close>

lemma simd_boolean_rows:
  assumes "length presence = word_count rows" "length vals = word_count rows" "op \<notin> {OpcodeIn, OpcodeExists, OpcodeDefined}"
    and h: "\<And>r. r < rows \<Longrightarrow> H r \<longleftrightarrow> (wbit vals r = e)"
  shows "maskSIMDTruthTail (if e
      then \<lparr>pl_Positive = sb_AndWords K (replicate (word_count rows) 0) presence vals,
            pl_Negative = sb_AndNotWords K (replicate (word_count rows) 0) presence vals\<rparr>
      else \<lparr>pl_Positive = sb_AndNotWords K (replicate (word_count rows) 0) presence vals,
            pl_Negative = sb_AndWords K (replicate (word_count rows) 0) presence vals\<rparr>) rows =
    Ok (mk_planes rows (\<lambda>r. leaf_tv op (wbit presence r) (H r)))"
  unfolding maskSIMDTruthTail_eq
proof (rule maskTail_rows)
  fix row assume r: "row < rows"
  then show "truth_at (if e
      then \<lparr>pl_Positive = sb_AndWords K (replicate (word_count rows) 0) presence vals,
            pl_Negative = sb_AndNotWords K (replicate (word_count rows) 0) presence vals\<rparr>
      else \<lparr>pl_Positive = sb_AndNotWords K (replicate (word_count rows) 0) presence vals,
            pl_Negative = sb_AndWords K (replicate (word_count rows) 0) presence vals\<rparr>) row =
    leaf_tv op (wbit presence row) (H row)"
    using assms(1,2) row_word_lt[OF r]
    by (simp add: truth_at_def kernels wbit_words_ops value_opcode_tv[OF assms(3)] h[OF r])
qed (simp add: has_shape_def kernels)

lemma simd_packed_rows:
  assumes "length presence = word_count rows" "length out = rows" "op \<notin> {OpcodeIn, OpcodeExists, OpcodeDefined}"
    and h: "\<And>r. r < rows \<Longrightarrow> out ! r = H r"
  shows "\<exists>packed. sb_PackMask K (replicate (word_count rows) 0) out = Ok packed \<and>
    maskSIMDTruthTail \<lparr>pl_Positive = sb_AndWords K packed packed presence,
      pl_Negative = sb_AndNotWords K (replicate (word_count rows) 0) presence (sb_AndWords K packed packed presence)\<rparr> rows =
    Ok (mk_planes rows (\<lambda>r. leaf_tv op (wbit presence r) (H r)))"
proof -
  let ?b = "mk_bitmap rows (\<lambda>r. out ! r)"
  have pk: "sb_PackMask K (replicate (word_count rows) 0) out = Ok ?b"
    using kernel_pack_rows[of "replicate (word_count rows) 0" out] assms(2) by simp
  have "maskSIMDTruthTail \<lparr>pl_Positive = sb_AndWords K ?b ?b presence,
      pl_Negative = sb_AndNotWords K (replicate (word_count rows) 0) presence (sb_AndWords K ?b ?b presence)\<rparr> rows =
    Ok (mk_planes rows (\<lambda>r. leaf_tv op (wbit presence r) (H r)))"
    unfolding maskSIMDTruthTail_eq
  proof (rule maskTail_rows)
    fix row assume r: "row < rows"
    have w: "wbit (AndWords ?b ?b presence) row \<longleftrightarrow> H row \<and> wbit presence row"
      using assms(1) row_word_lt[OF r] h[OF r] r by (simp add: wbit_words_ops)
    show "truth_at \<lparr>pl_Positive = sb_AndWords K ?b ?b presence,
        pl_Negative = sb_AndNotWords K (replicate (word_count rows) 0) presence (sb_AndWords K ?b ?b presence)\<rparr> row =
      leaf_tv op (wbit presence row) (H row)"
      using assms(1) row_word_lt[OF r] w by (auto simp: truth_at_def kernels wbit_words_ops(3) value_opcode_tv[OF assms(3)])
  qed (simp add: has_shape_def kernels)
  with pk show ?thesis by blast
qed

lemma evalPredicateSIMD_rows:
  assumes b: "validExecutionBatchColumns p b" and ok: "predicate_ok p row"
    and dst: "has_shape (word_count (b_Rows b)) dst" "length reasons = ReasonCount * word_count (b_Rows b)"
  shows "evalPredicateSIMD K mode cm dst reasons b p (row + 1) = Ok None \<or>
    (\<exists>cm'. evalPredicateSIMD K mode cm dst reasons b p (row + 1) =
      Ok (Some (mk_planes (b_Rows b) (leaf_truth p b row), mk_reasons (b_Rows b) (leaf_reasons p b row), cm')))"
proof (cases "simdComparison (p_Opcodes p ! row)")
  case None
  then show ?thesis by (simp add: evalPredicateSIMD_def)
next
  case (Some c)
  let ?op = "p_Opcodes p ! row" and ?f = "p_Fields p ! row"
  let ?z = "replicate (word_count (b_Rows b)) (0 :: u64)" and ?pr = "word_column b (b_PresenceMasks b) (?f - 1)"
  note cv = simdComparison_Some[OF Some]
  obtain kind column where k: "Schema_Lookup (p_FieldIndex p) ?f = Some (kind, column)"
    "kind_Valid kind" "column < kind_count (p_FieldIndex p) kind" "operands_ok p row ?op kind"
    using predicate_okD[OF ok] by blast
  obtain v where v: "programPredicateValue p (p_Values p ! row) kind = Ok v" "kind \<noteq> ValueKindPresence"
    "program_cell p kind (p_Values p ! row) = value_cell kind v"
    and g: "orderedPredicate ?op \<longrightarrow> kind = ValueKindInteger \<or> kind = ValueKindTimestamp"
    using operand_value[OF cv(2,3) k(4)] by blast
  have g': "\<not> (orderedPredicate ?op \<and> kind \<noteq> ValueKindInteger \<and> kind \<noteq> ValueKindTimestamp)" using g by blast
  have kk: "kind \<in> {ValueKindSymbol, ValueKindInteger, ValueKindTimestamp, ValueKindBoolean}"
    using k(2) v(2) by (auto simp: kind_Valid_cases)
  then have kn: "\<not> (kind \<noteq> ValueKindSymbol \<and> kind \<noteq> ValueKindInteger \<and> kind \<noteq> ValueKindTimestamp \<and> kind \<noteq> ValueKindBoolean)"
    by blast
  note pc = presence_column[OF b k(1)]
  have H: "leaf_holds p b row kind column r = compare_cells ?op (batch_cell b kind column r) (value_cell kind v)" for r
    using cv(3) v(3) by (simp add: leaf_holds_def)
  have od: "?op \<noteq> OpcodeDefined" using cv(3) by blast
  have mis: "simd_missing (b_Rows b) (replicate (ReasonCount * word_count (b_Rows b)) 0) ?pr =
      Ok (mk_reasons (b_Rows b) (leaf_reasons p b row))"
    unfolding simd_missing_rows[OF pc(2)] leaf_outputs(2)[OF b k(1), symmetric] using od by simp
  note pre = Some k(1-3) g'[THEN Eq_FalseI] kn[THEN Eq_FalseI] v(1) dst pc(1) mis
  consider "if kind = ValueKindBoolean then \<not> useSIMDWords K mode (word_count (b_Rows b))
      else \<not> useSIMDRows K mode (b_Rows b) simdComparisonMinRows"
    | "kind = ValueKindBoolean" "useSIMDWords K mode (word_count (b_Rows b))"
    | "kind \<in> {ValueKindSymbol, ValueKindInteger, ValueKindTimestamp}" "kind \<noteq> ValueKindBoolean" "useSIMDRows K mode (b_Rows b) simdComparisonMinRows"
    using kk by (cases "kind = ValueKindBoolean"; cases "useSIMDWords K mode (word_count (b_Rows b))";
        cases "useSIMDRows K mode (b_Rows b) simdComparisonMinRows") auto
  then show ?thesis
  proof cases
    case 1
    then show ?thesis unfolding evalPredicateSIMD_def Let_def by (simp add: pre not_le del: kind_num.simps)
  next
    case 2
    have kc: "column < kind_count (p_FieldIndex p) ValueKindBoolean" using k(3) 2 by simp
    have no: "\<not> orderedPredicate ?op" using g 2 by blast
    let ?vals = "word_column b (b_BooleanValues b) column"
    have bh: "leaf_holds p b row kind column r \<longleftrightarrow> (wbit ?vals r = (pv_boolean v = (?op = OpcodeEqual)))" if "r < b_Rows b" for r
      using equal_opcode_ne[OF cv(2,3) no] row_cells(4)[OF b that kc] 2 unfolding H by (auto simp: value_cell_def)
    note cl = row_columns(4)[OF b kc]
    note out = simd_boolean_rows[OF pc(2) cl[THEN conjunct2] cv(3) bh, unfolded leaf_outputs(1)[OF b k(1)]]
    show ?thesis
      using 2 cl out k(1-2) kc no v(1) Some dst pc(1) mis unfolding evalPredicateSIMD_def Let_def
      by (simp add: not_le del: kind_num.simps One_nat_def split del: if_split cong: if_cong)
  next
    case 3
    let ?r = "resizeExecutorScratch False cm (b_Rows b)"
    obtain out where o: "simd_compare K b kind column v c (scratch_view ?r) = Ok out" "length out = b_Rows b"
      "\<forall>r < b_Rows b. out ! r = leaf_holds p b row kind column r"
      using simd_compare_rows[OF b Some k(3) 3(1) g, of "scratch_view ?r" v] unfolding H by auto
    obtain packed where pk: "sb_PackMask K ?z out = Ok packed"
      "maskSIMDTruthTail \<lparr>pl_Positive = sb_AndWords K packed packed ?pr,
        pl_Negative = sb_AndNotWords K ?z ?pr (sb_AndWords K packed packed ?pr)\<rparr> (b_Rows b) =
       Ok (mk_planes (b_Rows b) (leaf_truth p b row))"
      using simd_packed_rows[OF pc(2) o(2) cv(3) o(3)[rule_format]] unfolding leaf_outputs(1)[OF b k(1)] by blast
    show ?thesis
      using 3 o(1) pk unfolding evalPredicateSIMD_def Let_def by (simp add: pre not_le del: kind_num.simps One_nat_def)
  qed
qed

end

section \<open>The queries of the fact index\<close>

definition factIndexQuerySymbol :: "program \<Rightarrow> nat \<Rightarrow> nat option" where
  "factIndexQuerySymbol p vid =
     (if vid = 0 then None
      else let row = vid - 1 in
      if row \<ge> length (p_ValueKinds p) \<or> row \<ge> length (p_ValueRefs p) \<or> p_ValueKinds p ! row \<noteq> ValueKindSymbol then None
      else let symbol = p_ValueRefs p ! row in
      if symbol = 0 \<or> symbol > p_ProgramSymbolCount p then None
      else if Program_Symbol p symbol = None then None else Some symbol)"

definition query_contains :: "program \<Rightarrow> nat list \<Rightarrow> nat \<Rightarrow> bool" where
  "query_contains p vals vid =
     (case factIndexQuerySymbol p vid of None \<Rightarrow> False | Some symbol \<Rightarrow> snd (binary_search vals symbol))"

definition valid_query_row :: "program \<Rightarrow> nat \<Rightarrow> bool res" where
  "valid_query_row p row =
     (let spec = p_FactIndexSpec p in
      case binary_search (fs_FieldIDs spec) (p_Fields p ! row) of (fieldRow, selected) \<Rightarrow>
        if \<not> selected then Ok True
        else
          let start = fs_ValueStarts spec ! fieldRow; end = start + fs_ValueCounts spec ! fieldRow; op = p_Opcodes p ! row in
          rbind (subslice (fs_Values spec) start end) (\<lambda>vals.
          if op = OpcodeEqual \<or> op = OpcodeNotEqual then Ok (query_contains p vals (p_Values p ! row))
          else if op = OpcodeIn then
            (if p_Values p ! row \<noteq> 0 then Ok False
             else rbind (subslice (p_ListValues p) (p_ListStarts p ! row) (p_ListStarts p ! row + p_ListCounts p ! row))
               (\<lambda>ids. Ok (list_all (query_contains p vals) ids)))
          else Ok True))"

text \<open>The row loop returns at the first row that fails.\<close>

fun all_rows :: "(nat \<Rightarrow> bool res) \<Rightarrow> nat list \<Rightarrow> bool res" where
  "all_rows f [] = Ok True"
| "all_rows f (row # rows) = rbind (f row) (\<lambda>ok. if ok then all_rows f rows else Ok False)"

definition validFactIndexQueries :: "program \<Rightarrow> bool res" where
  "validFactIndexQueries p =
     (let spec = p_FactIndexSpec p in
      if length (fs_FieldIDs spec) = 0 then Ok True
      else if \<not> list_all (\<lambda>symbol. Program_Symbol p symbol \<noteq> None) (fs_Values spec) then Ok False
      else all_rows (valid_query_row p) [0..<length (p_Opcodes p)])"

definition batch_symbols :: "program \<Rightarrow> batch \<Rightarrow> symbol_columns" where
  "batch_symbols p b = \<lparr>sc_Values = b_SymbolValues b, sc_Rows = b_Rows b, sc_Count = kind_count (p_FieldIndex p) ValueKindSymbol,
     sc_ProgramSymbolCount = p_ProgramSymbolCount p, sc_RowOffset = b_rowBase b, sc_RowStride = sourceRows b\<rparr>"

text \<open>The build returns the new index and the new backing array of the builder.\<close>

definition buildFactIndex :: "program \<Rightarrow> batch \<Rightarrow> execution_mode \<Rightarrow> fact_index \<Rightarrow> nat list \<Rightarrow> (fact_index \<times> nat list) res" where
  "buildFactIndex p b mode fi valueRows =
     (if \<not> useFactIndex mode (b_Rows b) \<or> length (fs_FieldIDs (p_FactIndexSpec p)) = 0
        then Ok (FactIndex_Reset fi, valueRows)
      else case FactBuilder_Build valueRows (p_FactIndexSpec p) (batch_symbols p b) of
        Ok (valueRows', fi') \<Rightarrow> Ok (fi', valueRows')
      | Err e \<Rightarrow> if e = ErrIndexTooLarge then Err ErrBatchTooLarge else Err ErrInvalidProgram
      | Panic m \<Rightarrow> Panic m)"

lemma all_rows_True: "all_rows f rows = Ok True \<longleftrightarrow> (\<forall>row \<in> set rows. f row = Ok True)"
proof (induction rows)
  case Nil
  then show ?case by simp
next
  case (Cons row rows)
  then show ?case by (cases "f row") auto
qed

lemma query_symbol_value:
  assumes "programPredicateValue p vid ValueKindSymbol = Ok v"
  shows "factIndexQuerySymbol p vid = Some (pv_symbol v)"
  using assms by (auto simp: programPredicateValue_def factIndexQuerySymbol_def Let_def split: if_splits)

text \<open>
  What the evaluator needs of the index: a field is not indexed, or a lookup of a value that the
  program queries returns the mask of the rows that hold it.
\<close>

definition queried :: "program \<Rightarrow> nat \<Rightarrow> nat \<Rightarrow> bool" where
  "queried p row vid \<longleftrightarrow>
     (if p_Opcodes p ! row = OpcodeIn
      then vid \<in> set (take (p_ListCounts p ! row) (drop (p_ListStarts p ! row) (p_ListValues p)))
      else vid = p_Values p ! row)"

definition facts_ok :: "fact_index \<Rightarrow> program \<Rightarrow> batch \<Rightarrow> bool" where
  "facts_ok fi p b \<longleftrightarrow> (\<forall>row < length (p_Opcodes p). p_Opcodes p ! row \<in> {OpcodeEqual, OpcodeNotEqual, OpcodeIn} \<longrightarrow>
     FactIndex_Lookup fi (p_Fields p ! row) 0 = Ok NotIndexed \<or>
     (FactIndex_Lookup fi (p_Fields p ! row) 0 \<in> {Ok NilMask} \<union> range (Ok \<circ> RowMask) \<and>
      (\<forall>vid v kind column. queried p row vid \<longrightarrow> programPredicateValue p vid ValueKindSymbol = Ok v \<longrightarrow>
         Schema_Lookup (p_FieldIndex p) (p_Fields p ! row) = Some (kind, column) \<longrightarrow>
         FactIndex_Lookup fi (p_Fields p ! row) (pv_symbol v) =
           Ok (RowMask (mk_bitmap (b_Rows b) (\<lambda>r. batch_cell b ValueKindSymbol column r = SymbolCell (pv_symbol v)))))))"

lemma facts_ok_reset [simp]: "facts_ok (FactIndex_Reset fi) p b"
  by (simp add: facts_ok_def FactIndex_Reset_def FactIndex_Lookup_def)

text \<open>The widths of the fields of a batch and of a program.\<close>

definition batch_u32 :: "batch \<Rightarrow> bool" where
  "batch_u32 b \<longleftrightarrow> b_Rows b \<le> MaxUint32 \<and> b_rowBase b \<le> MaxUint32 \<and> b_rowStride b \<le> MaxUint32"

definition program_u32 :: "program \<Rightarrow> bool" where
  "program_u32 p \<longleftrightarrow> p_ProgramSymbolCount p \<le> MaxUint32 \<and> list_all (\<lambda>c. c \<le> MaxUint32) (is_Counts (p_FieldIndex p)) \<and>
     length (is_Counts (p_FieldIndex p)) = 6 \<and> p_TruthSlotCount p \<le> MaxUint32 \<and> p_ReasonSlotCount p \<le> MaxUint32"

lemma program_u32_count: "program_u32 p \<Longrightarrow> kind_count (p_FieldIndex p) ValueKindSymbol \<le> MaxUint32"
  by (simp add: program_u32_def list_all_length)

lemma batch_symbols_shape:
  assumes "validExecutionBatchColumns p b" "FactSpec_Valid (p_FactIndexSpec p) (p_FieldIndex p) (p_ProgramSymbolCount p)"
  shows "fact_shapes (p_FactIndexSpec p) (batch_symbols p b)" and "stride_of (batch_symbols p b) = sourceRows b"
proof -
  have r: "b_rowBase b + b_Rows b \<le> sourceRows b"
    using batch_columns(1)[OF assms(1)] by (auto simp: validPhysicalRange_def split: if_splits)
  show s: "stride_of (batch_symbols p b) = sourceRows b" using r by (simp add: stride_of_def batch_symbols_def)
  have "validFactSpecShape (p_FactIndexSpec p) (kind_count (p_FieldIndex p) ValueKindSymbol) (p_ProgramSymbolCount p)"
    using assms(2) by (simp add: FactSpec_Valid_def split: if_splits)
  then show "fact_shapes (p_FactIndexSpec p) (batch_symbols p b)"
    unfolding fact_shapes_def s using r batch_columns(3)[OF assms(1)] by (simp add: batch_symbols_def mult.commute)
qed

lemma fact_cell_batch:
  assumes b: "validExecutionBatchColumns p b" and v: "FactSpec_Valid (p_FactIndexSpec p) (p_FieldIndex p) (p_ProgramSymbolCount p)"
    and i: "i < length (fs_FieldIDs (p_FactIndexSpec p))"
    and k: "Schema_Lookup (p_FieldIndex p) (fs_FieldIDs (p_FactIndexSpec p) ! i) = Some (kind, column)" and r: "r < b_Rows b"
  shows "batch_cell b ValueKindSymbol column r = SymbolCell (fact_cell (p_FactIndexSpec p) (batch_symbols p b) i r)"
proof -
  have l: "Schema_Lookup (p_FieldIndex p) (fs_FieldIDs (p_FactIndexSpec p) ! i) = Some (ValueKindSymbol, fs_Columns (p_FactIndexSpec p) ! i)"
    and sh: "validFactSpecShape (p_FactIndexSpec p) (kind_count (p_FieldIndex p) ValueKindSymbol) (p_ProgramSymbolCount p)"
    using v i by (auto simp: FactSpec_Valid_def split: if_splits dest!: list_all_uptD)
  have c: "column = fs_Columns (p_FactIndexSpec p) ! i" using l k by simp
  have lt: "column < kind_count (p_FieldIndex p) ValueKindSymbol" using fact_shape_field(1)[OF sh i] c by simp
  show ?thesis
    using row_cells(1)[OF b r lt] batchRowColumn_Ok(3)[OF batch_columns(1,3)[OF b] lt r]
    by (simp add: fact_cell_def batch_symbols_shape(2)[OF b v] c) (simp add: batch_symbols_def)
qed

text \<open>A query row that passed the check asks only for listed values.\<close>

lemma valid_query_listed:
  assumes sh: "validFactSpecShape (p_FactIndexSpec p) cnt psc" and q: "valid_query_row p row = Ok True"
    and op: "p_Opcodes p ! row \<in> {OpcodeEqual, OpcodeNotEqual, OpcodeIn}"
    and i: "i < length (fs_FieldIDs (p_FactIndexSpec p))" "fs_FieldIDs (p_FactIndexSpec p) ! i = p_Fields p ! row"
    and v: "queried p row vid" "programPredicateValue p vid ValueKindSymbol = Ok v"
  shows "pv_symbol v \<in> set (spec_values (p_FactIndexSpec p) i)"
proof -
  let ?s = "p_FactIndexSpec p"
  note srt = fact_fields_ascending[OF sh] and fo = fact_shape_field[OF sh i(1)]
  have bs: "binary_search (fs_FieldIDs ?s) (p_Fields p ! row) = (i, True)"
    using binary_search_distinct[OF srt i(1)] i(2) by simp
  have "query_contains p (spec_values ?s i) vid"
    using q op v(1) fo(2) by (auto simp: valid_query_row_def bs Let_def queried_def spec_values_def[symmetric] rbind_Ok_iff
        subslice_def list_all_iff split: if_splits)
  then show ?thesis
    using query_symbol_value[OF v(2)] binary_search_iff[OF fo(3)] by (simp add: query_contains_def)
qed

lemma fact_built_facts_ok:
  assumes b: "validExecutionBatchColumns p b" and v: "FactSpec_Valid (p_FactIndexSpec p) (p_FieldIndex p) (p_ProgramSymbolCount p)"
    and q: "validFactIndexQueries p = Ok True" and built: "fact_built (p_FactIndexSpec p) (batch_symbols p b) fi"
  shows "facts_ok fi p b"
  unfolding facts_ok_def
proof (intro allI impI)
  fix row assume row: "row < length (p_Opcodes p)" and op: "p_Opcodes p ! row \<in> {OpcodeEqual, OpcodeNotEqual, OpcodeIn}"
  let ?s = "p_FactIndexSpec p" and ?f = "p_Fields p ! row"
  have sh: "validFactSpecShape ?s (kind_count (p_FieldIndex p) ValueKindSymbol) (p_ProgramSymbolCount p)"
    using v by (simp add: FactSpec_Valid_def split: if_splits)
  show "FactIndex_Lookup fi ?f 0 = Ok NotIndexed \<or>
     (FactIndex_Lookup fi ?f 0 \<in> {Ok NilMask} \<union> range (Ok \<circ> RowMask) \<and>
      (\<forall>vid v kind column. queried p row vid \<longrightarrow> programPredicateValue p vid ValueKindSymbol = Ok v \<longrightarrow>
         Schema_Lookup (p_FieldIndex p) ?f = Some (kind, column) \<longrightarrow>
         FactIndex_Lookup fi ?f (pv_symbol v) =
           Ok (RowMask (mk_bitmap (b_Rows b) (\<lambda>r. batch_cell b ValueKindSymbol column r = SymbolCell (pv_symbol v))))))"
  proof (cases "?f \<in> set (fs_FieldIDs ?s)")
    case False
    then show ?thesis using fact_built_Lookup(1)[OF built False] by blast
  next
    case True
    then obtain i where i: "i < length (fs_FieldIDs ?s)" "fs_FieldIDs ?s ! i = ?f" by (auto simp: in_set_conv_nth)
    have qr: "valid_query_row p row = Ok True"
      using q row i(1) by (auto simp: validFactIndexQueries_def all_rows_True Let_def split: if_splits)
    note lk = fact_built_Lookup(2)[OF built i]
    have rows: "sc_Rows (batch_symbols p b) = b_Rows b" by (simp add: batch_symbols_def)
    have "FactIndex_Lookup fi ?f (pv_symbol v) =
        Ok (RowMask (mk_bitmap (b_Rows b) (\<lambda>r. batch_cell b ValueKindSymbol column r = SymbolCell (pv_symbol v))))"
      if "queried p row vid" "programPredicateValue p vid ValueKindSymbol = Ok v"
        "Schema_Lookup (p_FieldIndex p) ?f = Some (kind, column)" for vid v kind column
    proof -
      have "pv_symbol v \<in> set (spec_values ?s i)" using valid_query_listed[OF sh qr op i that(1,2)] .
      moreover have "mk_bitmap (b_Rows b) (\<lambda>r. fact_cell ?s (batch_symbols p b) i r = pv_symbol v) =
          mk_bitmap (b_Rows b) (\<lambda>r. batch_cell b ValueKindSymbol column r = SymbolCell (pv_symbol v))"
        using fact_cell_batch[OF b \<open>FactSpec_Valid _ _ _\<close> i(1)] that(3) i(2) by (intro mk_bitmap_cong) simp
      ultimately show ?thesis unfolding lk rows by simp
    qed
    moreover have "FactIndex_Lookup fi ?f 0 \<in> {Ok NilMask} \<union> range (Ok \<circ> RowMask)" unfolding lk by auto
    ultimately show ?thesis by blast
  qed
qed

lemma buildFactIndex_facts:
  assumes b: "validExecutionBatchColumns p b" and v: "FactSpec_Valid (p_FactIndexSpec p) (p_FieldIndex p) (p_ProgramSymbolCount p)"
    and q: "validFactIndexQueries p = Ok True" and u: "batch_u32 b" "program_u32 p" and c: "rows_clear vr"
  shows "(\<exists>fi' vr'. buildFactIndex p b mode fi vr = Ok (fi', vr') \<and> facts_ok fi' p b \<and> rows_clear vr') \<or>
    buildFactIndex p b mode fi vr = Err ErrBatchTooLarge"
proof (cases "\<not> useFactIndex mode (b_Rows b) \<or> length (fs_FieldIDs (p_FactIndexSpec p)) = 0")
  case True
  then show ?thesis using c by (auto simp: buildFactIndex_def)
next
  case False
  have cu: "columns_u32 (batch_symbols p b)"
    using u program_u32_count[OF u(2)] by (auto simp: columns_u32_def batch_symbols_def batch_u32_def program_u32_def sourceRows_def)
  show ?thesis
    using FactBuilder_Build_cases[OF c cu, of "p_FactIndexSpec p"] batch_symbols_shape(1)[OF b v] False
      fact_built_facts_ok[OF b v q]
    by (auto simp: buildFactIndex_def)
qed

section \<open>The evaluator over the fact index\<close>

lemma list_cell_queried:
  assumes "operands_ok p row OpcodeIn kind" "c \<in> set (list_cells p kind row)" "p_Opcodes p ! row = OpcodeIn"
  obtains vid v where "queried p row vid" "programPredicateValue p vid kind = Ok v" "c = value_cell kind v"
proof -
  let ?vs = "take (p_ListCounts p ! row) (drop (p_ListStarts p ! row) (p_ListValues p))"
  obtain vid where vid: "vid \<in> set ?vs" "c = program_cell p kind vid" using assms(2) by (auto simp: list_cells_def)
  have "is_ok (programPredicateValue p vid kind)" using assms(1) vid(1) by (auto simp: operands_ok_def list_all_iff)
  then obtain v where v: "programPredicateValue p vid kind = Ok v" by (auto simp: is_ok_iff)
  show ?thesis using that[of vid v] vid v assms(3) by (simp add: queried_def program_cell_def)
qed

context simd_contract begin

lemma or_mask_rows:
  assumes "length pos = word_count rows" "length m = word_count rows" "r < rows"
  shows "wbit (or_mask K mode words m pos) r \<longleftrightarrow> wbit pos r \<or> wbit m r"
proof (cases "useSIMDWords K mode words")
  case True
  then show ?thesis using assms row_word_lt[OF assms(3)] by (simp add: or_mask_def kernels wbit_words_ops)
next
  case False
  then show ?thesis using assms row_word_lt[OF assms(3)] by (simp add: or_mask_def wbit_def bit_or_iff)
qed

lemma length_or_mask: "length (or_mask K mode words m pos) = length pos"
  by (simp add: or_mask_def kernels)

lemma fill_index_rows:
  assumes ok: "operands_ok p row OpcodeIn ValueKindSymbol" and op: "p_Opcodes p ! row = OpcodeIn"
    and lk: "\<forall>vid v. queried p row vid \<longrightarrow> programPredicateValue p vid ValueKindSymbol = Ok v \<longrightarrow>
      FactIndex_Lookup fi field (pv_symbol v) = Ok (RowMask (mk_bitmap rows (\<lambda>r. C r = SymbolCell (pv_symbol v))))"
  shows "\<exists>out. fill_index_matches K mode fi p field (p_ListStarts p ! row) (p_ListCounts p ! row) words (replicate (word_count rows) 0) = Ok out \<and>
     length out = word_count rows \<and> (\<forall>r < rows. wbit out r \<longleftrightarrow> C r \<in> set (list_cells p ValueKindSymbol row))"
proof -
  let ?f = "\<lambda>v pos. rbind (FactIndex_Lookup fi field (pv_symbol v)) (\<lambda>l.
       Ok (case l of RowMask m \<Rightarrow> if m = [] then pos else or_mask K mode words m pos | _ \<Rightarrow> pos))"
  have step: "\<exists>out. ?f v dst = Ok out \<and> length out = word_count rows \<and>
        (\<forall>r < rows. wbit out r \<longleftrightarrow> wbit dst r \<or> C r = value_cell ValueKindSymbol v)"
    if dst: "length dst = word_count rows" and v: "value_cell ValueKindSymbol v \<in> set (list_cells p ValueKindSymbol row)" for v dst
  proof -
    let ?m = "mk_bitmap rows (\<lambda>r. C r = SymbolCell (pv_symbol v))"
    obtain vid v' where "queried p row vid" "programPredicateValue p vid ValueKindSymbol = Ok v'"
      "value_cell ValueKindSymbol v = value_cell ValueKindSymbol v'"
      using list_cell_queried[OF ok v op] by blast
    with lk have l: "FactIndex_Lookup fi field (pv_symbol v) = Ok (RowMask ?m)" by (fastforce simp: value_cell_def)
    have "?m = [] \<Longrightarrow> rows = 0" using length_mk_bitmap[of rows "\<lambda>r. C r = SymbolCell (pv_symbol v)"] by simp
    then show ?thesis
      using l dst or_mask_rows[OF dst length_mk_bitmap] length_or_mask by (auto simp: value_cell_def)
  qed
  have "\<exists>out. res_foldM (\<lambda>i dst. rbind (idx (p_ListValues p) ((p_ListStarts p ! row + i) mod 2 ^ 32)) (\<lambda>vid.
       rbind (programPredicateValue p vid ValueKindSymbol) (\<lambda>v. ?f v dst))) [0..<p_ListCounts p ! row] (replicate (word_count rows) 0) = Ok out \<and>
     length out = word_count rows \<and>
     (\<forall>r < rows. wbit out r \<longleftrightarrow> C r \<in> set (take (p_ListCounts p ! row) (list_cells p ValueKindSymbol row)))"
    by (rule fill_list_rows[OF ok _ order_refl]) (rule step)
  then show ?thesis using length_list_cells[OF ok] by (simp add: fill_index_matches_def)
qed

lemma evalPredicateIndex_rows:
  assumes b: "validExecutionBatchColumns p b" and ok: "predicate_ok p row" and row: "row < length (p_Opcodes p)"
    and fi: "facts_ok fi p b"
    and dst: "has_shape (word_count (b_Rows b)) dst" "length reasons = ReasonCount * word_count (b_Rows b)"
  shows "evalPredicateIndex K mode fi dst reasons b p (row + 1) \<in>
    {Ok None, Ok (Some (mk_planes (b_Rows b) (leaf_truth p b row), mk_reasons (b_Rows b) (leaf_reasons p b row)))}"
proof -
  let ?op = "p_Opcodes p ! row" and ?f = "p_Fields p ! row" and ?n = "word_count (b_Rows b)"
  let ?pr = "word_column b (b_PresenceMasks b) (?f - 1)"
  obtain kind column where k: "Schema_Lookup (p_FieldIndex p) ?f = Some (kind, column)"
    "kind_Valid kind" "column < kind_count (p_FieldIndex p) kind" "operands_ok p row ?op kind"
    using predicate_okD[OF ok] by blast
  show ?thesis
  proof (cases "\<not> useFactIndex mode (b_Rows b) \<or> (?op \<noteq> OpcodeEqual \<and> ?op \<noteq> OpcodeNotEqual \<and> ?op \<noteq> OpcodeIn) \<or> kind \<noteq> ValueKindSymbol \<or>
      FactIndex_Lookup fi ?f 0 = Ok NotIndexed")
    case True
    then show ?thesis using k unfolding evalPredicateIndex_def Let_def by (auto simp: not_le simp del: kind_num.simps)
  next
    case False
    then have ops: "?op \<in> {OpcodeEqual, OpcodeNotEqual, OpcodeIn}" and ks: "kind = ValueKindSymbol"
      and use: "useFactIndex mode (b_Rows b)" by blast+
    have kc: "column < kind_count (p_FieldIndex p) ValueKindSymbol" using k(3) ks by simp
    have kv: "kind_Valid ValueKindSymbol" using k(2) ks by simp
    obtain probe where probe: "FactIndex_Lookup fi ?f 0 = Ok probe" "probe \<noteq> NotIndexed"
      and lk: "\<forall>vid v. queried p row vid \<longrightarrow> programPredicateValue p vid ValueKindSymbol = Ok v \<longrightarrow>
         FactIndex_Lookup fi ?f (pv_symbol v) =
           Ok (RowMask (mk_bitmap (b_Rows b) (\<lambda>r. batch_cell b ValueKindSymbol column r = SymbolCell (pv_symbol v))))"
      using fi row ops False k(1) unfolding facts_ok_def by fastforce
    note pc = presence_column[OF b k(1)]
    note red = use probe k(1) kv kc ks dst pc(1)
    show ?thesis
    proof (cases "?op = OpcodeIn")
      case True
      have ok': "operands_ok p row OpcodeIn ValueKindSymbol" using k(4) True ks by simp
      have v0: "p_Values p ! row = 0" using ok' by (simp add: operands_ok_def)
      obtain out where out: "fill_index_matches K mode fi p ?f (p_ListStarts p ! row) (p_ListCounts p ! row) ?n (replicate ?n 0) = Ok out"
        "length out = ?n" "\<forall>r < b_Rows b. wbit out r \<longleftrightarrow> batch_cell b ValueKindSymbol column r \<in> set (list_cells p ValueKindSymbol row)"
        using fill_index_rows[OF ok' True lk] by blast
      have w: "leaf_words ?op (b_Rows b) (replicate (ReasonCount * ?n) 0) ?pr (\<lambda>word. idx out word) =
          Ok (mk_planes (b_Rows b) (leaf_truth p b row), mk_reasons (b_Rows b) (leaf_reasons p b row))"
        unfolding leaf_outputs[OF b k(1), symmetric]
        by (rule leaf_words_rows[OF pc(2), where mw = "\<lambda>w. out ! w"])
          (use out True ks in \<open>auto simp: leaf_holds_def wbit_def\<close>)
      show ?thesis using True v0 list_range_Ok[OF ok'] out(1) w unfolding evalPredicateIndex_def Let_def
        by (simp add: red not_le res_map_rbind del: kind_num.simps One_nat_def)
    next
      case ne: False
      then have eq: "?op = OpcodeEqual \<or> ?op = OpcodeNotEqual" using ops by blast
      have "is_ok (programPredicateValue p (p_Values p ! row) ValueKindSymbol)" using k(4) eq ks by (auto simp: operands_ok_def)
      then obtain v where v: "programPredicateValue p (p_Values p ! row) ValueKindSymbol = Ok v" by (auto simp: is_ok_iff)
      let ?m = "mk_bitmap (b_Rows b) (\<lambda>r. batch_cell b ValueKindSymbol column r = SymbolCell (pv_symbol v))"
      have l: "FactIndex_Lookup fi ?f (pv_symbol v) = Ok (RowMask ?m)" using lk v ne by (simp add: queried_def)
      have w: "leaf_words ?op (b_Rows b) (replicate (ReasonCount * ?n) 0) ?pr
          (\<lambda>word. rbind (idx ?m word) (\<lambda>m. Ok (if ?op = OpcodeNotEqual then NOT m else m))) =
          Ok (mk_planes (b_Rows b) (leaf_truth p b row), mk_reasons (b_Rows b) (leaf_reasons p b row))"
        unfolding leaf_outputs[OF b k(1), symmetric]
      proof (rule leaf_words_rows[OF pc(2), where mw = "\<lambda>w. if ?op = OpcodeNotEqual then NOT (?m ! w) else ?m ! w"])
        fix r assume r: "r < b_Rows b"
        have "bit (?m ! (r div 64)) (r mod 64) \<longleftrightarrow> batch_cell b ValueKindSymbol column r = SymbolCell (pv_symbol v)"
          using wbit_mk_bitmap[of "b_Rows b" "\<lambda>r. batch_cell b ValueKindSymbol column r = SymbolCell (pv_symbol v)" r] r
          by (simp add: wbit_def)
        then show "bit (if ?op = OpcodeNotEqual then NOT (?m ! (r div 64)) else ?m ! (r div 64)) (r mod 64) =
            leaf_holds p b row kind column r"
          using eq v ks by (auto simp: leaf_holds_def program_cell_def value_cell_def bit_not_iff)
      qed simp
      have gd: "\<not> (?op \<noteq> OpcodeEqual \<and> ?op \<noteq> OpcodeNotEqual)" "\<not> kind_count (p_FieldIndex p) ValueKindSymbol \<le> column"
        using eq kc by (blast, simp)
      show ?thesis using ne v l w unfolding evalPredicateIndex_def Let_def
        by (simp add: gd[THEN Eq_FalseI] red res_map_rbind del: kind_num.simps One_nat_def split del: if_split cong: if_cong)
    qed
  qed
qed

end

end
