(* ===== verification/NR_Evidence.thy ===== *)
theory NR_Evidence
  imports NR_Leaf
begin

text \<open>
  Evidence predicates, \<^verbatim>\<open>internal/eval/evidence_eval.go\<close>: the classification of a program's evidence
  states, the validation of a batch's evidence columns and the evaluation of one evidence query.

  A program is referred to by its address; \<^verbatim>\<open>Bind\<close> compares addresses only. The row-wise
  specification is \<open>evidence_truth\<close> and \<open>evidence_reasons\<close> over the classified records of a row.
\<close>

section \<open>Evidence states\<close>

definition evidenceStateStale :: "byte list" where "evidenceStateStale = [115, 116, 97, 108, 101]"
definition evidenceStateUnclear :: "byte list" where "evidenceStateUnclear = [117, 110, 99, 108, 101, 97, 114]"
definition evidenceStateUnverifiable :: "byte list" where
  "evidenceStateUnverifiable = [117, 110, 118, 101, 114, 105, 102, 105, 97, 98, 108, 101]"
definition evidenceStateInvalid :: "byte list" where "evidenceStateInvalid = [105, 110, 118, 97, 108, 105, 100]"
definition evidenceStateConflict :: "byte list" where "evidenceStateConflict = [99, 111, 110, 102, 108, 105, 99, 116]"
definition evidenceStateConflicting :: "byte list" where
  "evidenceStateConflicting = [99, 111, 110, 102, 108, 105, 99, 116, 105, 110, 103]"

definition state_name_reason :: "byte list \<Rightarrow> nat" where
  "state_name_reason name =
     (if name = evidenceStateStale then ReasonStale
      else if name = evidenceStateUnclear then ReasonUnclear
      else if name = evidenceStateUnverifiable then ReasonUnverifiable
      else if name = evidenceStateInvalid then ReasonInvalid
      else if name = evidenceStateConflict \<or> name = evidenceStateConflicting then ReasonConflict
      else 0)"

record evidence_states =
  es_program :: "nat option"
  es_reasons :: "nat list"

definition state_reasons :: "program \<Rightarrow> nat list" where
  "state_reasons p = map (\<lambda>nameID. case Program_Symbol p nameID of Some name \<Rightarrow> state_name_reason name | None \<Rightarrow> 0)
     (p_EvidenceStateNames p)"

definition States_Bind :: "evidence_states \<Rightarrow> nat \<Rightarrow> program \<Rightarrow> evidence_states res" where
  "States_Bind st a p =
     (if es_program st = Some a then Ok st
      else if \<not> list_all (\<lambda>nameID. Program_Symbol p nameID \<noteq> None) (p_EvidenceStateNames p)
        then Err ErrInvalidEvidenceProgram
      else Ok \<lparr>es_program = Some a, es_reasons = state_reasons p\<rparr>)"

text \<open>A one-based index, \<^verbatim>\<open>s[id-1]\<close> with an unsigned id.\<close>

definition idx1 :: "'a list \<Rightarrow> nat \<Rightarrow> 'a res" where
  "idx1 xs i = (if i = 0 then Panic ''index out of range'' else idx xs (i - 1))"

definition state_reason :: "evidence_states \<Rightarrow> nat \<Rightarrow> nat res" where
  "state_reason st state =
     (if es_program st = None \<or> state = 0 \<or> state - 1 \<ge> length (es_reasons st)
      then Panic ''eval: invalid evidence state'' else Ok (es_reasons st ! (state - 1)))"

section \<open>Validation\<close>

definition validEvidenceBatch :: "batch \<Rightarrow> program \<Rightarrow> bool" where
  "validEvidenceBatch b p =
     (let offs = b_EvidenceOffsets b; refs = b_EvidenceRefs b; ev = b_Evidence b; rows = length (ev_IDs ev) in
      if length (b_RequestIDs b) \<noteq> b_Rows b \<or> length offs \<noteq> b_Rows b + 1 \<or> length offs = 0 \<or> offs ! 0 \<noteq> 0 \<or>
         offs ! (length offs - 1) \<noteq> length refs then False
      else if length (ev_Kinds ev) \<noteq> rows \<or> length (ev_States ev) \<noteq> rows \<or> length (ev_Subjects ev) \<noteq> rows \<or>
         length (ev_Scopes ev) \<noteq> rows \<or> length (ev_Reviewers ev) \<noteq> rows \<or> length (ev_Timings ev) \<noteq> rows \<or>
         length (ev_Timestamps ev) \<noteq> rows then False
      else list_all (\<lambda>i. offs ! i \<le> offs ! (i + 1) \<and> offs ! (i + 1) \<le> length refs) [0..<b_Rows b] \<and>
        list_all (\<lambda>ref. ref < rows) refs \<and>
        list_all (\<lambda>row. \<not> (ev_IDs ev ! row = 0 \<or> ev_Kinds ev ! row = 0 \<or>
          ev_Kinds ev ! row > length (p_EvidenceKindNames p) \<or> ev_States ev ! row = 0 \<or>
          ev_States ev ! row > length (p_EvidenceStateNames p))) [0..<rows])"

definition requireEvidenceBatch :: "batch \<Rightarrow> nat \<Rightarrow> program \<Rightarrow> evidence_states \<Rightarrow> unit res" where
  "requireEvidenceBatch b a p st =
     (if es_program st \<noteq> Some a \<or> length (es_reasons st) \<noteq> length (p_EvidenceStateNames p)
        then Panic ''eval: invalid evidence program''
      else if \<not> validEvidenceBatch b p then Panic ''eval: invalid evidence batch'' else Ok ())"

record evidence_predicate =
  ep_Kind :: nat
  ep_State :: nat
  ep_Subject :: nat
  ep_Scope :: nat
  ep_Timing :: nat

definition requireEvidencePredicate :: "nat \<Rightarrow> program \<Rightarrow> evidence_states \<Rightarrow> evidence_predicate \<Rightarrow> unit res" where
  "requireEvidencePredicate a p st pr =
     (if es_program st \<noteq> Some a \<or> length (es_reasons st) \<noteq> length (p_EvidenceStateNames p) \<or>
         ep_Kind pr = 0 \<or> ep_Kind pr > length (p_EvidenceKindNames p) \<or>
         ep_State pr = 0 \<or> ep_State pr > length (p_EvidenceStateNames p)
      then Panic ''eval: invalid evidence predicate'' else Ok ())"

section \<open>Classification and evaluation\<close>

record evidence_class =
  ec_reasons :: u16
  ec_positive :: bool
  ec_negative :: bool

definition evidenceReasonMasks :: "u16 list" where
  "evidenceReasonMasks = 0 # map (\<lambda>k. push_bit k 1) [0..<ReasonCount]"

definition classifyEvidenceRecord ::
  "nat \<Rightarrow> nat \<Rightarrow> nat \<Rightarrow> nat \<Rightarrow> nat \<Rightarrow> nat \<Rightarrow> nat \<Rightarrow> nat \<Rightarrow> nat \<Rightarrow> evidence_class" where
  "classifyEvidenceRecord state expectedState stateReason0 subject expectedSubject scope expectedScope timing expectedTiming =
     (let stateMatches = (state = expectedState);
          stateReason = (if stateMatches then 0 else stateReason0);
          q1 = (if expectedSubject \<noteq> 0 \<and> subject \<noteq> expectedSubject then push_bit (ReasonWrongSubject - 1) 1 else 0);
          q2 = (if expectedScope \<noteq> 0 \<and> scope \<noteq> expectedScope then q1 OR push_bit (ReasonWrongScope - 1) 1 else q1);
          qualifierReasons = (if expectedTiming \<noteq> 0 \<and> timing \<noteq> expectedTiming
            then q2 OR push_bit (ReasonWrongTiming - 1) 1 else q2) in
      \<lparr>ec_reasons = evidenceReasonMasks ! stateReason OR qualifierReasons,
       ec_positive = stateMatches \<and> qualifierReasons = 0 \<or> stateReason = ReasonConflict,
       ec_negative = \<not> stateMatches \<and> (stateReason = 0 \<or> stateReason = ReasonConflict)\<rparr>)"

text \<open>The records of the row that match the queried kind, classified one by one.\<close>

definition classify_row :: "evidence_batch \<Rightarrow> nat list \<Rightarrow> evidence_predicate \<Rightarrow> nat \<Rightarrow> evidence_class res" where
  "classify_row ev reasons pr evidenceRow =
     rbind (idx (ev_States ev) evidenceRow) (\<lambda>state.
     rbind (idx1 reasons state) (\<lambda>stateReason.
     rbind (idx (ev_Subjects ev) evidenceRow) (\<lambda>subject.
     rbind (idx (ev_Scopes ev) evidenceRow) (\<lambda>scope.
     rbind (idx (ev_Timings ev) evidenceRow) (\<lambda>timing.
     Ok (classifyEvidenceRecord state (ep_State pr) stateReason subject (ep_Subject pr) scope (ep_Scope pr)
          timing (ep_Timing pr)))))))"

definition evidence_edge ::
  "batch \<Rightarrow> nat list \<Rightarrow> evidence_predicate \<Rightarrow> nat \<Rightarrow> bool \<times> bool \<times> bool \<times> u16 \<Rightarrow> (bool \<times> bool \<times> bool \<times> u16) res" where
  "evidence_edge b reasons pr edge acc =
     (case acc of (foundKind, positive, negative, reasonMask) \<Rightarrow>
      rbind (idx (b_EvidenceRefs b) edge) (\<lambda>evidenceRow.
      rbind (idx (ev_Kinds (b_Evidence b)) evidenceRow) (\<lambda>kind.
      if kind \<noteq> ep_Kind pr then Ok acc
      else rbind (classify_row (b_Evidence b) reasons pr evidenceRow) (\<lambda>c.
        Ok (True, positive \<or> ec_positive c, negative \<or> ec_negative c, reasonMask OR ec_reasons c)))))"

definition evidence_row :: "batch \<Rightarrow> nat list \<Rightarrow> evidence_predicate \<Rightarrow> nat \<Rightarrow> (bool \<times> bool \<times> u16) res" where
  "evidence_row b reasons pr row =
     rbind (idx (b_EvidenceOffsets b) row) (\<lambda>start.
     rbind (idx (b_EvidenceOffsets b) (row + 1)) (\<lambda>end.
     rbind (res_foldM (evidence_edge b reasons pr) [start..<end] (False, False, False, 0)) (\<lambda>(foundKind, positive, negative, m).
     let m1 = (if \<not> foundKind then mask_With m ReasonMissing else m);
         m2 = (if positive \<and> negative then mask_With m1 ReasonConflict else m1) in
     Ok (positive, negative, m2))))"

definition set_reason_bit :: "nat \<Rightarrow> nat \<Rightarrow> u16 \<Rightarrow> nat \<Rightarrow> u64 list \<Rightarrow> u64 list" where
  "set_reason_bit words row m reason rs =
     (if mask_Has m reason
      then (let k = (reason - 1) * words + row div 64 in rs[k := rs ! k OR row_bit row]) else rs)"

definition set_reason_bits :: "nat \<Rightarrow> nat \<Rightarrow> u16 \<Rightarrow> u64 list \<Rightarrow> u64 list" where
  "set_reason_bits words row m rs = fold (set_reason_bit words row m) [ReasonMissing..<ReasonConflict + 1] rs"

definition evalEvidenceUnchecked ::
  "planes \<Rightarrow> u64 list \<Rightarrow> batch \<Rightarrow> evidence_states \<Rightarrow> evidence_predicate \<Rightarrow> (planes \<times> u64 list) res" where
  "evalEvidenceUnchecked dst reasons b st pr =
     rbind (resetLeafOutputs dst reasons (b_Rows b)) (\<lambda>(cleared, reasons0, words).
     res_foldM (\<lambda>row (pl, rs).
       rbind (evidence_row b (es_reasons st) pr row) (\<lambda>(positive, negative, m).
       Ok (\<lparr>pl_Positive = (if positive then set_row (pl_Positive pl) row else pl_Positive pl),
            pl_Negative = (if negative then set_row (pl_Negative pl) row else pl_Negative pl)\<rparr>,
           set_reason_bits words row m rs))) [0..<b_Rows b] (cleared, reasons0))"

definition evalEvidence ::
  "planes \<Rightarrow> u64 list \<Rightarrow> batch \<Rightarrow> nat \<Rightarrow> program \<Rightarrow> evidence_states \<Rightarrow> evidence_predicate \<Rightarrow> (planes \<times> u64 list) res" where
  "evalEvidence dst reasons b a p st pr =
     rbind (requireEvidencePredicate a p st pr) (\<lambda>_.
     rbind (requireEvidenceBatch b a p st) (\<lambda>_. evalEvidenceUnchecked dst reasons b st pr))"

definition evalEvidenceValidated ::
  "planes \<Rightarrow> u64 list \<Rightarrow> batch \<Rightarrow> nat \<Rightarrow> program \<Rightarrow> evidence_states \<Rightarrow> evidence_predicate \<Rightarrow> (planes \<times> u64 list) res" where
  "evalEvidenceValidated dst reasons b a p st pr =
     rbind (requireEvidencePredicate a p st pr) (\<lambda>_. evalEvidenceUnchecked dst reasons b st pr)"

section \<open>Row-wise specification\<close>

definition row_refs :: "batch \<Rightarrow> nat \<Rightarrow> nat list" where
  "row_refs b row =
     (let start = b_EvidenceOffsets b ! row; end = b_EvidenceOffsets b ! (row + 1) in
      take (end - start) (drop start (b_EvidenceRefs b)))"

definition record_class :: "program \<Rightarrow> evidence_batch \<Rightarrow> evidence_predicate \<Rightarrow> nat \<Rightarrow> evidence_class" where
  "record_class p ev pr er =
     classifyEvidenceRecord (ev_States ev ! er) (ep_State pr) (state_reasons p ! (ev_States ev ! er - 1))
       (ev_Subjects ev ! er) (ep_Subject pr) (ev_Scopes ev ! er) (ep_Scope pr) (ev_Timings ev ! er) (ep_Timing pr)"

definition row_classes :: "program \<Rightarrow> batch \<Rightarrow> evidence_predicate \<Rightarrow> nat \<Rightarrow> evidence_class list" where
  "row_classes p b pr row =
     map (record_class p (b_Evidence b) pr) (filter (\<lambda>er. ev_Kinds (b_Evidence b) ! er = ep_Kind pr) (row_refs b row))"

definition evidence_truth :: "program \<Rightarrow> batch \<Rightarrow> evidence_predicate \<Rightarrow> nat \<Rightarrow> tv" where
  "evidence_truth p b pr row =
     (list_ex ec_positive (row_classes p b pr row), list_ex ec_negative (row_classes p b pr row))"

definition evidence_reasons :: "program \<Rightarrow> batch \<Rightarrow> evidence_predicate \<Rightarrow> nat \<Rightarrow> u16" where
  "evidence_reasons p b pr row =
     (let cs = row_classes p b pr row; m = fold (\<lambda>c m. m OR ec_reasons c) cs 0;
          m1 = (if cs = [] then mask_With m ReasonMissing else m) in
      if evidence_truth p b pr row = (True, True) then mask_With m1 ReasonConflict else m1)"

section \<open>The evaluation computes the specification\<close>

lemma idx1_Ok [simp]: "i \<noteq> 0 \<Longrightarrow> i \<le> length xs \<Longrightarrow> idx1 xs i = Ok (xs ! (i - 1))"
  by (simp add: idx1_def)

lemma length_state_reasons [simp]: "length (state_reasons p) = length (p_EvidenceStateNames p)"
  by (simp add: state_reasons_def)

lemma state_reasons_range: "i < length (p_EvidenceStateNames p) \<Longrightarrow> state_reasons p ! i \<le> ReasonConflict"
  by (simp add: state_reasons_def state_name_reason_def split: option.splits)

lemma evidenceReasonMasks_nth: "k \<le> ReasonConflict \<Longrightarrow> evidenceReasonMasks ! k = ReasonBit k"
  by (cases k) (auto simp: evidenceReasonMasks_def ReasonBit_def)

lemma evidence_batch_ok:
  assumes "validEvidenceBatch b p"
  shows "length (b_EvidenceOffsets b) = b_Rows b + 1"
    and "row < b_Rows b \<Longrightarrow> b_EvidenceOffsets b ! row \<le> b_EvidenceOffsets b ! (row + 1) \<and>
      b_EvidenceOffsets b ! (row + 1) \<le> length (b_EvidenceRefs b)"
    and "er \<in> set (b_EvidenceRefs b) \<Longrightarrow> er < length (ev_IDs (b_Evidence b))"
    and "length (ev_Kinds (b_Evidence b)) = length (ev_IDs (b_Evidence b))"
      "length (ev_States (b_Evidence b)) = length (ev_IDs (b_Evidence b))"
      "length (ev_Subjects (b_Evidence b)) = length (ev_IDs (b_Evidence b))"
      "length (ev_Scopes (b_Evidence b)) = length (ev_IDs (b_Evidence b))"
      "length (ev_Timings (b_Evidence b)) = length (ev_IDs (b_Evidence b))"
    and "er < length (ev_IDs (b_Evidence b)) \<Longrightarrow> ev_States (b_Evidence b) ! er \<noteq> 0 \<and>
      ev_States (b_Evidence b) ! er \<le> length (p_EvidenceStateNames p) \<and> ev_IDs (b_Evidence b) ! er \<noteq> 0"
proof -
  let ?ev = "b_Evidence b"
  have "length (b_EvidenceOffsets b) = b_Rows b + 1 \<and>
    list_all (\<lambda>i. b_EvidenceOffsets b ! i \<le> b_EvidenceOffsets b ! (i + 1) \<and> b_EvidenceOffsets b ! (i + 1) \<le> length (b_EvidenceRefs b)) [0..<b_Rows b] \<and>
    list_all (\<lambda>ref. ref < length (ev_IDs ?ev)) (b_EvidenceRefs b) \<and>
    length (ev_Kinds ?ev) = length (ev_IDs ?ev) \<and> length (ev_States ?ev) = length (ev_IDs ?ev) \<and>
    length (ev_Subjects ?ev) = length (ev_IDs ?ev) \<and> length (ev_Scopes ?ev) = length (ev_IDs ?ev) \<and>
    length (ev_Timings ?ev) = length (ev_IDs ?ev) \<and>
    list_all (\<lambda>row. \<not> (ev_IDs ?ev ! row = 0 \<or> ev_Kinds ?ev ! row = 0 \<or> ev_Kinds ?ev ! row > length (p_EvidenceKindNames p) \<or>
      ev_States ?ev ! row = 0 \<or> ev_States ?ev ! row > length (p_EvidenceStateNames p))) [0..<length (ev_IDs ?ev)]"
    using assms unfolding validEvidenceBatch_def Let_def by (simp split: if_splits)
  note v = this
  show "length (b_EvidenceOffsets b) = b_Rows b + 1" using v by blast
  show "row < b_Rows b \<Longrightarrow> b_EvidenceOffsets b ! row \<le> b_EvidenceOffsets b ! (row + 1) \<and>
      b_EvidenceOffsets b ! (row + 1) \<le> length (b_EvidenceRefs b)" using v list_all_uptD by blast
  show "er \<in> set (b_EvidenceRefs b) \<Longrightarrow> er < length (ev_IDs ?ev)" using v by (simp add: list_all_iff)
  show "length (ev_Kinds ?ev) = length (ev_IDs ?ev)" "length (ev_States ?ev) = length (ev_IDs ?ev)"
    "length (ev_Subjects ?ev) = length (ev_IDs ?ev)" "length (ev_Scopes ?ev) = length (ev_IDs ?ev)"
    "length (ev_Timings ?ev) = length (ev_IDs ?ev)" using v by blast+
  show "ev_States ?ev ! er \<noteq> 0 \<and> ev_States ?ev ! er \<le> length (p_EvidenceStateNames p) \<and> ev_IDs ?ev ! er \<noteq> 0"
    if "er < length (ev_IDs ?ev)"
    using list_all_uptD[of "\<lambda>row. \<not> (ev_IDs ?ev ! row = 0 \<or> ev_Kinds ?ev ! row = 0 \<or> ev_Kinds ?ev ! row > length (p_EvidenceKindNames p) \<or>
      ev_States ?ev ! row = 0 \<or> ev_States ?ev ! row > length (p_EvidenceStateNames p))" "length (ev_IDs ?ev)" er] v that by auto
qed

lemma classify_row_Ok:
  assumes "validEvidenceBatch b p" "er < length (ev_IDs (b_Evidence b))"
  shows "classify_row (b_Evidence b) (state_reasons p) pr er = Ok (record_class p (b_Evidence b) pr er)"
  using evidence_batch_ok(4-8)[OF assms(1)] evidence_batch_ok(9)[OF assms] assms(2)
  by (simp add: classify_row_def record_class_def)

lemma edges_fold:
  assumes "\<forall>e \<in> set es. e < length (b_EvidenceRefs b)" "validEvidenceBatch b p"
  shows "res_foldM (evidence_edge b (state_reasons p) pr) es (f, po, ne, m) =
    (let cs = map (record_class p (b_Evidence b) pr)
          (filter (\<lambda>er. ev_Kinds (b_Evidence b) ! er = ep_Kind pr) (map (\<lambda>e. b_EvidenceRefs b ! e) es)) in
     Ok (f \<or> cs \<noteq> [], po \<or> list_ex ec_positive cs, ne \<or> list_ex ec_negative cs, fold (\<lambda>c m. m OR ec_reasons c) cs m))"
  using assms(1)
proof (induction es arbitrary: f po ne m)
  case Nil
  then show ?case by simp
next
  case (Cons e es)
  let ?er = "b_EvidenceRefs b ! e"
  have er: "?er < length (ev_IDs (b_Evidence b))" using Cons.prems evidence_batch_ok(3)[OF assms(2)] by simp
  have step: "evidence_edge b (state_reasons p) pr e (f, po, ne, m) =
     (if ev_Kinds (b_Evidence b) ! ?er \<noteq> ep_Kind pr then Ok (f, po, ne, m)
      else let c = record_class p (b_Evidence b) pr ?er in
        Ok (True, po \<or> ec_positive c, ne \<or> ec_negative c, m OR ec_reasons c))"
    using Cons.prems er evidence_batch_ok(4)[OF assms(2)] classify_row_Ok[OF assms(2) er] by (simp add: evidence_edge_def Let_def)
  show ?case
    using Cons.prems by (simp add: step Cons.IH Let_def)
qed

lemma row_refs_map:
  assumes "validEvidenceBatch b p" "row < b_Rows b"
  shows "map (\<lambda>e. b_EvidenceRefs b ! e) [b_EvidenceOffsets b ! row..<b_EvidenceOffsets b ! (row + 1)] = row_refs b row"
    and "\<forall>e \<in> set [b_EvidenceOffsets b ! row..<b_EvidenceOffsets b ! (row + 1)]. e < length (b_EvidenceRefs b)"
  using evidence_batch_ok(2)[OF assms(1,2)] by (auto simp: row_refs_def Let_def intro!: nth_equalityI)

lemma evidence_row_Ok:
  assumes "validEvidenceBatch b p" "row < b_Rows b"
  shows "evidence_row b (state_reasons p) pr row =
    Ok (fst (evidence_truth p b pr row), snd (evidence_truth p b pr row), evidence_reasons p b pr row)"
proof -
  let ?cs = "row_classes p b pr row"
  have "res_foldM (evidence_edge b (state_reasons p) pr) [b_EvidenceOffsets b ! row..<b_EvidenceOffsets b ! (row + 1)] (False, False, False, 0) =
     Ok (?cs \<noteq> [], list_ex ec_positive ?cs, list_ex ec_negative ?cs, fold (\<lambda>c m. m OR ec_reasons c) ?cs 0)"
    unfolding edges_fold[OF row_refs_map(2)[OF assms] assms(1)] row_refs_map(1)[OF assms] row_classes_def Let_def by simp
  then show ?thesis
    using evidence_batch_ok(1)[OF assms(1)] assms(2)
    by (simp add: evidence_row_def evidence_reasons_def evidence_truth_def Let_def)
qed

lemma set_reason_bits_blocks:
  assumes "length rs = ReasonCount * word_count rows" "row < rows"
    and "\<And>k. k < ReasonCount \<Longrightarrow> block rs (word_count rows) k = mk_bitmap rows (\<lambda>r. M r k)" and "n \<le> ReasonCount"
    and out: "out = fold (set_reason_bit (word_count rows) row m) [1..<1 + n] rs"
  shows "length out = ReasonCount * word_count rows \<and>
     (\<forall>k < ReasonCount. block out (word_count rows) k = mk_bitmap rows (\<lambda>r. M r k \<or> (r = row \<and> k < n \<and> bit m k)))"
  using assms(4,5)
proof (induction n arbitrary: out)
  case 0
  then show ?case using assms(1,3) by simp
next
  case (Suc n)
  let ?w = "word_count rows"
  define prev where "prev = fold (set_reason_bit ?w row m) [1..<1 + n] rs"
  have n: "n < ReasonCount" using Suc.prems by simp
  have IH: "length prev = ReasonCount * ?w" "\<And>k. k < ReasonCount \<Longrightarrow> block prev ?w k = mk_bitmap rows (\<lambda>r. M r k \<or> (r = row \<and> k < n \<and> bit m k))"
    using Suc.IH[OF _ prev_def] n by simp_all
  have wr: "row div 64 < ?w" using assms(2) by simp
  have hs: "mask_Has m (1 + n) \<longleftrightarrow> bit m n" using n by (simp add: mask_Has_iff is_reason_def)
  have f: "out = set_reason_bit ?w row m (1 + n) prev" unfolding Suc.prems(2) prev_def by simp
  have "block out ?w k = mk_bitmap rows (\<lambda>r. M r k \<or> (r = row \<and> k < Suc n \<and> bit m k))" if k: "k < ReasonCount" for k
  proof (cases "bit m n")
    case False
    then show ?thesis using IH(2)[OF k] hs unfolding f set_reason_bit_def by (auto intro!: mk_bitmap_cong simp: less_Suc_eq)
  next
    case True
    have "out = prev[n * ?w + row div 64 := prev ! (n * ?w + row div 64) OR row_bit row]"
      using True hs unfolding f set_reason_bit_def by (simp add: Let_def)
    moreover have "prev ! (n * ?w + row div 64) = block prev ?w n ! (row div 64)" using nth_block[OF IH(1) n wr] by simp
    ultimately have "block out ?w k = (if k = n then set_row (block prev ?w n) row else block prev ?w k)"
      using block_update[OF IH(1) n k wr] by (simp add: set_row_def)
    also have "\<dots> = mk_bitmap rows (\<lambda>r. M r k \<or> (r = row \<and> k < Suc n \<and> bit m k))"
      using True set_row_mk_bitmap[OF assms(2)] IH(2)[OF k] IH(2)[OF n] by (auto intro!: mk_bitmap_cong simp: less_Suc_eq)
    finally show ?thesis .
  qed
  moreover have "length out = ReasonCount * ?w" using IH(1) unfolding f set_reason_bit_def by (simp add: Let_def)
  ultimately show ?case by blast
qed

lemma set_reason_bits_rows:
  assumes "row < rows" "M row = 0"
  shows "set_reason_bits (word_count rows) row m (mk_reasons rows M) = mk_reasons rows (M(row := m))"
proof -
  define out where "out = set_reason_bits (word_count rows) row m (mk_reasons rows M)"
  have "out = fold (set_reason_bit (word_count rows) row m) [1..<1 + ReasonCount] (mk_reasons rows M)"
    by (simp add: out_def set_reason_bits_def)
  from set_reason_bits_blocks[OF length_mk_reasons assms(1) block_mk_reasons order_refl this]
  have "length out = ReasonCount * word_count rows"
    "\<And>k. k < ReasonCount \<Longrightarrow> block out (word_count rows) k = mk_bitmap rows (\<lambda>r. bit (M r) k \<or> (r = row \<and> k < ReasonCount \<and> bit m k))"
    by blast+
  then show ?thesis
    unfolding out_def[symmetric] using assms(2) by (intro eq_mk_reasonsI) (auto intro!: mk_bitmap_cong)
qed

lemma evalEvidenceUnchecked_rows:
  assumes v: "validEvidenceBatch b p" and st: "es_reasons st = state_reasons p"
    and dst: "has_shape (word_count (b_Rows b)) dst" "length reasons = ReasonCount * word_count (b_Rows b)"
  shows "evalEvidenceUnchecked dst reasons b st pr =
    Ok (mk_planes (b_Rows b) (evidence_truth p b pr), mk_reasons (b_Rows b) (evidence_reasons p b pr))"
proof -
  let ?rows = "b_Rows b"
  define T where "T n r = (if r < n then evidence_truth p b pr r else (False, False))" for n r
  define M where "M n r = (if r < n then evidence_reasons p b pr r else 0)" for n r
  let ?g = "\<lambda>row (pl, rs). rbind (evidence_row b (es_reasons st) pr row) (\<lambda>(positive, negative, m).
       Ok (\<lparr>pl_Positive = (if positive then set_row (pl_Positive pl) row else pl_Positive pl),
            pl_Negative = (if negative then set_row (pl_Negative pl) row else pl_Negative pl)\<rparr>,
           set_reason_bits (word_count ?rows) row m rs))"
  have "res_foldM ?g [0..<n] (mk_planes ?rows (T 0), mk_reasons ?rows (M 0)) = Ok (mk_planes ?rows (T n), mk_reasons ?rows (M n))"
    if "n \<le> ?rows" for n
    using that
  proof (induction n)
    case 0
    then show ?case by simp
  next
    case (Suc n)
    then have n: "n < ?rows" by simp
    obtain po ne where tv: "evidence_truth p b pr n = (po, ne)" by (cases "evidence_truth p b pr n")
    have pl: "\<lparr>pl_Positive = (if po then set_row (pl_Positive (mk_planes ?rows (T n))) n else pl_Positive (mk_planes ?rows (T n))),
        pl_Negative = (if ne then set_row (pl_Negative (mk_planes ?rows (T n))) n else pl_Negative (mk_planes ?rows (T n)))\<rparr> =
      mk_planes ?rows (T (Suc n))"
      using tv by (auto intro!: mk_bitmap_cong simp: mk_planes_def set_row_mk_bitmap[OF n] T_def less_Suc_eq)
    have rs: "set_reason_bits (word_count ?rows) n (evidence_reasons p b pr n) (mk_reasons ?rows (M n)) = mk_reasons ?rows (M (Suc n))"
      using set_reason_bits_rows[OF n, of "M n" "evidence_reasons p b pr n"]
      by (auto intro!: mk_reasons_cong simp: M_def less_Suc_eq)
    have step: "?g n (mk_planes ?rows (T n), mk_reasons ?rows (M n)) = Ok (mk_planes ?rows (T (Suc n)), mk_reasons ?rows (M (Suc n)))"
      using evidence_row_Ok[OF v n, of pr] tv pl rs by (simp add: st)
    show ?case using Suc.IH n step by (simp add: res_foldM_append)
  qed
  note run = this[OF order_refl]
  have zero: "mk_planes ?rows (T 0) = \<lparr>pl_Positive = replicate (word_count ?rows) 0, pl_Negative = replicate (word_count ?rows) 0\<rparr>"
    using mk_bitmap_zero_iff[of ?rows "\<lambda>_. False"] by (simp add: mk_planes_def T_def)
  have zero': "mk_reasons ?rows (M 0) = replicate (ReasonCount * word_count ?rows) 0"
    unfolding mk_reasons_zero[symmetric] by (rule mk_reasons_cong) (simp add: M_def)
  have "mk_planes ?rows (T ?rows) = mk_planes ?rows (evidence_truth p b pr)" by (rule mk_planes_cong) (simp add: T_def)
  moreover have "mk_reasons ?rows (M ?rows) = mk_reasons ?rows (evidence_reasons p b pr)" by (rule mk_reasons_cong) (simp add: M_def)
  ultimately show ?thesis
    using run unfolding zero zero' evalEvidenceUnchecked_def by (simp add: dst)
qed

section \<open>Unresolved evidence has a reason\<close>

lemma fold_or_reasons:
  "bit (fold (\<lambda>c m. m OR ec_reasons c) cs m) n \<longleftrightarrow> bit m n \<or> (\<exists>c \<in> set cs. bit (ec_reasons c) n)"
  by (induction cs arbitrary: m) (auto simp: bit_or_iff)

definition qualifier_mask :: "nat \<Rightarrow> nat \<Rightarrow> nat \<Rightarrow> nat \<Rightarrow> nat \<Rightarrow> nat \<Rightarrow> u16" where
  "qualifier_mask su esu sc esc ti eti =
     (if esu \<noteq> 0 \<and> su \<noteq> esu then ReasonBit ReasonWrongSubject else 0) OR
     (if esc \<noteq> 0 \<and> sc \<noteq> esc then ReasonBit ReasonWrongScope else 0) OR
     (if eti \<noteq> 0 \<and> ti \<noteq> eti then ReasonBit ReasonWrongTiming else 0)"

lemma classify_eq:
  assumes "sr \<le> ReasonConflict"
  shows "classifyEvidenceRecord st es sr su esu sc esc ti eti =
    (let q = qualifier_mask su esu sc esc ti eti; sr' = (if st = es then 0 else sr) in
     \<lparr>ec_reasons = ReasonBit sr' OR q, ec_positive = st = es \<and> q = 0 \<or> sr' = ReasonConflict,
      ec_negative = st \<noteq> es \<and> (sr' = 0 \<or> sr' = ReasonConflict)\<rparr>)"
  using assms unfolding classifyEvidenceRecord_def qualifier_mask_def Let_def
  by (simp add: evidenceReasonMasks_nth ReasonBit_def)

lemma mask_Has_ReasonBit [simp]: "mask_Has (ReasonBit r) s \<longleftrightarrow> is_reason s \<and> s = r"
  by (auto simp: mask_Has_iff bit_ReasonBit is_reason_def)

lemma mask_Has_is_reason: "mask_Has m s \<Longrightarrow> is_reason s"
  by (simp add: mask_Has_iff)

lemma qualifier_mask_valid [simp]: "mask_Valid (qualifier_mask su esu sc esc ti eti)"
  by (simp add: qualifier_mask_def)

lemma record_class_eq:
  assumes "validEvidenceBatch b p" "er < length (ev_IDs (b_Evidence b))"
  obtains sr q where "sr \<le> ReasonConflict" "mask_Valid q"
    "record_class p (b_Evidence b) pr er =
     (let sr' = (if ev_States (b_Evidence b) ! er = ep_State pr then 0 else sr) in
      \<lparr>ec_reasons = ReasonBit sr' OR q, ec_positive = ev_States (b_Evidence b) ! er = ep_State pr \<and> q = 0 \<or> sr' = ReasonConflict,
       ec_negative = ev_States (b_Evidence b) ! er \<noteq> ep_State pr \<and> (sr' = 0 \<or> sr' = ReasonConflict)\<rparr>)"
proof -
  let ?st = "ev_States (b_Evidence b) ! er"
  have "?st - 1 < length (p_EvidenceStateNames p)" using evidence_batch_ok(9)[OF assms] by linarith
  then have "state_reasons p ! (?st - 1) \<le> ReasonConflict" by (rule state_reasons_range)
  from that[OF this qualifier_mask_valid] classify_eq[OF this] show ?thesis by (simp add: record_class_def Let_def)
qed

lemma row_refs_bound:
  assumes "validEvidenceBatch b p" "er \<in> set (row_refs b row)"
  shows "er < length (ev_IDs (b_Evidence b))"
  using evidence_batch_ok(3)[OF assms(1)] assms(2) by (auto simp: row_refs_def Let_def dest: in_set_takeD in_set_dropD)

lemma row_class_cases:
  assumes "validEvidenceBatch b p" "c \<in> set (row_classes p b pr row)"
  shows "mask_Valid (ec_reasons c)" and "ec_positive c \<or> ec_negative c \<or> ec_reasons c \<noteq> 0"
proof -
  obtain er where er: "er \<in> set (row_refs b row)" "c = record_class p (b_Evidence b) pr er"
    using assms(2) by (auto simp: row_classes_def)
  obtain sr q where c: "sr \<le> ReasonConflict" "mask_Valid q"
    "record_class p (b_Evidence b) pr er =
     (let sr' = (if ev_States (b_Evidence b) ! er = ep_State pr then 0 else sr) in
      \<lparr>ec_reasons = ReasonBit sr' OR q, ec_positive = ev_States (b_Evidence b) ! er = ep_State pr \<and> q = 0 \<or> sr' = ReasonConflict,
       ec_negative = ev_States (b_Evidence b) ! er \<noteq> ep_State pr \<and> (sr' = 0 \<or> sr' = ReasonConflict)\<rparr>)"
    using record_class_eq[OF assms(1) row_refs_bound[OF assms(1) er(1)]] by blast
  show val: "mask_Valid (ec_reasons c)" using c er(2) by (simp add: Let_def)
  show "ec_positive c \<or> ec_negative c \<or> ec_reasons c \<noteq> 0"
  proof (cases "ev_States (b_Evidence b) ! er = ep_State pr")
    case True
    then show ?thesis using c er(2) by (auto simp: Let_def ReasonBit_def)
  next
    case False
    then have "sr \<noteq> 0 \<Longrightarrow> mask_Has (ec_reasons c) sr" using c er(2) by (simp add: Let_def is_reason_def)
    then show ?thesis using False c er(2) mask_nonzero_iff[OF val] by (auto simp: Let_def)
  qed
qed

lemma evidence_reasons_Has:
  assumes "validEvidenceBatch b p"
  shows "mask_Valid (evidence_reasons p b pr row)"
    and "mask_Has (evidence_reasons p b pr row) s \<longleftrightarrow> is_reason s \<and>
      ((\<exists>c \<in> set (row_classes p b pr row). mask_Has (ec_reasons c) s) \<or>
       (row_classes p b pr row = [] \<and> s = ReasonMissing) \<or>
       (evidence_truth p b pr row = (True, True) \<and> s = ReasonConflict))"
proof -
  let ?m = "fold (\<lambda>c m. m OR ec_reasons c) (row_classes p b pr row) 0"
  have m: "mask_Has ?m s \<longleftrightarrow> (\<exists>c \<in> set (row_classes p b pr row). mask_Has (ec_reasons c) s)" for s
    by (auto simp: mask_Has_iff fold_or_reasons)
  have "mask_Valid ?m" using row_class_cases(1)[OF assms] by (auto simp: mask_Valid_iff fold_or_reasons)
  then show "mask_Valid (evidence_reasons p b pr row)" by (simp add: evidence_reasons_def Let_def)
  show "mask_Has (evidence_reasons p b pr row) s \<longleftrightarrow> is_reason s \<and>
      ((\<exists>c \<in> set (row_classes p b pr row). mask_Has (ec_reasons c) s) \<or>
       (row_classes p b pr row = [] \<and> s = ReasonMissing) \<or>
       (evidence_truth p b pr row = (True, True) \<and> s = ReasonConflict))"
    by (auto simp: evidence_reasons_def Let_def m dest: mask_Has_is_reason)
qed

lemma evidence_unresolved:
  assumes "validEvidenceBatch b p" "\<not> tv_resolved (evidence_truth p b pr row)"
  shows "evidence_reasons p b pr row \<noteq> 0"
proof -
  let ?cs = "row_classes p b pr row"
  have "\<exists>s. mask_Has (evidence_reasons p b pr row) s"
  proof (cases "evidence_truth p b pr row = (True, True)")
    case True
    then show ?thesis unfolding evidence_reasons_Has(2)[OF assms(1)] by (intro exI[of _ ReasonConflict]) (simp add: is_reason_def)
  next
    case False
    then have un: "\<not> list_ex ec_positive ?cs" "\<not> list_ex ec_negative ?cs"
      using assms(2) by (auto simp: tv_resolved_def evidence_truth_def)
    show ?thesis
    proof (cases ?cs)
      case Nil
      then show ?thesis unfolding evidence_reasons_Has(2)[OF assms(1)] by (intro exI[of _ ReasonMissing]) (simp add: is_reason_def)
    next
      case (Cons c cs)
      then have c: "c \<in> set ?cs" by simp
      then have "ec_reasons c \<noteq> 0" using row_class_cases(2)[OF assms(1) c] un by (auto simp: list_ex_iff)
      then obtain s where "mask_Has (ec_reasons c) s" using mask_nonzero_iff[OF row_class_cases(1)[OF assms(1) c]] by blast
      then show ?thesis unfolding evidence_reasons_Has(2)[OF assms(1)] using c by (auto simp: mask_Has_iff)
    qed
  qed
  then show ?thesis using mask_nonzero_iff[OF evidence_reasons_Has(1)[OF assms(1)]] by blast
qed

end
