(* ===== verification/NR_Schedule.thy ===== *)
theory NR_Schedule
  imports NR_Evidence
begin

text \<open>
  The instruction schedule of \<^verbatim>\<open>internal/eval/executor.go\<close>: the executor's scratch, the slots of its
  truth and reason slabs, the reduction of instruction groups and the evaluation of one instruction.

  An executor refers to programs by address; \<open>H\<close> is the store of published programs. A slot is a
  window of a slab; reading it returns the words it holds and writing it replaces them, so operands
  that share the destination's slot see the writes in the order of the code.

  The reference semantics \<open>sem\<close> gives every instruction its truth value and its reason mask on one
  row, by recursion on the schedule and without slots. \<open>executeScheduleMode_sem\<close> shows that the
  slots hold it for every instruction whose slot has not been reused, for every execution mode and
  every backend that meets the contract of \<^verbatim>\<open>simdops\<close>.
\<close>

section \<open>The executor and its slots\<close>

record executor =
  ex_query :: "nat option"
  ex_program :: "nat option"
  ex_states :: evidence_states
  ex_valueRows :: "nat list"
  ex_truthWords :: "u64 scratch"
  ex_reasonWords :: "u64 scratch"
  ex_candidateWords :: "u64 scratch"
  ex_selectorValues :: "nat scratch"
  ex_selectorPresent :: "nat scratch"
  ex_compareMask :: "bool scratch"
  ex_factIndex :: fact_index

definition optionalExecutionColumn :: "nat \<Rightarrow> nat \<Rightarrow> bool" where
  "optionalExecutionColumn len rows \<longleftrightarrow> len = 0 \<or> len = rows"

definition executorRootFlags :: byte where
  "executorRootFlags = RootApplicability OR RootAssertion OR RootEvidence"

text \<open>One row of the schedule: flags, slots, source span, operand range and operand order.\<close>

definition valid_schedule_row :: "program \<Rightarrow> nat \<Rightarrow> bool" where
  "valid_schedule_row p row =
     (let op = p_Opcodes p ! row in
      if \<not> opcode_Valid op \<or> p_RootFlags p ! row AND NOT executorRootFlags \<noteq> 0 \<or>
         p_TruthSlots p ! row = 0 \<or> p_TruthSlots p ! row > p_TruthSlotCount p \<or>
         p_ReasonSlots p ! row = 0 \<or> p_ReasonSlots p ! row > p_ReasonSlotCount p \<or>
         p_InstructionNodes p ! row = 0 \<or> p_InstructionSourceStarts p ! row > p_InstructionSourceEnds p ! row
        then False
      else let start = p_OperandStarts p ! row; count = p_OperandCounts p ! row in
      if start + count > length (p_Operands p) then False
      else if \<not> (if op = OpcodeAll \<or> op = OpcodeAny then count \<ge> 2 else if op = OpcodeNot then count = 1 else count = 0)
        then False
      else list_all (\<lambda>operand. \<not> (operand = 0 \<or> operand \<ge> row + 1)) (take count (drop start (p_Operands p))))"

definition validExecutionSchedule :: "program \<Rightarrow> bool" where
  "validExecutionSchedule p =
     (let n = length (p_Opcodes p) in
      if n = 0 \<or> n > MaxUint32 then False
      else if length (p_Fields p) \<noteq> n \<or> length (p_Values p) \<noteq> n \<or> length (p_ListStarts p) \<noteq> n \<or>
         length (p_ListCounts p) \<noteq> n \<or> length (p_OperandStarts p) \<noteq> n \<or> length (p_OperandCounts p) \<noteq> n \<or>
         length (p_EvidenceKinds p) \<noteq> n \<or> length (p_EvidenceStates p) \<noteq> n \<or>
         \<not> optionalExecutionColumn (length (p_EvidenceSubjects p)) n \<or>
         \<not> optionalExecutionColumn (length (p_EvidenceScopes p)) n \<or>
         \<not> optionalExecutionColumn (length (p_EvidenceTimings p)) n \<or>
         length (p_RootFlags p) \<noteq> n \<or> length (p_TruthSlots p) \<noteq> n \<or> length (p_ReasonSlots p) \<noteq> n \<or>
         length (p_InstructionNodes p) \<noteq> n \<or> length (p_InstructionSourceStarts p) \<noteq> n \<or>
         length (p_InstructionSourceEnds p) \<noteq> n \<or> p_TruthSlotCount p = 0 \<or> p_ReasonSlotCount p = 0 then False
      else list_all (valid_schedule_row p) [0..<n])"

definition evidenceQualifier :: "nat list \<Rightarrow> nat \<Rightarrow> nat res" where
  "evidenceQualifier column row = (if length column = 0 then Ok 0 else idx column row)"

definition truthSlot :: "(nat \<Rightarrow> program) \<Rightarrow> executor \<Rightarrow> nat \<Rightarrow> nat \<Rightarrow> planes res" where
  "truthSlot H e slot rows =
     (let words = word_count rows; ws = scratch_view (ex_truthWords e) in
      case ex_program e of None \<Rightarrow> Panic ''eval: invalid truth slot''
      | Some a \<Rightarrow>
        if slot = 0 \<or> slot > p_TruthSlotCount (H a) then Panic ''eval: invalid truth slot''
        else let start = (slot - 1) * 2 * words; middle = start + words; end = middle + words in
        if end > length ws then Panic ''eval: invalid truth scratch''
        else Ok \<lparr>pl_Positive = take words (drop start ws), pl_Negative = take words (drop middle ws)\<rparr>)"

definition reasonSlot :: "(nat \<Rightarrow> program) \<Rightarrow> executor \<Rightarrow> nat \<Rightarrow> nat \<Rightarrow> u64 list res" where
  "reasonSlot H e slot rows =
     (let words = word_count rows; ws = scratch_view (ex_reasonWords e) in
      case ex_program e of None \<Rightarrow> Panic ''eval: invalid reason slot''
      | Some a \<Rightarrow>
        if slot = 0 \<or> slot > p_ReasonSlotCount (H a) then Panic ''eval: invalid reason slot''
        else let start = (slot - 1) * ReasonCount * words; end = start + ReasonCount * words in
        if end > length ws then Panic ''eval: invalid reason scratch''
        else Ok (take (ReasonCount * words) (drop start ws)))"

text \<open>Writing through the view of a slot.\<close>

definition store_truth :: "executor \<Rightarrow> nat \<Rightarrow> nat \<Rightarrow> planes \<Rightarrow> executor" where
  "store_truth e slot rows pl =
     e\<lparr>ex_truthWords := scratch_write (ex_truthWords e)
        (splice (scratch_view (ex_truthWords e)) ((slot - 1) * 2 * word_count rows) (pl_Positive pl @ pl_Negative pl))\<rparr>"

definition store_reasons :: "executor \<Rightarrow> nat \<Rightarrow> nat \<Rightarrow> u64 list \<Rightarrow> executor" where
  "store_reasons e slot rows rs =
     e\<lparr>ex_reasonWords := scratch_write (ex_reasonWords e)
        (splice (scratch_view (ex_reasonWords e)) ((slot - 1) * ReasonCount * word_count rows) rs)\<rparr>"

definition store_both :: "program \<Rightarrow> nat \<Rightarrow> nat \<Rightarrow> executor \<Rightarrow> planes \<times> u64 list \<Rightarrow> executor" where
  "store_both p row rows e out =
     store_reasons (store_truth e (p_TruthSlots p ! row) rows (fst out)) (p_ReasonSlots p ! row) rows (snd out)"

section \<open>Group reduction\<close>

definition simdTruthAnd :: "simd_backend \<Rightarrow> planes \<Rightarrow> planes \<Rightarrow> planes \<Rightarrow> nat \<Rightarrow> planes res" where
  "simdTruthAnd K dst l r rows =
     maskSIMDTruthTail \<lparr>pl_Positive = sb_AndWords K (pl_Positive dst) (pl_Positive l) (pl_Positive r),
       pl_Negative = sb_OrWords K (pl_Negative dst) (pl_Negative l) (pl_Negative r)\<rparr> rows"

definition simdTruthOr :: "simd_backend \<Rightarrow> planes \<Rightarrow> planes \<Rightarrow> planes \<Rightarrow> nat \<Rightarrow> planes res" where
  "simdTruthOr K dst l r rows =
     maskSIMDTruthTail \<lparr>pl_Positive = sb_OrWords K (pl_Positive dst) (pl_Positive l) (pl_Positive r),
       pl_Negative = sb_AndWords K (pl_Negative dst) (pl_Negative l) (pl_Negative r)\<rparr> rows"

definition simdReasonOr :: "simd_backend \<Rightarrow> u64 list \<Rightarrow> u64 list \<Rightarrow> u64 list \<Rightarrow> u64 list" where
  "simdReasonOr K dst l r = sb_OrWords K dst l r"

definition group_operands :: "program \<Rightarrow> nat \<Rightarrow> nat list res" where
  "group_operands p row =
     rbind (idx (p_OperandStarts p) row) (\<lambda>start.
     rbind (idx (p_OperandCounts p) row) (\<lambda>count. subslice (p_Operands p) start (start + count)))"

text \<open>The driver is the first operand that shares the destination's slot.\<close>

fun find_driver :: "nat list \<Rightarrow> nat \<Rightarrow> nat \<Rightarrow> nat list \<Rightarrow> nat option res" where
  "find_driver slots dstSlot i [] = Ok None"
| "find_driver slots dstSlot i (operand # operands) =
     rbind (idx1 slots operand) (\<lambda>slot.
       if slot = dstSlot then Ok (Some i) else find_driver slots dstSlot (i + 1) operands)"

definition combine_truth :: "simd_backend \<Rightarrow> execution_mode \<Rightarrow> opcode \<Rightarrow> planes \<Rightarrow> planes \<Rightarrow> nat \<Rightarrow> planes res" where
  "combine_truth K mode op dst src rows =
     (if op = OpcodeAll then
        (if useSIMDWords K mode (length (pl_Positive dst)) then simdTruthAnd K dst dst src rows else truth_And dst dst src rows)
      else
        (if useSIMDWords K mode (length (pl_Positive dst)) then simdTruthOr K dst dst src rows else truth_Or dst dst src rows))"

definition combine_reasons :: "simd_backend \<Rightarrow> execution_mode \<Rightarrow> u64 list \<Rightarrow> u64 list \<Rightarrow> u64 list res" where
  "combine_reasons K mode dst src =
     (if useSIMDWords K mode (length dst) then Ok (simdReasonOr K dst dst src)
      else res_mapM (\<lambda>word. rbind (idx src word) (\<lambda>s. Ok (dst ! word OR s))) [0..<length dst])"

text \<open>
  The reduction of both slabs: the driver's slot is the destination itself; without a driver the first
  operand is copied; every other operand is combined into the destination in order.
\<close>

definition reduce_group ::
  "nat list \<Rightarrow> ('e \<Rightarrow> nat \<Rightarrow> 'v res) \<Rightarrow> ('e \<Rightarrow> nat \<Rightarrow> 'v \<Rightarrow> 'e) \<Rightarrow> ('v \<Rightarrow> 'v \<Rightarrow> 'v res) \<Rightarrow> nat list \<Rightarrow> nat \<Rightarrow> 'e \<Rightarrow> 'e res" where
  "reduce_group slots rd store combine operands dstSlot e =
     rbind (find_driver slots dstSlot 0 operands) (\<lambda>found.
     rbind (case found of Some driver \<Rightarrow> Ok (driver, e)
            | None \<Rightarrow>
              rbind (idx operands 0) (\<lambda>operand.
              rbind (idx1 slots operand) (\<lambda>slot.
              rbind (rd e slot) (\<lambda>src. Ok (0, store e dstSlot src))))) (\<lambda>(driver, e1).
     res_foldM (\<lambda>(i, operand) e.
       if i = driver then Ok e
       else rbind (idx1 slots operand) (\<lambda>slot.
         rbind (rd e slot) (\<lambda>src.
         rbind (rd e dstSlot) (\<lambda>dst.
         rbind (combine dst src) (\<lambda>out. Ok (store e dstSlot out)))))) (enumerate 0 operands) e1))"

definition reduceTruthGroup ::
  "simd_backend \<Rightarrow> (nat \<Rightarrow> program) \<Rightarrow> executor \<Rightarrow> program \<Rightarrow> nat \<Rightarrow> opcode \<Rightarrow> nat \<Rightarrow> execution_mode \<Rightarrow> executor res" where
  "reduceTruthGroup K H e p row op rows mode =
     rbind (group_operands p row) (\<lambda>operands.
     rbind (idx (p_TruthSlots p) row) (\<lambda>dstSlot.
     reduce_group (p_TruthSlots p) (\<lambda>e slot. truthSlot H e slot rows) (\<lambda>e slot. store_truth e slot rows)
       (\<lambda>dst src. combine_truth K mode op dst src rows) operands dstSlot e))"

definition reduceReasonGroup ::
  "simd_backend \<Rightarrow> (nat \<Rightarrow> program) \<Rightarrow> executor \<Rightarrow> program \<Rightarrow> nat \<Rightarrow> nat \<Rightarrow> execution_mode \<Rightarrow> executor res" where
  "reduceReasonGroup K H e p row rows mode =
     rbind (group_operands p row) (\<lambda>operands.
     rbind (idx (p_ReasonSlots p) row) (\<lambda>dstSlot.
     reduce_group (p_ReasonSlots p) (\<lambda>e slot. reasonSlot H e slot rows) (\<lambda>e slot. store_reasons e slot rows)
       (\<lambda>dst src. combine_reasons K mode dst src) operands dstSlot e))"

section \<open>Instructions\<close>

definition evidence_query :: "program \<Rightarrow> nat \<Rightarrow> evidence_predicate res" where
  "evidence_query p row =
     rbind (idx (p_EvidenceKinds p) row) (\<lambda>kind.
     rbind (idx (p_EvidenceStates p) row) (\<lambda>state.
     rbind (evidenceQualifier (p_EvidenceSubjects p) row) (\<lambda>subject.
     rbind (evidenceQualifier (p_EvidenceScopes p) row) (\<lambda>scope.
     rbind (evidenceQualifier (p_EvidenceTimings p) row) (\<lambda>timing.
     Ok \<lparr>ep_Kind = kind, ep_State = state, ep_Subject = subject, ep_Scope = scope, ep_Timing = timing\<rparr>)))))"

definition eval_comparison ::
  "simd_backend \<Rightarrow> executor \<Rightarrow> planes \<Rightarrow> u64 list \<Rightarrow> batch \<Rightarrow> program \<Rightarrow> nat \<Rightarrow> execution_mode \<Rightarrow> (executor \<times> planes \<times> u64 list) res" where
  "eval_comparison K e dst reasons b p instruction mode =
     rbind (evalPredicateIndex K mode (ex_factIndex e) dst reasons b p instruction) (\<lambda>indexed.
     case indexed of Some out \<Rightarrow> Ok (e, out)
     | None \<Rightarrow>
       rbind (evalPredicateSIMD K mode (ex_compareMask e) dst reasons b p instruction) (\<lambda>vectorised.
       case vectorised of Some (planes, rs, msk) \<Rightarrow> Ok (e\<lparr>ex_compareMask := msk\<rparr>, planes, rs)
       | None \<Rightarrow> rbind (evalPredicate dst reasons b p instruction) (\<lambda>out. Ok (e, out))))"

definition executeInstructionMode ::
  "simd_backend \<Rightarrow> (nat \<Rightarrow> program) \<Rightarrow> executor \<Rightarrow> nat \<Rightarrow> batch \<Rightarrow> nat \<Rightarrow> execution_mode \<Rightarrow> executor res" where
  "executeInstructionMode K H e a b row mode =
     (let p = H a; op = p_Opcodes p ! row; instruction = row + 1; rows = b_Rows b in
      rbind (idx (p_TruthSlots p) row) (\<lambda>tslot.
      rbind (truthSlot H e tslot rows) (\<lambda>dstTruth.
      rbind (idx (p_ReasonSlots p) row) (\<lambda>rslot.
      rbind (reasonSlot H e rslot rows) (\<lambda>dstReasons.
      case op of
        OpcodeBoolean \<Rightarrow>
          rbind (idx (p_Values p) row) (\<lambda>vid.
          rbind (programPredicateValue p vid ValueKindBoolean) (\<lambda>v.
          rbind (truth_Set dstTruth (pv_boolean v) rows) (\<lambda>out.
          Ok (store_both p row rows e (out, replicate (length dstReasons) 0)))))
      | OpcodeDefined \<Rightarrow>
          rbind (evalPredicate dstTruth dstReasons b p instruction) (\<lambda>out. Ok (store_both p row rows e out))
      | OpcodeEvidence \<Rightarrow>
          rbind (evidence_query p row) (\<lambda>pr.
          rbind (evalEvidenceValidated dstTruth dstReasons b a p (ex_states e) pr) (\<lambda>out. Ok (store_both p row rows e out)))
      | OpcodeAll \<Rightarrow>
          rbind (reduceTruthGroup K H e p row op rows mode) (\<lambda>e1. reduceReasonGroup K H e1 p row rows mode)
      | OpcodeAny \<Rightarrow>
          rbind (reduceTruthGroup K H e p row op rows mode) (\<lambda>e1. reduceReasonGroup K H e1 p row rows mode)
      | OpcodeNot \<Rightarrow>
          rbind (idx (p_OperandStarts p) row) (\<lambda>start.
          rbind (idx (p_Operands p) start) (\<lambda>operand.
          rbind (idx1 (p_TruthSlots p) operand) (\<lambda>srcSlot.
          rbind (truthSlot H e srcSlot rows) (\<lambda>src.
          rbind (truth_Not dstTruth src rows) (\<lambda>out.
          let e1 = store_truth e tslot rows out in
          rbind (idx1 (p_ReasonSlots p) operand) (\<lambda>srcReasonSlot.
          rbind (reasonSlot H e1 srcReasonSlot rows) (\<lambda>srcReasons.
          Ok (if rslot \<noteq> srcReasonSlot then store_reasons e1 rslot rows srcReasons else e1))))))))
      | _ \<Rightarrow>
          if op \<in> {OpcodeEqual, OpcodeNotEqual, OpcodeIn, OpcodeExists, OpcodeLess, OpcodeLessEqual, OpcodeGreater, OpcodeGreaterEqual}
          then rbind (eval_comparison K e dstTruth dstReasons b p instruction mode) (\<lambda>(e1, out). Ok (store_both p row rows e1 out))
          else Panic ''eval: invalid execution opcode'')))))"

definition executeScheduleMode ::
  "simd_backend \<Rightarrow> (nat \<Rightarrow> program) \<Rightarrow> executor \<Rightarrow> nat \<Rightarrow> batch \<Rightarrow> execution_mode \<Rightarrow> executor res" where
  "executeScheduleMode K H e a b mode =
     res_foldM (\<lambda>row e. executeInstructionMode K H e a b row mode) [0..<length (p_Opcodes (H a))] e"

definition executeSchedule :: "simd_backend \<Rightarrow> (nat \<Rightarrow> program) \<Rightarrow> executor \<Rightarrow> nat \<Rightarrow> batch \<Rightarrow> executor res" where
  "executeSchedule K H e a b = executeScheduleMode K H e a b executionAuto"

section \<open>Reference semantics of the schedule\<close>

definition tv_all :: "tv list \<Rightarrow> tv" where
  "tv_all vs = (list_all fst vs, list_ex snd vs)"

definition tv_any :: "tv list \<Rightarrow> tv" where
  "tv_any vs = (list_ex fst vs, list_all snd vs)"

definition mask_union :: "u16 list \<Rightarrow> u16" where
  "mask_union ms = fold (\<lambda>m acc. acc OR m) ms 0"

definition operands :: "program \<Rightarrow> nat \<Rightarrow> nat list" where
  "operands p i = take (p_OperandCounts p ! i) (drop (p_OperandStarts p ! i) (p_Operands p))"

definition qualifier_at :: "nat list \<Rightarrow> nat \<Rightarrow> nat" where
  "qualifier_at column i = (if column = [] then 0 else column ! i)"

definition query_at :: "program \<Rightarrow> nat \<Rightarrow> evidence_predicate" where
  "query_at p i = \<lparr>ep_Kind = p_EvidenceKinds p ! i, ep_State = p_EvidenceStates p ! i,
     ep_Subject = qualifier_at (p_EvidenceSubjects p) i, ep_Scope = qualifier_at (p_EvidenceScopes p) i,
     ep_Timing = qualifier_at (p_EvidenceTimings p) i\<rparr>"

definition boolean_at :: "program \<Rightarrow> nat \<Rightarrow> bool" where
  "boolean_at p i = (case programPredicateValue p (p_Values p ! i) ValueKindBoolean of Ok v \<Rightarrow> pv_boolean v | _ \<Rightarrow> False)"

definition instr_value :: "program \<Rightarrow> batch \<Rightarrow> nat \<Rightarrow> nat \<Rightarrow> (tv \<times> u16) list \<Rightarrow> tv \<times> u16" where
  "instr_value p b row i prev =
     (let vs = map (\<lambda>operand. prev ! (operand - 1)) (operands p i) in
      case p_Opcodes p ! i of
        OpcodeBoolean \<Rightarrow> ((boolean_at p i, \<not> boolean_at p i), 0)
      | OpcodeEvidence \<Rightarrow> (evidence_truth p b (query_at p i) row, evidence_reasons p b (query_at p i) row)
      | OpcodeAll \<Rightarrow> (tv_all (map fst vs), mask_union (map snd vs))
      | OpcodeAny \<Rightarrow> (tv_any (map fst vs), mask_union (map snd vs))
      | OpcodeNot \<Rightarrow> (tv_not (fst (vs ! 0)), snd (vs ! 0))
      | _ \<Rightarrow> (leaf_truth p b i row, leaf_reasons p b i row))"

primrec sem_values :: "program \<Rightarrow> batch \<Rightarrow> nat \<Rightarrow> nat \<Rightarrow> (tv \<times> u16) list" where
  "sem_values p b row 0 = []"
| "sem_values p b row (Suc n) = (let prev = sem_values p b row n in prev @ [instr_value p b row n prev])"

definition sem :: "program \<Rightarrow> batch \<Rightarrow> nat \<Rightarrow> nat \<Rightarrow> tv \<times> u16" where
  "sem p b row i = sem_values p b row (i + 1) ! i"

lemma length_sem_values [simp]: "length (sem_values p b row n) = n"
  by (induction n) (simp_all add: Let_def)

lemma nth_sem_values: "i < n \<Longrightarrow> sem_values p b row n ! i = sem p b row i"
proof (induction n)
  case 0
  then show ?case by simp
next
  case (Suc n)
  then show ?case by (cases "i = n") (simp_all add: Let_def nth_append sem_def)
qed

lemma sem_unfold: "sem p b row i = instr_value p b row i (sem_values p b row i)"
  by (simp add: sem_def Let_def nth_append)

lemma bit_mask_union: "bit (mask_union ms) n \<longleftrightarrow> (\<exists>m \<in> set ms. bit m n)"
proof -
  have "bit (fold (\<lambda>m acc. acc OR m) ms a) n \<longleftrightarrow> bit a n \<or> (\<exists>m \<in> set ms. bit m n)" for a
    by (induction ms arbitrary: a) (auto simp: bit_or_iff)
  then show ?thesis by (simp add: mask_union_def)
qed

lemma mask_union_cong: "set xs = set ys \<Longrightarrow> mask_union xs = mask_union ys"
  by (rule bit_eqI) (simp add: bit_mask_union)

lemma mask_union_Cons: "mask_union (m # ms) = mask_union ms OR m"
  by (rule bit_eqI) (auto simp: bit_mask_union bit_or_iff)

lemma mask_union_single [simp]: "mask_union [m] = m"
  by (simp add: mask_union_def)

lemma mask_Has_union [simp]: "mask_Has (mask_union ms) s \<longleftrightarrow> (\<exists>m \<in> set ms. mask_Has m s)"
  by (auto simp: mask_Has_iff bit_mask_union)

lemma mask_Valid_union: "(\<forall>m \<in> set ms. mask_Valid m) \<Longrightarrow> mask_Valid (mask_union ms)"
  by (auto simp: mask_Valid_iff bit_mask_union)

text \<open>The values of the operands, under a checked schedule.\<close>

lemma schedule_columns:
  assumes "validExecutionSchedule p"
  defines "n \<equiv> length (p_Opcodes p)"
  shows "length (p_Fields p) = n" "length (p_Values p) = n" "length (p_ListStarts p) = n" "length (p_ListCounts p) = n"
    "length (p_OperandStarts p) = n" "length (p_OperandCounts p) = n" "length (p_EvidenceKinds p) = n"
    "length (p_EvidenceStates p) = n" "length (p_RootFlags p) = n" "length (p_TruthSlots p) = n" "length (p_ReasonSlots p) = n"
    "p_EvidenceSubjects p = [] \<or> length (p_EvidenceSubjects p) = n" "p_EvidenceScopes p = [] \<or> length (p_EvidenceScopes p) = n"
    "p_EvidenceTimings p = [] \<or> length (p_EvidenceTimings p) = n" "n \<noteq> 0" "predicate_columns p"
  using assms(1) unfolding n_def validExecutionSchedule_def optionalExecutionColumn_def predicate_columns_def
  by (auto simp: Let_def split: if_splits)

lemma schedule_row:
  assumes "validExecutionSchedule p" "i < length (p_Opcodes p)"
  shows "valid_schedule_row p i"
  using assms list_all_uptD unfolding validExecutionSchedule_def Let_def by (auto split: if_splits)

lemma schedule_slots:
  assumes "validExecutionSchedule p" "i < length (p_Opcodes p)"
  shows "p_TruthSlots p ! i \<noteq> 0" "p_TruthSlots p ! i \<le> p_TruthSlotCount p"
    "p_ReasonSlots p ! i \<noteq> 0" "p_ReasonSlots p ! i \<le> p_ReasonSlotCount p" "opcode_Valid (p_Opcodes p ! i)"
  using schedule_row[OF assms] unfolding valid_schedule_row_def Let_def by (auto split: if_splits)

lemma schedule_operands:
  assumes "validExecutionSchedule p" "i < length (p_Opcodes p)"
  shows "group_operands p i = Ok (operands p i)"
    and "operand \<in> set (operands p i) \<Longrightarrow> operand \<noteq> 0 \<and> operand \<le> i"
    and "length (operands p i) = p_OperandCounts p ! i"
    and "p_Opcodes p ! i \<in> {OpcodeAll, OpcodeAny} \<Longrightarrow> operands p i \<noteq> []"
    and "p_Opcodes p ! i = OpcodeNot \<Longrightarrow> p_OperandCounts p ! i = 1 \<and> p_OperandStarts p ! i < length (p_Operands p) \<and>
      operands p i = [p_Operands p ! (p_OperandStarts p ! i)]"
proof -
  let ?s = "p_OperandStarts p ! i" and ?c = "p_OperandCounts p ! i"
  have fit: "?s + ?c \<le> length (p_Operands p)"
    and cnt: "if p_Opcodes p ! i = OpcodeAll \<or> p_Opcodes p ! i = OpcodeAny then ?c \<ge> 2
      else if p_Opcodes p ! i = OpcodeNot then ?c = 1 else ?c = 0"
    and ord: "list_all (\<lambda>operand. \<not> (operand = 0 \<or> operand \<ge> i + 1)) (operands p i)"
    using schedule_row[OF assms] unfolding valid_schedule_row_def Let_def operands_def by (auto split: if_splits)
  show "group_operands p i = Ok (operands p i)"
    using fit assms schedule_columns[OF assms(1)] by (simp add: group_operands_def operands_def)
  show "operand \<in> set (operands p i) \<Longrightarrow> operand \<noteq> 0 \<and> operand \<le> i" using ord by (auto simp: list_all_iff)
  show len: "length (operands p i) = ?c" using fit by (simp add: operands_def)
  show "p_Opcodes p ! i \<in> {OpcodeAll, OpcodeAny} \<Longrightarrow> operands p i \<noteq> []" using cnt len by auto
  show "p_OperandCounts p ! i = 1 \<and> ?s < length (p_Operands p) \<and> operands p i = [p_Operands p ! ?s]" if "p_Opcodes p ! i = OpcodeNot"
    using cnt fit that by (auto simp: operands_def take_Suc_conv_app_nth)
qed

lemma sem_operands:
  assumes "validExecutionSchedule p" "i < length (p_Opcodes p)"
  shows "map (\<lambda>operand. sem_values p b row i ! (operand - 1)) (operands p i) =
    map (\<lambda>operand. sem p b row (operand - 1)) (operands p i)"
proof (rule map_cong[OF refl])
  fix operand assume "operand \<in> set (operands p i)"
  then have "operand - 1 < i" using schedule_operands(2)[OF assms] by fastforce
  then show "sem_values p b row i ! (operand - 1) = sem p b row (operand - 1)" by (rule nth_sem_values)
qed

section \<open>Slots as a memory\<close>

lemma find_driver_cases:
  assumes "\<forall>x \<in> set os. x \<noteq> 0 \<and> x \<le> length slots"
  shows "(find_driver slots d i os = Ok None \<and> (\<forall>x \<in> set os. slots ! (x - 1) \<noteq> d)) \<or>
    (\<exists>k < length os. find_driver slots d i os = Ok (Some (i + k)) \<and> slots ! (os ! k - 1) = d)"
  using assms
proof (induction os arbitrary: i)
  case Nil
  then show ?case by simp
next
  case (Cons x os)
  show ?case
  proof (cases "slots ! (x - 1) = d")
    case True
    then show ?thesis using Cons.prems by (intro disjI2 exI[of _ 0]) simp
  next
    case False
    then have f: "find_driver slots d i (x # os) = find_driver slots d (i + 1) os" using Cons.prems by simp
    have "(find_driver slots d (i + 1) os = Ok None \<and> (\<forall>x \<in> set os. slots ! (x - 1) \<noteq> d)) \<or>
      (\<exists>k < length os. find_driver slots d (i + 1) os = Ok (Some (i + 1 + k)) \<and> slots ! (os ! k - 1) = d)"
      using Cons.prems by (intro Cons.IH) simp
    then show ?thesis
    proof
      assume "find_driver slots d (i + 1) os = Ok None \<and> (\<forall>x \<in> set os. slots ! (x - 1) \<noteq> d)"
      then show ?thesis using False f by simp
    next
      assume "\<exists>k < length os. find_driver slots d (i + 1) os = Ok (Some (i + 1 + k)) \<and> slots ! (os ! k - 1) = d"
      then obtain k where "k < length os" "find_driver slots d (i + 1) os = Ok (Some (i + 1 + k))" "slots ! (os ! k - 1) = d" by blast
      then show ?thesis using f by (intro disjI2 exI[of _ "Suc k"]) simp
    qed
  qed
qed

lemma enumerate_driver: "\<forall>x. (k, x) \<in> set (enumerate 0 os) \<longrightarrow> x = os ! k"
  by (auto simp: in_set_enumerate_eq)

text \<open>
  The interface of a slot slab: reading a slot returns its view, a store replaces one view, keeps the
  others and everything else (\<open>keep\<close>). \<open>reduce_group_joins\<close> shows that the group reduction leaves the
  join of its operands in the destination, whichever operand shares the destination's slot.
\<close>

locale slot_memory =
  fixes ok :: "'e \<Rightarrow> bool" and slots :: "nat set" and rd :: "'e \<Rightarrow> nat \<Rightarrow> 'v res" and view :: "'e \<Rightarrow> nat \<Rightarrow> 'v"
    and store :: "'e \<Rightarrow> nat \<Rightarrow> 'v \<Rightarrow> 'e" and good :: "'v \<Rightarrow> bool" and keep :: "'e \<Rightarrow> 'k"
  assumes rd_view: "ok e \<Longrightarrow> s \<in> slots \<Longrightarrow> rd e s = Ok (view e s)"
    and store_ok: "ok e \<Longrightarrow> s \<in> slots \<Longrightarrow> good v \<Longrightarrow> ok (store e s v)"
    and view_good: "ok e \<Longrightarrow> s \<in> slots \<Longrightarrow> good (view e s)"
    and view_store: "ok e \<Longrightarrow> s \<in> slots \<Longrightarrow> s' \<in> slots \<Longrightarrow> good v \<Longrightarrow>
      view (store e s v) s' = (if s' = s then v else view e s')"
    and keep_store: "keep (store e s v) = keep e"
begin

lemma fold_operands:
  assumes step: "\<forall>e i x. ok e \<longrightarrow> x \<in> set os \<longrightarrow>
      f (i, x) e = Ok (if i = driver then e else store e d (cmb (view e d) (view e (slot x))))"
    and cmb: "\<forall>v w. good v \<longrightarrow> good w \<longrightarrow> good (cmb v w)"
    and J: "\<forall>xs x. xs \<noteq> [] \<longrightarrow> cmb (J xs) (V x) = J (x # xs)" "\<forall>xs. xs \<noteq> [] \<longrightarrow> cmb (J xs) (J xs) = J xs"
      "\<forall>xs ys. set xs = set ys \<longrightarrow> J xs = J ys"
    and slots: "d \<in> slots" "\<forall>x \<in> set os. slot x \<in> slots"
    and ops: "\<forall>x \<in> set os. slot x \<noteq> d \<longrightarrow> view e0 (slot x) = V x" "\<forall>x \<in> set os. slot x = d \<longrightarrow> x = x0"
    and driver: "\<forall>x. (driver, x) \<in> set (enumerate n os) \<longrightarrow> x = x0"
    and start: "ok e" "view e d = J acc" "x0 \<in> set acc" "\<forall>s \<in> slots - {d}. view e s = view e0 s" "keep e = keep e0"
  shows "\<exists>e'. res_foldM f (enumerate n os) e = Ok e' \<and> ok e' \<and> view e' d = J (os @ acc) \<and>
    (\<forall>s \<in> slots - {d}. view e' s = view e0 s) \<and> keep e' = keep e0"
  using step slots(2) ops driver start
proof (induction os arbitrary: n e acc)
  case Nil
  then show ?case by simp
next
  case (Cons x os)
  let ?e = "if n = driver then e else store e d (cmb (view e d) (view e (slot x)))"
  have x: "slot x \<in> slots" using Cons.prems(2) by simp
  have f: "f (n, x) e = Ok ?e" using Cons.prems(1,6) by simp
  have acc: "acc \<noteq> []" using Cons.prems(8) by auto
  have g: "good (cmb (view e d) (view e (slot x)))"
    using cmb view_good[OF Cons.prems(6) slots(1)] view_good[OF Cons.prems(6) x] by simp
  have ok: "ok ?e" using Cons.prems(6) store_ok[OF _ slots(1) g] by simp
  have same: "J (x # acc) = J acc" if "x = x0" using that Cons.prems(8) J(3) by (metis insert_absorb list.simps(15))
  have d: "view ?e d = J (x # acc)"
  proof (cases "n = driver")
    case True
    then have "x = x0" using Cons.prems(5) by simp
    then show ?thesis using True same Cons.prems(7) by simp
  next
    case False
    show ?thesis
    proof (cases "slot x = d")
      case True
      then have "x = x0" using Cons.prems(4) by simp
      then show ?thesis using False True same J(2) acc Cons.prems(6,7) view_store[OF _ slots(1) slots(1) g] by simp
    next
      case sd: False
      then have "view e (slot x) = V x" using Cons.prems(3,9) x by simp
      then show ?thesis using False J(1) acc Cons.prems(6,7) view_store[OF _ slots(1) slots(1) g] by simp
    qed
  qed
  have o': "\<forall>s \<in> slots - {d}. view ?e s = view e0 s"
    using Cons.prems(6,9) view_store[OF _ slots(1) _ g] by simp
  have k: "keep ?e = keep e0" using Cons.prems(10) keep_store by simp
  have dr: "\<forall>x. (driver, x) \<in> set (enumerate (Suc n) os) \<longrightarrow> x = x0" using Cons.prems(5) by simp
  obtain e' where e': "res_foldM f (enumerate (Suc n) os) ?e = Ok e'" "ok e'" "view e' d = J (os @ x # acc)"
      "\<forall>s \<in> slots - {d}. view e' s = view e0 s" "keep e' = keep e0"
    using Cons.IH[OF _ _ _ _ dr ok d _ o' k] Cons.prems(1-4,8) by auto
  moreover have "J (os @ x # acc) = J ((x # os) @ acc)" using J(3) by simp
  ultimately show ?case using f by simp
qed

lemma reduce_group_joins:
  assumes cmb: "\<forall>v w. good v \<longrightarrow> good w \<longrightarrow> combine v w = Ok (cmb v w) \<and> good (cmb v w)"
    and J: "\<forall>xs x. xs \<noteq> [] \<longrightarrow> cmb (J xs) (V x) = J (x # xs)" "\<forall>xs. xs \<noteq> [] \<longrightarrow> cmb (J xs) (J xs) = J xs"
      "\<forall>xs ys. set xs = set ys \<longrightarrow> J xs = J ys" "\<forall>x. J [x] = V x"
    and os: "os \<noteq> []" "\<forall>x \<in> set os. x \<noteq> 0 \<and> x \<le> length col \<and> col ! (x - 1) \<in> slots" "d \<in> slots"
    and vals: "\<forall>x \<in> set os. view e (col ! (x - 1)) = V x"
    and inj: "\<forall>x \<in> set os. \<forall>y \<in> set os. col ! (x - 1) = col ! (y - 1) \<longrightarrow> x = y" and ok: "ok e"
  shows "\<exists>e'. reduce_group col rd store combine os d e = Ok e' \<and> ok e' \<and> view e' d = J os \<and>
    (\<forall>s \<in> slots - {d}. view e' s = view e s) \<and> keep e' = keep e"
proof -
  define slot where "slot x = col ! (x - 1)" for x
  define f where "f driver = (\<lambda>(i, operand) e. if i = driver then Ok e else rbind (idx1 col operand) (\<lambda>slot. rbind (rd e slot) (\<lambda>src.
         rbind (rd e d) (\<lambda>dst. rbind (combine dst src) (\<lambda>out. Ok (store e d out))))))" for driver :: nat
  have sl: "\<forall>x \<in> set os. slot x \<in> slots" and i1: "idx1 col x = Ok (slot x)" if "x \<in> set os" for x
    using os(2) that by (auto simp: slot_def)
  have step: "\<forall>e i x. ok e \<longrightarrow> x \<in> set os \<longrightarrow>
      f driver (i, x) e = Ok (if i = driver then e else store e d (cmb (view e d) (view e (slot x))))" for driver
    using i1 sl rd_view view_good os(3) cmb by (simp add: f_def)
  have cg: "\<forall>v w. good v \<longrightarrow> good w \<longrightarrow> good (cmb v w)" using cmb by blast
  have fin: "J (os @ [x]) = J os" if "x \<in> set os" for x using J(3) that by (metis Un_insert_right insert_absorb list.simps(15) set_append sup_bot_right empty_set)
  have sl': "\<forall>x \<in> set os. slot x \<in> slots" using os(2) by (simp add: slot_def)
  have ops: "\<forall>x \<in> set os. slot x \<noteq> d \<longrightarrow> view e (slot x) = V x" using vals by (simp add: slot_def)
  note fold = fold_operands[where f = "f k" and driver = k for k, OF step cg J(1-3) os(3) sl' ops]
  have unf: "reduce_group col rd store combine os d e = rbind (find_driver col d 0 os) (\<lambda>found.
     rbind (case found of Some driver \<Rightarrow> Ok (driver, e) | None \<Rightarrow>
        rbind (idx os 0) (\<lambda>operand. rbind (idx1 col operand) (\<lambda>slot. rbind (rd e slot) (\<lambda>src. Ok (0, store e d src)))))
     (\<lambda>(driver, e1). res_foldM (f driver) (enumerate 0 os) e1))" by (simp add: reduce_group_def f_def)
  consider "find_driver col d 0 os = Ok None" "\<forall>x \<in> set os. slot x \<noteq> d"
    | k where "k < length os" "find_driver col d 0 os = Ok (Some k)" "slot (os ! k) = d"
    using find_driver_cases[of os col d 0] os(2) unfolding slot_def by fastforce
  then show ?thesis
  proof cases
    case 1
    have x0: "os ! 0 \<in> set os" using os(1) by simp
    have v0: "view e (slot (os ! 0)) = V (os ! 0)" "good (V (os ! 0))"
      using vals x0 view_good[OF ok] sl' by (auto simp: slot_def) (metis slot_def)
    let ?e = "store e d (V (os ! 0))"
    have e: "ok ?e" "view ?e d = J [os ! 0]" "\<forall>s \<in> slots - {d}. view ?e s = view e s"
      using store_ok[OF ok os(3) v0(2)] view_store[OF ok os(3) _ v0(2)] os(3) J(4) by auto
    obtain e' where e': "res_foldM (f 0) (enumerate 0 os) ?e = Ok e'" "ok e'" "view e' d = J (os @ [os ! 0])"
        "\<forall>s \<in> slots - {d}. view e' s = view e s" "keep e' = keep e"
      using fold[OF _ enumerate_driver[of 0 os] e(1,2) _ e(3) keep_store] 1(2) by auto
    then show ?thesis using 1(1) os(1) i1[OF x0] rd_view[OF ok, of "slot (os ! 0)"] sl' x0 v0 fin[OF x0] unfolding unf by simp
  next
    case 2
    have x0: "os ! k \<in> set os" using 2 by simp
    have vk: "view e d = J [os ! k]" using vals x0 2(3) J(4) by (auto simp: slot_def)
    have dr: "\<forall>x \<in> set os. slot x = d \<longrightarrow> x = os ! k" using inj x0 2(3) by (auto simp: slot_def)
    obtain e' where e': "res_foldM (f k) (enumerate 0 os) e = Ok e'" "ok e'" "view e' d = J (os @ [os ! k])"
        "\<forall>s \<in> slots - {d}. view e' s = view e s" "keep e' = keep e"
      using fold[OF dr enumerate_driver[of k os] ok vk] by auto
    then show ?thesis using 2(2) fin[OF x0] unfolding unf by simp
  qed
qed

end

section \<open>The truth and reason slabs\<close>

definition truth_view :: "executor \<Rightarrow> nat \<Rightarrow> nat \<Rightarrow> planes" where
  "truth_view e rows slot =
     (let blk = block (scratch_view (ex_truthWords e)) (2 * word_count rows) (slot - 1) in
      \<lparr>pl_Positive = take (word_count rows) blk, pl_Negative = drop (word_count rows) blk\<rparr>)"

definition reason_view :: "executor \<Rightarrow> nat \<Rightarrow> nat \<Rightarrow> u64 list" where
  "reason_view e rows slot = block (scratch_view (ex_reasonWords e)) (ReasonCount * word_count rows) (slot - 1)"

definition scratch_fits :: "'a scratch \<Rightarrow> nat \<Rightarrow> bool" where
  "scratch_fits s n \<longleftrightarrow> sl_len s = n \<and> n \<le> length (sl_array s)"

definition ready :: "(nat \<Rightarrow> program) \<Rightarrow> nat \<Rightarrow> nat \<Rightarrow> executor \<Rightarrow> bool" where
  "ready H a rows e \<longleftrightarrow> ex_program e = Some a \<and>
     scratch_fits (ex_truthWords e) (p_TruthSlotCount (H a) * (2 * word_count rows)) \<and>
     scratch_fits (ex_reasonWords e) (p_ReasonSlotCount (H a) * (ReasonCount * word_count rows))"

text \<open>What an instruction leaves alone.\<close>

definition frame :: "executor \<Rightarrow> executor" where
  "frame e = e\<lparr>ex_truthWords := \<lparr>sl_array = [], sl_len = 0\<rparr>, ex_reasonWords := \<lparr>sl_array = [], sl_len = 0\<rparr>,
     ex_compareMask := \<lparr>sl_array = [], sl_len = 0\<rparr>\<rparr>"

lemma length_scratch_view: "scratch_fits s n \<Longrightarrow> length (scratch_view s) = n"
  by (simp add: scratch_fits_def scratch_view_def)

lemma scratch_write_fits: "scratch_fits s n \<Longrightarrow> length xs = n \<Longrightarrow> scratch_fits (scratch_write s xs) n"
  by (simp add: scratch_fits_def scratch_write_def)

lemma scratch_view_write: "scratch_fits s n \<Longrightarrow> length xs = n \<Longrightarrow> scratch_view (scratch_write s xs) = xs"
  by (simp add: scratch_fits_def scratch_write_def scratch_view_def)

lemma resize_fits [simp]: "scratch_fits (resizeExecutorScratch z s n) n"
  by (simp add: scratch_fits_def resizeExecutorScratch_def)

lemma frame_stores [simp]:
  "frame (store_truth e s rows pl) = frame e" "frame (store_reasons e s rows rs) = frame e"
  "frame (e\<lparr>ex_compareMask := msk\<rparr>) = frame e"
  by (simp_all add: frame_def store_truth_def store_reasons_def)

lemma view_stores [simp]:
  "reason_view (store_truth e s rows pl) = reason_view e" "truth_view (store_reasons e s rows rs) = truth_view e"
  "reason_view (e\<lparr>ex_compareMask := msk\<rparr>) = reason_view e" "truth_view (e\<lparr>ex_compareMask := msk\<rparr>) = truth_view e"
  by (simp_all add: fun_eq_iff truth_view_def reason_view_def store_truth_def store_reasons_def)

lemma frame_fields:
  assumes "frame e' = frame e"
  shows "ex_query e' = ex_query e" "ex_program e' = ex_program e" "ex_states e' = ex_states e" "ex_factIndex e' = ex_factIndex e"
    "ex_valueRows e' = ex_valueRows e" "ex_candidateWords e' = ex_candidateWords e" "ex_selectorValues e' = ex_selectorValues e"
    "ex_selectorPresent e' = ex_selectorPresent e"
  using assms by (cases e; cases e'; simp add: frame_def)+

lemma block_split: "take n (drop (b * 2 * n) ws) = take n (block ws (2 * n) b)"
  "take n (drop (b * 2 * n + n) ws) = drop n (block ws (2 * n) b)"
  by (simp_all add: block_def take_drop min_def add.commute mult.assoc)

lemma ready_lengths:
  assumes "ready H a rows e"
  shows "length (scratch_view (ex_truthWords e)) = p_TruthSlotCount (H a) * (2 * word_count rows)"
    and "length (scratch_view (ex_reasonWords e)) = p_ReasonSlotCount (H a) * (ReasonCount * word_count rows)"
  using assms by (auto simp: ready_def dest: length_scratch_view)

lemma truthSlot_view:
  assumes "ready H a rows e" "slot \<noteq> 0" "slot \<le> p_TruthSlotCount (H a)"
  shows "truthSlot H e slot rows = Ok (truth_view e rows slot)"
proof -
  have "slot - 1 < p_TruthSlotCount (H a)" using assms by linarith
  then have "(slot - 1) * 2 * word_count rows + word_count rows + word_count rows \<le> length (scratch_view (ex_truthWords e))"
    using block_bound[of "slot - 1" "p_TruthSlotCount (H a)" "2 * word_count rows"]
    by (simp add: ready_lengths[OF assms(1)] mult.assoc)
  then show ?thesis using assms by (simp add: truthSlot_def ready_def truth_view_def block_split Let_def)
qed

lemma reasonSlot_view:
  assumes "ready H a rows e" "slot \<noteq> 0" "slot \<le> p_ReasonSlotCount (H a)"
  shows "reasonSlot H e slot rows = Ok (reason_view e rows slot)"
proof -
  have "slot - 1 < p_ReasonSlotCount (H a)" using assms by linarith
  then have "(slot - 1) * ReasonCount * word_count rows + ReasonCount * word_count rows \<le> length (scratch_view (ex_reasonWords e))"
    using block_bound[of "slot - 1" "p_ReasonSlotCount (H a)" "ReasonCount * word_count rows"]
    by (simp add: ready_lengths[OF assms(1)] mult.assoc)
  then show ?thesis using assms by (simp add: reasonSlot_def ready_def reason_view_def block_def Let_def mult.assoc)
qed

lemma slab_store:
  assumes "scratch_fits s (nb * n)" "b < nb" "length ys = n"
  defines "s' \<equiv> scratch_write s (splice (scratch_view s) (b * n) ys)"
  shows "scratch_fits s' (nb * n)"
    and "b' < nb \<Longrightarrow> block (scratch_view s') n b' = (if b' = b then ys else block (scratch_view s) n b')"
proof -
  have l: "length (scratch_view s) = nb * n" by (rule length_scratch_view[OF assms(1)])
  then have l': "length (splice (scratch_view s) (b * n) ys) = nb * n"
    using block_bound[OF assms(2), of n] assms(3) by simp
  show "scratch_fits s' (nb * n)" unfolding s'_def by (rule scratch_write_fits[OF assms(1) l'])
  show "b' < nb \<Longrightarrow> block (scratch_view s') n b' = (if b' = b then ys else block (scratch_view s) n b')"
    unfolding s'_def scratch_view_write[OF assms(1) l'] using block_splice[OF l assms(2) _ assms(3)] by simp
qed

lemma slot_index: "(slot :: nat) \<in> {1..n} \<Longrightarrow> slot - 1 < n" "(slot :: nat) \<in> {1..n} \<Longrightarrow> slot' \<in> {1..n} \<Longrightarrow> slot - 1 = slot' - 1 \<longleftrightarrow> slot = slot'"
  by auto

lemma store_truth_ready:
  assumes "ready H a rows e" "slot \<in> {1..p_TruthSlotCount (H a)}" "has_shape (word_count rows) pl"
  shows "ready H a rows (store_truth e slot rows pl)"
    and "slot' \<in> {1..p_TruthSlotCount (H a)} \<Longrightarrow>
      truth_view (store_truth e slot rows pl) rows slot' = (if slot' = slot then pl else truth_view e rows slot')"
    and "reason_view (store_truth e slot rows pl) rows s = reason_view e rows s"
proof -
  let ?w = "word_count rows"
  have f: "scratch_fits (ex_truthWords e) (p_TruthSlotCount (H a) * (2 * ?w))" using assms(1) by (simp add: ready_def)
  have l: "length (pl_Positive pl @ pl_Negative pl) = 2 * ?w" using assms(3) by (simp add: has_shape_def)
  note st = slab_store[OF f slot_index(1)[OF assms(2)] l, unfolded mult.assoc[symmetric]]
  show "ready H a rows (store_truth e slot rows pl)"
    using assms(1) st(1) by (simp add: ready_def store_truth_def mult.assoc)
  show "reason_view (store_truth e slot rows pl) rows s = reason_view e rows s" by (simp add: reason_view_def store_truth_def)
  assume s': "slot' \<in> {1..p_TruthSlotCount (H a)}"
  show "truth_view (store_truth e slot rows pl) rows slot' = (if slot' = slot then pl else truth_view e rows slot')"
    using st(2)[OF slot_index(1)[OF s']] slot_index(2)[OF s' assms(2)] assms(3)
    by (auto simp: truth_view_def store_truth_def has_shape_def Let_def mult.assoc)
qed

lemma store_reasons_ready:
  assumes "ready H a rows e" "slot \<in> {1..p_ReasonSlotCount (H a)}" "length rs = ReasonCount * word_count rows"
  shows "ready H a rows (store_reasons e slot rows rs)"
    and "slot' \<in> {1..p_ReasonSlotCount (H a)} \<Longrightarrow>
      reason_view (store_reasons e slot rows rs) rows slot' = (if slot' = slot then rs else reason_view e rows slot')"
    and "truth_view (store_reasons e slot rows rs) rows s = truth_view e rows s"
proof -
  let ?w = "word_count rows"
  have f: "scratch_fits (ex_reasonWords e) (p_ReasonSlotCount (H a) * (ReasonCount * ?w))" using assms(1) by (simp add: ready_def)
  note st = slab_store[OF f slot_index(1)[OF assms(2)] assms(3), unfolded mult.assoc[symmetric]]
  show "ready H a rows (store_reasons e slot rows rs)"
    using assms(1) st(1) by (simp add: ready_def store_reasons_def mult.assoc)
  show "truth_view (store_reasons e slot rows rs) rows s = truth_view e rows s" by (simp add: truth_view_def store_reasons_def)
  assume s': "slot' \<in> {1..p_ReasonSlotCount (H a)}"
  show "reason_view (store_reasons e slot rows rs) rows slot' = (if slot' = slot then rs else reason_view e rows slot')"
    using st(2)[OF slot_index(1)[OF s']] slot_index(2)[OF s' assms(2)]
    by (auto simp: reason_view_def store_reasons_def mult.assoc)
qed

lemma view_shapes:
  assumes "ready H a rows e"
  shows "slot \<in> {1..p_TruthSlotCount (H a)} \<Longrightarrow> has_shape (word_count rows) (truth_view e rows slot)"
    and "slot \<in> {1..p_ReasonSlotCount (H a)} \<Longrightarrow> length (reason_view e rows slot) = ReasonCount * word_count rows"
proof -
  let ?w = "word_count rows"
  note l = ready_lengths[OF assms]
  show "slot \<in> {1..p_TruthSlotCount (H a)} \<Longrightarrow> has_shape ?w (truth_view e rows slot)"
    using length_block[OF l(1) slot_index(1)] by (simp add: has_shape_def truth_view_def Let_def)
  show "slot \<in> {1..p_ReasonSlotCount (H a)} \<Longrightarrow> length (reason_view e rows slot) = ReasonCount * ?w"
    using length_block[OF l(2) slot_index(1)] by (simp add: reason_view_def)
qed

interpretation truth_slots: slot_memory "ready H a rows" "{1..p_TruthSlotCount (H a)}" "\<lambda>e slot. truthSlot H e slot rows"
  "\<lambda>e. truth_view e rows" "\<lambda>e slot. store_truth e slot rows" "has_shape (word_count rows)" "\<lambda>e. (frame e, reason_view e)" for H a rows
  by unfold_locales (simp_all add: truthSlot_view store_truth_ready view_shapes)

interpretation reason_slots: slot_memory "ready H a rows" "{1..p_ReasonSlotCount (H a)}" "\<lambda>e slot. reasonSlot H e slot rows"
  "\<lambda>e. reason_view e rows" "\<lambda>e slot. store_reasons e slot rows" "\<lambda>rs. length rs = ReasonCount * word_count rows"
  "\<lambda>e. (frame e, truth_view e)" for H a rows
  by unfold_locales (simp_all add: reasonSlot_view store_reasons_ready view_shapes)

section \<open>Group reduction computes the group's value\<close>

definition group_tv :: "opcode \<Rightarrow> tv list \<Rightarrow> tv" where
  "group_tv op = (if op = OpcodeAll then tv_all else tv_any)"

definition group_op :: "opcode \<Rightarrow> tv \<Rightarrow> tv \<Rightarrow> tv" where
  "group_op op = (if op = OpcodeAll then tv_and else tv_or)"

lemma group_tv_laws:
  "vs \<noteq> [] \<Longrightarrow> group_op op (group_tv op vs) v = group_tv op (v # vs)"
  "group_op op (group_tv op vs) (group_tv op vs) = group_tv op vs"
  "set vs = set ws \<Longrightarrow> group_tv op vs = group_tv op ws" "group_tv op [v] = v"
  by (cases v; auto simp: group_op_def group_tv_def tv_all_def tv_any_def list_all_iff list_ex_iff)+

lemma group_operands_ok:
  assumes "validExecutionSchedule p" "i < length (p_Opcodes p)" "x \<in> set (operands p i)"
  shows "x \<noteq> 0" "x - 1 < i" "x \<le> length (p_TruthSlots p)" "x \<le> length (p_ReasonSlots p)"
    "p_TruthSlots p ! (x - 1) \<in> {1..p_TruthSlotCount p}" "p_ReasonSlots p ! (x - 1) \<in> {1..p_ReasonSlotCount p}"
proof -
  have x: "x \<noteq> 0" "x \<le> i" using schedule_operands(2)[OF assms] by auto
  then have n: "x - 1 < length (p_Opcodes p)" using assms(2) by linarith
  show "x \<noteq> 0" "x - 1 < i" using x by linarith+
  show "x \<le> length (p_TruthSlots p)" "x \<le> length (p_ReasonSlots p)"
    using x assms(2) schedule_columns(10,11)[OF assms(1)] by linarith+
  show "p_TruthSlots p ! (x - 1) \<in> {1..p_TruthSlotCount p}" "p_ReasonSlots p ! (x - 1) \<in> {1..p_ReasonSlotCount p}"
    using schedule_slots[OF assms(1) n] by auto
qed

context simd_contract begin

lemma simd_plane_op:
  assumes "has_shape (word_count rows) dst" "has_shape (word_count rows) l" "has_shape (word_count rows) r"
  shows "simdTruthAnd K dst l r rows = Ok (mk_planes rows (\<lambda>row. tv_and (truth_at l row) (truth_at r row)))"
    and "simdTruthOr K dst l r rows = Ok (mk_planes rows (\<lambda>row. tv_or (truth_at l row) (truth_at r row)))"
  unfolding simdTruthAnd_def simdTruthOr_def maskSIMDTruthTail_eq kernels
  by (rule maskTail_rows; use assms in \<open>simp add: has_shape_def truth_at_def wbit_words_ops\<close>)+

end

sublocale simd_contract \<subseteq> simdAnd: plane_binop "simdTruthAnd K" tv_and
  by unfold_locales (rule simd_plane_op)

sublocale simd_contract \<subseteq> simdOr: plane_binop "simdTruthOr K" tv_or
  by unfold_locales (rule simd_plane_op)

context simd_contract begin

lemma combine_truth_rows:
  assumes "has_shape (word_count rows) dst" "has_shape (word_count rows) src"
  shows "combine_truth K mode op dst src rows =
    Ok (mk_planes rows (\<lambda>r. group_op op (truth_at dst r) (truth_at src r)))"
  using assms by (simp add: group_op_def combine_truth_def simdAnd.bop_rows simdOr.bop_rows truthAnd.bop_rows truthOr.bop_rows)

lemma combine_reasons_rows:
  assumes "length dst = n" "length src = n"
  shows "combine_reasons K mode dst src = Ok (map (\<lambda>w. dst ! w OR src ! w) [0..<n])"
proof -
  have "res_mapM (\<lambda>word. rbind (idx src word) (\<lambda>s. Ok (dst ! word OR s))) [0..<length dst] =
      Ok (map (\<lambda>w. dst ! w OR src ! w) [0..<length dst])"
    using assms by (intro res_mapM_Ok) simp
  then show ?thesis using assms by (simp add: combine_reasons_def simdReasonOr_def kernels OrWords_def zip_prefix_full)
qed

lemma reduceTruthGroup_value:
  assumes s: "validExecutionSchedule (H a)" and i: "i < length (p_Opcodes (H a))"
    and op: "p_Opcodes (H a) ! i \<in> {OpcodeAll, OpcodeAny}" and r: "ready H a rows e"
    and vals: "\<forall>x \<in> set (operands (H a) i). truth_view e rows (p_TruthSlots (H a) ! (x - 1)) = mk_planes rows (v x)"
    and inj: "\<forall>x \<in> set (operands (H a) i). \<forall>y \<in> set (operands (H a) i).
      p_TruthSlots (H a) ! (x - 1) = p_TruthSlots (H a) ! (y - 1) \<longrightarrow> x = y"
  shows "\<exists>e'. reduceTruthGroup K H e (H a) i (p_Opcodes (H a) ! i) rows mode = Ok e' \<and> ready H a rows e' \<and> frame e' = frame e \<and>
    reason_view e' = reason_view e \<and>
    truth_view e' rows (p_TruthSlots (H a) ! i) = mk_planes rows (\<lambda>r. group_tv (p_Opcodes (H a) ! i) (map (\<lambda>x. v x r) (operands (H a) i))) \<and>
    (\<forall>slot \<in> {1..p_TruthSlotCount (H a)} - {p_TruthSlots (H a) ! i}. truth_view e' rows slot = truth_view e rows slot)"
proof -
  let ?p = "H a" and ?op = "p_Opcodes (H a) ! i" and ?os = "operands (H a) i"
  define cmb where "cmb l w = mk_planes rows (\<lambda>r. group_op ?op (truth_at l r) (truth_at w r))" for l w
  define J where "J xs = mk_planes rows (\<lambda>r. group_tv ?op (map (\<lambda>x. v x r) xs))" for xs
  have J1: "\<forall>xs x. xs \<noteq> [] \<longrightarrow> cmb (J xs) (mk_planes rows (v x)) = J (x # xs)" "\<forall>xs. xs \<noteq> [] \<longrightarrow> cmb (J xs) (J xs) = J xs"
    unfolding cmb_def J_def by (auto intro!: mk_planes_cong simp: group_tv_laws)
  have J2: "\<forall>xs ys. set xs = set ys \<longrightarrow> J xs = J ys"
    unfolding J_def by (auto intro!: mk_planes_cong group_tv_laws(3))
  have J3: "\<forall>x. J [x] = mk_planes rows (v x)" by (simp add: J_def group_tv_laws)
  have cmb: "\<forall>l w. has_shape (word_count rows) l \<longrightarrow> has_shape (word_count rows) w \<longrightarrow>
      combine_truth K mode ?op l w rows = Ok (cmb l w) \<and> has_shape (word_count rows) (cmb l w)"
    by (simp add: cmb_def combine_truth_rows)
  have os: "?os \<noteq> []" using schedule_operands(4)[OF s i op] .
  have col: "\<forall>x \<in> set ?os. x \<noteq> 0 \<and> x \<le> length (p_TruthSlots ?p) \<and> p_TruthSlots ?p ! (x - 1) \<in> {1..p_TruthSlotCount ?p}"
    using group_operands_ok[OF s i] by blast
  have d: "p_TruthSlots ?p ! i \<in> {1..p_TruthSlotCount ?p}" using schedule_slots[OF s i] by auto
  show ?thesis
    using truth_slots.reduce_group_joins[OF cmb J1 J2 J3 os col d vals inj r] i schedule_columns(10)[OF s]
      schedule_operands(1)[OF s i] by (auto simp: reduceTruthGroup_def J_def)
qed

lemma reduceReasonGroup_value:
  assumes s: "validExecutionSchedule (H a)" and i: "i < length (p_Opcodes (H a))"
    and op: "p_Opcodes (H a) ! i \<in> {OpcodeAll, OpcodeAny}" and r: "ready H a rows e"
    and vals: "\<forall>x \<in> set (operands (H a) i). reason_view e rows (p_ReasonSlots (H a) ! (x - 1)) = mk_reasons rows (m x)"
    and inj: "\<forall>x \<in> set (operands (H a) i). \<forall>y \<in> set (operands (H a) i).
      p_ReasonSlots (H a) ! (x - 1) = p_ReasonSlots (H a) ! (y - 1) \<longrightarrow> x = y"
  shows "\<exists>e'. reduceReasonGroup K H e (H a) i rows mode = Ok e' \<and> ready H a rows e' \<and> frame e' = frame e \<and>
    truth_view e' = truth_view e \<and>
    reason_view e' rows (p_ReasonSlots (H a) ! i) = mk_reasons rows (\<lambda>r. mask_union (map (\<lambda>x. m x r) (operands (H a) i))) \<and>
    (\<forall>slot \<in> {1..p_ReasonSlotCount (H a)} - {p_ReasonSlots (H a) ! i}. reason_view e' rows slot = reason_view e rows slot)"
proof -
  let ?p = "H a" and ?os = "operands (H a) i" and ?n = "ReasonCount * word_count rows"
  define cmb :: "u64 list \<Rightarrow> u64 list \<Rightarrow> u64 list" where "cmb l w = map (\<lambda>k. l ! k OR w ! k) [0..<?n]" for l w
  define J where "J xs = mk_reasons rows (\<lambda>r. mask_union (map (\<lambda>x. m x r) xs))" for xs
  have J1: "\<forall>xs x. xs \<noteq> [] \<longrightarrow> cmb (J xs) (mk_reasons rows (m x)) = J (x # xs)" "\<forall>xs. xs \<noteq> [] \<longrightarrow> cmb (J xs) (J xs) = J xs"
    unfolding cmb_def J_def mk_reasons_or by (simp_all add: mask_union_Cons)
  have J2: "\<forall>xs ys. set xs = set ys \<longrightarrow> J xs = J ys"
    unfolding J_def by (auto intro!: mk_reasons_cong mask_union_cong)
  have J3: "\<forall>x. J [x] = mk_reasons rows (m x)" by (simp add: J_def)
  have cmb: "\<forall>l w. length l = ?n \<longrightarrow> length w = ?n \<longrightarrow> combine_reasons K mode l w = Ok (cmb l w) \<and> length (cmb l w) = ?n"
    using combine_reasons_rows[where n = ?n] by (simp add: cmb_def)
  have os: "?os \<noteq> []" using schedule_operands(4)[OF s i op] .
  have col: "\<forall>x \<in> set ?os. x \<noteq> 0 \<and> x \<le> length (p_ReasonSlots ?p) \<and> p_ReasonSlots ?p ! (x - 1) \<in> {1..p_ReasonSlotCount ?p}"
    using group_operands_ok[OF s i] by blast
  have d: "p_ReasonSlots ?p ! i \<in> {1..p_ReasonSlotCount ?p}" using schedule_slots[OF s i] by auto
  show ?thesis
    using reason_slots.reduce_group_joins[OF cmb J1 J2 J3 os col d vals inj r] i schedule_columns(11)[OF s]
      schedule_operands(1)[OF s i] by (auto simp: reduceReasonGroup_def J_def)
qed

end

section \<open>One instruction\<close>

definition programUsesEvidence :: "program \<Rightarrow> bool" where
  "programUsesEvidence p = list_ex (\<lambda>op. op = OpcodeEvidence) (p_Opcodes p)"

text \<open>The static conditions on an instruction that the compiler guarantees and the schedule check does not repeat.\<close>

definition instr_ok :: "program \<Rightarrow> nat \<Rightarrow> bool" where
  "instr_ok p i =
     (case p_Opcodes p ! i of
        OpcodeBoolean \<Rightarrow> is_ok (programPredicateValue p (p_Values p ! i) ValueKindBoolean)
      | OpcodeEvidence \<Rightarrow> p_EvidenceKinds p ! i \<noteq> 0 \<and> p_EvidenceKinds p ! i \<le> length (p_EvidenceKindNames p) \<and>
          p_EvidenceStates p ! i \<noteq> 0 \<and> p_EvidenceStates p ! i \<le> length (p_EvidenceStateNames p)
      | OpcodeAll \<Rightarrow> True | OpcodeAny \<Rightarrow> True | OpcodeNot \<Rightarrow> True
      | _ \<Rightarrow> predicate_ok p i)"

definition instrs_ok :: "program \<Rightarrow> bool" where
  "instrs_ok p \<longleftrightarrow> validExecutionSchedule p \<and> list_all (instr_ok p) [0..<length (p_Opcodes p)]"

definition batch_ok :: "program \<Rightarrow> batch \<Rightarrow> bool" where
  "batch_ok p b \<longleftrightarrow> validExecutionBatchColumns p b \<and> (programUsesEvidence p \<longrightarrow> validEvidenceBatch b p)"

definition bound_to :: "(nat \<Rightarrow> program) \<Rightarrow> nat \<Rightarrow> batch \<Rightarrow> executor \<Rightarrow> bool" where
  "bound_to H a b e \<longleftrightarrow> es_program (ex_states e) = Some a \<and> es_reasons (ex_states e) = state_reasons (H a) \<and>
     facts_ok (ex_factIndex e) (H a) b"

text \<open>The effect of instruction \<open>i\<close>: its two slots hold its value on every row, the other slots are kept.\<close>

definition writes :: "(nat \<Rightarrow> program) \<Rightarrow> nat \<Rightarrow> batch \<Rightarrow> nat \<Rightarrow> executor \<Rightarrow> executor \<Rightarrow> bool" where
  "writes H a b i e e' \<longleftrightarrow> (let p = H a; rows = b_Rows b in
     ready H a rows e' \<and> frame e' = frame e \<and>
     truth_view e' rows (p_TruthSlots p ! i) = mk_planes rows (\<lambda>r. fst (sem p b r i)) \<and>
     reason_view e' rows (p_ReasonSlots p ! i) = mk_reasons rows (\<lambda>r. snd (sem p b r i)) \<and>
     (\<forall>slot \<in> {1..p_TruthSlotCount p} - {p_TruthSlots p ! i}. truth_view e' rows slot = truth_view e rows slot) \<and>
     (\<forall>slot \<in> {1..p_ReasonSlotCount p} - {p_ReasonSlots p ! i}. reason_view e' rows slot = reason_view e rows slot))"

lemma store_both_writes:
  assumes s: "validExecutionSchedule (H a)" and i: "i < length (p_Opcodes (H a))" and r: "ready H a (b_Rows b) e"
    and v: "\<forall>row. sem (H a) b row i = (t row, m row)"
  shows "writes H a b i e (store_both (H a) i (b_Rows b) e (mk_planes (b_Rows b) t, mk_reasons (b_Rows b) m))"
proof -
  let ?p = "H a" and ?rows = "b_Rows b"
  have sl: "p_TruthSlots ?p ! i \<in> {1..p_TruthSlotCount ?p}" "p_ReasonSlots ?p ! i \<in> {1..p_ReasonSlotCount ?p}"
    using schedule_slots[OF s i] by auto
  note t = store_truth_ready[OF r sl(1) mk_planes_shape[of ?rows t]]
  note m = store_reasons_ready[OF t(1) sl(2) length_mk_reasons[of ?rows m]]
  show ?thesis using t m sl v by (simp add: writes_def store_both_def Let_def)
qed

lemma slot_reads:
  assumes "validExecutionSchedule (H a)" "i < length (p_Opcodes (H a))" "ready H a rows e"
  shows "idx (p_TruthSlots (H a)) i = Ok (p_TruthSlots (H a) ! i)"
    "truthSlot H e (p_TruthSlots (H a) ! i) rows = Ok (truth_view e rows (p_TruthSlots (H a) ! i))"
    "idx (p_ReasonSlots (H a)) i = Ok (p_ReasonSlots (H a) ! i)"
    "reasonSlot H e (p_ReasonSlots (H a) ! i) rows = Ok (reason_view e rows (p_ReasonSlots (H a) ! i))"
  using assms schedule_columns[OF assms(1)] schedule_slots[OF assms(1,2)] truthSlot_view[OF assms(3)] reasonSlot_view[OF assms(3)]
  by simp_all

lemma writes_frame: "writes H a b i e1 e' \<Longrightarrow> frame e1 = frame e \<Longrightarrow> truth_view e1 = truth_view e \<Longrightarrow> reason_view e1 = reason_view e \<Longrightarrow>
  writes H a b i e e'"
  by (simp add: writes_def Let_def)

lemma sem_cases:
  assumes "validExecutionSchedule p" "i < length (p_Opcodes p)"
  shows "predicate_opcode (p_Opcodes p ! i) \<Longrightarrow> sem p b row i = (leaf_truth p b i row, leaf_reasons p b i row)"
    and "p_Opcodes p ! i = OpcodeBoolean \<Longrightarrow> sem p b row i = ((boolean_at p i, \<not> boolean_at p i), 0)"
    and "p_Opcodes p ! i = OpcodeEvidence \<Longrightarrow>
      sem p b row i = (evidence_truth p b (query_at p i) row, evidence_reasons p b (query_at p i) row)"
    and "p_Opcodes p ! i \<in> {OpcodeAll, OpcodeAny} \<Longrightarrow> sem p b row i =
      (group_tv (p_Opcodes p ! i) (map (\<lambda>x. fst (sem p b row (x - 1))) (operands p i)),
       mask_union (map (\<lambda>x. snd (sem p b row (x - 1))) (operands p i)))"
    and "p_Opcodes p ! i = OpcodeNot \<Longrightarrow> sem p b row i =
      (tv_not (fst (sem p b row (operands p i ! 0 - 1))), snd (sem p b row (operands p i ! 0 - 1)))"
proof -
  show "predicate_opcode (p_Opcodes p ! i) \<Longrightarrow> sem p b row i = (leaf_truth p b i row, leaf_reasons p b i row)"
    by (auto simp: predicate_opcode_def sem_unfold instr_value_def Let_def)
  show "p_Opcodes p ! i = OpcodeBoolean \<Longrightarrow> sem p b row i = ((boolean_at p i, \<not> boolean_at p i), 0)"
    by (simp add: sem_unfold instr_value_def Let_def)
  show "p_Opcodes p ! i = OpcodeEvidence \<Longrightarrow>
      sem p b row i = (evidence_truth p b (query_at p i) row, evidence_reasons p b (query_at p i) row)"
    by (simp add: sem_unfold instr_value_def Let_def)
  note vs = sem_operands[OF assms, of b row]
  show "p_Opcodes p ! i \<in> {OpcodeAll, OpcodeAny} \<Longrightarrow> sem p b row i =
      (group_tv (p_Opcodes p ! i) (map (\<lambda>x. fst (sem p b row (x - 1))) (operands p i)),
       mask_union (map (\<lambda>x. snd (sem p b row (x - 1))) (operands p i)))"
    unfolding sem_unfold[of p b row i] instr_value_def vs by (auto simp: Let_def group_tv_def comp_def)
  show "p_Opcodes p ! i = OpcodeNot \<Longrightarrow> sem p b row i =
      (tv_not (fst (sem p b row (operands p i ! 0 - 1))), snd (sem p b row (operands p i ! 0 - 1)))"
    unfolding sem_unfold[of p b row i] instr_value_def vs using schedule_operands(5)[OF assms] by (simp add: Let_def)
qed

lemma evidence_query_at:
  assumes "validExecutionSchedule p" "i < length (p_Opcodes p)"
  shows "evidence_query p i = Ok (query_at p i)"
  using schedule_columns[OF assms(1)] assms(2)
  by (auto simp: evidence_query_def query_at_def evidenceQualifier_def qualifier_at_def)

context simd_contract begin

lemma eval_comparison_rows:
  assumes s: "validExecutionSchedule (H a)" and i: "i < length (p_Opcodes (H a))" and b: "batch_ok (H a) b"
    and bd: "bound_to H a b e" and ok: "predicate_ok (H a) i"
    and dst: "has_shape (word_count (b_Rows b)) dst" "length reasons = ReasonCount * word_count (b_Rows b)"
  shows "\<exists>msk. eval_comparison K e dst reasons b (H a) (i + 1) mode =
    Ok (e\<lparr>ex_compareMask := msk\<rparr>, mk_planes (b_Rows b) (leaf_truth (H a) b i), mk_reasons (b_Rows b) (leaf_reasons (H a) b i))"
proof -
  have c: "validExecutionBatchColumns (H a) b" and fi: "facts_ok (ex_factIndex e) (H a) b"
    using b bd by (simp_all add: batch_ok_def bound_to_def)
  have keep: "\<exists>msk. e = e\<lparr>ex_compareMask := msk\<rparr>" by (rule exI[of _ "ex_compareMask e"]) simp
  show ?thesis
    using evalPredicateIndex_rows[OF c ok i fi dst, of mode] evalPredicateSIMD_rows[OF c ok dst, of mode "ex_compareMask e"]
      evalPredicate_rows[OF c ok i schedule_columns(16)[OF s] dst]
    by (auto simp: eval_comparison_def simp del: One_nat_def intro: keep)
qed

lemma execute_leaf:
  assumes s: "validExecutionSchedule (H a)" and i: "i < length (p_Opcodes (H a))" and b: "batch_ok (H a) b"
    and r: "ready H a (b_Rows b) e" and bd: "bound_to H a b e" and ok: "instr_ok (H a) i"
    and op: "p_Opcodes (H a) ! i \<notin> {OpcodeAll, OpcodeAny, OpcodeNot}"
  shows "\<exists>e'. executeInstructionMode K H e a b i mode = Ok e' \<and> writes H a b i e e'"
proof -
  let ?p = "H a" and ?op = "p_Opcodes (H a) ! i" and ?rows = "b_Rows b"
  let ?dst = "truth_view e ?rows (p_TruthSlots ?p ! i)" and ?rs = "reason_view e ?rows (p_ReasonSlots ?p ! i)"
  note cols = schedule_columns[OF s] and sl = schedule_slots[OF s i]
  have sh: "has_shape (word_count ?rows) ?dst" "length ?rs = ReasonCount * word_count ?rows"
    using sl by (auto intro!: view_shapes[OF r])
  note unf = executeInstructionMode_def Let_def slot_reads[of H a, OF s i r] rbind.simps
  note wr = store_both_writes[of H a, OF s i r]
  consider "?op = OpcodeBoolean" | "?op = OpcodeEvidence" | "?op = OpcodeDefined"
    | "?op \<in> {OpcodeEqual, OpcodeNotEqual, OpcodeIn, OpcodeExists, OpcodeLess, OpcodeLessEqual, OpcodeGreater, OpcodeGreaterEqual}"
    using op sl(5) by (cases ?op) (auto simp: opcode_Valid_def)
  then show ?thesis
  proof cases
    case 1
    then obtain v where v: "programPredicateValue ?p (p_Values ?p ! i) ValueKindBoolean = Ok v"
      using ok by (auto simp: instr_ok_def is_ok_def split: res.splits)
    have z: "replicate (length ?rs) 0 = mk_reasons ?rows (\<lambda>_. 0)" using sh(2) mk_reasons_zero[of ?rows] by simp
    have "\<forall>row. sem ?p b row i = ((pv_boolean v, \<not> pv_boolean v), 0)" using sem_cases(2)[OF s i 1] v by (simp add: boolean_at_def)
    note w = wr[OF this]
    show ?thesis unfolding unf using 1 v w i cols(2) truth_Set_rows[OF sh(1), of "pv_boolean v"] z by simp
  next
    case 2
    have v: "validEvidenceBatch b ?p" using b 2 i by (auto simp: batch_ok_def programUsesEvidence_def list_ex_iff in_set_conv_nth)
    have "requireEvidencePredicate a ?p (ex_states e) (query_at ?p i) = Ok ()"
      using ok 2 bd by (simp add: requireEvidencePredicate_def query_at_def instr_ok_def bound_to_def state_reasons_def)
    then have "evalEvidenceValidated ?dst ?rs b a ?p (ex_states e) (query_at ?p i) =
        Ok (mk_planes ?rows (evidence_truth ?p b (query_at ?p i)), mk_reasons ?rows (evidence_reasons ?p b (query_at ?p i)))"
      using evalEvidenceUnchecked_rows[OF v _ sh] bd by (simp add: evalEvidenceValidated_def bound_to_def)
    then show ?thesis unfolding unf using 2 evidence_query_at[OF s i] wr sem_cases(3)[OF s i 2] by simp
  next
    case 3
    then have "predicate_ok ?p i" using ok by (simp add: instr_ok_def)
    moreover have "validExecutionBatchColumns ?p b" using b by (simp add: batch_ok_def)
    moreover have "\<forall>row. sem ?p b row i = (leaf_truth ?p b i row, leaf_reasons ?p b i row)"
      using sem_cases(1)[OF s i] 3 by (simp add: predicate_opcode_def)
    ultimately show ?thesis unfolding unf using 3 evalPredicate_rows[OF _ _ i cols(16) sh] wr by simp
  next
    case 4
    then have "predicate_ok ?p i" using ok by (auto simp: instr_ok_def)
    then obtain msk where c: "eval_comparison K e ?dst ?rs b ?p (i + 1) mode =
        Ok (e\<lparr>ex_compareMask := msk\<rparr>, mk_planes ?rows (leaf_truth ?p b i), mk_reasons ?rows (leaf_reasons ?p b i))"
      using eval_comparison_rows[of H a, OF s i b bd _ sh] by blast
    have "ready H a ?rows (e\<lparr>ex_compareMask := msk\<rparr>)" using r by (simp add: ready_def)
    moreover have "\<forall>row. sem ?p b row i = (leaf_truth ?p b i row, leaf_reasons ?p b i row)"
      using sem_cases(1)[OF s i] 4 by (auto simp: predicate_opcode_def)
    ultimately have "writes H a b i e (store_both ?p i ?rows (e\<lparr>ex_compareMask := msk\<rparr>)
        (mk_planes ?rows (leaf_truth ?p b i), mk_reasons ?rows (leaf_reasons ?p b i)))"
      by (intro writes_frame[OF store_both_writes[of H a, OF s i]]) simp_all
    then show ?thesis unfolding unf using 4 c by auto
  qed
qed

lemma execute_not:
  assumes s: "validExecutionSchedule (H a)" and i: "i < length (p_Opcodes (H a))" and r: "ready H a (b_Rows b) e"
    and op: "p_Opcodes (H a) ! i = OpcodeNot"
    and t: "\<forall>x \<in> set (operands (H a) i). truth_view e (b_Rows b) (p_TruthSlots (H a) ! (x - 1)) =
      mk_planes (b_Rows b) (\<lambda>r. fst (sem (H a) b r (x - 1)))"
    and m: "\<forall>x \<in> set (operands (H a) i). reason_view e (b_Rows b) (p_ReasonSlots (H a) ! (x - 1)) =
      mk_reasons (b_Rows b) (\<lambda>r. snd (sem (H a) b r (x - 1)))"
  shows "\<exists>e'. executeInstructionMode K H e a b i mode = Ok e' \<and> writes H a b i e e'"
proof -
  let ?p = "H a" and ?rows = "b_Rows b" and ?x = "p_Operands (H a) ! (p_OperandStarts (H a) ! i)"
  let ?g = "\<lambda>r. fst (sem ?p b r i)" and ?ts = "p_TruthSlots ?p ! i" and ?rs = "p_ReasonSlots ?p ! i"
  note cols = schedule_columns[OF s] and sl = schedule_slots[OF s i] and n = schedule_operands(5)[OF s i op]
  have x: "?x \<in> set (operands ?p i)" using n by simp
  note xo = group_operands_ok[OF s i x]
  have ti: "?ts \<in> {1..p_TruthSlotCount ?p}" and ri: "?rs \<in> {1..p_ReasonSlotCount ?p}" using sl by auto
  have sv: "\<forall>r. sem ?p b r i = (tv_not (fst (sem ?p b r (?x - 1))), snd (sem ?p b r (?x - 1)))"
    using sem_cases(5)[OF s i op] n by simp
  have nt: "truth_Not (truth_view e ?rows ?ts) (mk_planes ?rows (\<lambda>r. fst (sem ?p b r (?x - 1)))) ?rows = Ok (mk_planes ?rows ?g)"
    unfolding truth_Not_rows[OF view_shapes(1)[OF r ti] mk_planes_shape] using sv by (auto intro!: mk_planes_cong)
  let ?e1 = "store_truth e ?ts ?rows (mk_planes ?rows ?g)"
  note st = store_truth_ready[OF r ti mk_planes_shape[of ?rows ?g]]
  have rv: "reason_view ?e1 ?rows (p_ReasonSlots ?p ! (?x - 1)) = mk_reasons ?rows (\<lambda>r. snd (sem ?p b r i))" using m x sv by simp
  note sr = store_reasons_ready[OF st(1) ri length_mk_reasons[of ?rows "\<lambda>r. snd (sem ?p b r i)"]]
  let ?e' = "if ?rs \<noteq> p_ReasonSlots ?p ! (?x - 1) then store_reasons ?e1 ?rs ?rows (mk_reasons ?rows (\<lambda>r. snd (sem ?p b r i))) else ?e1"
  have "executeInstructionMode K H e a b i mode = Ok ?e'"
    using i cols sl n xo truthSlot_view[OF r] reasonSlot_view[OF r] reasonSlot_view[OF st(1)] nt t x rv
    by (simp add: executeInstructionMode_def Let_def op del: One_nat_def)
  moreover have "writes H a b i e ?e'" using st sr rv ti ri by (simp add: writes_def Let_def del: One_nat_def)
  ultimately show ?thesis by blast
qed

end

section \<open>The schedule\<close>

text \<open>
  Slot reuse is sound when an instruction overwrites only slots of earlier instructions that are not
  roots and that no later instruction reads. An instruction may overwrite its own operands.
\<close>

definition slots_ok :: "nat list \<Rightarrow> program \<Rightarrow> bool" where
  "slots_ok slots p = (let n = length (p_Opcodes p) in
     list_all (\<lambda>k. list_all (\<lambda>j. slots ! j = slots ! k \<longrightarrow>
       p_RootFlags p ! j = 0 \<and> list_all (\<lambda>m. j + 1 \<notin> set (operands p m)) [k + 1..<n]) [0..<k]) [0..<n])"

definition live :: "nat list \<Rightarrow> nat \<Rightarrow> nat \<Rightarrow> bool" where
  "live slots j m \<longleftrightarrow> (\<forall>k. j < k \<and> k < m \<longrightarrow> slots ! k \<noteq> slots ! j)"

lemma slots_ok_iff:
  "slots_ok slots p \<longleftrightarrow> (\<forall>k < length (p_Opcodes p). \<forall>j < k. slots ! j = slots ! k \<longrightarrow>
     p_RootFlags p ! j = 0 \<and> (\<forall>m. k < m \<and> m < length (p_Opcodes p) \<longrightarrow> j + 1 \<notin> set (operands p m)))"
  unfolding slots_ok_def Let_def list_all_iff Ball_def by (simp add: Suc_le_eq)

lemma slots_okD:
  assumes "slots_ok slots p" "j < k" "k < length (p_Opcodes p)" "slots ! j = slots ! k"
  shows "p_RootFlags p ! j = 0" and "k < m \<Longrightarrow> m < length (p_Opcodes p) \<Longrightarrow> j + 1 \<notin> set (operands p m)"
  using assms unfolding slots_ok_iff by blast+

lemma operand_live:
  assumes "validExecutionSchedule p" "slots_ok slots p" "m < length (p_Opcodes p)" "x \<in> set (operands p m)"
  shows "live slots (x - 1) m"
proof -
  have "slots ! k \<noteq> slots ! (x - 1)" if "x - 1 < k" "k < m" for k
  proof
    assume "slots ! k = slots ! (x - 1)"
    then have "x - 1 + 1 \<notin> set (operands p m)"
      using slots_okD(2)[OF assms(2) that(1) _ _ that(2) assms(3)] assms(3) that(2) by simp
    then show False using assms(4) group_operands_ok(1)[OF assms(1,3,4)] by simp
  qed
  then show ?thesis by (simp add: live_def)
qed

lemma operand_inj:
  assumes "validExecutionSchedule p" "slots_ok slots p" "m < length (p_Opcodes p)"
  shows "\<forall>x \<in> set (operands p m). \<forall>y \<in> set (operands p m). slots ! (x - 1) = slots ! (y - 1) \<longrightarrow> x = y"
proof -
  have lt: False if "x < y" "x \<in> set (operands p m)" "y \<in> set (operands p m)" "slots ! (x - 1) = slots ! (y - 1)" for x y
  proof -
    have "x - 1 < y - 1" "y - 1 < m"
      using that(1) group_operands_ok(1,2)[OF assms(1,3) that(2)] group_operands_ok(1,2)[OF assms(1,3) that(3)] by linarith+
    then show False using operand_live[OF assms that(2)] that(4) by (metis live_def)
  qed
  then show ?thesis by (metis linorder_neqE_nat)
qed

definition slot_inv :: "(nat \<Rightarrow> program) \<Rightarrow> nat \<Rightarrow> batch \<Rightarrow> nat \<Rightarrow> executor \<Rightarrow> bool" where
  "slot_inv H a b m e \<longleftrightarrow> (let p = H a; rows = b_Rows b in
     ready H a rows e \<and>
     (\<forall>j < m. live (p_TruthSlots p) j m \<longrightarrow> truth_view e rows (p_TruthSlots p ! j) = mk_planes rows (\<lambda>r. fst (sem p b r j))) \<and>
     (\<forall>j < m. live (p_ReasonSlots p) j m \<longrightarrow> reason_view e rows (p_ReasonSlots p ! j) = mk_reasons rows (\<lambda>r. snd (sem p b r j))))"

lemma slot_inv_0: "ready H a (b_Rows b) e \<Longrightarrow> slot_inv H a b 0 e"
  by (simp add: slot_inv_def Let_def)

lemma live_Suc: "j < m \<Longrightarrow> live slots j (Suc m) \<longleftrightarrow> live slots j m \<and> slots ! m \<noteq> slots ! j"
  by (auto simp: live_def less_Suc_eq)

lemma writes_inv:
  assumes "validExecutionSchedule (H a)" "m < length (p_Opcodes (H a))" "slot_inv H a b m e" "writes H a b m e e'"
  shows "slot_inv H a b (Suc m) e'"
proof -
  have sl: "p_TruthSlots (H a) ! j \<in> {1..p_TruthSlotCount (H a)}" "p_ReasonSlots (H a) ! j \<in> {1..p_ReasonSlotCount (H a)}"
    if "j < Suc m" for j using schedule_slots[OF assms(1)] assms(2) that by (simp_all add: Suc_le_eq)
  show ?thesis using assms(3,4) sl unfolding slot_inv_def writes_def Let_def
    by (auto simp: less_Suc_eq live_Suc)
qed

lemma bound_to_frame: "frame e' = frame e \<Longrightarrow> bound_to H a b e' = bound_to H a b e"
  using frame_fields(3,4)[of e' e] by (simp add: bound_to_def)

context simd_contract begin

lemma execute_step:
  assumes p: "instrs_ok (H a)" "slots_ok (p_TruthSlots (H a)) (H a)" "slots_ok (p_ReasonSlots (H a)) (H a)"
    and b: "batch_ok (H a) b" and bd: "bound_to H a b e" and m: "m < length (p_Opcodes (H a))" and inv: "slot_inv H a b m e"
  shows "\<exists>e'. executeInstructionMode K H e a b m mode = Ok e' \<and> slot_inv H a b (Suc m) e' \<and> frame e' = frame e"
proof -
  let ?p = "H a" and ?rows = "b_Rows b"
  have s: "validExecutionSchedule ?p" and ok: "instr_ok ?p m" using p(1) m by (auto simp: instrs_ok_def list_all_iff)
  have r: "ready H a ?rows e" using inv by (simp add: slot_inv_def Let_def)
  have t: "\<forall>x \<in> set (operands ?p m). truth_view e ?rows (p_TruthSlots ?p ! (x - 1)) = mk_planes ?rows (\<lambda>r. fst (sem ?p b r (x - 1)))"
    and q: "\<forall>x \<in> set (operands ?p m). reason_view e ?rows (p_ReasonSlots ?p ! (x - 1)) = mk_reasons ?rows (\<lambda>r. snd (sem ?p b r (x - 1)))"
    using inv operand_live[OF s p(2) m] operand_live[OF s p(3) m] group_operands_ok(2)[OF s m] by (auto simp: slot_inv_def Let_def)
  have "\<exists>e'. executeInstructionMode K H e a b m mode = Ok e' \<and> writes H a b m e e'"
  proof (cases "p_Opcodes ?p ! m \<in> {OpcodeAll, OpcodeAny}")
    case True
    let ?op = "p_Opcodes ?p ! m"
    obtain e1 where e1: "reduceTruthGroup K H e ?p m ?op ?rows mode = Ok e1" "ready H a ?rows e1" "frame e1 = frame e"
        "reason_view e1 = reason_view e" "truth_view e1 ?rows (p_TruthSlots ?p ! m) = mk_planes ?rows (\<lambda>r. fst (sem ?p b r m))"
        "\<forall>slot \<in> {1..p_TruthSlotCount ?p} - {p_TruthSlots ?p ! m}. truth_view e1 ?rows slot = truth_view e ?rows slot"
      using reduceTruthGroup_value[of H a, OF s m True r t operand_inj[OF s p(2) m], of mode] sem_cases(4)[OF s m True] by auto
    have q1: "\<forall>x \<in> set (operands ?p m). reason_view e1 ?rows (p_ReasonSlots ?p ! (x - 1)) = mk_reasons ?rows (\<lambda>r. snd (sem ?p b r (x - 1)))"
      using q e1(4) by simp
    obtain e2 where e2: "reduceReasonGroup K H e1 ?p m ?rows mode = Ok e2" "ready H a ?rows e2" "frame e2 = frame e1"
        "truth_view e2 = truth_view e1" "reason_view e2 ?rows (p_ReasonSlots ?p ! m) = mk_reasons ?rows (\<lambda>r. snd (sem ?p b r m))"
        "\<forall>slot \<in> {1..p_ReasonSlotCount ?p} - {p_ReasonSlots ?p ! m}. reason_view e2 ?rows slot = reason_view e1 ?rows slot"
      using reduceReasonGroup_value[of H a, OF s m True e1(2) q1 operand_inj[OF s p(3) m], of mode] sem_cases(4)[OF s m True] by auto
    have "executeInstructionMode K H e a b m mode = rbind (reduceTruthGroup K H e ?p m ?op ?rows mode) (\<lambda>e1. reduceReasonGroup K H e1 ?p m ?rows mode)"
      unfolding executeInstructionMode_def Let_def slot_reads[of H a, OF s m r] rbind.simps using True by auto
    then have "executeInstructionMode K H e a b m mode = Ok e2" using e1(1) e2(1) by simp
    moreover have "writes H a b m e e2" using e1 e2 by (simp add: writes_def Let_def)
    ultimately show ?thesis by blast
  next
    case False
    then show ?thesis
      using execute_not[of H a, OF s m r _ t q] execute_leaf[of H a, OF s m b r bd ok] by blast
  qed
  then show ?thesis using writes_inv[OF s m inv] by (auto simp: writes_def Let_def)
qed

lemma execute_prefix:
  assumes p: "instrs_ok (H a)" "slots_ok (p_TruthSlots (H a)) (H a)" "slots_ok (p_ReasonSlots (H a)) (H a)"
    and b: "batch_ok (H a) b" and bd: "bound_to H a b e" and r: "ready H a (b_Rows b) e" and m: "m \<le> length (p_Opcodes (H a))"
  shows "\<exists>e'. res_foldM (\<lambda>row e. executeInstructionMode K H e a b row mode) [0..<m] e = Ok e' \<and> slot_inv H a b m e' \<and> frame e' = frame e"
  using m
proof (induction m)
  case 0
  then show ?case using slot_inv_0[OF r] by simp
next
  case (Suc m)
  then obtain e1 where e1: "res_foldM (\<lambda>row e. executeInstructionMode K H e a b row mode) [0..<m] e = Ok e1"
    "slot_inv H a b m e1" "frame e1 = frame e" by auto
  have "bound_to H a b e1" using bd bound_to_frame[OF e1(3)] by simp
  from execute_step[OF p b this _ e1(2), of mode] show ?case using Suc.prems e1 by (auto simp: res_foldM_append)
qed

lemma executeScheduleMode_sem:
  assumes p: "instrs_ok (H a)" "slots_ok (p_TruthSlots (H a)) (H a)" "slots_ok (p_ReasonSlots (H a)) (H a)"
    and b: "batch_ok (H a) b" and bd: "bound_to H a b e" and r: "ready H a (b_Rows b) e"
  shows "\<exists>e'. executeScheduleMode K H e a b mode = Ok e' \<and> slot_inv H a b (length (p_Opcodes (H a))) e' \<and> frame e' = frame e"
  unfolding executeScheduleMode_def by (rule execute_prefix[OF assms]) simp

end

text \<open>After the whole schedule every root still holds its value.\<close>

lemma slot_inv_root:
  assumes "slot_inv H a b (length (p_Opcodes (H a))) e" "slots_ok (p_TruthSlots (H a)) (H a)" "slots_ok (p_ReasonSlots (H a)) (H a)"
    and "j < length (p_Opcodes (H a))" "p_RootFlags (H a) ! j \<noteq> 0"
  shows "truth_view e (b_Rows b) (p_TruthSlots (H a) ! j) = mk_planes (b_Rows b) (\<lambda>r. fst (sem (H a) b r j))"
    and "reason_view e (b_Rows b) (p_ReasonSlots (H a) ! j) = mk_reasons (b_Rows b) (\<lambda>r. snd (sem (H a) b r j))"
proof -
  have "live (p_TruthSlots (H a)) j (length (p_Opcodes (H a)))" "live (p_ReasonSlots (H a)) j (length (p_Opcodes (H a)))"
    using slots_okD(1)[OF assms(2)] slots_okD(1)[OF assms(3)] assms(5) unfolding live_def by metis+
  then show "truth_view e (b_Rows b) (p_TruthSlots (H a) ! j) = mk_planes (b_Rows b) (\<lambda>r. fst (sem (H a) b r j))"
    "reason_view e (b_Rows b) (p_ReasonSlots (H a) ! j) = mk_reasons (b_Rows b) (\<lambda>r. snd (sem (H a) b r j))"
    using assms(1,4) by (simp_all add: slot_inv_def Let_def)
qed

end
