(* ===== verification/NR_Executor.thy ===== *)
theory NR_Executor
  imports NR_Schedule
begin

text \<open>
  The executor of \<^verbatim>\<open>internal/eval/executor.go\<close> and the result batch of \<^verbatim>\<open>internal/result/batch.go\<close>:
  validation of a program and a batch, preparation of the scratch, the resolution of one clause, the
  selection of one outcome per row with its provenance, and the execution of row ranges.

  The resolution functions read the schedule through two accessors, the truth and the reasons of an
  instruction on the current row, so that the same functions apply to the slots of the executor and to
  the reference semantics of \<open>NR_Schedule\<close>. An operation that can fail after it has changed the
  executor returns the executor beside its result.
\<close>

section \<open>Result batches\<close>

record result_batch =
  rb_OutcomeIDs :: "nat list"
  rb_RequirementOffsets :: "nat list"
  rb_RequirementIDs :: "nat list"
  rb_DriverOffsets :: "nat list"
  rb_DriverRequirements :: "nat list"
  rb_DriverClauses :: "nat list"
  rb_DriverNodes :: "nat list"
  rb_DriverReasons :: "nat list"
  rb_DriverExplanations :: "nat list"
  rb_EvidenceOffsets :: "nat list"
  rb_EvidenceIDs :: "nat list"
  rb_ReasonOffsets :: "nat list"
  rb_ReasonIDs :: "nat list"
  rb_ReasonNodes :: "nat list"
  rb_ReasonEvidenceIDs :: "nat list"
  rb_ReasonEvidenceStates :: "nat list"
  rb_RemediationOffsets :: "nat list"
  rb_RemediationIDs :: "nat list"
  rb_Rows :: nat

text \<open>\<^verbatim>\<open>Reset\<close>: whatever the batch held, the fixed-width columns are zero and the edge columns empty.\<close>

definition Result_Reset :: "result_batch \<Rightarrow> nat \<Rightarrow> result_batch res" where
  "Result_Reset dst rows =
     (if rows + 1 > MaxInt then Err ErrResultBatchTooLarge
      else Ok \<lparr>rb_OutcomeIDs = replicate rows 0,
        rb_RequirementOffsets = replicate (rows + 1) 0, rb_RequirementIDs = [],
        rb_DriverOffsets = replicate (rows + 1) 0, rb_DriverRequirements = [], rb_DriverClauses = [], rb_DriverNodes = [],
        rb_DriverReasons = [], rb_DriverExplanations = [],
        rb_EvidenceOffsets = replicate (rows + 1) 0, rb_EvidenceIDs = [],
        rb_ReasonOffsets = replicate (rows + 1) 0, rb_ReasonIDs = [], rb_ReasonNodes = [], rb_ReasonEvidenceIDs = [],
        rb_ReasonEvidenceStates = [],
        rb_RemediationOffsets = replicate (rows + 1) 0, rb_RemediationIDs = [],
        rb_Rows = rows\<rparr>)"

section \<open>Sizes\<close>

definition executorScratchLen :: "nat \<Rightarrow> nat \<Rightarrow> nat \<Rightarrow> nat option" where
  "executorScratchLen a b c =
     (if a \<noteq> 0 \<and> b > MaxUint64 div a then None
      else let n = a * b mod 2 ^ 64 in
      if n \<noteq> 0 \<and> c > MaxUint64 div n then None
      else let n' = n * c mod 2 ^ 64 in
      if n' > MaxInt div 8 then None else Some n')"

definition executorResultLen :: "nat \<Rightarrow> nat \<Rightarrow> nat \<Rightarrow> nat option" where
  "executorResultLen rows perRow elementBytes =
     (if rows \<noteq> 0 \<and> perRow > MaxUint64 div rows then None
      else let n = rows * perRow mod 2 ^ 64 in
      if n > MaxUint32 \<or> n > MaxInt div elementBytes then None else Some n)"

definition maxExecutionRemediations :: "program \<Rightarrow> nat" where
  "maxExecutionRemediations p =
     fold max (rs_RemediationCounts (p_Resolutions p)) (fold max (p_ClauseRemediationCounts p) 0)"

section \<open>Validation of a program\<close>

abbreviation (input) clauseExplanationBranchCount :: nat where "clauseExplanationBranchCount \<equiv> 7"
abbreviation (input) clauseSatisfiedExplanation :: nat where "clauseSatisfiedExplanation \<equiv> 0"
abbreviation (input) clauseFalseExplanation :: nat where "clauseFalseExplanation \<equiv> 1"

definition validExecutionRoot :: "program \<Rightarrow> nat \<Rightarrow> byte \<Rightarrow> bool" where
  "validExecutionRoot p root flag \<longleftrightarrow>
     root \<noteq> 0 \<and> root \<le> length (p_Opcodes p) \<and> flags_Has (p_RootFlags p ! (root - 1)) flag"

definition valid_semantic_columns :: "program \<Rightarrow> bool" where
  "valid_semantic_columns p =
     (let requirements = length (p_RequirementIDs p); clauses = length (p_ClauseAssertionRoots p);
          resolutionRows = clauses * ReasonCount in
      \<not> (requirements = 0 \<or> clauses = 0 \<or> requirements > MaxUint32 \<or> clauses > MaxUint32 \<or>
         pi_RequirementCount (p_ApplicabilityIndex p) \<noteq> requirements \<or>
         length (p_RequirementRoots p) \<noteq> requirements \<or> length (p_RequirementSourceNodeIDs p) \<noteq> requirements \<or>
         length (p_RequirementClauseStarts p) \<noteq> requirements \<or> length (p_RequirementClauseCounts p) \<noteq> requirements \<or>
         length (p_ClauseEvidenceStarts p) \<noteq> clauses \<or> length (p_ClauseEvidenceCounts p) \<noteq> clauses \<or>
         length (p_ClauseOnSatisfied p) \<noteq> clauses \<or> length (p_ClauseOnFalse p) \<noteq> clauses \<or>
         length (p_ClauseAssertionSourceNodeIDs p) \<noteq> clauses \<or>
         length (p_ClauseEvidenceSourceNodeIDs p) \<noteq> length (p_ClauseEvidenceIDs p) \<or>
         length (p_ClauseExplanationIDs p) \<noteq> clauses * clauseExplanationBranchCount \<or>
         length (rs_OutcomeIDs (p_Resolutions p)) \<noteq> resolutionRows \<or>
         length (rs_ExplanationIDs (p_Resolutions p)) \<noteq> resolutionRows \<or>
         length (p_ClauseRemediationStarts p) \<noteq> clauses \<or> length (p_ClauseRemediationCounts p) \<noteq> clauses))"

definition valid_requirement_row :: "program \<Rightarrow> nat \<Rightarrow> bool" where
  "valid_requirement_row p row =
     (if p_RequirementIDs p ! row = 0 \<or> p_RequirementSourceNodeIDs p ! row = 0 \<or>
         \<not> validExecutionRoot p (p_RequirementRoots p ! row) RootApplicability then False
      else let start = p_RequirementClauseStarts p ! row; count = p_RequirementClauseCounts p ! row in
      if count = 0 \<or> start + count > length (p_RequirementClauseIDs p) then False
      else list_all (\<lambda>clauseID. \<not> (clauseID = 0 \<or> clauseID > length (p_ClauseAssertionRoots p)))
        (take count (drop start (p_RequirementClauseIDs p))))"

definition valid_clause_row :: "program \<Rightarrow> nat \<Rightarrow> bool" where
  "valid_clause_row p row =
     (if p_ClauseAssertionSourceNodeIDs p ! row = 0 \<or> \<not> validExecutionRoot p (p_ClauseAssertionRoots p ! row) RootAssertion
        then False
      else let start = p_ClauseEvidenceStarts p ! row; count = p_ClauseEvidenceCounts p ! row in
      if start + count > length (p_ClauseEvidenceIDs p) then False
      else if \<not> list_all (\<lambda>edge. \<not> (p_ClauseEvidenceSourceNodeIDs p ! edge = 0 \<or>
          \<not> validExecutionRoot p (p_ClauseEvidenceIDs p ! edge) RootEvidence)) [start..<start + count] then False
      else if \<not> list_all (\<lambda>xid. Explanation_Lookup (p_Explanations p) xid \<noteq> None)
          (take clauseExplanationBranchCount (drop (row * clauseExplanationBranchCount) (p_ClauseExplanationIDs p))) then False
      else if Outcome_Lookup (p_Outcomes p) (p_ClauseOnSatisfied p ! row) = None \<or>
          Outcome_Lookup (p_Outcomes p) (p_ClauseOnFalse p ! row) = None then False
      else p_ClauseRemediationStarts p ! row + p_ClauseRemediationCounts p ! row \<le> length (p_ClauseRemediationIDs p))"

definition validExecutionSemantics :: "program \<Rightarrow> bool res" where
  "validExecutionSemantics p =
     (if \<not> validExecutionSchedule p \<or> \<not> FactSpec_Valid (p_FactIndexSpec p) (p_FieldIndex p) (p_ProgramSymbolCount p)
        then Ok False
      else rbind (validFactIndexQueries p) (\<lambda>queries.
        Ok (queries \<and> valid_semantic_columns p \<and>
          list_all (\<lambda>xid. Explanation_Lookup (p_Explanations p) xid \<noteq> None) (rs_ExplanationIDs (p_Resolutions p)) \<and>
          list_all (\<lambda>name. Program_Symbol p name \<noteq> None) (p_EvidenceStateNames p) \<and>
          list_all (\<lambda>field. case Schema_Lookup (p_FieldIndex p) field of None \<Rightarrow> False
            | Some (kind, column) \<Rightarrow> kind = ValueKindSymbol \<and> column < kind_count (p_FieldIndex p) ValueKindSymbol)
            (pi_FieldIDs (p_ApplicabilityIndex p)) \<and>
          list_all (valid_requirement_row p) [0..<length (p_RequirementIDs p)] \<and>
          list_all (valid_clause_row p) [0..<length (p_ClauseAssertionRoots p)])))"

section \<open>Preparation\<close>

definition prepareValidated :: "nat \<Rightarrow> nat \<Rightarrow> nat \<Rightarrow> executor \<Rightarrow> executor" where
  "prepareValidated a truthLen reasonLen e =
     e\<lparr>ex_truthWords := resizeExecutorScratch 0 (ex_truthWords e) truthLen,
       ex_reasonWords := resizeExecutorScratch 0 (ex_reasonWords e) reasonLen, ex_program := Some a\<rparr>"

text \<open>\<^verbatim>\<open>prepare\<close>, the preparation without result storage.\<close>

definition prepare :: "(nat \<Rightarrow> program) \<Rightarrow> executor \<Rightarrow> nat \<Rightarrow> batch \<Rightarrow> executor \<times> unit res" where
  "prepare H e a b =
     (let p = H a; words = word_count (b_Rows b) in
      if \<not> validExecutionSchedule p \<or> length (b_RequestIDs b) \<noteq> b_Rows b then (e, Err ErrInvalidProgram)
      else case (executorScratchLen (p_TruthSlotCount p) 2 words, executorScratchLen (p_ReasonSlotCount p) ReasonCount words) of
        (Some truthLen, Some reasonLen) \<Rightarrow>
          (case States_Bind (ex_states e) a p of
             Ok st \<Rightarrow>
               (let e1 = e\<lparr>ex_states := st\<rparr> in
                case (if programUsesEvidence p then requireEvidenceBatch b a p st else Ok ()) of
                  Ok _ \<Rightarrow> (prepareValidated a truthLen reasonLen e1, Ok ())
                | Err err \<Rightarrow> (e1, Err err) | Panic m \<Rightarrow> (e1, Panic m))
           | Err _ \<Rightarrow> (e, Err ErrInvalidProgram) | Panic m \<Rightarrow> (e, Panic m))
      | _ \<Rightarrow> (e, Err ErrBatchTooLarge))"

definition result_lens :: "program \<Rightarrow> batch \<Rightarrow> bool \<Rightarrow> nat option list" where
  "result_lens p b usesEvidence =
     [executorResultLen (b_Rows b) (length (p_RequirementIDs p)) 4, executorResultLen (b_Rows b) 1 4,
      executorResultLen (b_Rows b) ReasonCount 4, executorResultLen (b_Rows b) (maxExecutionRemediations p) 4] @
     (if usesEvidence then [executorResultLen 1 (length (b_EvidenceRefs b)) 4] else [])"

text \<open>Binding the query and the evidence states to a new program.\<close>

definition rebind_program :: "(nat \<Rightarrow> program) \<Rightarrow> executor \<Rightarrow> nat \<Rightarrow> executor \<times> unit res" where
  "rebind_program H e a =
     (case Query_Bind (map_option (\<lambda>q. (q, p_ApplicabilityIndex (H q))) (ex_query e)) (Some (a, p_ApplicabilityIndex (H a))) of
        Ok bound \<Rightarrow>
          (let e1 = e\<lparr>ex_query := map_option fst bound\<rparr> in
           case States_Bind (ex_states e1) a (H a) of
             Ok st \<Rightarrow> (e1\<lparr>ex_states := st\<rparr>, Ok ())
           | Err _ \<Rightarrow> (e1, Err ErrInvalidProgram) | Panic m \<Rightarrow> (e1, Panic m))
      | Err _ \<Rightarrow> (e, Err ErrInvalidProgram) | Panic m \<Rightarrow> (e, Panic m))"

definition prepare_scratch :: "program \<Rightarrow> executor \<Rightarrow> executor" where
  "prepare_scratch p e =
     e\<lparr>ex_candidateWords := resizeExecutorScratch 0 (ex_candidateWords e) (pi_WordCount (p_ApplicabilityIndex p)),
       ex_selectorValues := resizeExecutorScratch 0 (ex_selectorValues e) (length (pi_FieldIDs (p_ApplicabilityIndex p))),
       ex_selectorPresent := resizeExecutorScratch 0 (ex_selectorPresent e) (length (pi_FieldIDs (p_ApplicabilityIndex p)))\<rparr>"

text \<open>The checks of \<^verbatim>\<open>prepareExecution\<close> before the executor changes: the two scratch lengths, or an error.\<close>

definition check_execution :: "(nat \<Rightarrow> program) \<Rightarrow> executor \<Rightarrow> nat \<Rightarrow> batch \<Rightarrow> (nat \<times> nat) res" where
  "check_execution H e a b =
     (let p = H a; words = word_count (b_Rows b) in
      rbind (if ex_program e \<noteq> Some a then validExecutionSemantics p else Ok True) (\<lambda>valid.
      if \<not> valid \<or> length (b_RequestIDs b) \<noteq> b_Rows b \<or> \<not> validExecutionBatchColumns p b then Err ErrInvalidProgram
      else if programUsesEvidence p \<and> \<not> validEvidenceBatch b p then Err ErrInvalidProgram
      else case executorScratchLen (p_TruthSlotCount p) 2 words of None \<Rightarrow> Err ErrBatchTooLarge
      | Some truthLen \<Rightarrow>
        (case executorScratchLen (p_ReasonSlotCount p) ReasonCount words of None \<Rightarrow> Err ErrBatchTooLarge
         | Some reasonLen \<Rightarrow>
           if None \<in> set (result_lens p b (programUsesEvidence p)) then Err ErrBatchTooLarge
           else Ok (truthLen, reasonLen))))"

definition prepareExecution ::
  "(nat \<Rightarrow> program) \<Rightarrow> executor \<Rightarrow> result_batch \<Rightarrow> nat \<Rightarrow> batch \<Rightarrow> execution_mode \<Rightarrow> executor \<times> (result_batch \<times> bool) res" where
  "prepareExecution H e dst a b mode =
     (let p = H a in
      case check_execution H e a b of
        Err err \<Rightarrow> (e, Err err) | Panic m \<Rightarrow> (e, Panic m)
      | Ok (truthLen, reasonLen) \<Rightarrow>
        (case (if ex_program e \<noteq> Some a then rebind_program H e a else (e, Ok ())) of
           (e1, Err err) \<Rightarrow> (e1, Err err) | (e1, Panic m) \<Rightarrow> (e1, Panic m)
         | (e1, Ok _) \<Rightarrow>
           (case buildFactIndex p b mode (ex_factIndex e1) (ex_valueRows e1) of
              Err err \<Rightarrow> (e1, Err err) | Panic m \<Rightarrow> (e1, Panic m)
            | Ok (fi, vr) \<Rightarrow>
              (let e2 = prepare_scratch p (prepareValidated a truthLen reasonLen (e1\<lparr>ex_factIndex := fi, ex_valueRows := vr\<rparr>)) in
               case Result_Reset dst (b_Rows b) of
                 Ok dst' \<Rightarrow> (e2, Ok (dst', programUsesEvidence p))
               | Err _ \<Rightarrow> (e2, Err ErrBatchTooLarge) | Panic m \<Rightarrow> (e2, Panic m)))))"

section \<open>Reading an instruction\<close>

definition instructionTruth :: "(nat \<Rightarrow> program) \<Rightarrow> executor \<Rightarrow> program \<Rightarrow> nat \<Rightarrow> nat \<Rightarrow> nat \<Rightarrow> tv res" where
  "instructionTruth H e p row rows instruction =
     rbind (idx1 (p_TruthSlots p) instruction) (\<lambda>slot.
     rbind (truthSlot H e slot rows) (\<lambda>planes.
     rbind (idx (pl_Positive planes) (row div 64)) (\<lambda>pos.
     rbind (idx (pl_Negative planes) (row div 64)) (\<lambda>neg.
     Ok (pos AND row_bit row \<noteq> 0, neg AND row_bit row \<noteq> 0)))))"

definition instructionReasons :: "(nat \<Rightarrow> program) \<Rightarrow> executor \<Rightarrow> program \<Rightarrow> nat \<Rightarrow> nat \<Rightarrow> nat \<Rightarrow> u16 res" where
  "instructionReasons H e p row rows instruction =
     rbind (idx1 (p_ReasonSlots p) instruction) (\<lambda>slot.
     rbind (reasonSlot H e slot rows) (\<lambda>ws.
     res_foldM (\<lambda>reason m.
       rbind (reason_plane ws reason (word_count rows)) (\<lambda>plane.
       rbind (idx plane (row div 64)) (\<lambda>w.
       Ok (if w AND row_bit row \<noteq> 0 then mask_With m reason else m)))) [ReasonMissing..<ReasonConflict + 1] 0))"

section \<open>Resolution of one clause\<close>

record candidate =
  cd_remediations :: "nat list"
  cd_outcome :: nat
  cd_explanation :: nat
  cd_requirement :: nat
  cd_clause :: nat
  cd_node :: nat
  cd_reasons :: u16
  cd_driverReason :: nat
  cd_applicability :: bool

definition no_candidate :: candidate where
  "no_candidate = \<lparr>cd_remediations = [], cd_outcome = 0, cd_explanation = 0, cd_requirement = 0, cd_clause = 0, cd_node = 0,
     cd_reasons = 0, cd_driverReason = 0, cd_applicability = False\<rparr>"

definition executionResolutionRemediations :: "resolution \<Rightarrow> nat list" where
  "executionResolutionRemediations v = (if rn_Terminal v then [] else rn_Remediations v)"

definition executionClauseRemediations :: "program \<Rightarrow> nat \<Rightarrow> nat \<Rightarrow> nat list res" where
  "executionClauseRemediations p clauseRow outcomeID =
     (case Outcome_Lookup (p_Outcomes p) outcomeID of None \<Rightarrow> Panic ''eval: invalid clause outcome''
      | Some oc \<Rightarrow>
        if oc_Terminal oc then Ok []
        else rbind (idx (p_ClauseRemediationStarts p) clauseRow) (\<lambda>start.
          rbind (idx (p_ClauseRemediationCounts p) clauseRow) (\<lambda>count.
          subslice (p_ClauseRemediationIDs p) start (start + count))))"

text \<open>The evidence edges of a clause, each with its row in the edge columns.\<close>

definition clause_edges :: "program \<Rightarrow> nat \<Rightarrow> (nat \<times> nat) list res" where
  "clause_edges p clauseRow =
     rbind (idx (p_ClauseEvidenceStarts p) clauseRow) (\<lambda>start.
     rbind (idx (p_ClauseEvidenceCounts p) clauseRow) (\<lambda>count.
     rbind (subslice (p_ClauseEvidenceIDs p) start (start + count)) (\<lambda>ids. Ok (enumerate start ids))))"

fun find_edge :: "(nat \<Rightarrow> bool res) \<Rightarrow> (nat \<times> nat) list \<Rightarrow> (nat \<times> nat) option res" where
  "find_edge P [] = Ok None"
| "find_edge P (e # es) = rbind (P (snd e)) (\<lambda>found. if found then Ok (Some e) else find_edge P es)"

definition resolveApplicability :: "program \<Rightarrow> (nat \<Rightarrow> u16 res) \<Rightarrow> nat \<Rightarrow> nat \<Rightarrow> nat \<Rightarrow> nat \<Rightarrow> candidate res" where
  "resolveApplicability p ir requirementID clauseID root sourceNode =
     rbind (ir root) (\<lambda>reasons.
     rbind (Resolve (p_resolver p) clauseID reasons) (\<lambda>r.
     case r of None \<Rightarrow> Panic ''eval: unresolved applicability has no reason''
     | Some v \<Rightarrow> Ok \<lparr>cd_remediations = executionResolutionRemediations v, cd_outcome = rn_Outcome v,
         cd_explanation = rn_Explanation v, cd_requirement = requirementID, cd_clause = clauseID, cd_node = sourceNode,
         cd_reasons = reasons, cd_driverReason = rn_Reason v, cd_applicability = True\<rparr>))"

definition firstNegativeNode :: "program \<Rightarrow> (nat \<Rightarrow> tv res) \<Rightarrow> nat \<Rightarrow> nat res" where
  "firstNegativeNode p it clauseRow =
     rbind (idx (p_ClauseAssertionRoots p) clauseRow) (\<lambda>assertion.
     rbind (it assertion) (\<lambda>v.
     if snd v then idx (p_ClauseAssertionSourceNodeIDs p) clauseRow
     else rbind (clause_edges p clauseRow) (\<lambda>edges.
       rbind (find_edge (\<lambda>evidence. rbind (it evidence) (\<lambda>v. Ok (snd v))) edges) (\<lambda>found.
       case found of Some (edge, _) \<Rightarrow> idx (p_ClauseEvidenceSourceNodeIDs p) edge
       | None \<Rightarrow> Panic ''eval: false clause has no negative driver''))))"

definition firstReasonNode :: "program \<Rightarrow> (nat \<Rightarrow> u16 res) \<Rightarrow> nat \<Rightarrow> nat \<Rightarrow> nat res" where
  "firstReasonNode p ir clauseRow reason =
     rbind (idx (p_ClauseAssertionRoots p) clauseRow) (\<lambda>assertion.
     rbind (ir assertion) (\<lambda>m.
     if mask_Has m reason then idx (p_ClauseAssertionSourceNodeIDs p) clauseRow
     else rbind (clause_edges p clauseRow) (\<lambda>edges.
       rbind (find_edge (\<lambda>evidence. rbind (ir evidence) (\<lambda>m. Ok (mask_Has m reason))) edges) (\<lambda>found.
       case found of Some (edge, _) \<Rightarrow> idx (p_ClauseEvidenceSourceNodeIDs p) edge
       | None \<Rightarrow> Panic ''eval: unresolved clause has no reason driver''))))"

definition clause_state :: "program \<Rightarrow> (nat \<Rightarrow> tv res) \<Rightarrow> (nat \<Rightarrow> u16 res) \<Rightarrow> nat \<Rightarrow> (tv \<times> u16) res" where
  "clause_state p it ir clauseRow =
     rbind (idx (p_ClauseAssertionRoots p) clauseRow) (\<lambda>assertion.
     rbind (it assertion) (\<lambda>v.
     rbind (ir assertion) (\<lambda>m.
     rbind (clause_edges p clauseRow) (\<lambda>edges.
     res_foldM (\<lambda>edge ((positive, negative), reasons).
       rbind (it (snd edge)) (\<lambda>(evidencePositive, evidenceNegative).
       rbind (ir (snd edge)) (\<lambda>em.
       Ok ((positive \<and> evidencePositive, negative \<or> evidenceNegative), reasons OR em)))) edges (v, m)))))"

definition resolveActiveClause :: "program \<Rightarrow> (nat \<Rightarrow> tv res) \<Rightarrow> (nat \<Rightarrow> u16 res) \<Rightarrow> nat \<Rightarrow> nat \<Rightarrow> candidate res" where
  "resolveActiveClause p it ir requirementID clauseID =
     (let clauseRow = clauseID - 1; base = no_candidate\<lparr>cd_requirement := requirementID, cd_clause := clauseID\<rparr> in
      if clauseID = 0 then Panic ''index out of range''
      else rbind (clause_state p it ir clauseRow) (\<lambda>((positive, negative), reasons).
      if positive \<and> \<not> negative then
        rbind (idx (p_ClauseOnSatisfied p) clauseRow) (\<lambda>oid.
        rbind (idx (p_ClauseExplanationIDs p) (clauseRow * clauseExplanationBranchCount + clauseSatisfiedExplanation)) (\<lambda>xid.
        rbind (idx (p_ClauseAssertionSourceNodeIDs p) clauseRow) (\<lambda>node.
        rbind (executionClauseRemediations p clauseRow oid) (\<lambda>rems.
        Ok (base\<lparr>cd_outcome := oid, cd_explanation := xid, cd_node := node, cd_remediations := rems\<rparr>)))))
      else if \<not> positive \<and> negative then
        rbind (idx (p_ClauseOnFalse p) clauseRow) (\<lambda>oid.
        rbind (idx (p_ClauseExplanationIDs p) (clauseRow * clauseExplanationBranchCount + clauseFalseExplanation)) (\<lambda>xid.
        rbind (firstNegativeNode p it clauseRow) (\<lambda>node.
        rbind (executionClauseRemediations p clauseRow oid) (\<lambda>rems.
        Ok (base\<lparr>cd_outcome := oid, cd_explanation := xid, cd_node := node, cd_remediations := rems\<rparr>)))))
      else
        rbind (Resolve (p_resolver p) clauseID reasons) (\<lambda>r.
        case r of None \<Rightarrow> Panic ''eval: unresolved clause has no reason''
        | Some v \<Rightarrow>
          rbind (firstReasonNode p ir clauseRow (rn_Reason v)) (\<lambda>node.
          Ok (base\<lparr>cd_outcome := rn_Outcome v, cd_explanation := rn_Explanation v, cd_driverReason := rn_Reason v,
            cd_node := node, cd_remediations := executionResolutionRemediations v, cd_reasons := reasons\<rparr>)))))"

definition preferExecutionCandidate :: "outcome_table \<Rightarrow> candidate \<Rightarrow> candidate \<Rightarrow> candidate res" where
  "preferExecutionCandidate outcomes best cand =
     rbind (Prefer outcomes (cd_outcome best) (cd_outcome cand)) (\<lambda>w.
     case w of None \<Rightarrow> Panic ''eval: invalid outcome candidate''
     | Some winner \<Rightarrow> Ok (if cd_outcome best = 0 \<or> winner \<noteq> cd_outcome best then cand else best))"

section \<open>Provenance of a reason\<close>

text \<open>The scan over the row's records; the accumulator is the first participant of a conflict.\<close>

fun find_record ::
  "batch \<Rightarrow> nat list \<Rightarrow> evidence_predicate \<Rightarrow> nat \<Rightarrow> nat list \<Rightarrow> nat \<times> nat \<Rightarrow> (nat \<times> nat) res" where
  "find_record b reasons pr reason [] participant =
     (if reason = ReasonConflict \<and> fst participant \<noteq> 0 then Ok participant
      else Panic ''eval: evidence reason has no causal record'')"
| "find_record b reasons pr reason (er # ers) participant =
     rbind (idx (ev_Kinds (b_Evidence b)) er) (\<lambda>kind.
     if kind \<noteq> ep_Kind pr then find_record b reasons pr reason ers participant
     else
       rbind (idx (ev_IDs (b_Evidence b)) er) (\<lambda>eid.
       rbind (idx (ev_States (b_Evidence b)) er) (\<lambda>state.
       rbind (classify_row (b_Evidence b) reasons pr er) (\<lambda>c.
       if mask_Has (ec_reasons c) reason then Ok (eid, state)
       else if reason = ReasonConflict \<and> fst participant = 0 \<and> (ec_positive c \<or> ec_negative c)
         then find_record b reasons pr reason ers (eid, state)
       else find_record b reasons pr reason ers participant))))"

definition row_evidence :: "batch \<Rightarrow> nat \<Rightarrow> nat list res" where
  "row_evidence b row =
     rbind (idx (b_EvidenceOffsets b) row) (\<lambda>start.
     rbind (idx (b_EvidenceOffsets b) (row + 1)) (\<lambda>end. subslice (b_EvidenceRefs b) start end))"

definition firstEvidenceReasonRecord ::
  "program \<Rightarrow> evidence_states \<Rightarrow> batch \<Rightarrow> nat \<Rightarrow> nat \<Rightarrow> nat \<Rightarrow> (nat \<times> nat) res" where
  "firstEvidenceReasonRecord p st b instruction row reason =
     (if reason = ReasonMissing then Ok (0, 0)
      else rbind (evidence_query p (instruction - 1)) (\<lambda>pr.
        rbind (row_evidence b row) (\<lambda>ers. find_record b (es_reasons st) pr reason ers (0, 0))))"

definition reasonProvenance ::
  "program \<Rightarrow> evidence_states \<Rightarrow> batch \<Rightarrow> (nat \<Rightarrow> u16 res) \<Rightarrow> candidate \<Rightarrow> nat \<Rightarrow> nat \<Rightarrow> (nat \<times> nat \<times> nat) res" where
  "reasonProvenance p st b ir cand row reason =
     (if cd_applicability cand then Ok (cd_node cand, 0, 0)
      else let clauseRow = cd_clause cand - 1 in
      rbind (idx (p_ClauseAssertionRoots p) clauseRow) (\<lambda>assertion.
      rbind (ir assertion) (\<lambda>m.
      if mask_Has m reason then rbind (idx (p_ClauseAssertionSourceNodeIDs p) clauseRow) (\<lambda>node. Ok (node, 0, 0))
      else rbind (clause_edges p clauseRow) (\<lambda>edges.
        rbind (find_edge (\<lambda>evidence. rbind (ir evidence) (\<lambda>m. Ok (mask_Has m reason))) edges) (\<lambda>found.
        case found of None \<Rightarrow> Panic ''eval: unresolved clause has no reason provenance''
        | Some (edge, evidence) \<Rightarrow>
          rbind (firstEvidenceReasonRecord p st b evidence row reason) (\<lambda>(eid, state).
          rbind (idx (p_ClauseEvidenceSourceNodeIDs p) edge) (\<lambda>node. Ok (node, eid, state))))))))"

section \<open>Results of one row\<close>

text \<open>The selector columns of one row, then the requirement mask of the bound index.\<close>

definition select_value :: "program \<Rightarrow> batch \<Rightarrow> nat \<Rightarrow> nat \<times> nat \<Rightarrow> nat list \<times> nat list \<Rightarrow> (nat list \<times> nat list) res" where
  "select_value p b row sf vp =
     (case (sf, vp) of ((selectorRow, field), (vals, present)) \<Rightarrow>
      let column = (case Schema_Lookup (p_FieldIndex p) field of Some (_, c) \<Rightarrow> c | None \<Rightarrow> 0) in
      rbind (batchWordColumn b (b_PresenceMasks b) ((field + MaxUint32) mod 2 ^ 32)) (\<lambda>presence.
      rbind (idx presence (row div 64)) (\<lambda>w.
      if w AND row_bit row \<noteq> 0 then
        rbind (upd present selectorRow 1) (\<lambda>present'.
        rbind (batchRowColumn b (b_SymbolValues b) column) (\<lambda>symbols.
        rbind (idx symbols row) (\<lambda>v.
        rbind (upd vals selectorRow v) (\<lambda>vals'. Ok (vals', present')))))
      else
        rbind (upd present selectorRow 0) (\<lambda>present'.
        rbind (upd vals selectorRow 0) (\<lambda>vals'. Ok (vals', present'))))))"

definition selectRequirementCandidates :: "(nat \<Rightarrow> program) \<Rightarrow> executor \<Rightarrow> program \<Rightarrow> batch \<Rightarrow> nat \<Rightarrow> executor res" where
  "selectRequirementCandidates H e p b row =
     rbind (res_foldM (select_value p b row) (enumerate 0 (pi_FieldIDs (p_ApplicabilityIndex p)))
       (scratch_view (ex_selectorValues e), scratch_view (ex_selectorPresent e))) (\<lambda>(vals, present).
     case ex_query e of None \<Rightarrow> Panic ''eval: invalid bound applicability query''
     | Some q \<Rightarrow>
       (case Query_Candidates (p_ApplicabilityIndex (H q)) (scratch_view (ex_candidateWords e)) vals present of
          Ok cand \<Rightarrow> Ok (e\<lparr>ex_selectorValues := scratch_write (ex_selectorValues e) vals,
            ex_selectorPresent := scratch_write (ex_selectorPresent e) present,
            ex_candidateWords := scratch_write (ex_candidateWords e) cand\<rparr>)
        | Err _ \<Rightarrow> Panic ''eval: invalid bound applicability query''
        | Panic m \<Rightarrow> Panic m))"

definition resolve_requirement ::
  "program \<Rightarrow> (nat \<Rightarrow> tv res) \<Rightarrow> (nat \<Rightarrow> u16 res) \<Rightarrow> u64 list \<Rightarrow> nat \<times> nat \<Rightarrow> nat list \<times> candidate \<Rightarrow> (nat list \<times> candidate) res" where
  "resolve_requirement p it ir cand rr acc =
     (case (rr, acc) of ((requirementRow, requirementID), (ids, best)) \<Rightarrow>
      rbind (idx cand (requirementRow div 64)) (\<lambda>w.
      if w AND row_bit requirementRow = 0 then Ok acc
      else
        rbind (idx (p_RequirementRoots p) requirementRow) (\<lambda>root.
        rbind (it root) (\<lambda>(positive, negative).
        if \<not> positive \<and> negative then Ok acc
        else
          rbind (idx (p_RequirementClauseStarts p) requirementRow) (\<lambda>start.
          rbind (idx (p_RequirementClauseCounts p) requirementRow) (\<lambda>count.
          rbind (subslice (p_RequirementClauseIDs p) start (start + count)) (\<lambda>clauses.
          rbind (res_foldM (\<lambda>clauseID best.
              rbind (if positive \<and> \<not> negative then resolveActiveClause p it ir requirementID clauseID
                     else rbind (idx (p_RequirementSourceNodeIDs p) requirementRow) (\<lambda>node.
                       resolveApplicability p ir requirementID clauseID root node)) (\<lambda>c.
              preferExecutionCandidate (p_Outcomes p) best c)) clauses best) (\<lambda>best'.
          Ok (ids @ [requirementID], best')))))))))"

text \<open>The reasons of the winning candidate, in reason order, each with its provenance.\<close>

definition reason_edges ::
  "program \<Rightarrow> evidence_states \<Rightarrow> batch \<Rightarrow> (nat \<Rightarrow> u16 res) \<Rightarrow> candidate \<Rightarrow> nat \<Rightarrow> (nat \<times> nat \<times> nat \<times> nat) list res" where
  "reason_edges p st b ir best row =
     res_mapM (\<lambda>reason. rbind (reasonProvenance p st b ir best row reason) (\<lambda>prov. Ok (reason, prov)))
       (filter (mask_Has (cd_reasons best)) [ReasonMissing..<ReasonConflict + 1])"

record row_result =
  rw_requirements :: "nat list"
  rw_best :: candidate
  rw_reasons :: "(nat \<times> nat \<times> nat \<times> nat) list"
  rw_evidence :: "nat list"

definition resolve_row ::
  "program \<Rightarrow> evidence_states \<Rightarrow> batch \<Rightarrow> (nat \<Rightarrow> tv res) \<Rightarrow> (nat \<Rightarrow> u16 res) \<Rightarrow> u64 list \<Rightarrow> bool \<Rightarrow> nat \<Rightarrow> row_result res" where
  "resolve_row p st b it ir cand usesEvidence row =
     rbind (res_foldM (resolve_requirement p it ir cand) (enumerate 0 (p_RequirementIDs p)) ([], no_candidate)) (\<lambda>(ids, best).
     rbind (if cd_outcome best \<noteq> 0 then reason_edges p st b ir best row else Ok []) (\<lambda>reasons.
     rbind (if usesEvidence then rbind (row_evidence b row) (res_mapM (idx (ev_IDs (b_Evidence b)))) else Ok []) (\<lambda>evidence.
     Ok \<lparr>rw_requirements = ids, rw_best = best, rw_reasons = reasons, rw_evidence = evidence\<rparr>)))"

text \<open>Appending a row to the result; an offset is the new length of its edge column, as \<^verbatim>\<open>uint32\<close>.\<close>

definition append_row :: "nat \<Rightarrow> row_result \<Rightarrow> result_batch \<Rightarrow> result_batch" where
  "append_row row r dst =
     (let best = rw_best r; won = cd_outcome best \<noteq> 0; drv = (\<lambda>x. if won then [x] else []);
          reqs = rb_RequirementIDs dst @ rw_requirements r; nodes = rb_DriverNodes dst @ drv (cd_node best);
          evs = rb_EvidenceIDs dst @ rw_evidence r; rids = rb_ReasonIDs dst @ map fst (rw_reasons r);
          rems = rb_RemediationIDs dst @ (if won then cd_remediations best else []) in
      dst\<lparr>rb_OutcomeIDs := (if won then (rb_OutcomeIDs dst)[row := cd_outcome best] else rb_OutcomeIDs dst),
        rb_RequirementIDs := reqs, rb_RequirementOffsets := (rb_RequirementOffsets dst)[row + 1 := length reqs mod 2 ^ 32],
        rb_DriverRequirements := rb_DriverRequirements dst @ drv (cd_requirement best),
        rb_DriverClauses := rb_DriverClauses dst @ drv (cd_clause best),
        rb_DriverNodes := nodes,
        rb_DriverReasons := rb_DriverReasons dst @ drv (cd_driverReason best),
        rb_DriverExplanations := rb_DriverExplanations dst @ drv (cd_explanation best),
        rb_DriverOffsets := (rb_DriverOffsets dst)[row + 1 := length nodes mod 2 ^ 32],
        rb_EvidenceIDs := evs, rb_EvidenceOffsets := (rb_EvidenceOffsets dst)[row + 1 := length evs mod 2 ^ 32],
        rb_ReasonIDs := rids,
        rb_ReasonNodes := rb_ReasonNodes dst @ map (fst \<circ> snd) (rw_reasons r),
        rb_ReasonEvidenceIDs := rb_ReasonEvidenceIDs dst @ map (fst \<circ> snd \<circ> snd) (rw_reasons r),
        rb_ReasonEvidenceStates := rb_ReasonEvidenceStates dst @ map (snd \<circ> snd \<circ> snd) (rw_reasons r),
        rb_ReasonOffsets := (rb_ReasonOffsets dst)[row + 1 := length rids mod 2 ^ 32],
        rb_RemediationIDs := rems, rb_RemediationOffsets := (rb_RemediationOffsets dst)[row + 1 := length rems mod 2 ^ 32]\<rparr>)"

definition finalizeResults ::
  "(nat \<Rightarrow> program) \<Rightarrow> executor \<Rightarrow> result_batch \<Rightarrow> nat \<Rightarrow> batch \<Rightarrow> bool \<Rightarrow> (executor \<times> result_batch) res" where
  "finalizeResults H e dst a b usesEvidence =
     (let p = H a; rows = b_Rows b in
      res_foldM (\<lambda>row (e, dst).
        rbind (selectRequirementCandidates H e p b row) (\<lambda>e1.
        rbind (resolve_row p (ex_states e1) b (instructionTruth H e1 p row rows) (instructionReasons H e1 p row rows)
          (scratch_view (ex_candidateWords e1)) usesEvidence row) (\<lambda>r.
        Ok (e1, append_row row r dst)))) [0..<rows] (e, dst))"

section \<open>Execution\<close>

definition executeMode ::
  "simd_backend \<Rightarrow> (nat \<Rightarrow> program) \<Rightarrow> executor \<Rightarrow> result_batch \<Rightarrow> nat \<Rightarrow> batch \<Rightarrow> execution_mode \<Rightarrow> executor \<times> result_batch res" where
  "executeMode K H e dst a b mode =
     (case prepareExecution H e dst a b mode of
        (e1, Err err) \<Rightarrow> (e1, Err err) | (e1, Panic m) \<Rightarrow> (e1, Panic m)
      | (e1, Ok (dst1, usesEvidence)) \<Rightarrow>
        (case rbind (executeScheduleMode K H e1 a b mode) (\<lambda>e2. finalizeResults H e2 dst1 a b usesEvidence) of
           Ok (e3, dst3) \<Rightarrow> (e3, Ok dst3) | Err err \<Rightarrow> (e1, Err err) | Panic m \<Rightarrow> (e1, Panic m)))"

definition Execute ::
  "simd_backend \<Rightarrow> (nat \<Rightarrow> program) \<Rightarrow> executor \<Rightarrow> result_batch \<Rightarrow> nat \<Rightarrow> batch \<Rightarrow> executor \<times> result_batch res" where
  "Execute K H e dst a b = executeMode K H e dst a b executionAuto"

text \<open>The offsets of a range are written relative to its first edge; a decreasing or overlong offset is refused.\<close>

fun rebase_offsets :: "nat \<Rightarrow> nat \<Rightarrow> nat \<Rightarrow> nat list \<Rightarrow> nat list option" where
  "rebase_offsets base limit previous [] = Some []"
| "rebase_offsets base limit previous (offset # offsets) =
     (if offset < previous \<or> offset > limit then None
      else map_option (\<lambda>xs. (offset - base) # xs) (rebase_offsets base limit offset offsets))"

definition range_view :: "program \<Rightarrow> batch \<Rightarrow> nat \<Rightarrow> nat \<Rightarrow> nat list \<Rightarrow> batch res" where
  "range_view p b start end evidenceOffsets =
     (if b_rowStride b \<noteq> 0 \<or> b_rowBase b \<noteq> 0 \<or> start > end \<or> end > b_Rows b \<or> start mod 64 \<noteq> 0 \<or>
         (end mod 64 \<noteq> 0 \<and> end \<noteq> b_Rows b) then Err ErrInvalidProgram
      else let rows = end - start in
      if rows + 1 > MaxInt \<or> length evidenceOffsets \<noteq> rows + 1 \<or> length (b_RequestIDs b) \<noteq> b_Rows b then Err ErrInvalidProgram
      else let view = b\<lparr>b_Rows := rows, b_rowBase := start, b_rowStride := b_Rows b,
             b_RequestIDs := take rows (drop start (b_RequestIDs b))\<rparr> in
      if programUsesEvidence p then
        (if length (b_EvidenceOffsets b) \<noteq> b_Rows b + 1 then Err ErrInvalidProgram
         else let base = b_EvidenceOffsets b ! start; limit = b_EvidenceOffsets b ! end in
         if base > limit \<or> limit > length (b_EvidenceRefs b) then Err ErrInvalidProgram
         else case rebase_offsets base limit base (take (rows + 1) (drop start (b_EvidenceOffsets b))) of
           None \<Rightarrow> Err ErrInvalidProgram
         | Some offsets \<Rightarrow> Ok (view\<lparr>b_EvidenceOffsets := offsets,
             b_EvidenceRefs := take (limit - base) (drop base (b_EvidenceRefs b))\<rparr>))
      else Ok (view\<lparr>b_EvidenceOffsets := replicate (rows + 1) 0, b_EvidenceRefs := []\<rparr>))"

definition executeRangeMode ::
  "simd_backend \<Rightarrow> (nat \<Rightarrow> program) \<Rightarrow> executor \<Rightarrow> result_batch \<Rightarrow> nat \<Rightarrow> batch \<Rightarrow> nat \<Rightarrow> nat \<Rightarrow> nat list \<Rightarrow> execution_mode \<Rightarrow>
   executor \<times> result_batch res" where
  "executeRangeMode K H e dst a b start end evidenceOffsets mode =
     (case range_view (H a) b start end evidenceOffsets of
        Ok view \<Rightarrow> executeMode K H e dst a view mode
      | Err err \<Rightarrow> (e, Err err) | Panic m \<Rightarrow> (e, Panic m))"

definition ExecuteRange ::
  "simd_backend \<Rightarrow> (nat \<Rightarrow> program) \<Rightarrow> executor \<Rightarrow> result_batch \<Rightarrow> nat \<Rightarrow> batch \<Rightarrow> nat \<Rightarrow> nat \<Rightarrow> nat list \<Rightarrow> executor \<times> result_batch res" where
  "ExecuteRange K H e dst a b start end evidenceOffsets = executeRangeMode K H e dst a b start end evidenceOffsets executionAuto"

end
