(* ===== verification/NR_Semantics.thy ===== *)
theory NR_Semantics
  imports NR_Executor
begin

text \<open>
  The reference semantics of a whole execution, and the proof that the executor computes it.

  \<open>row_spec\<close> gives the result of one request row from the values \<open>sem\<close> of the roots alone: the
  requirements that the applicability index admits and that are not false, one candidate per clause,
  the best candidate by the policy's precedence, and the provenance of its reasons. \<open>result_of\<close> lays
  the rows out as the compressed columns of a result batch. The executor's loops, its scratch, its
  slots, its mode and its vector backend do not occur in it.
\<close>

section \<open>Values of the roots\<close>

definition truth_of :: "program \<Rightarrow> batch \<Rightarrow> nat \<Rightarrow> nat \<Rightarrow> tv" where
  "truth_of p b row root = fst (sem p b row (root - 1))"

definition reasons_of :: "program \<Rightarrow> batch \<Rightarrow> nat \<Rightarrow> nat \<Rightarrow> u16" where
  "reasons_of p b row root = snd (sem p b row (root - 1))"

text \<open>A clause holds when its assertion and all its evidence do.\<close>

definition clause_edge_range :: "program \<Rightarrow> nat \<Rightarrow> 'a list \<Rightarrow> 'a list" where
  "clause_edge_range p c xs = take (p_ClauseEvidenceCounts p ! c) (drop (p_ClauseEvidenceStarts p ! c) xs)"

definition clause_roots :: "program \<Rightarrow> nat \<Rightarrow> nat list" where
  "clause_roots p c = p_ClauseAssertionRoots p ! c # clause_edge_range p c (p_ClauseEvidenceIDs p)"

definition clause_nodes :: "program \<Rightarrow> nat \<Rightarrow> nat list" where
  "clause_nodes p c = p_ClauseAssertionSourceNodeIDs p ! c # clause_edge_range p c (p_ClauseEvidenceSourceNodeIDs p)"

definition clause_tv :: "program \<Rightarrow> batch \<Rightarrow> nat \<Rightarrow> nat \<Rightarrow> tv" where
  "clause_tv p b row c = tv_all (map (truth_of p b row) (clause_roots p c))"

definition clause_mask :: "program \<Rightarrow> batch \<Rightarrow> nat \<Rightarrow> nat \<Rightarrow> u16" where
  "clause_mask p b row c = mask_union (map (reasons_of p b row) (clause_roots p c))"

text \<open>The source node of the first root of the clause with a given property.\<close>

definition first_root :: "program \<Rightarrow> nat \<Rightarrow> (nat \<Rightarrow> bool) \<Rightarrow> nat \<times> nat" where
  "first_root p c P = (case List.find (\<lambda>(root, node). P root) (zip (clause_roots p c) (clause_nodes p c)) of
     Some rn \<Rightarrow> rn | None \<Rightarrow> (0, 0))"

section \<open>Candidates\<close>

definition best_resolution :: "program \<Rightarrow> nat \<Rightarrow> u16 \<Rightarrow> resolution" where
  "best_resolution p clauseID m =
     (let base = (clauseID - 1) * ReasonCount in
      case pick_best (better (p_Outcomes p)) (rule_choices (p_resolver p) base m) of
        Some c \<Rightarrow> resolution_row (p_resolver p) base c
      | None \<Rightarrow> \<lparr>rn_Remediations = [], rn_Outcome = 0, rn_Explanation = 0, rn_Reason = 0, rn_Terminal = False\<rparr>)"

definition clause_remediations :: "program \<Rightarrow> nat \<Rightarrow> nat \<Rightarrow> nat list" where
  "clause_remediations p c oid =
     (if ot_Terminal (p_Outcomes p) ! (oid - 1) then []
      else take (p_ClauseRemediationCounts p ! c) (drop (p_ClauseRemediationStarts p ! c) (p_ClauseRemediationIDs p)))"

definition clause_candidate :: "program \<Rightarrow> batch \<Rightarrow> nat \<Rightarrow> nat \<Rightarrow> nat \<Rightarrow> candidate" where
  "clause_candidate p b row requirementID clauseID =
     (let c = clauseID - 1; base = no_candidate\<lparr>cd_requirement := requirementID, cd_clause := clauseID\<rparr>;
          v = clause_tv p b row c; m = clause_mask p b row c in
      if v = (True, False) then
        base\<lparr>cd_outcome := p_ClauseOnSatisfied p ! c, cd_explanation := p_ClauseExplanationIDs p ! (c * clauseExplanationBranchCount),
          cd_node := p_ClauseAssertionSourceNodeIDs p ! c, cd_remediations := clause_remediations p c (p_ClauseOnSatisfied p ! c)\<rparr>
      else if v = (False, True) then
        base\<lparr>cd_outcome := p_ClauseOnFalse p ! c, cd_explanation := p_ClauseExplanationIDs p ! (c * clauseExplanationBranchCount + 1),
          cd_node := snd (first_root p c (\<lambda>root. snd (truth_of p b row root))),
          cd_remediations := clause_remediations p c (p_ClauseOnFalse p ! c)\<rparr>
      else let r = best_resolution p clauseID m in
        base\<lparr>cd_outcome := rn_Outcome r, cd_explanation := rn_Explanation r, cd_driverReason := rn_Reason r,
          cd_node := snd (first_root p c (\<lambda>root. mask_Has (reasons_of p b row root) (rn_Reason r))),
          cd_remediations := executionResolutionRemediations r, cd_reasons := m\<rparr>)"

definition applicability_candidate :: "program \<Rightarrow> batch \<Rightarrow> nat \<Rightarrow> nat \<Rightarrow> nat \<Rightarrow> candidate" where
  "applicability_candidate p b row rr clauseID =
     (let m = reasons_of p b row (p_RequirementRoots p ! rr); r = best_resolution p clauseID m in
      \<lparr>cd_remediations = executionResolutionRemediations r, cd_outcome = rn_Outcome r, cd_explanation = rn_Explanation r,
       cd_requirement = p_RequirementIDs p ! rr, cd_clause = clauseID, cd_node = p_RequirementSourceNodeIDs p ! rr,
       cd_reasons = m, cd_driverReason = rn_Reason r, cd_applicability = True\<rparr>)"

definition requirement_clauses :: "program \<Rightarrow> nat \<Rightarrow> nat list" where
  "requirement_clauses p rr =
     take (p_RequirementClauseCounts p ! rr) (drop (p_RequirementClauseStarts p ! rr) (p_RequirementClauseIDs p))"

definition requirement_candidates :: "program \<Rightarrow> batch \<Rightarrow> nat \<Rightarrow> nat \<Rightarrow> candidate list" where
  "requirement_candidates p b row rr =
     map (\<lambda>clauseID. if truth_of p b row (p_RequirementRoots p ! rr) = (True, False)
                      then clause_candidate p b row (p_RequirementIDs p ! rr) clauseID
                      else applicability_candidate p b row rr clauseID) (requirement_clauses p rr)"

section \<open>Rows and result batches\<close>

text \<open>The value of a selector field on a row, when the field is present.\<close>

definition selector_value :: "program \<Rightarrow> batch \<Rightarrow> nat \<Rightarrow> nat \<Rightarrow> nat" where
  "selector_value p b row field =
     (case Schema_Lookup (p_FieldIndex p) field of
        Some (_, column) \<Rightarrow> (case Batch_Symbol b column row of Some v \<Rightarrow> v | None \<Rightarrow> 0)
      | None \<Rightarrow> 0)"

definition admitted :: "program \<Rightarrow> batch \<Rightarrow> nat \<Rightarrow> nat \<Rightarrow> bool" where
  "admitted p b row rr =
     (let ix = p_ApplicabilityIndex p in
      list_all (\<lambda>i. Batch_Present b (pi_FieldIDs ix ! i) row \<longrightarrow>
        wbit (mask_of ix i (selector_value p b row (pi_FieldIDs ix ! i))) rr) [0..<length (pi_FieldIDs ix)])"

definition considered :: "program \<Rightarrow> batch \<Rightarrow> nat \<Rightarrow> nat list" where
  "considered p b row = filter (\<lambda>rr. admitted p b row rr \<and> truth_of p b row (p_RequirementRoots p ! rr) \<noteq> (False, True))
     [0..<length (p_RequirementIDs p)]"

definition row_candidates :: "program \<Rightarrow> batch \<Rightarrow> nat \<Rightarrow> candidate list" where
  "row_candidates p b row = concat (map (requirement_candidates p b row) (considered p b row))"

definition best_candidate :: "outcome_table \<Rightarrow> candidate list \<Rightarrow> candidate" where
  "best_candidate t cs = (case pick_best (better t) (map (\<lambda>c. (cd_outcome c, c)) cs) of
     Some (_, c) \<Rightarrow> c | None \<Rightarrow> no_candidate)"

definition causal_record :: "program \<Rightarrow> batch \<Rightarrow> nat \<Rightarrow> nat \<Rightarrow> nat \<Rightarrow> nat \<times> nat" where
  "causal_record p b row root reason =
     (let pr = query_at p (root - 1); ev = b_Evidence b; cls = record_class p ev pr;
          recs = filter (\<lambda>er. ev_Kinds ev ! er = ep_Kind pr) (row_refs b row); out = (\<lambda>er. (ev_IDs ev ! er, ev_States ev ! er)) in
      if reason = ReasonMissing then (0, 0)
      else case List.find (\<lambda>er. mask_Has (ec_reasons (cls er)) reason) recs of
        Some er \<Rightarrow> out er
      | None \<Rightarrow> (case List.find (\<lambda>er. ec_positive (cls er) \<or> ec_negative (cls er)) recs of Some er \<Rightarrow> out er | None \<Rightarrow> (0, 0)))"

definition provenance :: "program \<Rightarrow> batch \<Rightarrow> nat \<Rightarrow> candidate \<Rightarrow> nat \<Rightarrow> nat \<times> nat \<times> nat" where
  "provenance p b row cand reason =
     (if cd_applicability cand then (cd_node cand, 0, 0)
      else let c = cd_clause cand - 1; assertion = p_ClauseAssertionRoots p ! c in
      if mask_Has (reasons_of p b row assertion) reason then (p_ClauseAssertionSourceNodeIDs p ! c, 0, 0)
      else case first_root p c (\<lambda>root. mask_Has (reasons_of p b row root) reason) of
        (root, node) \<Rightarrow> (node, causal_record p b row root reason))"

definition row_spec :: "program \<Rightarrow> batch \<Rightarrow> nat \<Rightarrow> row_result" where
  "row_spec p b row =
     (let best = best_candidate (p_Outcomes p) (row_candidates p b row) in
      \<lparr>rw_requirements = map (nth (p_RequirementIDs p)) (considered p b row), rw_best = best,
       rw_reasons = map (\<lambda>reason. (reason, provenance p b row best reason))
         (filter (mask_Has (cd_reasons best)) [ReasonMissing..<ReasonConflict + 1]),
       rw_evidence = (if programUsesEvidence p then map (nth (ev_IDs (b_Evidence b))) (row_refs b row) else [])\<rparr>)"

text \<open>Compressed rows: the offsets are the lengths of the prefixes.\<close>

definition csr_offsets :: "nat \<Rightarrow> (nat \<Rightarrow> 'a list) \<Rightarrow> nat list" where
  "csr_offsets n f = map (\<lambda>k. length (concat (map f [0..<k]))) [0..<n + 1]"

definition csr_edges :: "nat \<Rightarrow> (nat \<Rightarrow> 'a list) \<Rightarrow> 'a list" where
  "csr_edges n f = concat (map f [0..<n])"

definition row_driver :: "row_result \<Rightarrow> candidate list" where
  "row_driver r = (if cd_outcome (rw_best r) \<noteq> 0 then [rw_best r] else [])"

definition rows_batch :: "nat \<Rightarrow> (nat \<Rightarrow> row_result) \<Rightarrow> result_batch" where
  "rows_batch n R =
     \<lparr>rb_OutcomeIDs = map (\<lambda>row. cd_outcome (rw_best (R row))) [0..<n],
      rb_RequirementOffsets = csr_offsets n (\<lambda>row. rw_requirements (R row)),
      rb_RequirementIDs = csr_edges n (\<lambda>row. rw_requirements (R row)),
      rb_DriverOffsets = csr_offsets n (\<lambda>row. row_driver (R row)),
      rb_DriverRequirements = map cd_requirement (csr_edges n (\<lambda>row. row_driver (R row))),
      rb_DriverClauses = map cd_clause (csr_edges n (\<lambda>row. row_driver (R row))),
      rb_DriverNodes = map cd_node (csr_edges n (\<lambda>row. row_driver (R row))),
      rb_DriverReasons = map cd_driverReason (csr_edges n (\<lambda>row. row_driver (R row))),
      rb_DriverExplanations = map cd_explanation (csr_edges n (\<lambda>row. row_driver (R row))),
      rb_EvidenceOffsets = csr_offsets n (\<lambda>row. rw_evidence (R row)),
      rb_EvidenceIDs = csr_edges n (\<lambda>row. rw_evidence (R row)),
      rb_ReasonOffsets = csr_offsets n (\<lambda>row. rw_reasons (R row)),
      rb_ReasonIDs = map fst (csr_edges n (\<lambda>row. rw_reasons (R row))),
      rb_ReasonNodes = map (fst \<circ> snd) (csr_edges n (\<lambda>row. rw_reasons (R row))),
      rb_ReasonEvidenceIDs = map (fst \<circ> snd \<circ> snd) (csr_edges n (\<lambda>row. rw_reasons (R row))),
      rb_ReasonEvidenceStates = map (snd \<circ> snd \<circ> snd) (csr_edges n (\<lambda>row. rw_reasons (R row))),
      rb_RemediationOffsets = csr_offsets n (\<lambda>row. concat (map cd_remediations (row_driver (R row)))),
      rb_RemediationIDs = csr_edges n (\<lambda>row. concat (map cd_remediations (row_driver (R row)))),
      rb_Rows = n\<rparr>"

definition result_of :: "program \<Rightarrow> batch \<Rightarrow> result_batch" where
  "result_of p b = rows_batch (b_Rows b) (row_spec p b)"

section \<open>Hypotheses on programs and batches\<close>

text \<open>
  What the compiler establishes and \<^verbatim>\<open>validExecutionSemantics\<close> does not repeat: well-formed
  instructions, sound slot reuse, a resolver over the program's own tables, and evidence roots that are
  evidence instructions.
\<close>

definition program_ok :: "program \<Rightarrow> bool" where
  "program_ok p \<longleftrightarrow> instrs_ok p \<and> slots_ok (p_TruthSlots p) p \<and> slots_ok (p_ReasonSlots p) p \<and>
     validExecutionSemantics p = Ok True \<and> validBoundPolicy (p_ApplicabilityIndex p) \<and>
     resolver_ok (p_resolver p) \<and> rv_outcomes (p_resolver p) = p_Outcomes p \<and> rv_rules (p_resolver p) = p_Resolutions p \<and>
     list_all (\<lambda>root. p_Opcodes p ! (root - 1) = OpcodeEvidence) (p_ClauseEvidenceIDs p)"

text \<open>Widths of the Go types, and the sizes an allocation can have.\<close>

definition physical :: "program \<Rightarrow> batch \<Rightarrow> bool" where
  "physical p b \<longleftrightarrow> batch_u32 b \<and> program_u32 p \<and> length (is_Kinds (p_FieldIndex p)) \<le> MaxUint32 \<and>
     length (b_SymbolValues b) \<le> MaxInt div 4 \<and> length (fs_Values (p_FactIndexSpec p)) \<le> MaxUint32"

definition input_ok :: "program \<Rightarrow> batch \<Rightarrow> bool" where
  "input_ok p b \<longleftrightarrow> batch_ok p b \<and> length (b_RequestIDs b) = b_Rows b"

section \<open>An unresolved value has a reason\<close>

lemma leaf_unresolved: "\<not> tv_resolved (leaf_truth p b i row) \<Longrightarrow> predicate_ok p i \<Longrightarrow> leaf_reasons p b i row \<noteq> 0"
  by (cases "p_Opcodes p ! i") (auto simp: tv_resolved_def leaf_truth_def leaf_reasons_def predicate_ok_def predicate_opcode_def ReasonBit_def split: option.splits)

lemma leaf_reasons_valid [simp]: "mask_Valid (leaf_reasons p b i row)"
  by (simp add: leaf_reasons_def)

lemma tv_all_unresolved: "\<not> tv_resolved (tv_all vs) \<Longrightarrow> \<exists>v \<in> set vs. \<not> tv_resolved v"
  by (auto simp: tv_resolved_def tv_all_def list_all_iff list_ex_iff)

lemma tv_any_unresolved: "\<not> tv_resolved (tv_any vs) \<Longrightarrow> \<exists>v \<in> set vs. \<not> tv_resolved v"
  by (auto simp: tv_resolved_def tv_any_def list_all_iff list_ex_iff)

lemma mask_union_nonzero: "m \<in> set ms \<Longrightarrow> m \<noteq> 0 \<Longrightarrow> mask_union ms \<noteq> 0"
  by (metis bit_mask_union bit_0_eq bot_apply bit_eq_iff bot_bool_def)

lemma sem_reasons:
  assumes "instrs_ok p" "batch_ok p b" "i < length (p_Opcodes p)"
  shows "mask_Valid (snd (sem p b row i)) \<and> (\<not> tv_resolved (fst (sem p b row i)) \<longrightarrow> snd (sem p b row i) \<noteq> 0)"
  using assms(3)
proof (induction i rule: less_induct)
  case (less i)
  let ?op = "p_Opcodes p ! i" and ?s = "\<lambda>x. sem p b row (x - 1)"
  have s: "validExecutionSchedule p" and ok: "instr_ok p i" using assms(1) less.prems by (auto simp: instrs_ok_def list_all_iff)
  have IH: "mask_Valid (snd (?s x)) \<and> (\<not> tv_resolved (fst (?s x)) \<longrightarrow> snd (?s x) \<noteq> 0)" if "x \<in> set (operands p i)" for x
    using less.IH[of "x - 1"] group_operands_ok(2)[OF s less.prems that] less.prems by simp
  note c = sem_cases[OF s less.prems, of b row]
  consider "?op = OpcodeBoolean" | "?op = OpcodeEvidence" | "?op \<in> {OpcodeAll, OpcodeAny}" | "?op = OpcodeNot"
    | "predicate_opcode ?op" "predicate_ok p i"
    using ok schedule_slots(5)[OF s less.prems] by (cases ?op) (auto simp: instr_ok_def predicate_opcode_def opcode_Valid_def)
  then show ?case
  proof cases
    case 1
    then show ?thesis using c(2) by (simp add: tv_resolved_def)
  next
    case 2
    then have "validEvidenceBatch b p" using assms(2) less.prems
      by (auto simp: batch_ok_def programUsesEvidence_def list_ex_iff in_set_conv_nth)
    then show ?thesis using 2 c(3) evidence_reasons_Has(1) evidence_unresolved by simp
  next
    case 3
    have "\<exists>x \<in> set (operands p i). \<not> tv_resolved (fst (?s x))" if "\<not> tv_resolved (fst (sem p b row i))"
      using that c(4)[OF 3] tv_all_unresolved[of "map (\<lambda>x. fst (?s x)) (operands p i)"]
        tv_any_unresolved[of "map (\<lambda>x. fst (?s x)) (operands p i)"] by (auto simp: group_tv_def split: if_splits)
    then show ?thesis using IH c(4)[OF 3] mask_union_nonzero[of _ "map (\<lambda>x. snd (?s x)) (operands p i)"]
      by (auto intro!: mask_Valid_union)
  next
    case 4
    have "operands p i ! 0 \<in> set (operands p i)" using schedule_operands(5)[OF s less.prems 4] by simp
    then show ?thesis using IH c(5)[OF 4] by (cases "fst (?s (operands p i ! 0))") (auto simp: tv_resolved_def)
  next
    case 5
    then show ?thesis using c(1) leaf_unresolved by auto
  qed
qed

section \<open>Consequences of the validation\<close>

definition root_ok :: "program \<Rightarrow> nat \<Rightarrow> bool" where
  "root_ok p root \<longleftrightarrow> root \<noteq> 0 \<and> root \<le> length (p_Opcodes p) \<and> p_RootFlags p ! (root - 1) \<noteq> 0"

lemma validExecutionRoot_ok: "validExecutionRoot p root flag \<Longrightarrow> flag \<noteq> 0 \<Longrightarrow> root_ok p root"
  by (auto simp: validExecutionRoot_def root_ok_def flags_Has_def)

lemma semantics_parts:
  assumes "validExecutionSemantics p = Ok True"
  shows "validExecutionSchedule p" "FactSpec_Valid (p_FactIndexSpec p) (p_FieldIndex p) (p_ProgramSymbolCount p)"
    "validFactIndexQueries p = Ok True" "valid_semantic_columns p"
    "list_all (\<lambda>name. Program_Symbol p name \<noteq> None) (p_EvidenceStateNames p)"
    "list_all (\<lambda>field. case Schema_Lookup (p_FieldIndex p) field of None \<Rightarrow> False
        | Some (kind, column) \<Rightarrow> kind = ValueKindSymbol \<and> column < kind_count (p_FieldIndex p) ValueKindSymbol) (pi_FieldIDs (p_ApplicabilityIndex p))"
    "list_all (valid_requirement_row p) [0..<length (p_RequirementIDs p)]"
    "list_all (valid_clause_row p) [0..<length (p_ClauseAssertionRoots p)]"
  using assms unfolding validExecutionSemantics_def by (cases "validFactIndexQueries p"; auto split: if_splits)+

lemma semantics_columns:
  assumes "validExecutionSemantics p = Ok True"
  defines "n \<equiv> length (p_RequirementIDs p)" and "c \<equiv> length (p_ClauseAssertionRoots p)"
  shows "pi_RequirementCount (p_ApplicabilityIndex p) = n" "length (p_RequirementRoots p) = n" "length (p_RequirementSourceNodeIDs p) = n"
    "length (p_RequirementClauseStarts p) = n" "length (p_RequirementClauseCounts p) = n"
    "length (p_ClauseEvidenceStarts p) = c" "length (p_ClauseEvidenceCounts p) = c" "length (p_ClauseOnSatisfied p) = c"
    "length (p_ClauseOnFalse p) = c" "length (p_ClauseAssertionSourceNodeIDs p) = c"
    "length (p_ClauseEvidenceSourceNodeIDs p) = length (p_ClauseEvidenceIDs p)"
    "length (p_ClauseExplanationIDs p) = c * clauseExplanationBranchCount" "length (rs_OutcomeIDs (p_Resolutions p)) = c * ReasonCount"
    "length (p_ClauseRemediationStarts p) = c" "length (p_ClauseRemediationCounts p) = c" "n \<le> MaxUint32"
  using semantics_parts(4)[OF assms(1)] by (simp_all add: valid_semantic_columns_def Let_def n_def c_def)

lemma requirement_row:
  assumes "validExecutionSemantics p = Ok True" "rr < length (p_RequirementIDs p)"
  shows "root_ok p (p_RequirementRoots p ! rr)"
    and "subslice (p_RequirementClauseIDs p) (p_RequirementClauseStarts p ! rr)
      (p_RequirementClauseStarts p ! rr + p_RequirementClauseCounts p ! rr) = Ok (requirement_clauses p rr)"
    and "clauseID \<in> set (requirement_clauses p rr) \<Longrightarrow> clauseID \<noteq> 0 \<and> clauseID - 1 < length (p_ClauseAssertionRoots p)"
    and "requirement_clauses p rr \<noteq> []" and "p_RequirementIDs p ! rr \<noteq> 0"
proof -
  have v: "valid_requirement_row p rr" using semantics_parts(7)[OF assms(1)] assms(2) by (rule list_all_uptD)
  show "root_ok p (p_RequirementRoots p ! rr)"
    using v by (auto simp: valid_requirement_row_def split: if_splits intro: validExecutionRoot_ok)
  show "subslice (p_RequirementClauseIDs p) (p_RequirementClauseStarts p ! rr)
      (p_RequirementClauseStarts p ! rr + p_RequirementClauseCounts p ! rr) = Ok (requirement_clauses p rr)"
    using v by (simp add: valid_requirement_row_def requirement_clauses_def Let_def split: if_splits)
  show "clauseID \<noteq> 0 \<and> clauseID - 1 < length (p_ClauseAssertionRoots p)" if "clauseID \<in> set (requirement_clauses p rr)"
  proof -
    have "clauseID \<noteq> 0 \<and> clauseID \<le> length (p_ClauseAssertionRoots p)"
      using v that by (auto simp: valid_requirement_row_def requirement_clauses_def Let_def list_all_iff split: if_splits)
    then show ?thesis by linarith
  qed
  show "requirement_clauses p rr \<noteq> []" "p_RequirementIDs p ! rr \<noteq> 0"
    using v by (auto simp: valid_requirement_row_def requirement_clauses_def Let_def split: if_splits)
qed

lemma clause_row:
  assumes "validExecutionSemantics p = Ok True" "c < length (p_ClauseAssertionRoots p)"
  shows "root \<in> set (clause_roots p c) \<Longrightarrow> root_ok p root"
    and "p_ClauseEvidenceStarts p ! c + p_ClauseEvidenceCounts p ! c \<le> length (p_ClauseEvidenceIDs p)"
    and "\<exists>oc. Outcome_Lookup (p_Outcomes p) (p_ClauseOnSatisfied p ! c) = Some oc"
    and "\<exists>oc. Outcome_Lookup (p_Outcomes p) (p_ClauseOnFalse p ! c) = Some oc"
    and "p_ClauseRemediationStarts p ! c + p_ClauseRemediationCounts p ! c \<le> length (p_ClauseRemediationIDs p)"
proof -
  let ?s = "p_ClauseEvidenceStarts p ! c" and ?k = "p_ClauseEvidenceCounts p ! c"
  have v: "valid_clause_row p c" using semantics_parts(8)[OF assms(1)] assms(2) by (rule list_all_uptD)
  show fit: "?s + ?k \<le> length (p_ClauseEvidenceIDs p)" using v by (auto simp: valid_clause_row_def Let_def split: if_splits)
  have a: "root_ok p (p_ClauseAssertionRoots p ! c)"
    using v by (auto simp: valid_clause_row_def split: if_splits intro: validExecutionRoot_ok)
  have e: "root_ok p (p_ClauseEvidenceIDs p ! edge)" if "?s \<le> edge" "edge < ?s + ?k" for edge
  proof -
    have "list_all (\<lambda>edge. \<not> (p_ClauseEvidenceSourceNodeIDs p ! edge = 0 \<or>
        \<not> validExecutionRoot p (p_ClauseEvidenceIDs p ! edge) RootEvidence)) [?s..<?s + ?k]"
      using v by (auto simp: valid_clause_row_def Let_def split: if_splits)
    then have "validExecutionRoot p (p_ClauseEvidenceIDs p ! edge) RootEvidence" using that by (simp add: list_all_iff)
    then show ?thesis by (rule validExecutionRoot_ok) simp
  qed
  show "root_ok p root" if r: "root \<in> set (clause_roots p c)"
  proof (cases "root = p_ClauseAssertionRoots p ! c")
    case False
    then obtain j where "j < ?k" "root = p_ClauseEvidenceIDs p ! (?s + j)"
      using r fit by (auto simp: clause_roots_def clause_edge_range_def in_set_conv_nth)
    then show ?thesis using e[of "?s + j"] by simp
  qed (use a in simp)
  show "\<exists>oc. Outcome_Lookup (p_Outcomes p) (p_ClauseOnSatisfied p ! c) = Some oc"
    "\<exists>oc. Outcome_Lookup (p_Outcomes p) (p_ClauseOnFalse p ! c) = Some oc"
    "p_ClauseRemediationStarts p ! c + p_ClauseRemediationCounts p ! c \<le> length (p_ClauseRemediationIDs p)"
    using v by (auto simp: valid_clause_row_def Let_def split: if_splits)
qed

section \<open>Reading the roots from the slots\<close>

lemma fold_mask_With:
  "fold (\<lambda>r m. if P r then mask_With m r else m) xs acc = acc OR mask_union (map ReasonBit (filter P xs))"
proof (induction xs arbitrary: acc)
  case Nil
  then show ?case by (simp add: mask_union_def)
next
  case (Cons x xs)
  then show ?case by (simp add: mask_union_Cons mask_With_def or.assoc or.commute or.left_commute)
qed

lemma one_nine: "[ReasonMissing..<ReasonConflict + 1] = [1..<10]"
  by simp

lemma instructionTruth_root:
  assumes "slot_inv H a b (length (p_Opcodes (H a))) e" "slots_ok (p_TruthSlots (H a)) (H a)" "slots_ok (p_ReasonSlots (H a)) (H a)"
    and s: "validExecutionSchedule (H a)" and r: "root_ok (H a) root" and row: "row < b_Rows b"
  shows "instructionTruth H e (H a) row (b_Rows b) root = Ok (truth_of (H a) b row root)"
    and "instructionReasons H e (H a) row (b_Rows b) root = Ok (mask_union (map ReasonBit (filter (mask_Has (reasons_of (H a) b row root)) [1..<10])))"
proof -
  let ?p = "H a" and ?rows = "b_Rows b" and ?i = "root - 1" and ?w = "row div 64"
  have i: "?i < length (p_Opcodes ?p)" and f: "p_RootFlags ?p ! ?i \<noteq> 0" using r by (auto simp: root_ok_def)
  note v = slot_inv_root[OF assms(1-3) i f]
  have rd: "ready H a ?rows e" using assms(1) by (simp add: slot_inv_def Let_def)
  note sr = slot_reads[of H a, OF s i rd]
  have i1: "idx1 (p_TruthSlots ?p) root = Ok (p_TruthSlots ?p ! ?i)" "idx1 (p_ReasonSlots ?p) root = Ok (p_ReasonSlots ?p ! ?i)"
    using r schedule_columns(10,11)[OF s] by (simp_all add: root_ok_def)
  have w: "?w < word_count ?rows" using row by simp
  have bm: "mk_bitmap ?rows P ! ?w AND row_bit row \<noteq> 0 \<longleftrightarrow> P row" for P
    using wbit_mk_bitmap[of ?rows P row] row w by (simp add: wbit_def and_row_bit_eq_0)
  show "instructionTruth H e ?p row ?rows root = Ok (truth_of ?p b row root)"
    using i1 sr v(1) w bm by (simp add: instructionTruth_def mk_planes_def truth_of_def)
  let ?m = "reasons_of ?p b row root"
  have step: "rbind (reason_plane (mk_reasons ?rows (\<lambda>r. snd (sem ?p b r ?i))) reason (word_count ?rows)) (\<lambda>plane.
      rbind (idx plane ?w) (\<lambda>x. Ok (if x AND row_bit row \<noteq> 0 then mask_With m reason else m))) =
      Ok (if mask_Has ?m reason then mask_With m reason else m)" if "reason \<in> set [1..<10]" for reason m
  proof -
    have k: "reason - 1 < ReasonCount" "reason - 1 + 1 = reason" using that by auto
    have "reason_plane (mk_reasons ?rows (\<lambda>r. snd (sem ?p b r ?i))) reason (word_count ?rows) =
        Ok (mk_bitmap ?rows (\<lambda>r. bit (snd (sem ?p b r ?i)) (reason - 1)))"
      unfolding block_mk_reasons[OF k(1), symmetric] using block_subslice[OF length_mk_reasons[of ?rows "\<lambda>r. snd (sem ?p b r ?i)"] k(1)] by (simp add: reason_plane_def Let_def add.commute)
    then show ?thesis using w bm that by (simp add: mask_Has_iff is_reason_def reasons_of_def)
  qed
  show "instructionReasons H e ?p row ?rows root = Ok (mask_union (map ReasonBit (filter (mask_Has ?m) [1..<10])))"
    unfolding instructionReasons_def i1(2) rbind.simps sr(4) v(2) one_nine
    by (subst res_foldM_Ok[where g = "\<lambda>reason m. if mask_Has ?m reason then mask_With m reason else m", OF step])
      (simp_all only: fold_mask_With or.left_neutral)
qed

lemma mask_rebuild: "mask_Valid m \<Longrightarrow> mask_union (map ReasonBit (filter (mask_Has m) [1..<10])) = m"
  by (rule mask_ext) (auto intro!: mask_Valid_union simp: is_reason_def dest: mask_Has_is_reason)

section \<open>Resolution of one clause\<close>

definition accesses :: "program \<Rightarrow> batch \<Rightarrow> nat \<Rightarrow> (nat \<Rightarrow> tv res) \<Rightarrow> (nat \<Rightarrow> u16 res) \<Rightarrow> bool" where
  "accesses p b row it ir \<longleftrightarrow>
     (\<forall>root. root_ok p root \<longrightarrow> it root = Ok (truth_of p b row root) \<and> ir root = Ok (reasons_of p b row root))"

lemma find_edge_Ok: "\<forall>e \<in> set es. P (snd e) = Ok (Q (snd e)) \<Longrightarrow> find_edge P es = Ok (List.find (\<lambda>e. Q (snd e)) es)"
  by (induction es) auto

lemma set_enumerate_snd: "snd ` set (enumerate s xs) = set xs"
  by (metis map_snd_enumerate set_map)

lemma find_SomeD: "List.find P xs = Some x \<Longrightarrow> x \<in> set xs \<and> P x"
  by (induction xs) (auto split: if_splits)

lemma find_enumerate:
  assumes "\<forall>i < length ids. nodes ! i = N ! (s + i)" "length nodes = length ids"
  shows "map_option (\<lambda>(edge, root). (root, N ! edge)) (List.find (\<lambda>e. Q (snd e)) (enumerate s ids)) =
    List.find (\<lambda>(root, node). Q root) (zip ids nodes)"
  using assms
proof (induction ids arbitrary: s nodes)
  case Nil
  then show ?case by simp
next
  case (Cons x ids)
  then obtain n ns where ns: "nodes = n # ns" "n = N ! s" by (cases nodes) fastforce+
  have "\<forall>i < length ids. ns ! i = N ! (Suc s + i)" using Cons.prems(1) ns by fastforce
  then show ?case using Cons.IH[of ns "Suc s"] Cons.prems(2) ns by simp
qed

lemma clause_edges_Ok:
  assumes "validExecutionSemantics p = Ok True" "c < length (p_ClauseAssertionRoots p)"
  defines "edges \<equiv> enumerate (p_ClauseEvidenceStarts p ! c) (clause_edge_range p c (p_ClauseEvidenceIDs p))"
  shows "clause_edges p c = Ok edges" and "e \<in> set edges \<Longrightarrow> root_ok p (snd e)"
    and "map_option (\<lambda>(edge, root). (root, p_ClauseEvidenceSourceNodeIDs p ! edge)) (List.find (\<lambda>e. Q (snd e)) edges) =
      List.find (\<lambda>(root, node). Q root) (zip (clause_edge_range p c (p_ClauseEvidenceIDs p)) (clause_edge_range p c (p_ClauseEvidenceSourceNodeIDs p)))"
    and "e \<in> set edges \<Longrightarrow> fst e < length (p_ClauseEvidenceSourceNodeIDs p)"
proof -
  let ?s = "p_ClauseEvidenceStarts p ! c" and ?k = "p_ClauseEvidenceCounts p ! c"
  note col = semantics_columns[OF assms(1)] and fit = clause_row(2)[OF assms(1,2)]
  show "clause_edges p c = Ok edges" using assms(2) col fit by (simp add: clause_edges_def edges_def clause_edge_range_def)
  show "root_ok p (snd e)" if "e \<in> set edges"
    using clause_row(1)[OF assms(1,2), of "snd e"] that set_enumerate_snd unfolding edges_def clause_roots_def by fastforce
  show "map_option (\<lambda>(edge, root). (root, p_ClauseEvidenceSourceNodeIDs p ! edge)) (List.find (\<lambda>e. Q (snd e)) edges) =
      List.find (\<lambda>(root, node). Q root) (zip (clause_edge_range p c (p_ClauseEvidenceIDs p)) (clause_edge_range p c (p_ClauseEvidenceSourceNodeIDs p)))"
    unfolding edges_def using fit col(11) by (intro find_enumerate) (auto simp: clause_edge_range_def)
  show "e \<in> set edges \<Longrightarrow> fst e < length (p_ClauseEvidenceSourceNodeIDs p)"
    using fit col(11) by (auto simp: edges_def in_set_enumerate_eq clause_edge_range_def)
qed

text \<open>The two searches of the code, the assertion first and then the evidence edges, are one search over the roots.\<close>

lemma first_root_search:
  assumes "validExecutionSemantics p = Ok True" "c < length (p_ClauseAssertionRoots p)" "\<exists>root \<in> set (clause_roots p c). Q root"
    and "\<forall>root. root_ok p root \<longrightarrow> P root = Ok (Q root)" "\<not> Q (p_ClauseAssertionRoots p ! c)"
  shows "\<exists>edges edge. clause_edges p c = Ok edges \<and>
    find_edge P edges = Ok (Some (edge, fst (first_root p c Q))) \<and> edge < length (p_ClauseEvidenceSourceNodeIDs p) \<and>
    p_ClauseEvidenceSourceNodeIDs p ! edge = snd (first_root p c Q) \<and> Q (fst (first_root p c Q)) \<and>
    fst (first_root p c Q) \<in> set (p_ClauseEvidenceIDs p) \<and> fst (first_root p c Q) \<in> set (clause_roots p c)"
proof -
  let ?es = "enumerate (p_ClauseEvidenceStarts p ! c) (clause_edge_range p c (p_ClauseEvidenceIDs p))"
  note ce = clause_edges_Ok[OF assms(1,2)]
  have f: "find_edge P ?es = Ok (List.find (\<lambda>e. Q (snd e)) ?es)" using ce(2) assms(4) by (intro find_edge_Ok) blast
  obtain root where "root \<in> set (clause_edge_range p c (p_ClauseEvidenceIDs p))" "Q root"
    using assms(3,5) by (auto simp: clause_roots_def)
  then obtain e where "e \<in> set ?es" "Q (snd e)" using set_enumerate_snd by (metis imageE)
  then have "List.find (\<lambda>e. Q (snd e)) ?es \<noteq> None" unfolding find_None_iff by blast
  then obtain edge x where x: "List.find (\<lambda>e. Q (snd e)) ?es = Some (edge, x)" by auto
  then have mem: "(edge, x) \<in> set ?es" "Q x" by (auto dest!: find_SomeD)
  have "first_root p c Q = (x, p_ClauseEvidenceSourceNodeIDs p ! edge)"
    using ce(3)[of Q, symmetric] x assms(5) by (simp add: first_root_def clause_roots_def clause_nodes_def)
  moreover have "x \<in> set (clause_edge_range p c (p_ClauseEvidenceIDs p))" using mem(1) set_enumerate_snd by (metis imageI snd_conv)
  then have "x \<in> set (p_ClauseEvidenceIDs p)" "x \<in> set (clause_roots p c)"
    by (auto simp: clause_edge_range_def clause_roots_def dest: in_set_takeD in_set_dropD)
  ultimately show ?thesis using ce(1) ce(4)[OF mem(1)] f x mem(2) by auto
qed

lemma first_root_assertion:
  "Q (p_ClauseAssertionRoots p ! c) \<Longrightarrow> first_root p c Q = (p_ClauseAssertionRoots p ! c, p_ClauseAssertionSourceNodeIDs p ! c)"
  by (simp add: first_root_def clause_roots_def clause_nodes_def)

lemma firstNegativeNode_Ok:
  assumes "validExecutionSemantics p = Ok True" "c < length (p_ClauseAssertionRoots p)" "accesses p b row it ir"
    and "\<exists>root \<in> set (clause_roots p c). snd (truth_of p b row root)"
  shows "firstNegativeNode p it c = Ok (snd (first_root p c (\<lambda>root. snd (truth_of p b row root))))"
proof -
  let ?Q = "\<lambda>root. snd (truth_of p b row root)" and ?a = "p_ClauseAssertionRoots p ! c"
  have a: "it ?a = Ok (truth_of p b row ?a)" using assms(3) clause_row(1)[OF assms(1,2)] by (simp add: accesses_def clause_roots_def)
  have acc: "\<forall>root. root_ok p root \<longrightarrow> rbind (it root) (\<lambda>v. Ok (snd v)) = Ok (?Q root)" using assms(3) by (simp add: accesses_def)
  show ?thesis
  proof (cases "?Q ?a")
    case True
    then show ?thesis using a assms(2) semantics_columns(10)[OF assms(1)] first_root_assertion[of ?Q] by (simp add: firstNegativeNode_def)
  next
    case False
    then show ?thesis using first_root_search[OF assms(1,2,4) acc False] a assms(2) by (auto simp: firstNegativeNode_def)
  qed
qed

lemma firstReasonNode_Ok:
  assumes "validExecutionSemantics p = Ok True" "c < length (p_ClauseAssertionRoots p)" "accesses p b row it ir"
    and "\<exists>root \<in> set (clause_roots p c). mask_Has (reasons_of p b row root) reason"
  shows "firstReasonNode p ir c reason = Ok (snd (first_root p c (\<lambda>root. mask_Has (reasons_of p b row root) reason)))"
proof -
  let ?Q = "\<lambda>root. mask_Has (reasons_of p b row root) reason" and ?a = "p_ClauseAssertionRoots p ! c"
  have a: "ir ?a = Ok (reasons_of p b row ?a)" using assms(3) clause_row(1)[OF assms(1,2)] by (simp add: accesses_def clause_roots_def)
  have acc: "\<forall>root. root_ok p root \<longrightarrow> rbind (ir root) (\<lambda>m. Ok (mask_Has m reason)) = Ok (?Q root)" using assms(3) by (simp add: accesses_def)
  show ?thesis
  proof (cases "?Q ?a")
    case True
    then show ?thesis using a assms(2) semantics_columns(10)[OF assms(1)] first_root_assertion[of ?Q] by (simp add: firstReasonNode_def)
  next
    case False
    then show ?thesis using first_root_search[OF assms(1,2,4) acc False] a assms(2) by (auto simp: firstReasonNode_def)
  qed
qed

lemma clause_state_Ok:
  assumes "validExecutionSemantics p = Ok True" "c < length (p_ClauseAssertionRoots p)" "accesses p b row it ir"
  shows "clause_state p it ir c = Ok (clause_tv p b row c, clause_mask p b row c)"
proof -
  let ?a = "p_ClauseAssertionRoots p ! c" and ?t = "truth_of p b row" and ?m = "reasons_of p b row"
  define f where "f = (\<lambda>(edge :: nat \<times> nat) ((positive, negative), reasons). rbind (it (snd edge)) (\<lambda>(evidencePositive, evidenceNegative).
       rbind (ir (snd edge)) (\<lambda>em. Ok ((positive \<and> evidencePositive, negative \<or> evidenceNegative), reasons OR em))) :: (tv \<times> u16) res)"
  have loop: "res_foldM f (enumerate s ids) (tv_all vs, mask_union ms) = Ok (tv_all (vs @ map ?t ids), mask_union (ms @ map ?m ids))"
    if "\<forall>root \<in> set ids. root_ok p root" for s ids vs ms
    using that
  proof (induction ids arbitrary: s vs ms)
    case Nil
    then show ?case by simp
  next
    case (Cons x ids)
    have "f (s, x) (tv_all vs, mask_union ms) = Ok (tv_all (vs @ [?t x]), mask_union (ms @ [?m x]))"
      using Cons.prems assms(3) mask_union_Cons[of "?m x" ms] mask_union_cong[of "?m x # ms" "ms @ [?m x]"]
      by (auto simp: f_def tv_all_def accesses_def split: prod.split)
    then show ?case using Cons.IH[of "Suc s" "vs @ [?t x]" "ms @ [?m x]"] Cons.prems by simp
  qed
  have roots: "\<forall>root \<in> set (clause_edge_range p c (p_ClauseEvidenceIDs p)). root_ok p root" and a: "root_ok p ?a"
    using clause_row(1)[OF assms(1,2)] by (auto simp: clause_roots_def)
  have "clause_state p it ir c = res_foldM f (enumerate (p_ClauseEvidenceStarts p ! c) (clause_edge_range p c (p_ClauseEvidenceIDs p))) (?t ?a, ?m ?a)"
    using a assms(2,3) clause_edges_Ok(1)[OF assms(1,2)] by (simp add: clause_state_def f_def accesses_def)
  also have "\<dots> = Ok (clause_tv p b row c, clause_mask p b row c)"
    using loop[OF roots, of _ "[?t ?a]" "[?m ?a]"] by (simp add: clause_tv_def clause_mask_def clause_roots_def tv_all_def)
  finally show ?thesis .
qed

lemma clause_unresolved:
  assumes "program_ok p" "batch_ok p b" "c < length (p_ClauseAssertionRoots p)"
  shows "mask_Valid (clause_mask p b row c)" and "\<not> tv_resolved (clause_tv p b row c) \<Longrightarrow> clause_mask p b row c \<noteq> 0"
proof -
  have i: "instrs_ok p" and v: "validExecutionSemantics p = Ok True" using assms(1) by (simp_all add: program_ok_def)
  have r: "mask_Valid (reasons_of p b row root) \<and> (\<not> tv_resolved (truth_of p b row root) \<longrightarrow> reasons_of p b row root \<noteq> 0)"
    if "root \<in> set (clause_roots p c)" for root
  proof -
    have "root - 1 < length (p_Opcodes p)" using clause_row(1)[OF v assms(3) that] by (auto simp: root_ok_def)
    then show ?thesis using sem_reasons[OF i assms(2), of "root - 1" row] by (simp add: truth_of_def reasons_of_def)
  qed
  show "mask_Valid (clause_mask p b row c)" using r by (auto simp: clause_mask_def intro!: mask_Valid_union)
  show "clause_mask p b row c \<noteq> 0" if u: "\<not> tv_resolved (clause_tv p b row c)"
  proof -
    obtain root where "root \<in> set (clause_roots p c)" "\<not> tv_resolved (truth_of p b row root)"
      using tv_all_unresolved[OF u[unfolded clause_tv_def]] by auto
    then show ?thesis using r unfolding clause_mask_def by (intro mask_union_nonzero[of "reasons_of p b row root"]) auto
  qed
qed

lemma resolver_facts:
  assumes "program_ok p" "clauseID \<noteq> 0" "clauseID - 1 < length (p_ClauseAssertionRoots p)" "mask_Valid m" "m \<noteq> 0"
  shows "Resolve (p_resolver p) clauseID m = Ok (Some (best_resolution p clauseID m))"
    and "Outcome_Lookup (p_Outcomes p) (rn_Outcome (best_resolution p clauseID m)) \<noteq> None"
    and "mask_Has m (rn_Reason (best_resolution p clauseID m))"
proof -
  have ok: "resolver_ok (p_resolver p)" and rv: "rv_outcomes (p_resolver p) = p_Outcomes p" "rv_rules (p_resolver p) = p_Resolutions p"
    and v: "validExecutionSemantics p = Ok True" using assms(1) by (simp_all add: program_ok_def)
  have "clauseID \<le> length (p_ClauseAssertionRoots p)" using assms(2,3) by linarith
  then have bd: "clauseID * ReasonCount \<le> length (rs_OutcomeIDs (rv_rules (p_resolver p)))"
    unfolding rv semantics_columns(13)[OF v] by simp
  show r: "Resolve (p_resolver p) clauseID m = Ok (Some (best_resolution p clauseID m))"
    using Resolve_pick[OF ok assms(4,5,2) bd] rv by (auto simp: best_resolution_def Let_def)
  show "Outcome_Lookup (p_Outcomes p) (rn_Outcome (best_resolution p clauseID m)) \<noteq> None" "mask_Has m (rn_Reason (best_resolution p clauseID m))"
    using resolution_valid(1,3)[OF ok assms(4,5,2) bd r] rv by auto
qed

lemma executionClauseRemediations_Ok:
  assumes "validExecutionSemantics p = Ok True" "c < length (p_ClauseAssertionRoots p)" "Outcome_Lookup (p_Outcomes p) oid = Some oc"
  shows "executionClauseRemediations p c oid = Ok (clause_remediations p c oid)"
  using assms clause_row(5)[OF assms(1,2)] semantics_columns(14,15)[OF assms(1)] Outcome_Lookup_Some[OF assms(3)]
  by (simp add: executionClauseRemediations_def clause_remediations_def)

lemma resolveActiveClause_Ok:
  assumes p: "program_ok p" and b: "batch_ok p b" and c: "clauseID \<noteq> 0" "clauseID - 1 < length (p_ClauseAssertionRoots p)"
    and acc: "accesses p b row it ir"
  shows "resolveActiveClause p it ir requirementID clauseID = Ok (clause_candidate p b row requirementID clauseID)"
    and "Outcome_Lookup (p_Outcomes p) (cd_outcome (clause_candidate p b row requirementID clauseID)) \<noteq> None"
proof -
  let ?c = "clauseID - 1"
  have v: "validExecutionSemantics p = Ok True" using p by (simp add: program_ok_def)
  note col = semantics_columns[OF v] and cr = clause_row(3,4)[OF v c(2)] and st = clause_state_Ok[OF v c(2) acc]
  obtain t where t: "clause_tv p b row ?c = t" by simp
  have xi: "?c * clauseExplanationBranchCount + 1 < length (p_ClauseExplanationIDs p)" using c(2) col(12) by linarith
  consider "t = (True, False)" | "t = (False, True)" | "fst t = snd t" by (cases t) auto
  then have "resolveActiveClause p it ir requirementID clauseID = Ok (clause_candidate p b row requirementID clauseID) \<and>
    Outcome_Lookup (p_Outcomes p) (cd_outcome (clause_candidate p b row requirementID clauseID)) \<noteq> None"
  proof cases
    case 1
    then show ?thesis using st t c col xi cr(1) executionClauseRemediations_Ok[OF v c(2)]
      by (auto simp: resolveActiveClause_def clause_candidate_def Let_def simp del: One_nat_def)
  next
    case 2
    then have "\<exists>root \<in> set (clause_roots p ?c). snd (truth_of p b row root)"
      using t by (auto simp: clause_tv_def tv_all_def list_ex_iff)
    then show ?thesis using 2 st t c col xi cr(2) executionClauseRemediations_Ok[OF v c(2)] firstNegativeNode_Ok[OF v c(2) acc]
      by (auto simp: resolveActiveClause_def clause_candidate_def Let_def simp del: One_nat_def)
  next
    case 3
    let ?m = "clause_mask p b row ?c"
    have m: "mask_Valid ?m" "?m \<noteq> 0" using clause_unresolved[OF p b c(2)] t 3 by (auto simp: tv_resolved_def)
    note r = resolver_facts[OF p c m]
    have "\<exists>root \<in> set (clause_roots p ?c). mask_Has (reasons_of p b row root) (rn_Reason (best_resolution p clauseID ?m))"
      using r(3) by (auto simp: clause_mask_def)
    note n = firstReasonNode_Ok[OF v c(2) acc this]
    show ?thesis using 3 st t c(1) r n
      by (cases t) (auto simp: resolveActiveClause_def clause_candidate_def Let_def simp del: One_nat_def)
  qed
  then show "resolveActiveClause p it ir requirementID clauseID = Ok (clause_candidate p b row requirementID clauseID)"
    "Outcome_Lookup (p_Outcomes p) (cd_outcome (clause_candidate p b row requirementID clauseID)) \<noteq> None" by auto
qed

lemma resolveApplicability_Ok:
  assumes p: "program_ok p" and b: "batch_ok p b" and rr: "rr < length (p_RequirementIDs p)"
    and c: "clauseID \<in> set (requirement_clauses p rr)" and acc: "accesses p b row it ir"
    and u: "\<not> tv_resolved (truth_of p b row (p_RequirementRoots p ! rr))"
  shows "resolveApplicability p ir (p_RequirementIDs p ! rr) clauseID (p_RequirementRoots p ! rr) (p_RequirementSourceNodeIDs p ! rr) =
      Ok (applicability_candidate p b row rr clauseID)"
    and "Outcome_Lookup (p_Outcomes p) (cd_outcome (applicability_candidate p b row rr clauseID)) \<noteq> None"
proof -
  let ?root = "p_RequirementRoots p ! rr" and ?m = "reasons_of p b row (p_RequirementRoots p ! rr)"
  have v: "validExecutionSemantics p = Ok True" and i: "instrs_ok p" using p by (simp_all add: program_ok_def)
  have root: "root_ok p ?root" by (rule requirement_row(1)[OF v rr])
  then have "?root - 1 < length (p_Opcodes p)" by (auto simp: root_ok_def)
  from sem_reasons[OF i b this, of row] have m: "mask_Valid ?m" "?m \<noteq> 0" using u by (auto simp: truth_of_def reasons_of_def)
  have cl: "clauseID \<noteq> 0" "clauseID - 1 < length (p_ClauseAssertionRoots p)" using requirement_row(3)[OF v rr c] by auto
  note r = resolver_facts[OF p cl m]
  show "resolveApplicability p ir (p_RequirementIDs p ! rr) clauseID ?root (p_RequirementSourceNodeIDs p ! rr) =
      Ok (applicability_candidate p b row rr clauseID)"
    using acc root r(1) by (simp add: resolveApplicability_def applicability_candidate_def accesses_def Let_def)
  show "Outcome_Lookup (p_Outcomes p) (cd_outcome (applicability_candidate p b row rr clauseID)) \<noteq> None"
    using r(2) by (simp add: applicability_candidate_def Let_def)
qed

section \<open>Selection of the outcome of a row\<close>

definition cand_of :: "(nat \<times> candidate) option \<Rightarrow> candidate" where
  "cand_of st = (case st of Some (_, c) \<Rightarrow> c | None \<Rightarrow> no_candidate)"

definition st_ok :: "outcome_table \<Rightarrow> (nat \<times> candidate) option \<Rightarrow> bool" where
  "st_ok t st \<longleftrightarrow> (case st of None \<Rightarrow> True | Some (k, c) \<Rightarrow> k = cd_outcome c \<and> Outcome_Lookup t k \<noteq> None)"

abbreviation keyed :: "candidate list \<Rightarrow> (nat \<times> candidate) list" where
  "keyed cs \<equiv> map (\<lambda>c. (cd_outcome c, c)) cs"

lemma prefer_step:
  assumes "st_ok t st" "Outcome_Lookup t (cd_outcome c) \<noteq> None"
  shows "preferExecutionCandidate t (cand_of st) c = Ok (cand_of (pick_step (better t) (cd_outcome c, c) st))"
    and "st_ok t (pick_step (better t) (cd_outcome c, c) st)"
proof -
  obtain oc where oc: "Outcome_Lookup t (cd_outcome c) = Some oc" using assms(2) by blast
  show "preferExecutionCandidate t (cand_of st) c = Ok (cand_of (pick_step (better t) (cd_outcome c, c) st))"
  proof (cases st)
    case None
    then show ?thesis using Prefer_absent[OF oc] by (simp add: preferExecutionCandidate_def cand_of_def no_candidate_def)
  next
    case (Some kc)
    obtain k y where kc: "kc = (k, y)" by (cases kc)
    obtain ok where k: "k = cd_outcome y" "Outcome_Lookup t k = Some ok" using assms(1) Some kc by (auto simp: st_ok_def)
    have "k \<noteq> 0" using Outcome_Lookup_Some[OF k(2)] by simp
    then show ?thesis using Some kc k Prefer_valid[OF k(2) oc] outcome_pref.bt_irrefl[of t k]
      by (auto simp: preferExecutionCandidate_def cand_of_def)
  qed
  show "st_ok t (pick_step (better t) (cd_outcome c, c) st)"
    using assms by (cases st) (auto simp: st_ok_def)
qed

lemma prefer_fold:
  assumes "st_ok t st" "\<forall>x \<in> set xs. f x = Ok (g x) \<and> Outcome_Lookup t (cd_outcome (g x)) \<noteq> None"
  shows "res_foldM (\<lambda>x best. rbind (f x) (\<lambda>c. preferExecutionCandidate t best c)) xs (cand_of st) =
      Ok (cand_of (fold (pick_step (better t)) (keyed (map g xs)) st))"
    and "st_ok t (fold (pick_step (better t)) (keyed (map g xs)) st)"
  using assms by (induction xs arbitrary: st) (auto simp: prefer_step)

lemma requirement_step:
  assumes p: "program_ok p" and b: "batch_ok p b" and rr: "rr < length (p_RequirementIDs p)" and acc: "accesses p b row it ir"
    and st: "st_ok (p_Outcomes p) st" and bm: "wbit cand rr \<longleftrightarrow> admitted p b row rr" "rr div 64 < length cand"
  defines "inc \<equiv> admitted p b row rr \<and> truth_of p b row (p_RequirementRoots p ! rr) \<noteq> (False, True)"
  defines "st' \<equiv> (if inc then fold (pick_step (better (p_Outcomes p))) (keyed (requirement_candidates p b row rr)) st else st)"
  shows "resolve_requirement p it ir cand (rr, p_RequirementIDs p ! rr) (ids, cand_of st) =
      Ok (if inc then ids @ [p_RequirementIDs p ! rr] else ids, cand_of st')" and "st_ok (p_Outcomes p) st'"
proof -
  let ?root = "p_RequirementRoots p ! rr" and ?id = "p_RequirementIDs p ! rr"
  let ?t = "truth_of p b row ?root"
  have v: "validExecutionSemantics p = Ok True" using p by (simp add: program_ok_def)
  note col = semantics_columns[OF v] and rq = requirement_row[OF v rr]
  have w: "cand ! (rr div 64) AND row_bit rr = 0 \<longleftrightarrow> \<not> admitted p b row rr" using bm by (simp add: wbit_def and_row_bit_eq_0)
  define f where "f clauseID = (if ?t = (True, False) then resolveActiveClause p it ir ?id clauseID
    else rbind (idx (p_RequirementSourceNodeIDs p) rr) (\<lambda>node. resolveApplicability p ir ?id clauseID ?root node))" for clauseID
  define g where "g clauseID = (if ?t = (True, False) then clause_candidate p b row ?id clauseID else applicability_candidate p b row rr clauseID)" for clauseID
  have fg: "\<forall>x \<in> set (requirement_clauses p rr). f x = Ok (g x) \<and> Outcome_Lookup (p_Outcomes p) (cd_outcome (g x)) \<noteq> None" if inc
  proof
    fix x assume x: "x \<in> set (requirement_clauses p rr)"
    have xc: "x \<noteq> 0" "x - 1 < length (p_ClauseAssertionRoots p)" using rq(3)[OF x] by auto
    show "f x = Ok (g x) \<and> Outcome_Lookup (p_Outcomes p) (cd_outcome (g x)) \<noteq> None"
    proof (cases "?t = (True, False)")
      case True
      then show ?thesis using resolveActiveClause_Ok[OF p b xc acc] by (simp add: f_def g_def)
    next
      case False
      then have "\<not> tv_resolved ?t" using that by (cases ?t) (auto simp: inc_def tv_resolved_def)
      then show ?thesis using False resolveApplicability_Ok[OF p b rr x acc] rr col(3) by (simp add: f_def g_def)
    qed
  qed
  have g: "map g (requirement_clauses p rr) = requirement_candidates p b row rr" by (simp add: requirement_candidates_def g_def)
  show "st_ok (p_Outcomes p) st'" using st prefer_fold(2)[OF st fg] by (simp add: st'_def g)
  have it: "it ?root = Ok ?t" using acc rq(1) by (simp add: accesses_def)
  show "resolve_requirement p it ir cand (rr, ?id) (ids, cand_of st) = Ok (if inc then ids @ [?id] else ids, cand_of st')"
  proof (cases inc)
    case True
    obtain pos neg where t: "?t = (pos, neg)" by (cases ?t)
    have nn: "\<not> (\<not> pos \<and> neg)" and ad: "admitted p b row rr" using True t by (auto simp: inc_def)
    have fe: "f = (\<lambda>clauseID. if pos \<and> \<not> neg then resolveActiveClause p it ir ?id clauseID
      else rbind (idx (p_RequirementSourceNodeIDs p) rr) (\<lambda>node. resolveApplicability p ir ?id clauseID ?root node))"
      using t by (auto simp: f_def fun_eq_iff)
    show ?thesis using True nn ad w bm(2) rr col it t rq(2) prefer_fold(1)[OF st fg[OF True], unfolded fe g]
      by (simp add: resolve_requirement_def st'_def)
  next
    case False
    then show ?thesis using w bm(2) rr col(2) it by (cases ?t) (auto simp: resolve_requirement_def inc_def st'_def)
  qed
qed

lemma requirement_loop:
  assumes p: "program_ok p" and b: "batch_ok p b" and acc: "accesses p b row it ir"
    and cand: "cand = mk_bitmap (length (p_RequirementIDs p)) (admitted p b row)" and st: "st_ok (p_Outcomes p) st"
    and rs: "\<forall>rr \<in> set rs. rr < length (p_RequirementIDs p)"
  defines "inc \<equiv> filter (\<lambda>rr. admitted p b row rr \<and> truth_of p b row (p_RequirementRoots p ! rr) \<noteq> (False, True)) rs"
  shows "res_foldM (resolve_requirement p it ir cand) (map (\<lambda>rr. (rr, p_RequirementIDs p ! rr)) rs) (ids, cand_of st) =
    Ok (ids @ map (nth (p_RequirementIDs p)) inc,
        cand_of (fold (pick_step (better (p_Outcomes p))) (keyed (concat (map (requirement_candidates p b row) inc))) st))"
  using st rs unfolding inc_def
proof (induction rs arbitrary: ids st)
  case Nil
  then show ?case by simp
next
  case (Cons rr rs)
  then have rr: "rr < length (p_RequirementIDs p)" by simp
  have bm: "wbit cand rr \<longleftrightarrow> admitted p b row rr" "rr div 64 < length cand" unfolding cand using rr by simp_all
  note s = requirement_step[OF p b rr acc Cons.prems(1) bm]
  show ?case using Cons.IH[OF s(2)] Cons.prems(2) s(1)[of ids] by simp
qed

lemma enumerate_upt: "enumerate 0 xs = map (\<lambda>i. (i, xs ! i)) [0..<length xs]"
  by (intro nth_equalityI) (simp_all add: nth_enumerate_eq)

lemma requirements_Ok:
  assumes "program_ok p" "batch_ok p b" "accesses p b row it ir"
    and "cand = mk_bitmap (length (p_RequirementIDs p)) (admitted p b row)"
  shows "res_foldM (resolve_requirement p it ir cand) (enumerate 0 (p_RequirementIDs p)) ([], no_candidate) =
    Ok (map (nth (p_RequirementIDs p)) (considered p b row), best_candidate (p_Outcomes p) (row_candidates p b row))"
proof -
  have n: "cand_of None = no_candidate" "st_ok (p_Outcomes p) None" by (simp_all add: cand_of_def st_ok_def)
  show ?thesis
    using requirement_loop[OF assms n(2), of "[0..<length (p_RequirementIDs p)]" "[]"] n(1)
    by (simp add: enumerate_upt considered_def row_candidates_def best_candidate_def pick_best_def cand_of_def)
qed

section \<open>Provenance of the reasons\<close>

definition record_out :: "batch \<Rightarrow> nat \<Rightarrow> nat \<times> nat" where
  "record_out b er = (ev_IDs (b_Evidence b) ! er, ev_States (b_Evidence b) ! er)"

lemma find_record_Ok:
  fixes pr :: evidence_predicate
  assumes v: "validEvidenceBatch b p" and ers: "\<forall>er \<in> set ers. er < length (ev_IDs (b_Evidence b))"
  defines "cls \<equiv> record_class p (b_Evidence b) pr" and "recs \<equiv> filter (\<lambda>er. ev_Kinds (b_Evidence b) ! er = ep_Kind pr) ers"
  shows "find_record b (state_reasons p) pr reason ers part =
    (case List.find (\<lambda>er. mask_Has (ec_reasons (cls er)) reason) recs of Some er \<Rightarrow> Ok (record_out b er)
     | None \<Rightarrow>
       if reason = ReasonConflict \<and> fst part \<noteq> 0 then Ok part
       else (case (if reason = ReasonConflict then List.find (\<lambda>er. ec_positive (cls er) \<or> ec_negative (cls er)) recs else None) of
         Some er \<Rightarrow> Ok (record_out b er) | None \<Rightarrow> Panic ''eval: evidence reason has no causal record''))"
  using ers unfolding recs_def
proof (induction ers arbitrary: part)
  case Nil
  then show ?case by simp
next
  case (Cons er ers)
  have er: "er < length (ev_IDs (b_Evidence b))" using Cons.prems by simp
  have c: "classify_row (b_Evidence b) (state_reasons p) pr er = Ok (cls er)" unfolding cls_def by (rule classify_row_Ok[OF v er])
  have id: "ev_IDs (b_Evidence b) ! er \<noteq> 0" using evidence_batch_ok(9)[OF v er] by simp
  have i: "er < length (ev_Kinds (b_Evidence b))" "er < length (ev_States (b_Evidence b))" using er evidence_batch_ok(4,5)[OF v] by simp_all
  note IH = Cons.IH
  have rest: "\<forall>er \<in> set ers. er < length (ev_IDs (b_Evidence b))" using Cons.prems by simp
  show ?case
  proof (cases "ev_Kinds (b_Evidence b) ! er = ep_Kind pr")
    case False
    then show ?thesis using i IH[OF rest] by (simp cong: option.case_cong)
  next
    case True
    then show ?thesis using i er c id IH[OF rest] by (auto simp: record_out_def split: option.split)
  qed
qed

lemma row_evidence_Ok:
  assumes "validEvidenceBatch b p" "row < b_Rows b"
  shows "row_evidence b row = Ok (row_refs b row)"
  using evidence_batch_ok(1)[OF assms(1)] evidence_batch_ok(2)[OF assms] assms(2) by (simp add: row_evidence_def row_refs_def Let_def)

lemma firstEvidenceReasonRecord_Ok:
  assumes s: "validExecutionSchedule p" and v: "validEvidenceBatch b p" and row: "row < b_Rows b"
    and st: "es_reasons st = state_reasons p" and root: "root_ok p root"
    and h: "mask_Has (evidence_reasons p b (query_at p (root - 1)) row) reason"
  shows "firstEvidenceReasonRecord p st b root row reason = Ok (causal_record p b row root reason)"
proof (cases "reason = ReasonMissing")
  case True
  then show ?thesis by (simp add: firstEvidenceReasonRecord_def causal_record_def)
next
  case False
  let ?pr = "query_at p (root - 1)" and ?ev = "b_Evidence b"
  let ?cls = "record_class p ?ev ?pr" and ?recs = "filter (\<lambda>er. ev_Kinds ?ev ! er = ep_Kind ?pr) (row_refs b row)"
  have rl: "root - 1 < length (p_Opcodes p)" using root by (auto simp: root_ok_def)
  have "(\<exists>c \<in> set (row_classes p b ?pr row). mask_Has (ec_reasons c) reason) \<or>
      (evidence_truth p b ?pr row = (True, True) \<and> reason = ReasonConflict)"
    using h False unfolding evidence_reasons_Has(2)[OF v] by blast
  then have some: "List.find (\<lambda>er. mask_Has (ec_reasons (?cls er)) reason) ?recs \<noteq> None \<or>
      (reason = ReasonConflict \<and> List.find (\<lambda>er. ec_positive (?cls er) \<or> ec_negative (?cls er)) ?recs \<noteq> None)"
    unfolding find_None_iff by (auto simp: row_classes_def evidence_truth_def list_ex_iff)
  have bd: "\<forall>er \<in> set (row_refs b row). er < length (ev_IDs ?ev)" using row_refs_bound[OF v] by blast
  have "firstEvidenceReasonRecord p st b root row reason = find_record b (state_reasons p) ?pr reason (row_refs b row) (0, 0)"
    using False row_evidence_Ok[OF v row] evidence_query_at[OF s rl] st by (simp add: firstEvidenceReasonRecord_def)
  also have "\<dots> = Ok (causal_record p b row root reason)"
    using some False unfolding find_record_Ok[OF v bd] by (auto simp: causal_record_def record_out_def Let_def split: option.split)
  finally show ?thesis .
qed

lemma evidence_root:
  assumes "program_ok p" "c < length (p_ClauseAssertionRoots p)" "root \<in> set (p_ClauseEvidenceIDs p)" "root_ok p root"
  shows "programUsesEvidence p" and "reasons_of p b row root = evidence_reasons p b (query_at p (root - 1)) row"
proof -
  have s: "validExecutionSchedule p" using assms(1) by (simp add: program_ok_def instrs_ok_def)
  have rl: "root - 1 < length (p_Opcodes p)" using assms(4) by (auto simp: root_ok_def)
  have op: "p_Opcodes p ! (root - 1) = OpcodeEvidence" using assms(1,3) by (auto simp: program_ok_def list_all_iff)
  show "programUsesEvidence p" using op rl unfolding programUsesEvidence_def list_ex_iff by (metis nth_mem)
  show "reasons_of p b row root = evidence_reasons p b (query_at p (root - 1)) row"
    using sem_cases(3)[OF s rl op] by (simp add: reasons_of_def)
qed

lemma reasonProvenance_Ok:
  assumes p: "program_ok p" and b: "batch_ok p b" and row: "row < b_Rows b" and st: "es_reasons st = state_reasons p"
    and acc: "accesses p b row it ir"
    and cand: "cd_applicability cand \<or> (cd_clause cand - 1 < length (p_ClauseAssertionRoots p) \<and> cd_reasons cand = clause_mask p b row (cd_clause cand - 1))"
    and h: "mask_Has (cd_reasons cand) reason"
  shows "reasonProvenance p st b ir cand row reason = Ok (provenance p b row cand reason)"
proof (cases "cd_applicability cand")
  case True
  then show ?thesis by (simp add: reasonProvenance_def provenance_def)
next
  case False
  let ?c = "cd_clause cand - 1" and ?Q = "\<lambda>root. mask_Has (reasons_of p b row root) reason"
  let ?a = "p_ClauseAssertionRoots p ! (cd_clause cand - 1)"
  have v: "validExecutionSemantics p = Ok True" using p by (simp add: program_ok_def)
  have c: "?c < length (p_ClauseAssertionRoots p)" and cm: "cd_reasons cand = clause_mask p b row ?c" using cand False by auto
  have ex: "\<exists>root \<in> set (clause_roots p ?c). ?Q root" using h cm by (auto simp: clause_mask_def)
  have a: "ir ?a = Ok (reasons_of p b row ?a)" using acc clause_row(1)[OF v c] by (simp add: accesses_def clause_roots_def)
  have ac: "\<forall>root. root_ok p root \<longrightarrow> rbind (ir root) (\<lambda>m. Ok (mask_Has m reason)) = Ok (?Q root)" using acc by (simp add: accesses_def)
  show ?thesis
  proof (cases "?Q ?a")
    case True
    then show ?thesis using False a c semantics_columns(10)[OF v] by (simp add: reasonProvenance_def provenance_def Let_def del: One_nat_def)
  next
    case nq: False
    obtain edges edge root node where e: "first_root p ?c ?Q = (root, node)" "clause_edges p ?c = Ok edges"
      "find_edge (\<lambda>evidence. rbind (ir evidence) (\<lambda>m. Ok (mask_Has m reason))) edges = Ok (Some (edge, root))"
      "edge < length (p_ClauseEvidenceSourceNodeIDs p)" "p_ClauseEvidenceSourceNodeIDs p ! edge = node" "?Q root" "root \<in> set (p_ClauseEvidenceIDs p)"
      and "root \<in> set (clause_roots p ?c)"
      using first_root_search[OF v c ex ac nq] by (cases "first_root p ?c ?Q") auto
    then have ro: "root_ok p root" by (intro clause_row(1)[OF v c])
    note er = evidence_root[OF p c e(7) ro]
    have "validEvidenceBatch b p" using b er(1) by (simp add: batch_ok_def)
    then have "firstEvidenceReasonRecord p st b root row reason = Ok (causal_record p b row root reason)"
      using firstEvidenceReasonRecord_Ok[OF semantics_parts(1)[OF v] _ row st ro] e(6) er(2) by simp
    then show ?thesis using False nq a c e by (simp add: reasonProvenance_def provenance_def Let_def del: One_nat_def)
  qed
qed

section \<open>The result of one row\<close>

lemma row_candidate_facts:
  assumes p: "program_ok p" and b: "batch_ok p b" and acc: "accesses p b row it ir" and c: "c \<in> set (row_candidates p b row)"
  shows "Outcome_Lookup (p_Outcomes p) (cd_outcome c) \<noteq> None"
    and "cd_applicability c \<or> (cd_clause c - 1 < length (p_ClauseAssertionRoots p) \<and>
      (cd_reasons c = 0 \<or> cd_reasons c = clause_mask p b row (cd_clause c - 1)))"
proof -
  have v: "validExecutionSemantics p = Ok True" using p by (simp add: program_ok_def)
  obtain rr where rr: "rr < length (p_RequirementIDs p)" "truth_of p b row (p_RequirementRoots p ! rr) \<noteq> (False, True)"
    "c \<in> set (requirement_candidates p b row rr)" using c by (auto simp: row_candidates_def considered_def)
  then obtain x where x: "x \<in> set (requirement_clauses p rr)" and cx: "c = (if truth_of p b row (p_RequirementRoots p ! rr) = (True, False)
      then clause_candidate p b row (p_RequirementIDs p ! rr) x else applicability_candidate p b row rr x)"
    unfolding requirement_candidates_def set_map by blast
  have xc: "x \<noteq> 0" "x - 1 < length (p_ClauseAssertionRoots p)" using requirement_row(3)[OF v rr(1) x] by auto
  show "Outcome_Lookup (p_Outcomes p) (cd_outcome c) \<noteq> None"
  proof (cases "truth_of p b row (p_RequirementRoots p ! rr) = (True, False)")
    case True
    then show ?thesis using cx resolveActiveClause_Ok(2)[OF p b xc acc] by simp
  next
    case False
    then have "\<not> tv_resolved (truth_of p b row (p_RequirementRoots p ! rr))"
      using rr(2) by (cases "truth_of p b row (p_RequirementRoots p ! rr)") (auto simp: tv_resolved_def)
    then show ?thesis using False cx resolveApplicability_Ok(2)[OF p b rr(1) x acc] by simp
  qed
  show "cd_applicability c \<or> (cd_clause c - 1 < length (p_ClauseAssertionRoots p) \<and>
      (cd_reasons c = 0 \<or> cd_reasons c = clause_mask p b row (cd_clause c - 1)))"
    using cx xc(2) by (simp add: clause_candidate_def applicability_candidate_def no_candidate_def Let_def)
qed

lemma best_candidate_cases: "best_candidate t cs = no_candidate \<or> best_candidate t cs \<in> set cs"
proof (cases "pick_best (better t) (keyed cs)")
  case None
  then show ?thesis by (simp add: best_candidate_def)
next
  case (Some z)
  then show ?thesis using outcome_pref.pick_best_Some(1)[OF Some] by (auto simp: best_candidate_def)
qed

lemma resolve_row_Ok:
  assumes p: "program_ok p" and b: "batch_ok p b" and row: "row < b_Rows b" and st: "es_reasons st = state_reasons p"
    and acc: "accesses p b row it ir" and cand: "cand = mk_bitmap (length (p_RequirementIDs p)) (admitted p b row)"
  shows "resolve_row p st b it ir cand (programUsesEvidence p) row = Ok (row_spec p b row)"
proof -
  let ?best = "best_candidate (p_Outcomes p) (row_candidates p b row)"
  let ?rs = "filter (mask_Has (cd_reasons ?best)) [ReasonMissing..<ReasonConflict + 1]"
  have reasons: "(if cd_outcome ?best \<noteq> 0 then reason_edges p st b ir ?best row else Ok []) =
      Ok (map (\<lambda>reason. (reason, provenance p b row ?best reason)) ?rs)"
  proof (cases "?best = no_candidate")
    case True
    then show ?thesis by (simp add: no_candidate_def)
  next
    case False
    then have mem: "?best \<in> set (row_candidates p b row)" using best_candidate_cases by blast
    note f = row_candidate_facts[OF p b acc mem]
    have nz: "cd_outcome ?best \<noteq> 0" using f(1) by (auto dest: Outcome_Lookup_Some)
    have "reasonProvenance p st b ir ?best row reason = Ok (provenance p b row ?best reason)" if "reason \<in> set ?rs" for reason
      using that f(2) by (intro reasonProvenance_Ok[OF p b row st acc]) auto
    then show ?thesis using nz unfolding reason_edges_def by (simp only: if_True simp_thms) (intro res_mapM_Ok, simp)
  qed
  have ev: "(if programUsesEvidence p then rbind (row_evidence b row) (res_mapM (idx (ev_IDs (b_Evidence b)))) else Ok []) =
      Ok (if programUsesEvidence p then map (nth (ev_IDs (b_Evidence b))) (row_refs b row) else [])"
  proof (cases "programUsesEvidence p")
    case True
    then have v: "validEvidenceBatch b p" using b by (simp add: batch_ok_def)
    have "res_mapM (idx (ev_IDs (b_Evidence b))) (row_refs b row) = Ok (map (nth (ev_IDs (b_Evidence b))) (row_refs b row))"
      using row_refs_bound[OF v] by (intro res_mapM_Ok) simp
    then show ?thesis using True row_evidence_Ok[OF v row] by simp
  qed simp
  show ?thesis unfolding resolve_row_def requirements_Ok[OF p b acc cand] rbind.simps prod.case reasons ev
    by (simp add: row_spec_def Let_def)
qed

section \<open>The requirement mask of a row\<close>

lemma selector_field:
  assumes "validExecutionSemantics p = Ok True" "validExecutionBatchColumns p b" "length (is_Kinds (p_FieldIndex p)) \<le> MaxUint32"
    and "field \<in> set (pi_FieldIDs (p_ApplicabilityIndex p))" and row: "row < b_Rows b"
  shows "\<exists>column presence symbols. Schema_Lookup (p_FieldIndex p) field = Some (ValueKindSymbol, column) \<and>
    batchWordColumn b (b_PresenceMasks b) ((field + MaxUint32) mod 2 ^ 32) = Ok presence \<and> length presence = word_count (b_Rows b) \<and>
    (presence ! (row div 64) AND row_bit row \<noteq> 0 \<longleftrightarrow> Batch_Present b field row) \<and>
    batchRowColumn b (b_SymbolValues b) column = Ok symbols \<and> length symbols = b_Rows b \<and> symbols ! row = selector_value p b row field"
proof -
  note bc = batch_columns[OF assms(2)]
  obtain column where l: "Schema_Lookup (p_FieldIndex p) field = Some (ValueKindSymbol, column)"
    and c: "column < kind_count (p_FieldIndex p) ValueKindSymbol"
    using semantics_parts(6)[OF assms(1)] assms(4) by (fastforce simp: list_all_iff split: option.splits)
  have f: "field \<noteq> 0" "field - 1 < length (is_Kinds (p_FieldIndex p))" using l by (auto simp: Schema_Lookup_def Let_def split: if_splits)
  have fm: "(field + MaxUint32) mod 2 ^ 32 = field - 1"
  proof -
    have "field + MaxUint32 = (field - 1) + 2 ^ 32" "field - 1 < 2 ^ 32" using f assms(3) by simp_all
    then show ?thesis by (simp only: mod_add_self2 mod_less)
  qed
  note w = batchWordColumn_Ok[OF bc(1,2) f(2)] and r = batchRowColumn_Ok[OF bc(1,3) c]
  have "Batch_Symbol b column row = Some (row_column b (b_SymbolValues b) column ! row)"
    unfolding Batch_Symbol_def by (rule row_value_window[OF bc(1,3) c row])
  moreover have "word_column b (b_PresenceMasks b) (field - 1) ! (row div 64) AND row_bit row \<noteq> 0 \<longleftrightarrow> Batch_Present b field row"
    unfolding Batch_Present_window[OF bc(1,2) f(2,1) row] using w(2) row by (simp add: wbit_def and_row_bit_eq_0)
  ultimately show ?thesis using l w(1,2) r(1,2) fm by (auto simp: selector_value_def)
qed

definition selected_values :: "program \<Rightarrow> batch \<Rightarrow> nat \<Rightarrow> nat list \<times> nat list" where
  "selected_values p b row =
     (let fs = pi_FieldIDs (p_ApplicabilityIndex p) in
      (map (\<lambda>f. if Batch_Present b f row then selector_value p b row f else 0) fs, map (\<lambda>f. if Batch_Present b f row then 1 else 0) fs))"

lemma select_loop:
  assumes a: "validExecutionSemantics p = Ok True" "validExecutionBatchColumns p b" "length (is_Kinds (p_FieldIndex p)) \<le> MaxUint32" "row < b_Rows b"
    and l: "length vals = length (pi_FieldIDs (p_ApplicabilityIndex p))" "length present = length (pi_FieldIDs (p_ApplicabilityIndex p))"
    and k: "k \<le> length (pi_FieldIDs (p_ApplicabilityIndex p))"
  shows "res_foldM (select_value p b row) (take k (enumerate 0 (pi_FieldIDs (p_ApplicabilityIndex p)))) (vals, present) =
    Ok (take k (fst (selected_values p b row)) @ drop k vals, take k (snd (selected_values p b row)) @ drop k present)"
  using k
proof (induction k)
  case 0
  then show ?case by simp
next
  case (Suc k)
  let ?fs = "pi_FieldIDs (p_ApplicabilityIndex p)"
  have kl: "k < length ?fs" using Suc.prems by simp
  let ?f = "?fs ! k" and ?V = "fst (selected_values p b row)" and ?P = "snd (selected_values p b row)"
  obtain column presence symbols where s: "Schema_Lookup (p_FieldIndex p) ?f = Some (ValueKindSymbol, column)"
    "batchWordColumn b (b_PresenceMasks b) ((?f + MaxUint32) mod 2 ^ 32) = Ok presence" "length presence = word_count (b_Rows b)"
    "presence ! (row div 64) AND row_bit row \<noteq> 0 \<longleftrightarrow> Batch_Present b ?f row"
    "batchRowColumn b (b_SymbolValues b) column = Ok symbols" "length symbols = b_Rows b" "symbols ! row = selector_value p b row ?f"
    using selector_field[OF a(1-3) nth_mem[OF kl] a(4)] by blast
  let ?v = "take k ?V @ drop k vals" and ?q = "take k ?P @ drop k present"
  have len: "length ?V = length ?fs" "length ?P = length ?fs" by (simp_all add: selected_values_def Let_def)
  have V: "?V ! k = (if Batch_Present b ?f row then selector_value p b row ?f else 0)" "?P ! k = (if Batch_Present b ?f row then 1 else 0)"
    using kl by (simp_all add: selected_values_def Let_def)
  have upd: "?v[k := x] = take (Suc k) ?V @ drop (Suc k) vals" if "x = ?V ! k" for x
    using kl len l that by (simp add: list_update_append take_Suc_conv_app_nth Cons_nth_drop_Suc[symmetric])
  have updp: "?q[k := x] = take (Suc k) ?P @ drop (Suc k) present" if "x = ?P ! k" for x
    using kl len l that by (simp add: list_update_append take_Suc_conv_app_nth Cons_nth_drop_Suc[symmetric])
  have kv: "k < length ?v" "k < length ?q" using kl len l by simp_all
  have w: "row div 64 < length presence" using s(3) a(4) by simp
  have "select_value p b row (k, ?f) (?v, ?q) = Ok (take (Suc k) ?V @ drop (Suc k) vals, take (Suc k) ?P @ drop (Suc k) present)"
  proof (cases "Batch_Present b ?f row")
    case True
    then show ?thesis using s w kv a(4) upd[of "selector_value p b row ?f"] updp[of 1] V by (simp add: select_value_def Let_def)
  next
    case False
    then show ?thesis using s w kv a(4) upd[of 0] updp[of 0] V by (simp add: select_value_def Let_def)
  qed
  moreover have "take (Suc k) (enumerate 0 ?fs) = take k (enumerate 0 ?fs) @ [(k, ?f)]"
    using kl by (simp add: take_Suc_conv_app_nth nth_enumerate_eq)
  ultimately show ?case using Suc by (simp add: res_foldM_append)
qed

end
