(* ===== verification/NR_Execution.thy ===== *)
theory NR_Execution
  imports NR_Semantics
begin

text \<open>
  Correctness of a whole execution: whatever the executor, its scratch and the result batch held before,
  a validated program and batch give exactly the reference result of \<open>NR_Semantics\<close>, in every execution
  mode and on every vector backend that meets its contract.
\<close>

section \<open>The row loop\<close>

text \<open>What the executor's loop over the rows relies on, and keeps.\<close>

definition row_ready :: "(nat \<Rightarrow> program) \<Rightarrow> nat \<Rightarrow> batch \<Rightarrow> executor \<Rightarrow> bool" where
  "row_ready H a b e \<longleftrightarrow> slot_inv H a b (length (p_Opcodes (H a))) e \<and> ex_query e = Some a \<and> es_reasons (ex_states e) = state_reasons (H a) \<and>
     scratch_fits (ex_candidateWords e) (pi_WordCount (p_ApplicabilityIndex (H a))) \<and>
     scratch_fits (ex_selectorValues e) (length (pi_FieldIDs (p_ApplicabilityIndex (H a)))) \<and>
     scratch_fits (ex_selectorPresent e) (length (pi_FieldIDs (p_ApplicabilityIndex (H a))))"

definition selector_update :: "nat list \<Rightarrow> nat list \<Rightarrow> u64 list \<Rightarrow> executor \<Rightarrow> executor" where
  "selector_update vals present cand e = e\<lparr>ex_selectorValues := scratch_write (ex_selectorValues e) vals,
     ex_selectorPresent := scratch_write (ex_selectorPresent e) present, ex_candidateWords := scratch_write (ex_candidateWords e) cand\<rparr>"

lemma selector_update_fields [simp]:
  "ex_query (selector_update vals present cand e) = ex_query e" "ex_program (selector_update vals present cand e) = ex_program e"
  "ex_states (selector_update vals present cand e) = ex_states e" "ex_valueRows (selector_update vals present cand e) = ex_valueRows e"
  "ex_truthWords (selector_update vals present cand e) = ex_truthWords e" "ex_reasonWords (selector_update vals present cand e) = ex_reasonWords e"
  "slot_inv H a b m (selector_update vals present cand e) = slot_inv H a b m e"
  by (simp_all add: selector_update_def slot_inv_def ready_def truth_view_def reason_view_def)

lemma select_Ok:
  assumes p: "program_ok (H a)" and b: "batch_ok (H a) b" and k: "length (is_Kinds (p_FieldIndex (H a))) \<le> MaxUint32"
    and r: "row_ready H a b e" and row: "row < b_Rows b"
  shows "\<exists>vals present. selectRequirementCandidates H e (H a) b row =
      Ok (selector_update vals present (mk_bitmap (length (p_RequirementIDs (H a))) (admitted (H a) b row)) e) \<and>
    row_ready H a b (selector_update vals present (mk_bitmap (length (p_RequirementIDs (H a))) (admitted (H a) b row)) e) \<and>
    scratch_view (ex_candidateWords (selector_update vals present (mk_bitmap (length (p_RequirementIDs (H a))) (admitted (H a) b row)) e)) =
      mk_bitmap (length (p_RequirementIDs (H a))) (admitted (H a) b row)"
proof -
  let ?p = "H a" and ?ix = "p_ApplicabilityIndex (H a)"
  let ?V = "fst (selected_values ?p b row)" and ?P = "snd (selected_values ?p b row)" and ?n = "length (pi_FieldIDs ?ix)"
  let ?bm = "mk_bitmap (length (p_RequirementIDs ?p)) (admitted ?p b row)"
  have v: "validExecutionSemantics ?p = Ok True" and q: "query_ok ?ix" using p validBoundPolicy_query by (auto simp: program_ok_def)
  have c: "validExecutionBatchColumns ?p b" using b by (simp add: batch_ok_def)
  have wc: "pi_WordCount ?ix = word_count (length (p_RequirementIDs ?p))" using q semantics_columns(1)[OF v] by (simp add: query_ok_def)
  have f: "scratch_fits (ex_candidateWords e) (pi_WordCount ?ix)" "scratch_fits (ex_selectorValues e) ?n" "scratch_fits (ex_selectorPresent e) ?n"
    and qe: "ex_query e = Some a" using r by (simp_all add: row_ready_def)
  have len: "length ?V = ?n" "length ?P = ?n" by (simp_all add: selected_values_def Let_def)
  have loop: "res_foldM (select_value ?p b row) (enumerate 0 (pi_FieldIDs ?ix))
      (scratch_view (ex_selectorValues e), scratch_view (ex_selectorPresent e)) = Ok (?V, ?P)"
    using select_loop[OF v c k row length_scratch_view[OF f(2)] length_scratch_view[OF f(3)] order_refl] len f(2,3)
    by (simp add: length_scratch_view)
  have "Query_Candidates ?ix (scratch_view (ex_candidateWords e)) ?V ?P = Ok (mk_bitmap (pi_RequirementCount ?ix)
      (\<lambda>r. \<forall>i < ?n. ?P ! i \<noteq> 0 \<longrightarrow> wbit (mask_of ?ix i (?V ! i)) r))"
    by (rule Query_Candidates_ok[OF q length_scratch_view[OF f(1)] len])
  also have "mk_bitmap (pi_RequirementCount ?ix) (\<lambda>r. \<forall>i < ?n. ?P ! i \<noteq> 0 \<longrightarrow> wbit (mask_of ?ix i (?V ! i)) r) = ?bm"
    unfolding semantics_columns(1)[OF v]
    by (intro mk_bitmap_cong) (auto simp: admitted_def selected_values_def Let_def list_all_iff)
  finally have cand: "Query_Candidates ?ix (scratch_view (ex_candidateWords e)) ?V ?P = Ok ?bm" .
  have "selectRequirementCandidates H e ?p b row = Ok (selector_update ?V ?P ?bm e)"
    using loop cand qe by (cases "selected_values ?p b row") (simp add: selectRequirementCandidates_def selector_update_def)
  moreover have "row_ready H a b (selector_update ?V ?P ?bm e)"
    using r len wc f by (simp add: row_ready_def) (simp add: selector_update_def scratch_write_fits)
  moreover have "scratch_view (ex_candidateWords (selector_update ?V ?P ?bm e)) = ?bm"
    using f(1) wc by (simp add: selector_update_def scratch_view_write)
  ultimately show ?thesis by blast
qed

lemma slot_accesses:
  assumes p: "program_ok (H a)" and b: "batch_ok (H a) b" and inv: "slot_inv H a b (length (p_Opcodes (H a))) e" and row: "row < b_Rows b"
  shows "accesses (H a) b row (instructionTruth H e (H a) row (b_Rows b)) (instructionReasons H e (H a) row (b_Rows b))"
proof -
  have i: "instrs_ok (H a)" and s: "slots_ok (p_TruthSlots (H a)) (H a)" "slots_ok (p_ReasonSlots (H a)) (H a)"
    and v: "validExecutionSchedule (H a)" using p by (simp_all add: program_ok_def instrs_ok_def)
  have "mask_Valid (reasons_of (H a) b row root)" if "root_ok (H a) root" for root
  proof -
    have "root - 1 < length (p_Opcodes (H a))" using that by (auto simp: root_ok_def)
    then show ?thesis using sem_reasons[OF i b] by (simp add: reasons_of_def)
  qed
  then show ?thesis using instructionTruth_root[OF inv s v _ row] mask_rebuild by (simp add: accesses_def)
qed

lemma finalize_row:
  assumes p: "program_ok (H a)" and b: "batch_ok (H a) b" and k: "length (is_Kinds (p_FieldIndex (H a))) \<le> MaxUint32"
    and r: "row_ready H a b e" and row: "row < b_Rows b"
  shows "\<exists>vals present cand. let e1 = selector_update vals present cand e in
    rbind (selectRequirementCandidates H e (H a) b row) (\<lambda>e1.
      rbind (resolve_row (H a) (ex_states e1) b (instructionTruth H e1 (H a) row (b_Rows b)) (instructionReasons H e1 (H a) row (b_Rows b))
          (scratch_view (ex_candidateWords e1)) (programUsesEvidence (H a)) row) (\<lambda>r. Ok (e1, append_row row r dst))) =
      Ok (e1, append_row row (row_spec (H a) b row) dst) \<and> row_ready H a b e1"
proof -
  let ?bm = "mk_bitmap (length (p_RequirementIDs (H a))) (admitted (H a) b row)"
  obtain vals present where e1: "selectRequirementCandidates H e (H a) b row = Ok (selector_update vals present ?bm e)"
    "row_ready H a b (selector_update vals present ?bm e)" "scratch_view (ex_candidateWords (selector_update vals present ?bm e)) = ?bm"
    using select_Ok[OF p b k r row] by blast
  let ?e1 = "selector_update vals present ?bm e"
  have "slot_inv H a b (length (p_Opcodes (H a))) ?e1" "es_reasons (ex_states ?e1) = state_reasons (H a)"
    using e1(2) unfolding row_ready_def by blast+
  then have "resolve_row (H a) (ex_states ?e1) b (instructionTruth H ?e1 (H a) row (b_Rows b)) (instructionReasons H ?e1 (H a) row (b_Rows b))
      (scratch_view (ex_candidateWords ?e1)) (programUsesEvidence (H a)) row = Ok (row_spec (H a) b row)"
    using resolve_row_Ok[OF p b row _ slot_accesses[of H a, OF p b _ row] e1(3)] by blast
  then show ?thesis using e1(1,2) unfolding Let_def by (intro exI[of _ vals] exI[of _ present] exI[of _ ?bm]) simp
qed

section \<open>Compressed rows\<close>

lemma csr_edges_Suc: "csr_edges (Suc k) f = csr_edges k f @ f k"
  by (simp add: csr_edges_def)

lemma csr_edges_0 [simp]: "csr_edges 0 f = []"
  by (simp add: csr_edges_def)

lemma length_csr_offsets [simp]: "length (csr_offsets n f) = n + 1"
  by (simp add: csr_offsets_def)

lemma csr_offsets_Suc: "csr_offsets (Suc k) f = csr_offsets k f @ [length (csr_edges (Suc k) f)]"
  by (simp add: csr_offsets_def csr_edges_def)

lemma csr_edges_mono: "k \<le> n \<Longrightarrow> length (csr_edges k f) \<le> length (csr_edges n f)"
  by (induction n) (auto simp: le_Suc_eq csr_edges_Suc)

lemma csr_edges_bound: "(\<And>row. row < n \<Longrightarrow> length (f row) \<le> m) \<Longrightarrow> length (csr_edges n f) \<le> n * m"
proof (induction n)
  case (Suc n)
  then have "length (csr_edges n f) \<le> n * m" "length (f n) \<le> m" by simp_all
  then show ?case by (simp add: csr_edges_Suc)
qed simp

lemma pad_update: "length xs = k \<Longrightarrow> k < n \<Longrightarrow> (xs @ replicate (n - k) 0)[k := v] = (xs @ [v]) @ replicate (n - Suc k) 0"
  by (simp add: list_update_append Suc_diff_Suc[symmetric])

lemma offsets_update:
  assumes "k < n" "length (csr_edges n f) < 2 ^ 32"
  shows "(csr_offsets k f @ replicate (n - k) 0)[Suc k := (length (csr_edges k f) + length (f k)) mod 2 ^ 32] =
    csr_offsets (Suc k) f @ replicate (n - Suc k) 0"
proof -
  have "length (csr_edges (Suc k) f) < 2 ^ 32" using csr_edges_mono[of "Suc k" n f] assms by linarith
  then show ?thesis using pad_update[of "csr_offsets k f" "Suc k" "Suc n"] assms(1) by (simp add: csr_offsets_Suc csr_edges_Suc)
qed

text \<open>The result after the first \<open>k\<close> rows: the columns of those rows, and zeros beyond.\<close>

definition rows_prefix :: "nat \<Rightarrow> nat \<Rightarrow> (nat \<Rightarrow> row_result) \<Rightarrow> result_batch" where
  "rows_prefix n k R =
     (let q = rows_batch k R; pad = replicate (n - k) 0 in
      q\<lparr>rb_OutcomeIDs := rb_OutcomeIDs q @ pad, rb_RequirementOffsets := rb_RequirementOffsets q @ pad,
        rb_DriverOffsets := rb_DriverOffsets q @ pad, rb_EvidenceOffsets := rb_EvidenceOffsets q @ pad,
        rb_ReasonOffsets := rb_ReasonOffsets q @ pad, rb_RemediationOffsets := rb_RemediationOffsets q @ pad, rb_Rows := n\<rparr>)"

lemma rows_prefix_full: "rows_prefix n n R = rows_batch n R"
  by (simp add: rows_prefix_def rows_batch_def)

lemma Result_Reset_prefix: "rows + 1 \<le> MaxInt \<Longrightarrow> Result_Reset dst rows = Ok (rows_prefix rows 0 R)"
  by (simp add: Result_Reset_def rows_prefix_def rows_batch_def csr_offsets_def Let_def)

definition edges_fit :: "nat \<Rightarrow> (nat \<Rightarrow> row_result) \<Rightarrow> bool" where
  "edges_fit n R \<longleftrightarrow>
     length (csr_edges n (\<lambda>row. rw_requirements (R row))) < 2 ^ 32 \<and> length (csr_edges n (\<lambda>row. row_driver (R row))) < 2 ^ 32 \<and>
     length (csr_edges n (\<lambda>row. rw_evidence (R row))) < 2 ^ 32 \<and> length (csr_edges n (\<lambda>row. rw_reasons (R row))) < 2 ^ 32 \<and>
     length (csr_edges n (\<lambda>row. concat (map cd_remediations (row_driver (R row))))) < 2 ^ 32"

lemma append_row_driver:
  "append_row row r dst =
     (let best = rw_best r; d = row_driver r;
          reqs = rb_RequirementIDs dst @ rw_requirements r; nodes = rb_DriverNodes dst @ map cd_node d;
          evs = rb_EvidenceIDs dst @ rw_evidence r; rids = rb_ReasonIDs dst @ map fst (rw_reasons r);
          rems = rb_RemediationIDs dst @ concat (map cd_remediations d) in
      dst\<lparr>rb_OutcomeIDs := (if cd_outcome best \<noteq> 0 then (rb_OutcomeIDs dst)[row := cd_outcome best] else rb_OutcomeIDs dst),
        rb_RequirementIDs := reqs, rb_RequirementOffsets := (rb_RequirementOffsets dst)[row + 1 := length reqs mod 2 ^ 32],
        rb_DriverRequirements := rb_DriverRequirements dst @ map cd_requirement d,
        rb_DriverClauses := rb_DriverClauses dst @ map cd_clause d,
        rb_DriverNodes := nodes,
        rb_DriverReasons := rb_DriverReasons dst @ map cd_driverReason d,
        rb_DriverExplanations := rb_DriverExplanations dst @ map cd_explanation d,
        rb_DriverOffsets := (rb_DriverOffsets dst)[row + 1 := length nodes mod 2 ^ 32],
        rb_EvidenceIDs := evs, rb_EvidenceOffsets := (rb_EvidenceOffsets dst)[row + 1 := length evs mod 2 ^ 32],
        rb_ReasonIDs := rids,
        rb_ReasonNodes := rb_ReasonNodes dst @ map (fst \<circ> snd) (rw_reasons r),
        rb_ReasonEvidenceIDs := rb_ReasonEvidenceIDs dst @ map (fst \<circ> snd \<circ> snd) (rw_reasons r),
        rb_ReasonEvidenceStates := rb_ReasonEvidenceStates dst @ map (snd \<circ> snd \<circ> snd) (rw_reasons r),
        rb_ReasonOffsets := (rb_ReasonOffsets dst)[row + 1 := length rids mod 2 ^ 32],
        rb_RemediationIDs := rems, rb_RemediationOffsets := (rb_RemediationOffsets dst)[row + 1 := length rems mod 2 ^ 32]\<rparr>)"
  by (cases "cd_outcome (rw_best r) = 0") (simp_all add: append_row_def row_driver_def Let_def)

lemma append_row_prefix:
  assumes "edges_fit n R" "k < n"
  shows "append_row k (R k) (rows_prefix n k R) = rows_prefix n (Suc k) R"
proof -
  let ?O = "\<lambda>row. cd_outcome (rw_best (R row))"
  have out: "(if ?O k \<noteq> 0 then (map ?O [0..<k] @ replicate (n - k) 0)[k := ?O k] else map ?O [0..<k] @ replicate (n - k) 0) =
      map ?O [0..<Suc k] @ replicate (n - Suc k) 0"
    using pad_update[of "map ?O [0..<k]" k n "?O k"] assms(2) by (auto simp: Suc_diff_Suc[symmetric])
  note off = offsets_update[OF assms(2), of "\<lambda>row. rw_requirements (R row)"] offsets_update[OF assms(2), of "\<lambda>row. row_driver (R row)"]
    offsets_update[OF assms(2), of "\<lambda>row. rw_evidence (R row)"] offsets_update[OF assms(2), of "\<lambda>row. rw_reasons (R row)"]
    offsets_update[OF assms(2), of "\<lambda>row. concat (map cd_remediations (row_driver (R row)))"]
  show ?thesis
    using assms(1) out unfolding edges_fit_def append_row_driver rows_prefix_def rows_batch_def Let_def
    by (cases "?O k = 0") (simp_all del: upt_Suc add: off[simplified] csr_edges_Suc)
qed

lemma finalizeResults_prefix:
  assumes p: "program_ok (H a)" and b: "batch_ok (H a) b" and k: "length (is_Kinds (p_FieldIndex (H a))) \<le> MaxUint32"
    and r: "row_ready H a b e" and fit: "edges_fit (b_Rows b) (row_spec (H a) b)"
  shows "\<exists>e'. finalizeResults H e (rows_prefix (b_Rows b) 0 (row_spec (H a) b)) a b (programUsesEvidence (H a)) = Ok (e', result_of (H a) b) \<and>
    row_ready H a b e' \<and> ex_query e' = ex_query e \<and> ex_program e' = ex_program e \<and> ex_states e' = ex_states e \<and> ex_valueRows e' = ex_valueRows e"
proof -
  let ?n = "b_Rows b" and ?R = "row_spec (H a) b"
  define f where "f = (\<lambda>row (e, dst).
        rbind (selectRequirementCandidates H e (H a) b row) (\<lambda>e1.
        rbind (resolve_row (H a) (ex_states e1) b (instructionTruth H e1 (H a) row ?n) (instructionReasons H e1 (H a) row ?n)
          (scratch_view (ex_candidateWords e1)) (programUsesEvidence (H a)) row) (\<lambda>r. Ok (e1, append_row row r dst))))"
  have "\<exists>e'. res_foldM f [0..<m] (e, rows_prefix ?n 0 ?R) = Ok (e', rows_prefix ?n m ?R) \<and> row_ready H a b e' \<and>
      ex_query e' = ex_query e \<and> ex_program e' = ex_program e \<and> ex_states e' = ex_states e \<and> ex_valueRows e' = ex_valueRows e"
    if "m \<le> ?n" for m
    using that
  proof (induction m)
    case 0
    then show ?case using r by simp
  next
    case (Suc m)
    then obtain e1 where e1: "res_foldM f [0..<m] (e, rows_prefix ?n 0 ?R) = Ok (e1, rows_prefix ?n m ?R)" "row_ready H a b e1"
      "ex_query e1 = ex_query e" "ex_program e1 = ex_program e" "ex_states e1 = ex_states e" "ex_valueRows e1 = ex_valueRows e" by auto
    obtain v pr c where "f m (e1, rows_prefix ?n m ?R) = Ok (selector_update v pr c e1, append_row m (?R m) (rows_prefix ?n m ?R))"
        "row_ready H a b (selector_update v pr c e1)"
      using finalize_row[of H a, OF p b k e1(2), of m "rows_prefix ?n m ?R"] Suc.prems unfolding f_def Let_def prod.case by auto
    then show ?case using e1 append_row_prefix[OF fit, of m] Suc.prems by (auto simp: res_foldM_append)
  qed
  from this[of ?n] show ?thesis unfolding finalizeResults_def Let_def f_def result_of_def rows_prefix_full by simp
qed

section \<open>Sizes\<close>

text \<open>
  The size limits of an execution in unbounded arithmetic: the two slot slabs fit a Go slice of words,
  and every offset of the result fits its 32 bits.
\<close>

definition sizes_fit :: "program \<Rightarrow> batch \<Rightarrow> bool" where
  "sizes_fit p b \<longleftrightarrow>
     p_TruthSlotCount p * (2 * word_count (b_Rows b)) \<le> MaxInt div 8 \<and>
     p_ReasonSlotCount p * (ReasonCount * word_count (b_Rows b)) \<le> MaxInt div 8 \<and>
     b_Rows b * length (p_RequirementIDs p) \<le> MaxUint32 \<and> b_Rows b * ReasonCount \<le> MaxUint32 \<and>
     b_Rows b * maxExecutionRemediations p \<le> MaxUint32 \<and>
     (programUsesEvidence p \<longrightarrow> length (b_EvidenceRefs b) \<le> MaxUint32)"

lemma le_div_nat: "0 < (a::nat) \<Longrightarrow> b \<le> M div a \<longleftrightarrow> a * b \<le> M"
  by (simp add: less_eq_div_iff_mult_less_eq mult.commute)

lemma executorScratchLen_eq:
  assumes "a * b \<le> MaxUint64"
  shows "executorScratchLen a b c = (if a * (b * c) \<le> MaxInt div 8 then Some (a * (b * c)) else None)"
proof -
  have nw: "a * b mod 2 ^ 64 = a * b" using assms by simp
  have "\<not> (a \<noteq> 0 \<and> b > MaxUint64 div a)" using le_div_nat[of a b MaxUint64] assms by auto
  moreover have "a * b * c > MaxUint64" if "a * b \<noteq> 0" "c > MaxUint64 div (a * b)"
    using le_div_nat[of "a * b" c MaxUint64] that by (metis bot_nat_0.not_eq_extremum not_le)
  moreover have "a * b * c \<le> MaxUint64" if "\<not> (a * b \<noteq> 0 \<and> c > MaxUint64 div (a * b))"
    using le_div_nat[of "a * b" c MaxUint64] that by (cases "a * b = 0") auto
  ultimately show ?thesis unfolding executorScratchLen_def Let_def nw mult.assoc[symmetric] by auto
qed

lemma executorResultLen_eq:
  "executorResultLen rows perRow 4 = (if rows * perRow \<le> MaxUint32 then Some (rows * perRow) else None)"
proof -
  have "rows * perRow > MaxUint64" if "rows \<noteq> 0" "perRow > MaxUint64 div rows"
    using le_div_nat[of rows perRow MaxUint64] that by (metis bot_nat_0.not_eq_extremum not_le)
  moreover have "rows * perRow \<le> MaxUint64" if "\<not> (rows \<noteq> 0 \<and> perRow > MaxUint64 div rows)"
    using le_div_nat[of rows perRow MaxUint64] that by (cases "rows = 0") auto
  ultimately show ?thesis unfolding executorResultLen_def Let_def by auto
qed

lemma result_lens_fit:
  assumes "b_Rows b \<le> MaxUint32"
  shows "None \<in> set (result_lens p b u) \<longleftrightarrow> \<not> (b_Rows b * length (p_RequirementIDs p) \<le> MaxUint32 \<and> b_Rows b * ReasonCount \<le> MaxUint32 \<and>
    b_Rows b * maxExecutionRemediations p \<le> MaxUint32 \<and> (u \<longrightarrow> length (b_EvidenceRefs b) \<le> MaxUint32))"
proof -
  have none: "None = (if P then Some x else None) \<longleftrightarrow> \<not> P" for P and x :: nat by simp
  show ?thesis using assms unfolding result_lens_def executorResultLen_eq
    by (cases u) (simp_all only: set_append list.set insert_iff Un_iff empty_iff none if_True if_False mult_1_right mult_1, blast+)
qed

lemma check_execution_eq:
  assumes v: "ex_program e \<noteq> Some a \<longrightarrow> validExecutionSemantics (H a) = Ok True" and ph: "physical (H a) b"
  shows "check_execution H e a b =
    (if \<not> input_ok (H a) b then Err ErrInvalidProgram else if \<not> sizes_fit (H a) b then Err ErrBatchTooLarge
     else Ok (p_TruthSlotCount (H a) * (2 * word_count (b_Rows b)), p_ReasonSlotCount (H a) * (ReasonCount * word_count (b_Rows b))))"
proof -
  let ?p = "H a" and ?w = "word_count (b_Rows b)"
  have u: "p_TruthSlotCount ?p * 2 \<le> MaxUint64" "p_ReasonSlotCount ?p * ReasonCount \<le> MaxUint64" and r: "b_Rows b \<le> MaxUint32"
    using ph by (simp_all add: physical_def program_u32_def batch_u32_def)
  have valid: "(if ex_program e \<noteq> Some a then validExecutionSemantics ?p else Ok True) = Ok True" using v by simp
  have "check_execution H e a b = (if \<not> input_ok ?p b then Err ErrInvalidProgram
      else case executorScratchLen (p_TruthSlotCount ?p) 2 ?w of None \<Rightarrow> Err ErrBatchTooLarge
      | Some truthLen \<Rightarrow> (case executorScratchLen (p_ReasonSlotCount ?p) ReasonCount ?w of None \<Rightarrow> Err ErrBatchTooLarge
         | Some reasonLen \<Rightarrow> if None \<in> set (result_lens ?p b (programUsesEvidence ?p)) then Err ErrBatchTooLarge else Ok (truthLen, reasonLen)))"
    unfolding check_execution_def Let_def valid input_ok_def batch_ok_def by (simp, blast)
  then show ?thesis unfolding executorScratchLen_eq[OF u(1)] executorScratchLen_eq[OF u(2)] result_lens_fit[OF r]
    by (cases "p_TruthSlotCount ?p * (2 * ?w) \<le> MaxInt div 8"; cases "p_ReasonSlotCount ?p * (ReasonCount * ?w) \<le> MaxInt div 8")
      (simp_all only: sizes_fit_def if_True if_False option.case simp_thms if_cancel)
qed

lemma fold_max_ge: "a \<le> fold max xs (a::nat)" "x \<in> set xs \<Longrightarrow> x \<le> fold max xs (a::nat)"
proof (induction xs arbitrary: a)
  case (Cons y ys)
  { case 1 show ?case using Cons.IH(1)[of "max y a"] by simp }
  { case 2 then show ?case using Cons.IH(1)[of "max y a"] Cons.IH(2)[of "max y a"] by auto }
qed simp_all

lemma maxExecutionRemediations_ge:
  "n \<in> set (p_ClauseRemediationCounts p) \<Longrightarrow> n \<le> maxExecutionRemediations p"
  "n \<in> set (rs_RemediationCounts (p_Resolutions p)) \<Longrightarrow> n \<le> maxExecutionRemediations p"
  unfolding maxExecutionRemediations_def using fold_max_ge order_trans by blast+

lemma best_resolution_remediations:
  assumes p: "program_ok p" and c: "x - 1 < length (p_ClauseAssertionRoots p)"
  shows "length (executionResolutionRemediations (best_resolution p x m)) \<le> maxExecutionRemediations p"
proof (cases "pick_best (better (p_Outcomes p)) (rule_choices (p_resolver p) ((x - 1) * ReasonCount) m)")
  case None
  then show ?thesis by (simp add: best_resolution_def executionResolutionRemediations_def)
next
  case (Some z)
  let ?row = "(x - 1) * ReasonCount + snd z"
  have rv: "rv_rules (p_resolver p) = p_Resolutions p" "resolver_ok (p_resolver p)" and v: "validExecutionSemantics p = Ok True"
    using p by (simp_all add: program_ok_def)
  have "snd z < ReasonCount" using outcome_pref.pick_best_Some(1)[OF Some] by (auto simp: rule_choices_def)
  then have "?row < length (p_ClauseAssertionRoots p) * ReasonCount" using c by simp
  then have "?row < length (rs_RemediationCounts (p_Resolutions p))"
    using resolver_okD(3)[OF rv(2)] semantics_columns(13)[OF v] unfolding rv(1) by simp
  then have "rs_RemediationCounts (p_Resolutions p) ! ?row \<le> maxExecutionRemediations p"
    by (intro maxExecutionRemediations_ge(2) nth_mem)
  then show ?thesis using Some rv(1)
    by (simp add: best_resolution_def executionResolutionRemediations_def resolution_row_def Let_def min.coboundedI2)
qed

lemma candidate_remediations:
  assumes p: "program_ok p" and c: "c \<in> set (row_candidates p b row)"
  shows "length (cd_remediations c) \<le> maxExecutionRemediations p"
proof -
  have v: "validExecutionSemantics p = Ok True" using p by (simp add: program_ok_def)
  obtain rr where rr: "rr < length (p_RequirementIDs p)" "c \<in> set (requirement_candidates p b row rr)"
    using c by (auto simp: row_candidates_def considered_def)
  then obtain x where x: "x \<in> set (requirement_clauses p rr)" and cx: "c = (if truth_of p b row (p_RequirementRoots p ! rr) = (True, False)
      then clause_candidate p b row (p_RequirementIDs p ! rr) x else applicability_candidate p b row rr x)"
    unfolding requirement_candidates_def set_map by blast
  have xc: "x - 1 < length (p_ClauseAssertionRoots p)" using requirement_row(3)[OF v rr(1) x] by auto
  have "length (clause_remediations p (x - 1) oid) \<le> maxExecutionRemediations p" for oid
    using maxExecutionRemediations_ge(1)[OF nth_mem, of "x - 1" p] xc semantics_columns(15)[OF v]
    by (simp add: clause_remediations_def min.coboundedI2)
  then show ?thesis using cx best_resolution_remediations[OF p xc]
    by (simp add: clause_candidate_def applicability_candidate_def Let_def no_candidate_def)
qed

lemma evidence_edges_bound:
  assumes "validEvidenceBatch b p" "k \<le> b_Rows b"
  shows "length (csr_edges k (row_refs b)) \<le> b_EvidenceOffsets b ! k"
  using assms(2)
proof (induction k)
  case (Suc k)
  have "length (row_refs b k) \<le> b_EvidenceOffsets b ! Suc k - b_EvidenceOffsets b ! k" by (simp add: row_refs_def Let_def)
  moreover have "b_EvidenceOffsets b ! k \<le> b_EvidenceOffsets b ! Suc k" using evidence_batch_ok(2)[OF assms(1), of k] Suc.prems by simp
  ultimately show ?case using Suc by (simp add: csr_edges_Suc)
qed simp

lemma length_csr_map: "length (csr_edges n (\<lambda>row. map g (f row))) = length (csr_edges n f)"
  by (simp add: csr_edges_def length_concat comp_def)

lemma evidence_edges_fit:
  assumes "batch_ok p b" "programUsesEvidence p \<longrightarrow> length (b_EvidenceRefs b) \<le> MaxUint32"
  shows "length (csr_edges (b_Rows b) (\<lambda>row. rw_evidence (row_spec p b row))) \<le> MaxUint32"
proof (cases "programUsesEvidence p \<and> b_Rows b \<noteq> 0")
  case True
  then have v: "validEvidenceBatch b p" using assms(1) by (simp add: batch_ok_def)
  have "length (csr_edges (b_Rows b) (row_refs b)) \<le> length (b_EvidenceRefs b)"
    using evidence_edges_bound[OF v order_refl] evidence_batch_ok(2)[OF v, of "b_Rows b - 1"] True by simp
  then show ?thesis using True assms(2) by (simp add: row_spec_def Let_def length_csr_map)
next
  case False
  then show ?thesis by (auto simp: row_spec_def Let_def csr_edges_def length_concat comp_def)
qed

lemma row_spec_edges_fit:
  assumes p: "program_ok p" and b: "batch_ok p b" and s: "sizes_fit p b"
  shows "edges_fit (b_Rows b) (row_spec p b)"
proof -
  let ?n = "b_Rows b" and ?R = "row_spec p b"
  have "length (rw_requirements (?R row)) \<le> length (p_RequirementIDs p)" for row
    using length_filter_le[of _ "[0..<length (p_RequirementIDs p)]"] by (simp add: row_spec_def considered_def Let_def)
  moreover have "length (row_driver (?R row)) \<le> ReasonCount" "length (rw_reasons (?R row)) \<le> ReasonCount" for row
    using length_filter_le[of _ "[ReasonMissing..<ReasonConflict + 1]"] by (simp_all add: row_driver_def row_spec_def Let_def)
  moreover have "length (concat (map cd_remediations (row_driver (?R row)))) \<le> maxExecutionRemediations p" for row
    using best_candidate_cases[of "p_Outcomes p" "row_candidates p b row"] candidate_remediations[OF p]
    by (auto simp: row_driver_def row_spec_def Let_def no_candidate_def)
  moreover have "length (csr_edges ?n (\<lambda>row. rw_evidence (?R row))) \<le> MaxUint32"
    by (rule evidence_edges_fit[OF b]) (use s in \<open>simp add: sizes_fit_def\<close>)
  ultimately show ?thesis
    using csr_edges_bound[of ?n "\<lambda>row. rw_requirements (?R row)" "length (p_RequirementIDs p)"] s
      csr_edges_bound[of ?n "\<lambda>row. row_driver (?R row)" ReasonCount] csr_edges_bound[of ?n "\<lambda>row. rw_reasons (?R row)" ReasonCount]
      csr_edges_bound[of ?n "\<lambda>row. concat (map cd_remediations (row_driver (?R row)))" "maxExecutionRemediations p"]
    by (simp add: edges_fit_def sizes_fit_def)
qed

section \<open>Preparation\<close>

lemma factMaskLen_fits: "rows \<le> MaxUint32 \<Longrightarrow> n \<le> MaxUint32 \<Longrightarrow> factMaskLen rows n = Some (n * word_count rows)"
proof -
  assume r: "rows \<le> MaxUint32" and n: "n \<le> MaxUint32"
  have w: "word_count rows \<le> 67108864" using r by (simp add: word_count_def)
  have "n * word_count rows \<le> MaxUint32 * 67108864" using mult_le_mono[OF n w] .
  moreover have "n \<le> MaxUint64 div word_count rows" if "word_count rows \<noteq> 0"
    using le_div_nat[of "word_count rows" n MaxUint64] that calculation by (simp add: mult.commute)
  ultimately show ?thesis by (auto simp: factMaskLen_def factWordCount_def word_count_def Let_def)
qed

lemma buildFactIndex_fits:
  assumes b: "validExecutionBatchColumns p b" and v: "FactSpec_Valid (p_FactIndexSpec p) (p_FieldIndex p) (p_ProgramSymbolCount p)"
    and q: "validFactIndexQueries p = Ok True" and ph: "physical p b" and c: "rows_clear vr"
  shows "\<exists>fi' vr'. buildFactIndex p b mode fi vr = Ok (fi', vr') \<and> facts_ok fi' p b \<and> rows_clear vr'"
proof -
  have u: "batch_u32 b" "program_u32 p" using ph by (simp_all add: physical_def)
  let ?cs = "batch_symbols p b"
  have cu: "columns_u32 ?cs"
    using u program_u32_count[OF u(2)] by (auto simp: columns_u32_def batch_symbols_def batch_u32_def program_u32_def sourceRows_def)
  note sh = batch_symbols_shape(1)[OF b v]
  have "length (b_SymbolValues b) = stride_of ?cs * sc_Count ?cs" using sh by (simp add: fact_shapes_def batch_symbols_def)
  then have cl: "factColumnLen (stride_of ?cs) (sc_Count ?cs) = Some (stride_of ?cs * sc_Count ?cs)"
    using ph by (simp add: factColumnLen_def physical_def Let_def)
  have ml: "factMaskLen (sc_Rows ?cs) (length (fs_Values (p_FactIndexSpec p))) = Some (length (fs_Values (p_FactIndexSpec p)) * word_count (sc_Rows ?cs))"
    using ph u by (intro factMaskLen_fits) (simp_all add: physical_def batch_u32_def batch_symbols_def)
  have "sc_ProgramSymbolCount ?cs + 1 \<le> MaxInt div 4" using u by (simp add: batch_symbols_def program_u32_def)
  then have "\<exists>vr' ix. FactBuilder_Build vr (p_FactIndexSpec p) ?cs = Ok (vr', ix)" using FactBuilder_Build_Ok[OF c cu sh cl ml] by blast
  then have "buildFactIndex p b mode fi vr \<noteq> Err ErrBatchTooLarge" by (auto simp: buildFactIndex_def)
  then show ?thesis using buildFactIndex_facts[OF b v q u c, of mode fi] by blast
qed

text \<open>The state of an executor between executions, for the programs at the addresses of the heap.\<close>

definition executor_inv :: "(nat \<Rightarrow> program) \<Rightarrow> executor \<Rightarrow> bool" where
  "executor_inv H e \<longleftrightarrow> rows_clear (ex_valueRows e) \<and>
     (\<forall>q. ex_query e = Some q \<longrightarrow> validBoundPolicy (p_ApplicabilityIndex (H q))) \<and>
     (\<forall>a. es_program (ex_states e) = Some a \<longrightarrow> es_reasons (ex_states e) = state_reasons (H a)) \<and>
     (\<forall>a. ex_program e = Some a \<longrightarrow> ex_query e = Some a \<and> es_program (ex_states e) = Some a \<and>
        validExecutionSemantics (H a) = Ok True)"

definition new_executor :: executor where
  "new_executor = \<lparr>ex_query = None, ex_program = None, ex_states = \<lparr>es_program = None, es_reasons = []\<rparr>, ex_valueRows = [],
     ex_truthWords = \<lparr>sl_array = [], sl_len = 0\<rparr>, ex_reasonWords = \<lparr>sl_array = [], sl_len = 0\<rparr>,
     ex_candidateWords = \<lparr>sl_array = [], sl_len = 0\<rparr>, ex_selectorValues = \<lparr>sl_array = [], sl_len = 0\<rparr>,
     ex_selectorPresent = \<lparr>sl_array = [], sl_len = 0\<rparr>, ex_compareMask = \<lparr>sl_array = [], sl_len = 0\<rparr>,
     ex_factIndex = \<lparr>fi_spec = None, fi_ValueMasks = [], fi_Rows = 0, fi_WordCount = 0\<rparr>\<rparr>"

lemma executor_inv_new [simp]: "executor_inv H new_executor"
  by (simp add: executor_inv_def new_executor_def rows_clear_def)

lemma rebind_Ok:
  assumes p: "program_ok (H a)" and inv: "executor_inv H e"
  shows "\<exists>e1. (if ex_program e \<noteq> Some a then rebind_program H e a else (e, Ok ())) = (e1, Ok ()) \<and>
    ex_query e1 = Some a \<and> es_program (ex_states e1) = Some a \<and> es_reasons (ex_states e1) = state_reasons (H a) \<and> ex_valueRows e1 = ex_valueRows e"
proof (cases "ex_program e = Some a")
  case True
  then show ?thesis using inv by (auto simp: executor_inv_def)
next
  case False
  have v: "validBoundPolicy (p_ApplicabilityIndex (H a))" and s: "list_all (\<lambda>name. Program_Symbol (H a) name \<noteq> None) (p_EvidenceStateNames (H a))"
    using p semantics_parts(5) by (auto simp: program_ok_def)
  show ?thesis using False v s inv
    by (cases "ex_query e"; cases "es_program (ex_states e) = Some a")
      (auto simp: rebind_program_def Query_Bind_def States_Bind_def executor_inv_def Let_def)
qed

lemma prepareExecution_Ok:
  assumes p: "program_ok (H a)" and ph: "physical (H a) b" and i: "input_ok (H a) b" and s: "sizes_fit (H a) b" and inv: "executor_inv H e"
  shows "\<exists>e'. prepareExecution H e dst a b mode = (e', Ok (rows_prefix (b_Rows b) 0 (row_spec (H a) b), programUsesEvidence (H a))) \<and>
    bound_to H a b e' \<and> ready H a (b_Rows b) e' \<and> ex_query e' = Some a \<and> rows_clear (ex_valueRows e') \<and>
    scratch_fits (ex_candidateWords e') (pi_WordCount (p_ApplicabilityIndex (H a))) \<and>
    scratch_fits (ex_selectorValues e') (length (pi_FieldIDs (p_ApplicabilityIndex (H a)))) \<and>
    scratch_fits (ex_selectorPresent e') (length (pi_FieldIDs (p_ApplicabilityIndex (H a))))"
proof -
  let ?p = "H a" and ?tl = "p_TruthSlotCount (H a) * (2 * word_count (b_Rows b))"
  let ?rl = "p_ReasonSlotCount (H a) * (ReasonCount * word_count (b_Rows b))"
  have v: "validExecutionSemantics ?p = Ok True" using p by (simp add: program_ok_def)
  have c: "check_execution H e a b = Ok (?tl, ?rl)" using check_execution_eq[of e a H b, OF _ ph] v i s by simp
  obtain e1 where e1: "(if ex_program e \<noteq> Some a then rebind_program H e a else (e, Ok ())) = (e1, Ok ())" "ex_query e1 = Some a"
    "es_program (ex_states e1) = Some a" "es_reasons (ex_states e1) = state_reasons ?p" "ex_valueRows e1 = ex_valueRows e"
    using rebind_Ok[OF p inv] by blast
  have "validExecutionBatchColumns ?p b" "rows_clear (ex_valueRows e1)"
    using i inv e1(5) by (simp_all add: input_ok_def batch_ok_def executor_inv_def)
  then obtain fi vr where f: "buildFactIndex ?p b mode (ex_factIndex e1) (ex_valueRows e1) = Ok (fi, vr)" "facts_ok fi ?p b" "rows_clear vr"
    using buildFactIndex_fits[OF _ semantics_parts(2,3)[OF v] ph] by blast
  have r: "Result_Reset dst (b_Rows b) = Ok (rows_prefix (b_Rows b) 0 (row_spec ?p b))"
    using ph by (intro Result_Reset_prefix) (simp add: physical_def batch_u32_def)
  let ?e' = "prepare_scratch ?p (prepareValidated a ?tl ?rl (e1\<lparr>ex_factIndex := fi, ex_valueRows := vr\<rparr>))"
  have "prepareExecution H e dst a b mode = (?e', Ok (rows_prefix (b_Rows b) 0 (row_spec ?p b), programUsesEvidence ?p))"
    unfolding prepareExecution_def Let_def c e1(1) res.case prod.case f(1) r by simp
  then show ?thesis using e1 f
    by (intro exI[of _ ?e']) (simp add: bound_to_def ready_def prepare_scratch_def prepareValidated_def)
qed

section \<open>Execution\<close>

context simd_contract begin

lemma executeMode_Ok:
  assumes p: "program_ok (H a)" and ph: "physical (H a) b" and i: "input_ok (H a) b" and s: "sizes_fit (H a) b" and inv: "executor_inv H e"
  shows "\<exists>e'. executeMode K H e dst a b mode = (e', Ok (result_of (H a) b)) \<and> executor_inv H e' \<and> ex_program e' = Some a \<and>
    row_ready H a b e'"
proof -
  obtain e1 where pe: "prepareExecution H e dst a b mode = (e1, Ok (rows_prefix (b_Rows b) 0 (row_spec (H a) b), programUsesEvidence (H a)))"
    and e1: "bound_to H a b e1" "ready H a (b_Rows b) e1" "ex_query e1 = Some a" "rows_clear (ex_valueRows e1)"
      "scratch_fits (ex_candidateWords e1) (pi_WordCount (p_ApplicabilityIndex (H a)))"
      "scratch_fits (ex_selectorValues e1) (length (pi_FieldIDs (p_ApplicabilityIndex (H a))))"
      "scratch_fits (ex_selectorPresent e1) (length (pi_FieldIDs (p_ApplicabilityIndex (H a))))"
    using prepareExecution_Ok[OF p ph i s inv] by blast
  have b: "batch_ok (H a) b" using i by (simp add: input_ok_def)
  have po: "instrs_ok (H a)" "slots_ok (p_TruthSlots (H a)) (H a)" "slots_ok (p_ReasonSlots (H a)) (H a)" "validBoundPolicy (p_ApplicabilityIndex (H a))"
    "validExecutionSemantics (H a) = Ok True"
    using p by (simp_all add: program_ok_def)
  obtain e2 where e2: "executeScheduleMode K H e1 a b mode = Ok e2" "slot_inv H a b (length (p_Opcodes (H a))) e2" "frame e2 = frame e1"
    using executeScheduleMode_sem[of H a, OF po(1,2,3) b e1(1,2), of mode] by blast
  note fr = frame_fields[OF e2(3)]
  have r2: "row_ready H a b e2" using e1 e2(2) fr by (simp add: row_ready_def bound_to_def)
  have "length (is_Kinds (p_FieldIndex (H a))) \<le> MaxUint32" using ph by (simp add: physical_def)
  from finalizeResults_prefix[of H a, OF p b this r2 row_spec_edges_fit[OF p b s]] obtain e3 where
    e3: "finalizeResults H e2 (rows_prefix (b_Rows b) 0 (row_spec (H a) b)) a b (programUsesEvidence (H a)) = Ok (e3, result_of (H a) b)"
    "row_ready H a b e3" "ex_query e3 = ex_query e2" "ex_program e3 = ex_program e2" "ex_states e3 = ex_states e2" "ex_valueRows e3 = ex_valueRows e2"
    by blast
  have "executor_inv H e3" "ex_program e3 = Some a" using e1 e3 fr po(4,5) by (auto simp: executor_inv_def bound_to_def ready_def)
  then show ?thesis using pe e2(1) e3(1,2) by (simp add: executeMode_def)
qed

lemma executeMode_cases:
  assumes p: "program_ok (H a)" and ph: "physical (H a) b" and inv: "executor_inv H e"
  shows "\<not> input_ok (H a) b \<Longrightarrow> executeMode K H e dst a b mode = (e, Err ErrInvalidProgram)"
    and "input_ok (H a) b \<Longrightarrow> \<not> sizes_fit (H a) b \<Longrightarrow> executeMode K H e dst a b mode = (e, Err ErrBatchTooLarge)"
  using check_execution_eq[of e a H b, OF _ ph] p by (simp_all add: executeMode_def prepareExecution_def program_ok_def)

end

text \<open>The answer of an execution as a function of the program and the batch alone.\<close>

definition execution_spec :: "program \<Rightarrow> batch \<Rightarrow> result_batch res" where
  "execution_spec p b =
     (if \<not> input_ok p b then Err ErrInvalidProgram else if \<not> sizes_fit p b then Err ErrBatchTooLarge else Ok (result_of p b))"

context simd_contract begin

lemma executeMode_spec:
  assumes p: "program_ok (H a)" and ph: "physical (H a) b" and inv: "executor_inv H e"
  shows "snd (executeMode K H e dst a b mode) = execution_spec (H a) b \<and> executor_inv H (fst (executeMode K H e dst a b mode))"
proof (cases "input_ok (H a) b \<and> sizes_fit (H a) b")
  case True
  then show ?thesis using executeMode_Ok[of H a, OF p ph _ _ inv, of dst mode] by (auto simp: execution_spec_def)
next
  case False
  then show ?thesis using executeMode_cases[of H a, OF p ph inv, of dst mode] inv by (auto simp: execution_spec_def)
qed

end

text \<open>A sequence of executions on one executor, each into its own result batch.\<close>

fun run_executor :: "simd_backend \<Rightarrow> (nat \<Rightarrow> program) \<Rightarrow> executor \<Rightarrow> (result_batch \<times> nat \<times> batch \<times> execution_mode) list \<Rightarrow> result_batch res list" where
  "run_executor K H e [] = []"
| "run_executor K H e ((dst, a, b, mode) # rs) =
     (case executeMode K H e dst a b mode of (e', r) \<Rightarrow> r # run_executor K H e' rs)"

section \<open>Properties of the results\<close>

text \<open>A compressed column: \<open>rows + 1\<close> offsets from zero to the number of edges, in order.\<close>

definition csr_ok :: "nat \<Rightarrow> nat list \<Rightarrow> nat \<Rightarrow> bool" where
  "csr_ok rows offsets edges \<longleftrightarrow> length offsets = rows + 1 \<and> offsets ! 0 = 0 \<and> sorted offsets \<and> offsets ! rows = edges \<and> edges < 2 ^ 32"

lemma csr_ok_edges:
  assumes "length (csr_edges n f) < 2 ^ 32"
  shows "csr_ok n (csr_offsets n f) (length (csr_edges n f))"
proof -
  have o: "csr_offsets n f ! k = length (csr_edges k f)" if "k \<le> n" for k
    unfolding csr_offsets_def csr_edges_def using that by (simp del: upt_Suc)
  then show ?thesis using assms csr_edges_mono by (auto simp: csr_ok_def sorted_iff_nth_mono)
qed

definition result_ok :: "result_batch \<Rightarrow> bool" where
  "result_ok r \<longleftrightarrow> length (rb_OutcomeIDs r) = rb_Rows r \<and>
     csr_ok (rb_Rows r) (rb_RequirementOffsets r) (length (rb_RequirementIDs r)) \<and>
     csr_ok (rb_Rows r) (rb_DriverOffsets r) (length (rb_DriverNodes r)) \<and>
     csr_ok (rb_Rows r) (rb_EvidenceOffsets r) (length (rb_EvidenceIDs r)) \<and>
     csr_ok (rb_Rows r) (rb_ReasonOffsets r) (length (rb_ReasonIDs r)) \<and>
     csr_ok (rb_Rows r) (rb_RemediationOffsets r) (length (rb_RemediationIDs r)) \<and>
     length (rb_DriverRequirements r) = length (rb_DriverNodes r) \<and> length (rb_DriverClauses r) = length (rb_DriverNodes r) \<and>
     length (rb_DriverReasons r) = length (rb_DriverNodes r) \<and> length (rb_DriverExplanations r) = length (rb_DriverNodes r) \<and>
     length (rb_ReasonNodes r) = length (rb_ReasonIDs r) \<and> length (rb_ReasonEvidenceIDs r) = length (rb_ReasonIDs r) \<and>
     length (rb_ReasonEvidenceStates r) = length (rb_ReasonIDs r)"

lemma rows_batch_ok: "edges_fit n R \<Longrightarrow> result_ok (rows_batch n R)"
  by (simp add: result_ok_def rows_batch_def edges_fit_def csr_ok_edges)

lemma row_candidates_empty:
  assumes "validExecutionSemantics p = Ok True"
  shows "row_candidates p b row = [] \<longleftrightarrow> considered p b row = []"
proof -
  have "requirement_candidates p b row rr \<noteq> []" if "rr \<in> set (considered p b row)" for rr
    using requirement_row(4)[OF assms, of rr] that by (simp add: requirement_candidates_def considered_def)
  then show ?thesis by (cases "considered p b row") (auto simp: row_candidates_def)
qed

lemma candidate_outcome:
  assumes "program_ok p" "batch_ok p b" "c \<in> set (row_candidates p b row)"
  shows "cd_outcome c \<noteq> 0"
proof -
  have "accesses p b row (\<lambda>root. Ok (truth_of p b row root)) (\<lambda>root. Ok (reasons_of p b row root))" by (simp add: accesses_def)
  from row_candidate_facts(1)[OF assms(1,2) this assms(3)] show ?thesis by (auto simp: Outcome_Lookup_def outcome_index_def split: if_splits)
qed

lemma best_candidate_best:
  assumes "cs \<noteq> []"
  shows "best_candidate t cs \<in> set cs" and "c \<in> set cs \<Longrightarrow> \<not> better t (cd_outcome c) (cd_outcome (best_candidate t cs))"
proof -
  let ?ks = "map (\<lambda>c. (cd_outcome c, c)) cs"
  obtain k z where z: "pick_best (better t) ?ks = Some (k, z)"
    using outcome_pref.pick_best_None_iff[of t ?ks] assms by (cases "pick_best (better t) ?ks") auto
  note ps = outcome_pref.pick_best_Some[OF z]
  have kz: "k = cd_outcome z" "z \<in> set cs" using ps(1) by auto
  then show "best_candidate t cs \<in> set cs" using z by (simp add: best_candidate_def)
  show "\<not> better t (cd_outcome c) (cd_outcome (best_candidate t cs))" if "c \<in> set cs"
    using ps(2) that kz z by (auto simp: best_candidate_def)
qed

end
