(* ===== verification/NR_Range.thy ===== *)
theory NR_Range
  imports NR_Execution
begin

text \<open>
  Execution of a range of rows, the unit of work of the scheduler: \<^verbatim>\<open>ExecuteRange\<close> evaluates a view of the
  batch whose rows are a word-aligned range of the batch's own rows, and returns exactly the results that
  the rows have in an execution of the whole batch.
\<close>

section \<open>Rows that the evaluator cannot tell apart\<close>

definition same_row :: "program \<Rightarrow> batch \<Rightarrow> nat \<Rightarrow> batch \<Rightarrow> nat \<Rightarrow> bool" where
  "same_row p b row b' row' \<longleftrightarrow>
     (\<forall>f. Batch_Present b f row = Batch_Present b' f row') \<and> (\<forall>c. Batch_Symbol b c row = Batch_Symbol b' c row') \<and>
     (\<forall>c. Batch_Integer b c row = Batch_Integer b' c row') \<and> (\<forall>c. Batch_Timestamp b c row = Batch_Timestamp b' c row') \<and>
     (\<forall>c. Batch_Boolean b c row = Batch_Boolean b' c row') \<and> b_Evidence b = b_Evidence b' \<and>
     (programUsesEvidence p \<longrightarrow> row_refs b row = row_refs b' row')"

lemma same_leaf:
  assumes "same_row p b row b' row'"
  shows "leaf_truth p b i row = leaf_truth p b' i row'" "leaf_reasons p b i row = leaf_reasons p b' i row'"
  using assms by (auto simp: leaf_truth_def leaf_reasons_def leaf_holds_def batch_cell_def same_row_def split: option.split value_kind.split)

lemma same_evidence:
  assumes "same_row p b row b' row'" "programUsesEvidence p"
  shows "evidence_truth p b pr row = evidence_truth p b' pr row'" "evidence_reasons p b pr row = evidence_reasons p b' pr row'"
  using assms by (simp_all add: same_row_def evidence_truth_def evidence_reasons_def row_classes_def)

lemma uses_evidence: "i < length (p_Opcodes p) \<Longrightarrow> p_Opcodes p ! i = OpcodeEvidence \<Longrightarrow> programUsesEvidence p"
  unfolding programUsesEvidence_def list_ex_iff by (metis nth_mem)

lemma same_sem_values: "same_row p b row b' row' \<Longrightarrow> n \<le> length (p_Opcodes p) \<Longrightarrow> sem_values p b row n = sem_values p b' row' n"
proof (induction n)
  case (Suc n)
  have "p_Opcodes p ! n = OpcodeEvidence \<Longrightarrow> programUsesEvidence p" using Suc.prems by (intro uses_evidence) simp_all
  then show ?case using Suc same_leaf[OF Suc.prems(1)] same_evidence[OF Suc.prems(1)]
    by (auto simp: instr_value_def Let_def split: opcode.split)
qed simp

lemma same_sem: "same_row p b row b' row' \<Longrightarrow> i < length (p_Opcodes p) \<Longrightarrow> sem p b row i = sem p b' row' i"
  using same_sem_values[of p b row b' row' "i + 1"] by (simp add: sem_def)

lemma same_root:
  assumes "same_row p b row b' row'" "root_ok p root"
  shows "truth_of p b row root = truth_of p b' row' root" "reasons_of p b row root = reasons_of p b' row' root"
proof -
  have "root - 1 < length (p_Opcodes p)" using assms(2) by (auto simp: root_ok_def)
  from same_sem[OF assms(1) this] show "truth_of p b row root = truth_of p b' row' root" "reasons_of p b row root = reasons_of p b' row' root"
    by (simp_all add: truth_of_def reasons_of_def)
qed

lemma same_first_root:
  assumes "\<forall>root \<in> set (clause_roots p c). P root = Q root"
  shows "first_root p c P = first_root p c Q"
proof -
  have "List.find (\<lambda>(root, node). P root) xs = List.find (\<lambda>(root, node). Q root) xs"
    if "\<forall>x \<in> set xs. fst x \<in> set (clause_roots p c)" for xs :: "(nat \<times> nat) list"
    using that assms by (induction xs) auto
  moreover have "\<forall>x \<in> set (zip (clause_roots p c) (clause_nodes p c)). fst x \<in> set (clause_roots p c)"
    by (auto dest: set_zip_leftD)
  ultimately show ?thesis by (simp add: first_root_def)
qed

lemma same_clause_candidate:
  assumes s: "same_row p b row b' row'" and v: "validExecutionSemantics p = Ok True" and c: "clauseID - 1 < length (p_ClauseAssertionRoots p)"
  shows "clause_candidate p b row req clauseID = clause_candidate p b' row' req clauseID"
proof -
  let ?c = "clauseID - 1"
  have r: "\<forall>root \<in> set (clause_roots p ?c). truth_of p b row root = truth_of p b' row' root \<and> reasons_of p b row root = reasons_of p b' row' root"
    using clause_row(1)[OF v c] same_root[OF s] by blast
  then have m: "map (truth_of p b row) (clause_roots p ?c) = map (truth_of p b' row') (clause_roots p ?c)"
    "map (reasons_of p b row) (clause_roots p ?c) = map (reasons_of p b' row') (clause_roots p ?c)" by simp_all
  have f: "first_root p ?c (\<lambda>root. snd (truth_of p b row root)) = first_root p ?c (\<lambda>root. snd (truth_of p b' row' root))"
    "first_root p ?c (\<lambda>root. mask_Has (reasons_of p b row root) k) = first_root p ?c (\<lambda>root. mask_Has (reasons_of p b' row' root) k)" for k
    using r by (auto intro!: same_first_root)
  show ?thesis unfolding clause_candidate_def clause_tv_def clause_mask_def Let_def m f by (rule refl)
qed

lemma same_candidates:
  assumes s: "same_row p b row b' row'" and v: "validExecutionSemantics p = Ok True"
  shows "considered p b row = considered p b' row'" and "row_candidates p b row = row_candidates p b' row'"
proof -
  have a: "admitted p b row = admitted p b' row'"
    using s by (simp add: admitted_def selector_value_def same_row_def fun_eq_iff cong: option.case_cong)
  have r: "truth_of p b row (p_RequirementRoots p ! rr) = truth_of p b' row' (p_RequirementRoots p ! rr)"
    "reasons_of p b row (p_RequirementRoots p ! rr) = reasons_of p b' row' (p_RequirementRoots p ! rr)" if "rr < length (p_RequirementIDs p)" for rr
    using same_root[OF s requirement_row(1)[OF v that]] by blast+
  show c: "considered p b row = considered p b' row'" unfolding considered_def by (rule filter_cong) (auto simp: a r)
  have "requirement_candidates p b row rr = requirement_candidates p b' row' rr" if "rr \<in> set (considered p b' row')" for rr
  proof -
    have rr: "rr < length (p_RequirementIDs p)" using that by (simp add: considered_def)
    have "clause_candidate p b row (p_RequirementIDs p ! rr) x = clause_candidate p b' row' (p_RequirementIDs p ! rr) x"
      if "x \<in> set (requirement_clauses p rr)" for x
      using same_clause_candidate[OF s v] requirement_row(3)[OF v rr that] by blast
    then show ?thesis using r[OF rr] by (simp add: requirement_candidates_def applicability_candidate_def)
  qed
  then show "row_candidates p b row = row_candidates p b' row'" unfolding row_candidates_def c by (simp cong: map_cong)
qed

lemma clause_without_evidence:
  assumes p: "program_ok p" and c: "c < length (p_ClauseAssertionRoots p)" and n: "\<not> programUsesEvidence p"
  shows "clause_roots p c = [p_ClauseAssertionRoots p ! c]"
proof -
  have v: "validExecutionSemantics p = Ok True" using p by (simp add: program_ok_def)
  have False if x: "x \<in> set (clause_edge_range p c (p_ClauseEvidenceIDs p))" for x
  proof -
    have "root_ok p x" using clause_row(1)[OF v c] x by (simp add: clause_roots_def)
    then have "x - 1 < length (p_Opcodes p)" by (auto simp: root_ok_def)
    moreover have "x \<in> set (p_ClauseEvidenceIDs p)" using x by (auto simp: clause_edge_range_def dest: in_set_takeD in_set_dropD)
    then have "p_Opcodes p ! (x - 1) = OpcodeEvidence" using p by (simp add: program_ok_def list_all_iff)
    ultimately show False using uses_evidence n by blast
  qed
  then have "clause_edge_range p c (p_ClauseEvidenceIDs p) = []" by (cases "clause_edge_range p c (p_ClauseEvidenceIDs p)") auto
  then show ?thesis by (simp add: clause_roots_def)
qed

lemma same_provenance:
  assumes s: "same_row p b row b' row'" and p: "program_ok p"
    and c: "cd_applicability cand \<or> cd_clause cand - 1 < length (p_ClauseAssertionRoots p) \<and>
      mask_Has (clause_mask p b row (cd_clause cand - 1)) reason"
  shows "provenance p b row cand reason = provenance p b' row' cand reason"
proof (cases "cd_applicability cand")
  case False
  let ?c = "cd_clause cand - 1"
  have v: "validExecutionSemantics p = Ok True" using p by (simp add: program_ok_def)
  have cl: "?c < length (p_ClauseAssertionRoots p)" "mask_Has (clause_mask p b row ?c) reason" using c False by auto
  have r: "reasons_of p b row root = reasons_of p b' row' root" if "root \<in> set (clause_roots p ?c)" for root
    using clause_row(1)[OF v cl(1) that] same_root[OF s] by blast
  then have a: "reasons_of p b row (p_ClauseAssertionRoots p ! ?c) = reasons_of p b' row' (p_ClauseAssertionRoots p ! ?c)"
    by (simp add: clause_roots_def)
  have f: "first_root p ?c (\<lambda>root. mask_Has (reasons_of p b row root) reason) = first_root p ?c (\<lambda>root. mask_Has (reasons_of p b' row' root) reason)"
    by (rule same_first_root) (simp add: r)
  show ?thesis
  proof (cases "programUsesEvidence p")
    case True
    then have "causal_record p b row root reason = causal_record p b' row' root reason" for root
      using s by (simp add: causal_record_def same_row_def)
    then show ?thesis unfolding provenance_def Let_def a f by simp
  next
    case n: False
    have "mask_Has (reasons_of p b row (p_ClauseAssertionRoots p ! ?c)) reason"
      using cl(2) unfolding clause_mask_def clause_without_evidence[OF p cl(1) n] by (simp add: mask_union_def)
    then show ?thesis unfolding provenance_def Let_def a by simp
  qed
qed (simp add: provenance_def)

lemma same_row_spec:
  assumes s: "same_row p b row b' row'" and p: "program_ok p" and b: "batch_ok p b"
  shows "row_spec p b row = row_spec p b' row'"
proof -
  have v: "validExecutionSemantics p = Ok True" using p by (simp add: program_ok_def)
  note cs = same_candidates[OF s v]
  have acc: "accesses p b row (\<lambda>root. Ok (truth_of p b row root)) (\<lambda>root. Ok (reasons_of p b row root))" by (simp add: accesses_def)
  let ?best = "best_candidate (p_Outcomes p) (row_candidates p b' row')"
  have "provenance p b row ?best reason = provenance p b' row' ?best reason" if "mask_Has (cd_reasons ?best) reason" for reason
  proof (cases "?best = no_candidate")
    case True
    then show ?thesis using that by (simp add: no_candidate_def mask_Has_def)
  next
    case False
    then have "?best \<in> set (row_candidates p b row)" using best_candidate_cases cs(2) by metis
    from row_candidate_facts(2)[OF p b acc this] that show ?thesis by (intro same_provenance[OF s p]) (auto simp: mask_Has_def)
  qed
  moreover have "map (nth (ev_IDs (b_Evidence b))) (row_refs b row) = map (nth (ev_IDs (b_Evidence b'))) (row_refs b' row')" if "programUsesEvidence p"
    using s that by (simp add: same_row_def)
  ultimately show ?thesis unfolding row_spec_def Let_def cs by simp
qed

section \<open>The view of a range\<close>

text \<open>A range that \<^verbatim>\<open>ExecuteRange\<close> accepts: word-aligned, inside a batch that is not itself a view.\<close>

definition range_ok :: "batch \<Rightarrow> nat \<Rightarrow> nat \<Rightarrow> bool" where
  "range_ok b start end \<longleftrightarrow> b_rowStride b = 0 \<and> b_rowBase b = 0 \<and> start \<le> end \<and> end \<le> b_Rows b \<and> start mod 64 = 0 \<and>
     (end mod 64 = 0 \<or> end = b_Rows b)"

definition view_of :: "program \<Rightarrow> batch \<Rightarrow> nat \<Rightarrow> nat \<Rightarrow> batch" where
  "view_of p b start end =
     (let rows = end - start; base = b_EvidenceOffsets b ! start; limit = b_EvidenceOffsets b ! end in
      b\<lparr>b_Rows := rows, b_rowBase := start, b_rowStride := b_Rows b, b_RequestIDs := take rows (drop start (b_RequestIDs b)),
        b_EvidenceOffsets := (if programUsesEvidence p
          then map (\<lambda>offset. offset - base) (take (rows + 1) (drop start (b_EvidenceOffsets b))) else replicate (rows + 1) 0),
        b_EvidenceRefs := (if programUsesEvidence p then take (limit - base) (drop base (b_EvidenceRefs b)) else [])\<rparr>)"

lemma rebase_offsets_Some:
  "sorted (previous # offsets) \<Longrightarrow> \<forall>offset \<in> set offsets. offset \<le> limit \<Longrightarrow>
   rebase_offsets base limit previous offsets = Some (map (\<lambda>offset. offset - base) offsets)"
  by (induction offsets arbitrary: previous) auto

lemma evidence_offsets_sorted:
  assumes "validEvidenceBatch b p"
  shows "sorted (b_EvidenceOffsets b)" "i \<le> b_Rows b \<Longrightarrow> b_EvidenceOffsets b ! i \<le> length (b_EvidenceRefs b)"
    "b_EvidenceOffsets b ! 0 = 0" "b_EvidenceOffsets b ! b_Rows b = length (b_EvidenceRefs b)"
proof -
  note l = evidence_batch_ok(1)[OF assms]
  show s: "sorted (b_EvidenceOffsets b)" unfolding sorted_iff_nth_Suc using evidence_batch_ok(2)[OF assms] l by auto
  show e: "b_EvidenceOffsets b ! 0 = 0" "b_EvidenceOffsets b ! b_Rows b = length (b_EvidenceRefs b)"
    using assms by (auto simp: validEvidenceBatch_def Let_def split: if_splits)
  show "b_EvidenceOffsets b ! i \<le> length (b_EvidenceRefs b)" if "i \<le> b_Rows b"
    using sorted_nth_mono[OF s that] l e(2) by simp
qed

lemma range_view_Ok:
  assumes i: "input_ok p b" and r: "range_ok b start end" and u: "b_Rows b \<le> MaxUint32" and l: "length eo = end - start + 1"
  shows "range_view p b start end eo = Ok (view_of p b start end)"
proof -
  let ?eo = "b_EvidenceOffsets b" and ?rows = "end - start"
  let ?w = "take (?rows + 1) (drop start ?eo)"
  have g: "start \<le> end" "end \<le> b_Rows b" "start + (?rows + 1) = end + 1" using r by (auto simp: range_ok_def)
  have rebase: "length ?eo = b_Rows b + 1 \<and> ?eo ! start \<le> ?eo ! end \<and> ?eo ! end \<le> length (b_EvidenceRefs b) \<and>
      rebase_offsets (?eo ! start) (?eo ! end) (?eo ! start) ?w = Some (map (\<lambda>offset. offset - ?eo ! start) ?w)" if "programUsesEvidence p"
  proof -
    have v: "validEvidenceBatch b p" using i that by (simp add: input_ok_def batch_ok_def)
    note so = evidence_offsets_sorted[OF v] and len = evidence_batch_ok(1)[OF v]
    have w: "x \<in> set ?w \<Longrightarrow> ?eo ! start \<le> x \<and> x \<le> ?eo ! end" for x
      using sorted_nth_mono[OF so(1)] len g by (auto simp: in_set_conv_nth)
    have "sorted ?w" using so(1) by (simp add: sorted_wrt_take sorted_wrt_drop)
    then have "rebase_offsets (?eo ! start) (?eo ! end) (?eo ! start) ?w = Some (map (\<lambda>offset. offset - ?eo ! start) ?w)"
      using w by (intro rebase_offsets_Some) auto
    then show ?thesis using len so(2)[of "end"] sorted_nth_mono[OF so(1), of start "end"] g by simp
  qed
  have "length (b_RequestIDs b) = b_Rows b" using i by (simp add: input_ok_def)
  then show ?thesis using r u l rebase
    by (cases "programUsesEvidence p") (auto simp: range_view_def range_ok_def view_of_def Let_def)
qed

lemma view_fields [simp]:
  "b_Rows (view_of p b start end) = end - start" "b_rowBase (view_of p b start end) = start" "b_rowStride (view_of p b start end) = b_Rows b"
  "b_SymbolValues (view_of p b start end) = b_SymbolValues b" "b_IntegerValues (view_of p b start end) = b_IntegerValues b"
  "b_TimestampValues (view_of p b start end) = b_TimestampValues b" "b_BooleanValues (view_of p b start end) = b_BooleanValues b"
  "b_PresenceMasks (view_of p b start end) = b_PresenceMasks b" "b_Evidence (view_of p b start end) = b_Evidence b"
  "b_RequestIDs (view_of p b start end) = take (end - start) (drop start (b_RequestIDs b))"
  by (simp_all add: view_of_def Let_def)

lemma view_source:
  assumes "range_ok b start end"
  shows "sourceRows (view_of p b start end) = sourceRows b" "sourceWords (view_of p b start end) = sourceWords b"
    "validPhysicalRange (view_of p b start end)"
  using assms by (auto simp: range_ok_def sourceRows_def sourceWords_def validPhysicalRange_def)

lemma range_physical: "range_ok b start end \<Longrightarrow> validPhysicalRange b"
  by (auto simp: range_ok_def validPhysicalRange_def sourceRows_def)

lemma view_row_refs:
  assumes v: "validEvidenceBatch b p" and e: "programUsesEvidence p" and r: "range_ok b start end" and k: "k < end - start"
  shows "row_refs (view_of p b start end) k = row_refs b (start + k)"
proof -
  let ?eo = "b_EvidenceOffsets b"
  note so = evidence_offsets_sorted[OF v] and len = evidence_batch_ok(1)[OF v]
  have g: "start \<le> end" "end \<le> b_Rows b" using r by (auto simp: range_ok_def)
  have o: "?eo ! start \<le> ?eo ! (start + k)" "?eo ! (start + k) \<le> ?eo ! (start + k + 1)" "?eo ! (start + k + 1) \<le> ?eo ! end"
    using sorted_nth_mono[OF so(1), of start "start + k"] sorted_nth_mono[OF so(1), of "start + k" "start + k + 1"]
      sorted_nth_mono[OF so(1), of "start + k + 1" "end"] k g len by auto
  have n: "b_EvidenceOffsets (view_of p b start end) ! j = ?eo ! (start + j) - ?eo ! start" if "j \<le> end - start" for j
    using that e g len by (simp add: view_of_def Let_def)
  show ?thesis using o n[of k] n[of "Suc k"] k e by (simp add: row_refs_def view_of_def Let_def take_drop min_def add.commute)
qed

lemma view_row_value:
  assumes r: "range_ok b start end" and k: "k < end - start"
  shows "row_value (view_of p b start end) vals c k = row_value b vals c (start + k)"
proof -
  have "start + k < b_Rows b" "b_rowBase b = 0" using r k by (auto simp: range_ok_def)
  then show ?thesis using view_source[OF r, of p] range_physical[OF r] k by (simp add: row_value_def Let_def add.assoc)
qed

lemma view_same_row:
  assumes i: "input_ok p b" and r: "range_ok b start end" and k: "k < end - start"
  shows "same_row p (view_of p b start end) k b (start + k)"
proof -
  let ?v = "view_of p b start end"
  note src = view_source[OF r, of p] range_physical[OF r]
  have m: "start mod 64 = 0" and g: "start + k < b_Rows b" "b_rowBase b = 0" using r k by (auto simp: range_ok_def)
  obtain q where q: "start = 64 * q" using m by auto
  have w: "wordBase ?v + k div 64 = (start + k) div 64" "row_bit k = row_bit (start + k)" "wordBase b = 0"
    unfolding q by (simp_all add: wordBase_def row_bit_def q g)
  have pres: "Batch_Present ?v f k = Batch_Present b f (start + k)" "Batch_Boolean ?v c k = Batch_Boolean b c (start + k)" for f c
    using src k g w by (simp_all add: Batch_Present_def Batch_Boolean_def Let_def add.assoc)
  have "programUsesEvidence p \<Longrightarrow> validEvidenceBatch b p" using i by (simp add: input_ok_def batch_ok_def)
  then show ?thesis using pres view_row_refs[OF _ _ r k]
    by (simp add: same_row_def Batch_Symbol_def Batch_Integer_def Batch_Timestamp_def view_row_value[OF r k])
qed

lemma view_evidence:
  assumes v: "validEvidenceBatch b p" and e: "programUsesEvidence p" and r: "range_ok b start end" and q: "length (b_RequestIDs b) = b_Rows b"
  shows "validEvidenceBatch (view_of p b start end) p"
proof -
  let ?eo = "b_EvidenceOffsets b" and ?v = "view_of p b start end" and ?rows = "end - start"
  note so = evidence_offsets_sorted[OF v] and len = evidence_batch_ok(1)[OF v]
  have g: "start \<le> end" "end \<le> b_Rows b" using r by (auto simp: range_ok_def)
  have n: "b_EvidenceOffsets ?v ! j = ?eo ! (start + j) - ?eo ! start" if "j \<le> ?rows" for j
    using that e g len by (simp add: view_of_def Let_def)
  have l: "length (b_EvidenceOffsets ?v) = ?rows + 1" using e g len by (simp add: view_of_def Let_def)
  have rl: "length (b_EvidenceRefs ?v) = ?eo ! end - ?eo ! start" using e so(2)[of "end"] g by (simp add: view_of_def Let_def)
  have mono: "?eo ! (start + i) \<le> ?eo ! (start + j)" if "i \<le> j" "j \<le> ?rows" for i j
    using sorted_nth_mono[OF so(1)] that len g by simp
  have refs: "set (b_EvidenceRefs ?v) \<subseteq> set (b_EvidenceRefs b)" using e by (auto simp: view_of_def Let_def dest: in_set_takeD in_set_dropD)
  have step: "b_EvidenceOffsets ?v ! i \<le> b_EvidenceOffsets ?v ! (i + 1) \<and> b_EvidenceOffsets ?v ! (i + 1) \<le> length (b_EvidenceRefs ?v)" if "i < ?rows" for i
    using mono[of i "i + 1"] mono[of "i + 1" ?rows] mono[of 0 i] that n[of i] n[of "i + 1"] rl g by (simp add: diff_le_mono)
  have "b_EvidenceOffsets ?v ! 0 = 0" "b_EvidenceOffsets ?v ! ?rows = length (b_EvidenceRefs ?v)" using n[of 0] n[of ?rows] rl g by simp_all
  then show ?thesis using v step refs l q g unfolding validEvidenceBatch_def Let_def
    by (simp add: list_all_iff subset_iff split: if_splits)
qed

lemma view_input:
  assumes i: "input_ok p b" and r: "range_ok b start end"
  shows "input_ok p (view_of p b start end)"
proof -
  have c: "validExecutionBatchColumns p b" and q: "length (b_RequestIDs b) = b_Rows b" using i by (simp_all add: input_ok_def batch_ok_def)
  have "validExecutionBatchColumns p (view_of p b start end)"
    using c view_source[OF r, of p] by (simp add: validExecutionBatchColumns_def Let_def split: if_splits)
  then show ?thesis using i view_evidence[OF _ _ r q] q r by (auto simp: input_ok_def batch_ok_def range_ok_def)
qed

lemma view_fits:
  assumes i: "input_ok p b" and r: "range_ok b start end" and ph: "physical p b" and s: "sizes_fit p b"
  shows "physical p (view_of p b start end)" "sizes_fit p (view_of p b start end)"
proof -
  let ?v = "view_of p b start end"
  have g: "end - start \<le> b_Rows b" "start \<le> b_Rows b" using r by (auto simp: range_ok_def)
  show "physical p ?v" using ph g by (auto simp: physical_def batch_u32_def)
  have w: "word_count (end - start) \<le> word_count (b_Rows b)" using word_count_mono[OF g(1)] .
  have "length (b_EvidenceRefs ?v) \<le> length (b_EvidenceRefs b)" by (auto simp: view_of_def Let_def)
  moreover have "a * (k * word_count (end - start)) \<le> a * (k * word_count (b_Rows b))" "(end - start) * a \<le> b_Rows b * a" for a k
    using w g by (simp_all add: mult_le_mono)
  ultimately show "sizes_fit p ?v" using s order_trans unfolding sizes_fit_def view_fields by (meson le_trans)
qed

lemma csr_cong:
  assumes "\<And>k. k < n \<Longrightarrow> f k = g k"
  shows "csr_edges n f = csr_edges n g" "csr_offsets n f = csr_offsets n g"
proof -
  have e: "map f [0..<k] = map g [0..<k]" if "k \<le> n" for k using assms that by (intro map_cong) auto
  show "csr_edges n f = csr_edges n g" unfolding csr_edges_def using e[OF order_refl] by (rule arg_cong)
  show "csr_offsets n f = csr_offsets n g" unfolding csr_offsets_def
  proof (rule map_cong[OF refl])
    fix k assume "k \<in> set [0..<n + 1]"
    then have "k \<le> n" by auto
    then show "length (concat (map f [0..<k])) = length (concat (map g [0..<k]))" by (simp only: e)
  qed
qed

lemma rows_batch_cong:
  assumes "\<And>k. k < n \<Longrightarrow> R k = S k"
  shows "rows_batch n R = rows_batch n S"
  unfolding rows_batch_def using assms by (simp cong: csr_cong)

lemma view_result:
  assumes p: "program_ok p" and i: "input_ok p b" and r: "range_ok b start end"
  shows "result_of p (view_of p b start end) = rows_batch (end - start) (\<lambda>k. row_spec p b (start + k))"
proof -
  have "row_spec p (view_of p b start end) k = row_spec p b (start + k)" if "k < end - start" for k
    using same_row_spec[OF view_same_row[OF i r that] p] view_input[OF i r] by (simp add: input_ok_def)
  then show ?thesis unfolding result_of_def view_fields by (rule rows_batch_cong) 
qed

section \<open>Execution of a range\<close>

context simd_contract begin

lemma executeRangeMode_Ok:
  assumes p: "program_ok (H a)" and ph: "physical (H a) b" and i: "input_ok (H a) b" and s: "sizes_fit (H a) b" and inv: "executor_inv H e"
    and r: "range_ok b start end" and l: "length eo = end - start + 1"
  shows "\<exists>e'. executeRangeMode K H e dst a b start end eo mode =
      (e', Ok (rows_batch (end - start) (\<lambda>k. row_spec (H a) b (start + k)))) \<and> executor_inv H e'"
proof -
  have "b_Rows b \<le> MaxUint32" using ph by (simp add: physical_def batch_u32_def)
  then have v: "range_view (H a) b start end eo = Ok (view_of (H a) b start end)" using range_view_Ok[OF i r _ l] by simp
  from executeMode_Ok[of H a, OF p view_fits(1)[OF i r ph s] view_input[OF i r] view_fits(2)[OF i r ph s] inv]
  obtain e' where "executeMode K H e dst a (view_of (H a) b start end) mode = (e', Ok (result_of (H a) (view_of (H a) b start end)))"
    "executor_inv H e'" by blast
  then show ?thesis using v view_result[OF p i r] by (simp add: executeRangeMode_def)
qed

end

end
