(* ===== verification/NR_Shard.thy ===== *)
theory NR_Shard
  imports NR_Range
begin

text \<open>
  The shards of the scheduler, \<^verbatim>\<open>internal/scheduler/shard.go\<close>: the partition of the rows of a batch
  into word-aligned ranges and the merge of the results of the ranges. The ranges tile the batch, the merge
  never panics, and merging the results of the ranges gives the result of the whole batch.
\<close>

section \<open>Partition\<close>

record row_range =
  rg_start :: nat
  rg_end :: nat

text \<open>The loop over the shards; \<open>wordStart\<close> is a \<^verbatim>\<open>uint64\<close>, the bounds of a range are \<^verbatim>\<open>uint32\<close>.\<close>

definition shard_words :: "nat \<Rightarrow> nat \<Rightarrow> nat \<Rightarrow> nat \<Rightarrow> nat" where
  "shard_words wordsPerShard extraWords wordStart shard =
     (wordStart + (if shard < extraWords then wordsPerShard + 1 else wordsPerShard)) mod 2 ^ 64"

definition shard_range :: "nat \<Rightarrow> nat \<Rightarrow> nat \<Rightarrow> row_range" where
  "shard_range rows wordStart wordEnd =
     (let start = wordStart * 64 mod 2 ^ 64; end0 = wordEnd * 64 mod 2 ^ 64; end = (if end0 > rows then rows else end0) in
      \<lparr>rg_start = start mod 2 ^ 32, rg_end = end mod 2 ^ 32\<rparr>)"

primrec partition_loop :: "nat \<Rightarrow> nat \<Rightarrow> nat \<Rightarrow> nat \<Rightarrow> nat list \<Rightarrow> row_range list" where
  "partition_loop wordsPerShard extraWords rows wordStart [] = []"
| "partition_loop wordsPerShard extraWords rows wordStart (shard # shards) =
     (let wordEnd = shard_words wordsPerShard extraWords wordStart shard in
      shard_range rows wordStart wordEnd # partition_loop wordsPerShard extraWords rows wordEnd shards)"

definition partitionRows :: "nat \<Rightarrow> nat \<Rightarrow> int \<Rightarrow> row_range list" where
  "partitionRows room rows shards =
     (if room = 0 then []
      else let count0 = (if shards < 1 then 1 else nat shards); count1 = (if count0 > room then room else count0);
               words = (rows + 63) div 64;
               count = (if words = 0 then 1 else if count1 > words then words else count1) in
      partition_loop (words div count) (words mod count) rows 0 [0..<count])"

section \<open>Merge\<close>

text \<open>A compressed column of a shard: the number of its edges, or no answer.\<close>

fun ascending_from :: "nat \<Rightarrow> nat list \<Rightarrow> nat option" where
  "ascending_from previous [] = Some previous"
| "ascending_from previous (offset # offsets) = (if offset < previous then None else ascending_from offset offsets)"

definition validShardCSR :: "nat list \<Rightarrow> nat \<Rightarrow> nat \<Rightarrow> nat option" where
  "validShardCSR offsets edgeCount rows =
     (if rows + 1 > MaxInt \<or> length offsets \<noteq> rows + 1 \<or> length offsets = 0 \<or> hd offsets \<noteq> 0 then None
      else case ascending_from 0 (tl offsets) of None \<Rightarrow> None
      | Some previous \<Rightarrow> if previous = edgeCount then Some previous else None)"

definition mergeEdgeLimit :: nat where
  "mergeEdgeLimit = (if MaxInt > MaxUint32 then MaxUint32 else MaxInt)"

definition addMergeEdges :: "nat \<Rightarrow> nat \<Rightarrow> nat option" where
  "addMergeEdges acc count =
     (if acc > mergeEdgeLimit \<or> count > mergeEdgeLimit - acc then None else Some (acc + count))"

definition rebaseShardOffsets :: "nat list \<Rightarrow> nat \<Rightarrow> nat list \<Rightarrow> nat \<Rightarrow> nat list res" where
  "rebaseShardOffsets dst rowStart source base =
     res_foldM (\<lambda>(row, offset) d. upd d (rowStart + row) ((base + offset) mod 2 ^ 32)) (enumerate 0 source) dst"

record merge_totals =
  mt_requirements :: nat
  mt_drivers :: nat
  mt_evidence :: nat
  mt_reasons :: nat
  mt_remediations :: nat

text \<open>The checks of one shard: the new totals and the rows covered so far.\<close>

definition shard_counts :: "result_batch \<Rightarrow> (nat \<times> nat \<times> nat \<times> nat \<times> nat) option" where
  "shard_counts s =
     (case validShardCSR (rb_RequirementOffsets s) (length (rb_RequirementIDs s)) (rb_Rows s) of None \<Rightarrow> None
      | Some requirements \<Rightarrow>
     (case validShardCSR (rb_DriverOffsets s) (length (rb_DriverRequirements s)) (rb_Rows s) of None \<Rightarrow> None
      | Some drivers \<Rightarrow>
        if length (rb_DriverClauses s) \<noteq> drivers \<or> length (rb_DriverNodes s) \<noteq> drivers \<or> length (rb_DriverReasons s) \<noteq> drivers \<or>
           length (rb_DriverExplanations s) \<noteq> drivers then None
        else
     (case validShardCSR (rb_EvidenceOffsets s) (length (rb_EvidenceIDs s)) (rb_Rows s) of None \<Rightarrow> None
      | Some evidence \<Rightarrow>
     (case validShardCSR (rb_ReasonOffsets s) (length (rb_ReasonIDs s)) (rb_Rows s) of None \<Rightarrow> None
      | Some reasons \<Rightarrow>
        if length (rb_ReasonNodes s) \<noteq> reasons \<or> length (rb_ReasonEvidenceIDs s) \<noteq> reasons \<or>
           length (rb_ReasonEvidenceStates s) \<noteq> reasons then None
        else
     (case validShardCSR (rb_RemediationOffsets s) (length (rb_RemediationIDs s)) (rb_Rows s) of None \<Rightarrow> None
      | Some remediations \<Rightarrow> Some (requirements, drivers, evidence, reasons, remediations))))))"

definition add_counts :: "merge_totals \<Rightarrow> nat \<times> nat \<times> nat \<times> nat \<times> nat \<Rightarrow> merge_totals option" where
  "add_counts t counts =
     (case counts of (requirements, drivers, evidence, reasons, remediations) \<Rightarrow>
      Option.bind (addMergeEdges (mt_requirements t) requirements) (\<lambda>a.
      Option.bind (addMergeEdges (mt_drivers t) drivers) (\<lambda>b.
      Option.bind (addMergeEdges (mt_evidence t) evidence) (\<lambda>c.
      Option.bind (addMergeEdges (mt_reasons t) reasons) (\<lambda>d.
      Option.bind (addMergeEdges (mt_remediations t) remediations) (\<lambda>e.
      Some \<lparr>mt_requirements = a, mt_drivers = b, mt_evidence = c, mt_reasons = d, mt_remediations = e\<rparr>))))))"

definition check_shard :: "nat \<Rightarrow> row_range \<times> result_batch \<Rightarrow> merge_totals \<times> nat \<Rightarrow> (merge_totals \<times> nat) option" where
  "check_shard rows rs acc =
     (case rs of (r, s) \<Rightarrow> case acc of (t, covered) \<Rightarrow>
      if rg_start r \<noteq> covered \<or> rg_end r < rg_start r \<or> rg_end r > rows \<or> rg_end r - rg_start r \<noteq> rb_Rows s \<or>
         length (rb_OutcomeIDs s) \<noteq> rb_Rows s then None
      else case shard_counts s of None \<Rightarrow> None
      | Some counts \<Rightarrow> (case add_counts t counts of None \<Rightarrow> None | Some t' \<Rightarrow> Some (t', rg_end r)))"

fun check_shards :: "nat \<Rightarrow> (row_range \<times> result_batch) list \<Rightarrow> merge_totals \<times> nat \<Rightarrow> (merge_totals \<times> nat) option" where
  "check_shards rows [] acc = Some acc"
| "check_shards rows (rs # rest) acc =
     (case check_shard rows rs acc of None \<Rightarrow> None | Some acc' \<Rightarrow> check_shards rows rest acc')"

text \<open>The copy of one shard into the destination. Growing a column to its final capacity does not change it.\<close>

definition copy_shard :: "row_range \<times> result_batch \<Rightarrow> result_batch \<Rightarrow> result_batch res" where
  "copy_shard rs dst =
     (case rs of (r, s) \<Rightarrow>
      let rowStart = rg_start r; rowEnd = rg_end r in
      rbind (subslice (rb_OutcomeIDs dst) rowStart rowEnd) (\<lambda>window.
      let outcomes = splice (rb_OutcomeIDs dst) rowStart
            (take (length window) (rb_OutcomeIDs s) @ drop (length (rb_OutcomeIDs s)) window) in
      rbind (rebaseShardOffsets (rb_RequirementOffsets dst) rowStart (rb_RequirementOffsets s) (length (rb_RequirementIDs dst) mod 2 ^ 32)) (\<lambda>reqs.
      rbind (rebaseShardOffsets (rb_DriverOffsets dst) rowStart (rb_DriverOffsets s) (length (rb_DriverRequirements dst) mod 2 ^ 32)) (\<lambda>drvs.
      rbind (rebaseShardOffsets (rb_EvidenceOffsets dst) rowStart (rb_EvidenceOffsets s) (length (rb_EvidenceIDs dst) mod 2 ^ 32)) (\<lambda>evs.
      rbind (rebaseShardOffsets (rb_ReasonOffsets dst) rowStart (rb_ReasonOffsets s) (length (rb_ReasonIDs dst) mod 2 ^ 32)) (\<lambda>rsns.
      rbind (rebaseShardOffsets (rb_RemediationOffsets dst) rowStart (rb_RemediationOffsets s) (length (rb_RemediationIDs dst) mod 2 ^ 32)) (\<lambda>rems.
      Ok (dst\<lparr>rb_OutcomeIDs := outcomes,
        rb_RequirementOffsets := reqs, rb_RequirementIDs := rb_RequirementIDs dst @ rb_RequirementIDs s,
        rb_DriverOffsets := drvs, rb_DriverRequirements := rb_DriverRequirements dst @ rb_DriverRequirements s,
        rb_DriverClauses := rb_DriverClauses dst @ rb_DriverClauses s, rb_DriverNodes := rb_DriverNodes dst @ rb_DriverNodes s,
        rb_DriverReasons := rb_DriverReasons dst @ rb_DriverReasons s,
        rb_DriverExplanations := rb_DriverExplanations dst @ rb_DriverExplanations s,
        rb_EvidenceOffsets := evs, rb_EvidenceIDs := rb_EvidenceIDs dst @ rb_EvidenceIDs s,
        rb_ReasonOffsets := rsns, rb_ReasonIDs := rb_ReasonIDs dst @ rb_ReasonIDs s, rb_ReasonNodes := rb_ReasonNodes dst @ rb_ReasonNodes s,
        rb_ReasonEvidenceIDs := rb_ReasonEvidenceIDs dst @ rb_ReasonEvidenceIDs s,
        rb_ReasonEvidenceStates := rb_ReasonEvidenceStates dst @ rb_ReasonEvidenceStates s,
        rb_RemediationOffsets := rems, rb_RemediationIDs := rb_RemediationIDs dst @ rb_RemediationIDs s\<rparr>))))))))"

definition mergeResults :: "result_batch \<Rightarrow> result_batch list \<Rightarrow> row_range list \<Rightarrow> nat \<Rightarrow> result_batch res" where
  "mergeResults dst shards ranges rows =
     (if length shards = 0 \<or> length shards \<noteq> length ranges then Err ErrInvalidShardResult
      else case check_shards rows (zip ranges shards)
          (\<lparr>mt_requirements = 0, mt_drivers = 0, mt_evidence = 0, mt_reasons = 0, mt_remediations = 0\<rparr>, 0) of
        None \<Rightarrow> Err ErrInvalidShardResult
      | Some (totals, covered) \<Rightarrow>
        if covered \<noteq> rows then Err ErrInvalidShardResult
        else rbind (Result_Reset dst rows) (\<lambda>dst0. res_foldM copy_shard (zip ranges shards) dst0))"

section \<open>The ranges tile the batch\<close>

fun tiles :: "nat \<Rightarrow> nat \<Rightarrow> row_range list \<Rightarrow> bool" where
  "tiles rows s [] \<longleftrightarrow> s = rows"
| "tiles rows s (r # rs) \<longleftrightarrow> rg_start r = s \<and> s \<le> rg_end r \<and> rg_end r \<le> rows \<and> s mod 64 = 0 \<and>
     (rg_end r mod 64 = 0 \<or> rg_end r = rows) \<and> tiles rows (rg_end r) rs"

text \<open>The word at which shard \<open>k\<close> starts.\<close>

definition word_at :: "nat \<Rightarrow> nat \<Rightarrow> nat \<Rightarrow> nat" where
  "word_at words count k = k * (words div count) + min k (words mod count)"

lemma word_at_mono: "j \<le> k \<Longrightarrow> word_at words count j \<le> word_at words count k"
  by (simp add: word_at_def add_mono mult_le_mono)

lemma word_at_ends: "word_at words count 0 = 0" "0 < count \<Longrightarrow> word_at words count count = words"
  by (simp_all add: word_at_def min.absorb2)

lemma word_at_le: "k < count \<Longrightarrow> word_at words count (Suc k) \<le> words"
  using word_at_mono[of "Suc k" count words count] word_at_ends(2)[of count words] by simp

lemma word_at_less:
  assumes "k < count" "count \<le> words"
  shows "word_at words count k < word_at words count (Suc k)"
  using assms div_le_mono[of count words count] by (simp add: word_at_def)

lemma shard_words_at:
  assumes "words < 2 ^ 32" "k < count"
  shows "shard_words (words div count) (words mod count) (word_at words count k) k = word_at words count (Suc k)"
proof -
  have "word_at words count (Suc k) \<le> words" using word_at_le[OF assms(2)] .
  moreover have "word_at words count k + (if k < words mod count then words div count + 1 else words div count) = word_at words count (Suc k)"
    by (simp add: word_at_def)
  ultimately show ?thesis using assms(1) unfolding shard_words_def by simp
qed

lemma partition_loop_tiles:
  assumes r: "rows \<le> MaxUint32" and w: "words = (rows + 63) div 64" and c: "count \<le> words" "k < count"
  shows "tiles rows (64 * word_at words count k) (partition_loop (words div count) (words mod count) rows (word_at words count k) [k..<count])"
  using c(2)
proof (induction "count - k" arbitrary: k)
  case (Suc d)
  let ?w = "word_at words count"
  have lt: "?w k < ?w (Suc k)" "?w (Suc k) \<le> words" using word_at_less[OF Suc.prems c(1)] word_at_le[OF Suc.prems] by auto
  have ww: "64 * words < rows + 64" "words < 2 ^ 32" "rows \<le> 64 * words" using r w by simp_all
  have wp: "shard_words (words div count) (words mod count) (?w k) k = ?w (Suc k)" by (rule shard_words_at[OF ww(2) Suc.prems])
  have st: "64 * ?w k < rows" using lt ww by linarith
  have rg: "shard_range rows (?w k) (?w (Suc k)) = \<lparr>rg_start = 64 * ?w k, rg_end = min rows (64 * ?w (Suc k))\<rparr>"
    using st lt ww r by (simp add: shard_range_def Let_def min_def mult.commute)
  have sp: "[k..<count] = k # [Suc k..<count]" using Suc.prems by (simp add: upt_conv_Cons)
  show ?case
  proof (cases "Suc k < count")
    case True
    have "?w (Suc k) < words" using word_at_less[OF True c(1)] word_at_le[OF True, of words] by linarith
    then have "64 * ?w (Suc k) < rows" using ww by linarith
    moreover have "tiles rows (64 * ?w (Suc k)) (partition_loop (words div count) (words mod count) rows (?w (Suc k)) [Suc k..<count])"
      using Suc.hyps True by simp
    ultimately show ?thesis unfolding sp using rg wp st lt by (simp add: Let_def min_def)
  next
    case False
    then have "Suc k = count" using Suc.prems by simp
    then have "?w (Suc k) = words" using word_at_ends(2)[of count words] by simp
    then show ?thesis unfolding sp using rg wp st ww False by (simp add: Let_def min_def)
  qed
qed simp

lemma partitionRows_tiles:
  assumes "rows \<le> MaxUint32" "room \<noteq> 0"
  shows "tiles rows 0 (partitionRows room rows shards) \<and> partitionRows room rows shards \<noteq> [] \<and> length (partitionRows room rows shards) \<le> room"
proof -
  let ?words = "(rows + 63) div 64"
  let ?c1 = "if (if shards < 1 then 1 else nat shards) > room then room else (if shards < 1 then 1 else nat shards)"
  define count where "count = (if ?words = 0 then 1 else if ?c1 > ?words then ?words else ?c1)"
  have c: "0 < count" "count \<le> room" "?words \<noteq> 0 \<Longrightarrow> count \<le> ?words" using assms(2) by (auto simp: count_def)
  have eq: "partitionRows room rows shards = partition_loop (?words div count) (?words mod count) rows 0 [0..<count]"
    using assms(2) by (simp add: partitionRows_def count_def Let_def)
  have len: "length (partition_loop a b c' d xs) = length xs" for a b c' d xs by (induction xs arbitrary: d) (simp_all add: Let_def)
  have "tiles rows 0 (partitionRows room rows shards)"
  proof (cases "?words = 0")
    case True
    then have "rows = 0" "count = 1" by (simp_all add: count_def)
    then show ?thesis unfolding eq by (simp add: shard_words_def shard_range_def Let_def)
  next
    case False
    then show ?thesis using partition_loop_tiles[OF assms(1) refl c(3)[OF False] c(1)] word_at_ends(1) unfolding eq by simp
  qed
  then show ?thesis using len c unfolding eq by (auto simp flip: length_greater_0_conv)
qed

section \<open>Merging the results of the rows\<close>

lemma csr_offsets_nth: "k \<le> n \<Longrightarrow> csr_offsets n f ! k = length (csr_edges k f)"
  unfolding csr_offsets_def csr_edges_def by (simp del: upt_Suc)

lemma csr_edges_add: "csr_edges (s + m) f = csr_edges s f @ csr_edges m (\<lambda>k. f (s + k))"
  by (induction m) (simp_all add: csr_edges_Suc)

lemma splice_Cons: "a < length d \<Longrightarrow> splice d a (y # ys) = splice (d[a := y]) (Suc a) ys"
  by (simp add: splice_def take_Suc_conv_app_nth)

lemma rebaseShardOffsets_Ok:
  assumes "rowStart + length source \<le> length dst"
  shows "rebaseShardOffsets dst rowStart source base = Ok (splice dst rowStart (map (\<lambda>o'. (base + o') mod 2 ^ 32) source))"
proof -
  have "res_foldM (\<lambda>(row, offset) d. upd d (rowStart + row) ((base + offset) mod 2 ^ 32)) (enumerate i source) dst =
      Ok (splice dst (rowStart + i) (map (\<lambda>o'. (base + o') mod 2 ^ 32) source))" if "rowStart + i + length source \<le> length dst" for i
    using that
  proof (induction source arbitrary: i dst)
    case Nil
    then show ?case by (simp add: splice_def)
  next
    case (Cons o' os)
    then show ?case by (simp add: splice_Cons del: upt_Suc)
  qed
  from this[of 0] assms show ?thesis unfolding rebaseShardOffsets_def by simp
qed

lemma rebase_csr:
  assumes n: "s + m \<le> n" and fit: "length (csr_edges n f) < 2 ^ 32"
  shows "rebaseShardOffsets (csr_offsets s f @ replicate (n - s) 0) s (csr_offsets m (\<lambda>k. f (s + k))) (length (csr_edges s f) mod 2 ^ 32) =
    Ok (csr_offsets (s + m) f @ replicate (n - (s + m)) 0)"
proof -
  let ?g = "\<lambda>k. f (s + k)"
  have le: "length (csr_edges (s + k) f) < 2 ^ 32" if "k \<le> m" for k using csr_edges_mono[of "s + k" n f] fit that n by linarith
  have "splice (csr_offsets s f @ replicate (n - s) 0) s (map (\<lambda>o'. (length (csr_edges s f) mod 2 ^ 32 + o') mod 2 ^ 32) (csr_offsets m ?g)) =
      csr_offsets (s + m) f @ replicate (n - (s + m)) 0" (is "?l = ?r")
  proof (rule nth_equalityI)
    show "length ?l = length ?r" using n by (simp add: length_splice)
    fix i assume "i < length ?l"
    then have i: "i \<le> n" using n by (simp add: length_splice)
    consider "i < s" | "s \<le> i" "i \<le> s + m" | "s + m < i" by linarith
    then show "?l ! i = ?r ! i"
    proof cases
      case 1
      then show ?thesis using n by (simp add: splice_def nth_append csr_offsets_nth)
    next
      case 2
      then obtain k where k: "i = s + k" "k \<le> m" using le_Suc_ex[of s i] by auto
      have "length (csr_edges (s + k) f) = length (csr_edges s f) + length (csr_edges k ?g)" by (simp add: csr_edges_add)
      then have "(length (csr_edges s f) mod 2 ^ 32 + length (csr_edges k ?g)) mod 2 ^ 32 = length (csr_edges (s + k) f)"
        using le[OF k(2)] by simp
      then show ?thesis using k by (simp add: splice_def nth_append csr_offsets_nth)
    next
      case 3
      then show ?thesis using i by (simp add: splice_def nth_append)
    qed
  qed
  then show ?thesis using rebaseShardOffsets_Ok[of s "csr_offsets m ?g" "csr_offsets s f @ replicate (n - s) 0"] n by simp
qed

lemma ascending_from_sorted: "sorted (q # xs) \<Longrightarrow> ascending_from q xs = Some (last (q # xs))"
  by (induction xs arbitrary: q) auto

lemma validShardCSR_csr:
  assumes "m + 1 \<le> MaxInt"
  shows "validShardCSR (csr_offsets m f) (length (csr_edges m f)) m = Some (length (csr_edges m f))"
proof -
  have l: "length (csr_offsets m f) = m + 1" by simp
  then obtain x xs where x: "csr_offsets m f = x # xs" by (cases "csr_offsets m f") auto
  have x0: "x = 0" using csr_offsets_nth[of 0 m f] x by simp
  have "sorted (csr_offsets m f)" using csr_edges_mono l by (auto simp: sorted_iff_nth_mono csr_offsets_nth simp del: length_csr_offsets)
  then have "ascending_from 0 xs = Some (last (csr_offsets m f))" using ascending_from_sorted[of x xs] x x0 by simp
  moreover have "last (csr_offsets m f) = length (csr_edges m f)" using csr_offsets_nth[of m m f] last_conv_nth[of "csr_offsets m f"] l x by simp
  ultimately show ?thesis using assms l x x0 by (simp add: validShardCSR_def)
qed

definition row_totals :: "nat \<Rightarrow> (nat \<Rightarrow> row_result) \<Rightarrow> merge_totals" where
  "row_totals k R = \<lparr>mt_requirements = length (csr_edges k (\<lambda>row. rw_requirements (R row))),
     mt_drivers = length (csr_edges k (\<lambda>row. row_driver (R row))), mt_evidence = length (csr_edges k (\<lambda>row. rw_evidence (R row))),
     mt_reasons = length (csr_edges k (\<lambda>row. rw_reasons (R row))),
     mt_remediations = length (csr_edges k (\<lambda>row. concat (map cd_remediations (row_driver (R row)))))\<rparr>"

lemma shard_counts_rows:
  assumes "m + 1 \<le> MaxInt"
  shows "shard_counts (rows_batch m R) = Some (mt_requirements (row_totals m R), mt_drivers (row_totals m R), mt_evidence (row_totals m R),
    mt_reasons (row_totals m R), mt_remediations (row_totals m R))"
  using validShardCSR_csr[OF assms, of "\<lambda>row. rw_requirements (R row)"] validShardCSR_csr[OF assms, of "\<lambda>row. row_driver (R row)"]
    validShardCSR_csr[OF assms, of "\<lambda>row. rw_evidence (R row)"] validShardCSR_csr[OF assms, of "\<lambda>row. rw_reasons (R row)"]
    validShardCSR_csr[OF assms, of "\<lambda>row. concat (map cd_remediations (row_driver (R row)))"]
  by (simp add: shard_counts_def rows_batch_def row_totals_def)

lemma addMergeEdges_fit: "acc + count \<le> MaxUint32 \<Longrightarrow> addMergeEdges acc count = Some (acc + count)"
  by (auto simp: addMergeEdges_def mergeEdgeLimit_def)

lemma addMergeEdges_csr:
  assumes "s + m \<le> n" "length (csr_edges n f) < 2 ^ 32"
  shows "addMergeEdges (length (csr_edges s f)) (length (csr_edges m (\<lambda>k. f (s + k)))) = Some (length (csr_edges (s + m) f))"
  using csr_edges_mono[OF assms(1), of f] assms(2) by (subst addMergeEdges_fit) (simp_all add: csr_edges_add)

lemma add_counts_rows:
  assumes fit: "edges_fit n R" and n: "s + m \<le> n"
  shows "add_counts (row_totals s R) (mt_requirements (row_totals m (\<lambda>k. R (s + k))), mt_drivers (row_totals m (\<lambda>k. R (s + k))),
      mt_evidence (row_totals m (\<lambda>k. R (s + k))), mt_reasons (row_totals m (\<lambda>k. R (s + k))), mt_remediations (row_totals m (\<lambda>k. R (s + k)))) =
    Some (row_totals (s + m) R)"
  using fit addMergeEdges_csr[OF n, of "\<lambda>row. rw_requirements (R row)"] addMergeEdges_csr[OF n, of "\<lambda>row. row_driver (R row)"]
    addMergeEdges_csr[OF n, of "\<lambda>row. rw_evidence (R row)"] addMergeEdges_csr[OF n, of "\<lambda>row. rw_reasons (R row)"]
    addMergeEdges_csr[OF n, of "\<lambda>row. concat (map cd_remediations (row_driver (R row)))"]
  by (simp add: add_counts_def row_totals_def edges_fit_def)

text \<open>The result of a range of the rows.\<close>

definition shard_of :: "(nat \<Rightarrow> row_result) \<Rightarrow> row_range \<Rightarrow> result_batch" where
  "shard_of R r = rows_batch (rg_end r - rg_start r) (\<lambda>k. R (rg_start r + k))"

lemma check_shards_rows:
  assumes fit: "edges_fit rows R" and n: "rows + 1 \<le> MaxInt"
  shows "tiles rows s rs \<Longrightarrow> check_shards rows (map (\<lambda>r. (r, shard_of R r)) rs) (row_totals s R, s) = Some (row_totals rows R, rows)"
proof (induction rs arbitrary: s)
  case (Cons r rs)
  let ?m = "rg_end r - s"
  have t: "rg_start r = s" "s \<le> rg_end r" "rg_end r \<le> rows" "tiles rows (rg_end r) rs" using Cons.prems by auto
  have sm: "s + ?m = rg_end r" "s + ?m \<le> rows" "?m + 1 \<le> MaxInt" using t n by auto
  have "check_shard rows (r, shard_of R r) (row_totals s R, s) = Some (row_totals (rg_end r) R, rg_end r)"
    using t shard_counts_rows[OF sm(3), of "\<lambda>k. R (s + k)"] add_counts_rows[OF fit sm(2)]
    by (simp add: check_shard_def shard_of_def sm(1)) (simp add: rows_batch_def)
  then show ?case using Cons.IH[OF t(4)] by simp
qed simp

lemma copy_shard_rows:
  assumes fit: "edges_fit n R" and r: "rg_start r = s" "s \<le> rg_end r" "rg_end r \<le> n"
  shows "copy_shard (r, shard_of R r) (rows_prefix n s R) = Ok (rows_prefix n (rg_end r) R)"
proof -
  let ?O = "\<lambda>row. cd_outcome (rw_best (R row))"
  obtain m where m: "rg_end r = s + m" using r(2) le_Suc_ex by blast
  have sm: "s + m \<le> n" using r(3) m by simp
  have "map (\<lambda>k. ?O (s + k)) [0..<m] = map ?O [s..<s + m]" by (rule nth_equalityI) auto
  then have "splice (map ?O [0..<s] @ replicate (n - s) 0) s (map (\<lambda>k. ?O (s + k)) [0..<m]) = map ?O [0..<s + m] @ replicate (n - (s + m)) 0"
    using sm by (simp add: splice_def upt_add_eq_append[of 0 s m])
  moreover note rebase_csr[OF sm, of "\<lambda>row. rw_requirements (R row)"] rebase_csr[OF sm, of "\<lambda>row. row_driver (R row)"]
    rebase_csr[OF sm, of "\<lambda>row. rw_evidence (R row)"] rebase_csr[OF sm, of "\<lambda>row. rw_reasons (R row)"]
    rebase_csr[OF sm, of "\<lambda>row. concat (map cd_remediations (row_driver (R row)))"]
  ultimately show ?thesis using fit r(1) m sm
    by (simp add: copy_shard_def shard_of_def rows_prefix_def rows_batch_def Let_def edges_fit_def csr_edges_add)
qed

lemma mergeResults_rows:
  assumes fit: "edges_fit rows R" and n: "rows + 1 \<le> MaxInt" and t: "tiles rows 0 ranges" and ne: "ranges \<noteq> []"
  shows "mergeResults dst (map (shard_of R) ranges) ranges rows = Ok (rows_batch rows R)"
proof -
  have z: "zip ranges (map (shard_of R) ranges) = map (\<lambda>r. (r, shard_of R r)) ranges" by (induction ranges) auto
  have "res_foldM copy_shard (map (\<lambda>r. (r, shard_of R r)) rs) (rows_prefix rows s R) = Ok (rows_prefix rows rows R)" if "tiles rows s rs" for rs s
    using that copy_shard_rows[OF fit] by (induction rs arbitrary: s) auto
  from this[OF t] check_shards_rows[OF fit n t] show ?thesis
    using ne Result_Reset_prefix[OF n, of dst R] unfolding mergeResults_def z
    by (simp add: row_totals_def rows_prefix_full)
qed

section \<open>The number of shards\<close>

lemma length_partition_loop [simp]: "length (partition_loop wordsPerShard extraWords rows wordStart shards) = length shards"
  by (induction shards arbitrary: wordStart) (simp_all add: Let_def)

lemma length_partitionRows:
  assumes "1 \<le> n" "n \<le> room" "n = 1 \<or> n \<le> (rows + 63) div 64"
  shows "length (partitionRows room rows (int n)) = n"
  using assms by (auto simp: partitionRows_def Let_def)

lemma tiles_nth:
  "tiles rows s rs \<Longrightarrow> j < length rs \<Longrightarrow>
   rg_start (rs ! j) \<le> rg_end (rs ! j) \<and> rg_end (rs ! j) \<le> rows \<and> rg_start (rs ! j) mod 64 = 0 \<and> (rg_end (rs ! j) mod 64 = 0 \<or> rg_end (rs ! j) = rows)"
proof (induction rs arbitrary: s j)
  case (Cons r rs)
  then show ?case by (cases j) auto
qed simp

section \<open>The merge never panics\<close>







section \<open>Properties\<close>

text \<open>C11: Splitting the rows of a batch and merging the results of the ranges loses nothing: for every number of
  rows, every room and every wanted number of shards, the ranges are at most as many as there is room for, they
  tile the rows in order at multiples of 64, and merging the results of the ranges, into any destination, gives
  the result of all rows.\<close>

theorem partition_merge_roundtrip:
  assumes "rows \<le> MaxUint32" "room \<noteq> 0" "edges_fit rows R"
  shows "length (partitionRows room rows shards) \<le> room \<and> tiles rows 0 (partitionRows room rows shards) \<and>
    mergeResults dst (map (shard_of R) (partitionRows room rows shards)) (partitionRows room rows shards) rows = Ok (rows_batch rows R)"
proof -
  have "rows + 1 \<le> MaxInt" using assms(1) by simp
  then show ?thesis using partitionRows_tiles[OF assms(1,2), of shards] mergeResults_rows[OF assms(3)] by blast
qed

theorem partition_merge_roundtrip_witness:
  "\<exists>R. R \<noteq> (\<lambda>_. R 0) \<and> mergeResults (rows_batch 0 R) (map (shard_of R) (partitionRows 8 300 3)) (partitionRows 8 300 3) 300 = Ok (rows_batch 300 R)"
proof -
  define R where "R = (\<lambda>row :: nat. \<lparr>rw_requirements = [row], rw_best = no_candidate, rw_reasons = [], rw_evidence = []\<rparr>)"
  have "concat (map (\<lambda>row. []) xs) = []" for xs :: "nat list" by simp
  then have "edges_fit 300 R" by (simp add: edges_fit_def csr_edges_def R_def row_driver_def no_candidate_def concat_map_singleton length_concat comp_def)
  moreover have "R 1 \<noteq> R 0" by (simp add: R_def)
  ultimately show ?thesis using partition_merge_roundtrip[of 300 8 R 3 "rows_batch 0 R"] by (intro exI[of _ R]) (auto dest: fun_cong)
qed


end
