(* ===== verification/NR_Sample.thy ===== *)
theory NR_Sample
  imports NR_Range
begin

text \<open>
  A small policy and a batch of four requests, on which the hypotheses of the execution theorems are
  evaluated. The policy has one requirement, selected by a symbol field; its only clause asserts that an
  integer field is below ten and asks for one kind of evidence. The four requests satisfy the clause,
  violate it, are not selected, and leave it unresolved.
\<close>

definition sample_outcomes :: outcome_table where
  "sample_outcomes = \<lparr>ot_Names = [1, 2], ot_Precedence = [2, 1], ot_Terminal = [True, False]\<rparr>"

definition sample_remediations :: remediation_table where
  "sample_remediations = \<lparr>rt_Kinds = [RemediationAddEvidence], rt_Fields = [0], rt_Values = [0], rt_EvidenceKinds = [1]\<rparr>"

definition sample_resolutions :: resolution_table where
  "sample_resolutions = \<lparr>rs_OutcomeIDs = replicate 9 2, rs_ExplanationIDs = replicate 9 1, rs_RemediationStarts = replicate 9 0,
     rs_RemediationCounts = [1, 0, 0, 0, 0, 0, 0, 0, 0], rs_RemediationIDs = [1]\<rparr>"

definition sample_program :: program where
  "sample_program = \<lparr>
     p_Opcodes = [OpcodeEqual, OpcodeLess, OpcodeEvidence], p_Fields = [1, 2, 0], p_Values = [1, 2, 0],
     p_ListStarts = [0, 0, 0], p_ListCounts = [0, 0, 0], p_OperandStarts = [0, 0, 0], p_OperandCounts = [0, 0, 0],
     p_EvidenceKinds = [0, 0, 1], p_EvidenceStates = [0, 0, 1], p_EvidenceSubjects = [], p_EvidenceScopes = [], p_EvidenceTimings = [],
     p_RootFlags = [RootApplicability, RootAssertion, RootEvidence], p_TruthSlots = [1, 2, 3], p_ReasonSlots = [1, 2, 3],
     p_InstructionNodes = [1, 2, 3], p_InstructionSourceStarts = [0, 0, 0], p_InstructionSourceEnds = [0, 0, 0],
     p_ListValues = [], p_Operands = [],
     p_SymbolBytes = [97, 98], p_SymbolStarts = [0, 1], p_SymbolLengths = [1, 1], p_SymbolHashes = [0, 0], p_SymbolIDs = [1, 2],
     p_ValueKinds = [ValueKindSymbol, ValueKindInteger], p_ValueRefs = [1, 1], p_IntegerValues = [10], p_BooleanValues = [], p_TimestampValues = [],
     p_FieldNames = [1, 2], p_FieldKinds = [ValueKindSymbol, ValueKindInteger], p_FieldGroups = [FieldGroupContext, FieldGroupContext],
     p_EvidenceKindNames = [1], p_EvidenceStateNames = [2],
     p_RequirementIDs = [7], p_RequirementRoots = [1], p_RequirementSourceNodeIDs = [1], p_RequirementClauseStarts = [0],
     p_RequirementClauseCounts = [1], p_RequirementClauseIDs = [1],
     p_ClauseAssertionRoots = [2], p_ClauseAssertionSourceNodeIDs = [2], p_ClauseEvidenceStarts = [0], p_ClauseEvidenceCounts = [1],
     p_ClauseEvidenceIDs = [3], p_ClauseEvidenceSourceNodeIDs = [3], p_ClauseOnSatisfied = [1], p_ClauseOnFalse = [2],
     p_ClauseExplanationIDs = [1, 1, 1, 1, 1, 1, 1], p_ClauseRemediationStarts = [0], p_ClauseRemediationCounts = [0], p_ClauseRemediationIDs = [],
     p_TemplateColumns = empty_templates, p_ExplanationColumns = empty_explanations, p_EvidenceIssueNodeIDs = [], p_EvidenceIssueTemplateIDs = [],
     p_Templates = empty_templates,
     p_Explanations = \<lparr>et_RationaleTemplateIDs = [1], et_UncertaintyStarts = [0], et_UncertaintyCounts = [0], et_UncertaintyTemplateIDs = [],
       et_AssumptionTemplateIDs = []\<rparr>,
     p_Outcomes = sample_outcomes, p_Remediations = sample_remediations, p_Resolutions = sample_resolutions,
     p_resolver = \<lparr>rv_outcomes = sample_outcomes, rv_remediations = sample_remediations, rv_rules = sample_resolutions\<rparr>,
     p_ApplicabilityIndex = \<lparr>pi_FieldIDs = [1], pi_FieldValueStarts = [0], pi_FieldValueCounts = [1], pi_WildcardMasks = [0], pi_Values = [1],
       pi_ValueMasks = [1], pi_AllMask = [1], pi_RequirementCount = 1, pi_WordCount = 1\<rparr>,
     p_FactIndexSpec = \<lparr>fs_FieldIDs = [1], fs_Columns = [0], fs_ValueStarts = [0], fs_ValueCounts = [1], fs_UseCounts = [1], fs_Values = [1]\<rparr>,
     p_FieldIndex = \<lparr>is_Kinds = [ValueKindSymbol, ValueKindInteger], is_Columns = [0, 0], is_Counts = [0, 1, 1, 0, 0, 0]\<rparr>,
     p_ContentHash = [], p_ProgramSymbolCount = 2, p_TruthSlotCount = 3, p_ReasonSlotCount = 3\<rparr>"

definition sample_batch :: batch where
  "sample_batch = \<lparr>b_SymbolValues = [1, 1, 2, 1], b_IntegerValues = [5, 20, 0, 0], b_TimestampValues = [], b_BooleanValues = [],
     b_PresenceMasks = [15, 3], b_RequestIDs = [1, 2, 3, 4], b_EvidenceOffsets = [0, 1, 2, 2, 2], b_EvidenceRefs = [0, 0],
     b_Evidence = \<lparr>ev_IDs = [9], ev_Kinds = [1], ev_States = [1], ev_Subjects = [0], ev_Scopes = [0], ev_Reviewers = [0], ev_Timings = [0],
       ev_Timestamps = [0]\<rparr>, b_Rows = 4, b_rowBase = 0, b_rowStride = 0\<rparr>"

definition empty_result :: result_batch where
  "empty_result = \<lparr>rb_OutcomeIDs = [], rb_RequirementOffsets = [], rb_RequirementIDs = [], rb_DriverOffsets = [], rb_DriverRequirements = [],
     rb_DriverClauses = [], rb_DriverNodes = [], rb_DriverReasons = [], rb_DriverExplanations = [], rb_EvidenceOffsets = [], rb_EvidenceIDs = [],
     rb_ReasonOffsets = [], rb_ReasonIDs = [], rb_ReasonNodes = [], rb_ReasonEvidenceIDs = [], rb_ReasonEvidenceStates = [],
     rb_RemediationOffsets = [], rb_RemediationIDs = [], rb_Rows = 0\<rparr>"

lemma sample_program_ok: "program_ok sample_program"
  by code_simp

lemma sample_physical: "physical sample_program sample_batch"
  by code_simp

lemma sample_input: "input_ok sample_program sample_batch \<and> sizes_fit sample_program sample_batch"
  by code_simp

text \<open>A heap that holds the sample program at every address.\<close>

abbreviation sample_heap :: "nat \<Rightarrow> program" where
  "sample_heap \<equiv> \<lambda>_. sample_program"

end
