(* ===== verification/NR_Arena.thy ===== *)
theory NR_Arena
  imports NR_Sample
begin

text \<open>
  The worker contexts of the scheduler, \<^verbatim>\<open>internal/scheduler/arena.go\<close> and \<^verbatim>\<open>internal/scheduler/context.go\<close>:
  a fixed set of contexts that are lent by generation-stamped leases, and the claim of a lease on its encoded
  output. The channel of free contexts is a queue of indices; every operation is one step. The decoder and the
  batch builder that a context also owns are not part of its state here, and the capacity of the byte buffers,
  which no operation reads, is left out.

  No sequence of operations panics, two leases never share a context, a returned lease stays expired until its
  generation counter has run around, and claimed output does not change until it is released.
\<close>

section \<open>State\<close>

datatype ctx_state = contextAvailable | contextBorrowed | contextReturning

type_synonym u32 = "32 word"

record capacity =
  cp_InputBytes :: int
  cp_OutputBytes :: int
  cp_Rows :: nat

record worker_context =
  cx_arena :: nat
  cx_input :: "byte list"
  cx_output :: "byte list"
  cx_evidenceOffsets :: "nat scratch"
  cx_result :: result_batch
  cx_executor :: executor
  cx_generation :: u64
  cx_state :: ctx_state
  cx_outputClaim :: u32

record arena =
  ar_id :: nat
  ar_contexts :: "worker_context list"
  ar_available :: "nat list"
  ar_cap :: nat

record lease =
  ls_arena :: "nat option"
  ls_context :: "nat option"
  ls_generation :: u64

record output_lease =
  ol_context :: "nat option"
  ol_generation :: u64
  ol_claim :: u32

text \<open>What an operation sees of its cancellation context: whether it is nil, the error of the check at the entry,
  and the error if the wait is ended by the context.\<close>

record go_context =
  gc_nil :: bool
  gc_err :: "err option"
  gc_done :: "err option"

section \<open>Operations\<close>

definition validateCapacity :: "capacity \<Rightarrow> nat res" where
  "validateCapacity c =
     (if cp_InputBytes c < 0 \<or> cp_OutputBytes c < 0 then Err ErrInvalidCapacity
      else let offsets = cp_Rows c + 1 in
      if offsets > MaxInt \<or> offsets > MaxInt div 4 then Err ErrInvalidCapacity else Ok offsets)"

definition Arena_valid :: "arena \<Rightarrow> bool" where
  "Arena_valid A \<longleftrightarrow> length (ar_contexts A) > 0 \<and> ar_cap A = length (ar_contexts A)"

definition new_context :: "nat \<Rightarrow> nat \<Rightarrow> executor \<Rightarrow> result_batch \<Rightarrow> worker_context" where
  "new_context arena offsets executor result =
     \<lparr>cx_arena = arena, cx_input = [], cx_output = [], cx_evidenceOffsets = \<lparr>sl_array = replicate offsets 0, sl_len = 0\<rparr>,
      cx_result = result, cx_executor = executor, cx_generation = 0, cx_state = contextAvailable, cx_outputClaim = 0\<rparr>"

definition NewArena :: "nat \<Rightarrow> executor \<Rightarrow> result_batch \<Rightarrow> int \<Rightarrow> capacity \<Rightarrow> arena res" where
  "NewArena arena executor result count c =
     (if count \<le> 0 then Err ErrInvalidArena
      else rbind (validateCapacity c) (\<lambda>offsets.
        Ok \<lparr>ar_id = arena, ar_contexts = replicate (nat count) (new_context arena offsets executor result),
          ar_available = [0..<nat count], ar_cap = nat count\<rparr>))"

definition set_context :: "arena \<Rightarrow> nat \<Rightarrow> worker_context \<Rightarrow> arena" where
  "set_context A i w = A\<lparr>ar_contexts := (ar_contexts A)[i := w]\<rparr>"

definition retireFailedClaim :: "worker_context \<Rightarrow> worker_context" where
  "retireFailedClaim w =
     (if cx_outputClaim w AND 1 = 0 then w else w\<lparr>cx_outputClaim := cx_outputClaim w + 1\<rparr>)"

definition next_generation :: "u64 \<Rightarrow> u64" where
  "next_generation g = (if g + 1 = 0 then g + 1 + 1 else g + 1)"

text \<open>A call that has to wait has no result yet.\<close>

definition Borrow :: "arena \<Rightarrow> go_context \<Rightarrow> (arena \<times> lease res) option" where
  "Borrow A c =
     (if \<not> Arena_valid A then Some (A, Err ErrInvalidArena)
      else if gc_nil c then Some (A, Err ErrInvalidContext)
      else case gc_err c of Some e \<Rightarrow> Some (A, Err e)
      | None \<Rightarrow>
     (case gc_done c of Some e \<Rightarrow> Some (A, Err e)
      | None \<Rightarrow>
     (case ar_available A of [] \<Rightarrow> None
      | i # rest \<Rightarrow>
        let A1 = A\<lparr>ar_available := rest\<rparr> in
        if \<not> i < length (ar_contexts A) \<or> cx_arena (ar_contexts A ! i) \<noteq> ar_id A
        then Some (A1, Panic ''scheduler: invalid available context'')
        else let w = retireFailedClaim (ar_contexts A ! i); generation = next_generation (cx_generation w);
                 w1 = w\<lparr>cx_generation := generation\<rparr> in
        if cx_state w1 \<noteq> contextAvailable
        then Some (set_context A1 i w1, Panic ''scheduler: invalid context ownership state'')
        else Some (set_context A1 i (w1\<lparr>cx_state := contextBorrowed\<rparr>),
               Ok \<lparr>ls_arena = Some (ar_id A), ls_context = Some i, ls_generation = generation\<rparr>))))"

definition Context_reset :: "worker_context \<Rightarrow> worker_context res" where
  "Context_reset w =
     (let s = cx_evidenceOffsets w;
          w1 = w\<lparr>cx_outputClaim := 0,
            cx_evidenceOffsets := \<lparr>sl_array = replicate (sl_len s) 0 @ drop (sl_len s) (sl_array s), sl_len = 0\<rparr>,
            cx_input := [], cx_output := []\<rparr> in
      case Result_Reset (cx_result w1) 0 of Ok r \<Rightarrow> Ok (w1\<lparr>cx_result := r\<rparr>)
      | _ \<Rightarrow> Panic ''scheduler: invalid owned result batch'')"

definition lease_context :: "arena \<Rightarrow> lease \<Rightarrow> nat option" where
  "lease_context A l =
     (case ls_context l of None \<Rightarrow> None
      | Some i \<Rightarrow> if ls_arena l = Some (ar_id A) \<and> ls_generation l \<noteq> 0 \<and> i < length (ar_contexts A) \<and>
                    cx_arena (ar_contexts A ! i) = ar_id A then Some i else None)"

text \<open>\<^verbatim>\<open>Return\<close> is two atomic accesses to the context: it compares the generation, and then takes the
  context back with a compare-and-swap on its state, which fails if the lease was returned already.\<close>

definition Return_check :: "arena \<Rightarrow> lease \<Rightarrow> nat res" where
  "Return_check A l =
     (if \<not> Arena_valid A then Err ErrInvalidArena
      else case lease_context A l of None \<Rightarrow> Err ErrInvalidLease
      | Some i \<Rightarrow> if cx_generation (ar_contexts A ! i) \<noteq> ls_generation l then Err ErrLeaseExpired else Ok i)"

definition Return_commit :: "arena \<Rightarrow> lease \<Rightarrow> nat \<Rightarrow> arena \<times> unit res" where
  "Return_commit A l i =
     (let w = ar_contexts A ! i in
      if cx_state w \<noteq> contextBorrowed
      then if cx_generation w \<noteq> ls_generation l then (A, Err ErrLeaseExpired) else (A, Err ErrDoubleReturn)
      else if cx_outputClaim w AND 1 \<noteq> 0 then (set_context A i (w\<lparr>cx_state := contextBorrowed\<rparr>), Err ErrOutputEscaped)
      else case Context_reset (w\<lparr>cx_state := contextReturning\<rparr>) of
        Ok w1 \<Rightarrow>
          let A1 = set_context A i (w1\<lparr>cx_state := contextAvailable\<rparr>) in
          if length (ar_available A) < ar_cap A then (A1\<lparr>ar_available := ar_available A @ [i]\<rparr>, Ok ())
          else (A1, Panic ''scheduler: duplicate context publication'')
      | Err e \<Rightarrow> (A, Err e)
      | Panic s \<Rightarrow> (A, Panic s))"

definition Return :: "arena \<Rightarrow> lease \<Rightarrow> arena \<times> unit res" where
  "Return A l = (case Return_check A l of Ok i \<Rightarrow> Return_commit A l i | Err e \<Rightarrow> (A, Err e) | Panic s \<Rightarrow> (A, Panic s))"

text \<open>The lease guard of every operation on a context, with the index of the context.\<close>

definition lease_active :: "arena \<Rightarrow> lease \<Rightarrow> nat res" where
  "lease_active A l =
     (case lease_context A l of None \<Rightarrow> Err ErrInvalidLease
      | Some i \<Rightarrow> let w = ar_contexts A ! i in
        if cx_generation w \<noteq> ls_generation l \<or> cx_state w \<noteq> contextBorrowed then Err ErrLeaseExpired else Ok i)"

definition with_lease :: "arena \<Rightarrow> lease \<Rightarrow> (worker_context \<Rightarrow> worker_context \<times> 'a res) \<Rightarrow> arena \<times> 'a res" where
  "with_lease A l f =
     (case lease_active A l of Ok i \<Rightarrow> (case f (ar_contexts A ! i) of (w, r) \<Rightarrow> (set_context A i w, r))
      | Err e \<Rightarrow> (A, Err e) | Panic s \<Rightarrow> (A, Panic s))"

definition growExact :: "'a \<Rightarrow> 'a scratch \<Rightarrow> nat \<Rightarrow> 'a scratch" where
  "growExact z s n =
     (if length (sl_array s) \<ge> n then s
      else \<lparr>sl_array = scratch_view s @ replicate (n - sl_len s) z, sl_len = sl_len s\<rparr>)"

definition grow_context :: "capacity \<Rightarrow> worker_context \<Rightarrow> worker_context \<times> unit res" where
  "grow_context c w =
     (case validateCapacity c of
       Ok offsets \<Rightarrow>
         if cx_outputClaim w AND 1 \<noteq> 0 then (w, Err ErrOutputClaimed)
         else (w\<lparr>cx_evidenceOffsets := growExact 0 (cx_evidenceOffsets w) offsets\<rparr>, Ok ())
     | Err e \<Rightarrow> (w, Err e) | Panic s \<Rightarrow> (w, Panic s))"

definition Lease_Grow :: "arena \<Rightarrow> lease \<Rightarrow> capacity \<Rightarrow> arena \<times> unit res" where
  "Lease_Grow A l c = with_lease A l (grow_context c)"

definition Lease_SetInput :: "arena \<Rightarrow> lease \<Rightarrow> byte list \<Rightarrow> arena \<times> unit res" where
  "Lease_SetInput A l source = with_lease A l (\<lambda>w. (w\<lparr>cx_input := source\<rparr>, Ok ()))"

definition Lease_InputBytes :: "arena \<Rightarrow> lease \<Rightarrow> byte list res" where
  "Lease_InputBytes A l = rbind (lease_active A l) (\<lambda>i. Ok (cx_input (ar_contexts A ! i)))"

text \<open>A store into the output buffer is refused while the output is claimed.\<close>

definition write_output :: "byte list \<Rightarrow> worker_context \<Rightarrow> worker_context \<times> unit res" where
  "write_output bytes w =
     (if cx_outputClaim w AND 1 \<noteq> 0 then (w, Err ErrOutputClaimed) else (w\<lparr>cx_output := bytes\<rparr>, Ok ()))"

definition Lease_AppendOutput :: "arena \<Rightarrow> lease \<Rightarrow> byte list \<Rightarrow> arena \<times> unit res" where
  "Lease_AppendOutput A l source = with_lease A l (\<lambda>w. write_output (cx_output w @ source) w)"

definition Lease_ResetOutput :: "arena \<Rightarrow> lease \<Rightarrow> arena \<times> unit res" where
  "Lease_ResetOutput A l = with_lease A l (write_output [])"

text \<open>The executor and the result batch of a context are handed out by reference: what their user stores
  there is an update through the lease.\<close>

definition Lease_Executor :: "arena \<Rightarrow> lease \<Rightarrow> executor res" where
  "Lease_Executor A l = rbind (lease_active A l) (\<lambda>i. Ok (cx_executor (ar_contexts A ! i)))"

definition Lease_Result :: "arena \<Rightarrow> lease \<Rightarrow> result_batch res" where
  "Lease_Result A l = rbind (lease_active A l) (\<lambda>i. Ok (cx_result (ar_contexts A ! i)))"

definition claim_output :: "lease \<Rightarrow> worker_context \<Rightarrow> worker_context \<times> output_lease res" where
  "claim_output l w =
     (let current = cx_outputClaim w in
      if current AND 1 \<noteq> 0 \<or> current = of_nat (MaxUint32 - 1) then (w, Err ErrOutputClaimed)
      else let claim = current + 1 in
        (w\<lparr>cx_outputClaim := claim\<rparr>,
         Ok \<lparr>ol_context = ls_context l, ol_generation = ls_generation l, ol_claim = claim\<rparr>))"

definition Lease_ClaimOutput :: "arena \<Rightarrow> lease \<Rightarrow> arena \<times> output_lease res" where
  "Lease_ClaimOutput A l = with_lease A l (claim_output l)"

definition output_context :: "arena \<Rightarrow> output_lease \<Rightarrow> nat option" where
  "output_context A l =
     (case ol_context l of None \<Rightarrow> None
      | Some i \<Rightarrow> if ol_generation l \<noteq> 0 \<and> ol_claim l AND 1 \<noteq> 0 \<and> i < length (ar_contexts A) then Some i else None)"

definition Output_Bytes :: "arena \<Rightarrow> output_lease \<Rightarrow> byte list res" where
  "Output_Bytes A l =
     (case output_context A l of None \<Rightarrow> Err ErrInvalidLease
      | Some i \<Rightarrow> let w = ar_contexts A ! i in
        if cx_generation w \<noteq> ol_generation l \<or> cx_state w \<noteq> contextBorrowed then Err ErrLeaseExpired
        else if cx_outputClaim w \<noteq> ol_claim l then Err ErrOutputNotClaimed
        else Ok (cx_output w))"

definition Output_Release :: "arena \<Rightarrow> output_lease \<Rightarrow> arena \<times> unit res" where
  "Output_Release A l =
     (case output_context A l of None \<Rightarrow> (A, Err ErrInvalidLease)
      | Some i \<Rightarrow> let w = ar_contexts A ! i in
        if cx_generation w \<noteq> ol_generation l then (A, Err ErrLeaseExpired)
        else if cx_outputClaim w \<noteq> ol_claim l then (A, Err ErrOutputNotClaimed)
        else (set_context A i (w\<lparr>cx_outputClaim := ol_claim l + 1\<rparr>), Ok ()))"

section \<open>Sequences of operations\<close>

text \<open>One operation of any goroutine; \<open>UseLease\<close> is a store through the references of a lease.\<close>

datatype arena_op =
    BorrowOp go_context | ReturnOp lease | GrowOp lease capacity | SetInputOp lease "byte list"
  | AppendOutputOp lease "byte list" | ResetOutputOp lease | UseLease lease executor result_batch
  | ClaimOutputOp lease | ReleaseOp output_lease

definition store_lease :: "arena \<Rightarrow> lease \<Rightarrow> executor \<Rightarrow> result_batch \<Rightarrow> arena \<times> unit res" where
  "store_lease A l e r = with_lease A l (\<lambda>w. (w\<lparr>cx_executor := e, cx_result := r\<rparr>, Ok ()))"

fun arena_step :: "arena_op \<Rightarrow> arena \<Rightarrow> arena \<times> unit res" where
  "arena_step (BorrowOp c) A = (case Borrow A c of None \<Rightarrow> (A, Ok ()) | Some (A', r) \<Rightarrow> (A', res_map (\<lambda>_. ()) r))"
| "arena_step (ReturnOp l) A = Return A l"
| "arena_step (GrowOp l c) A = Lease_Grow A l c"
| "arena_step (SetInputOp l bs) A = Lease_SetInput A l bs"
| "arena_step (AppendOutputOp l bs) A = Lease_AppendOutput A l bs"
| "arena_step (ResetOutputOp l) A = Lease_ResetOutput A l"
| "arena_step (UseLease l e r) A = store_lease A l e r"
| "arena_step (ClaimOutputOp l) A = (case Lease_ClaimOutput A l of (A', r) \<Rightarrow> (A', res_map (\<lambda>_. ()) r))"
| "arena_step (ReleaseOp l) A = Output_Release A l"

fun run_arena :: "arena_op list \<Rightarrow> arena \<Rightarrow> arena" where
  "run_arena [] A = A"
| "run_arena (oper # opers) A = run_arena opers (fst (arena_step oper A))"

text \<open>Between operations every context is free and queued once, or borrowed and not queued.\<close>

definition arena_inv :: "arena \<Rightarrow> bool" where
  "arena_inv A \<longleftrightarrow> Arena_valid A \<and> distinct (ar_available A) \<and>
     (\<forall>i. i \<in> set (ar_available A) \<longleftrightarrow> i < length (ar_contexts A) \<and> cx_state (ar_contexts A ! i) = contextAvailable) \<and>
     (\<forall>i < length (ar_contexts A). cx_arena (ar_contexts A ! i) = ar_id A \<and> cx_state (ar_contexts A ! i) \<noteq> contextReturning)"

lemma set_context_simps [simp]:
  "ar_id (set_context A i w) = ar_id A" "ar_available (set_context A i w) = ar_available A" "ar_cap (set_context A i w) = ar_cap A"
  "ar_contexts (set_context A i w) = (ar_contexts A)[i := w]"
  by (simp_all add: set_context_def)

lemma retireFailedClaim_simps [simp]:
  "cx_arena (retireFailedClaim w) = cx_arena w" "cx_state (retireFailedClaim w) = cx_state w"
  "cx_generation (retireFailedClaim w) = cx_generation w" "cx_output (retireFailedClaim w) = cx_output w"
  by (simp_all add: retireFailedClaim_def)

lemma Context_reset_Ok:
  "\<exists>w'. Context_reset w = Ok w' \<and> cx_arena w' = cx_arena w \<and> cx_generation w' = cx_generation w \<and> cx_outputClaim w' = 0 \<and>
     cx_executor w' = cx_executor w \<and> sl_len (cx_evidenceOffsets w') = 0"
  by (simp add: Context_reset_def Result_Reset_def Let_def)

lemma lease_active_iff:
  "lease_active A l = Ok i \<longleftrightarrow> ls_context l = Some i \<and> ls_arena l = Some (ar_id A) \<and> ls_generation l \<noteq> 0 \<and> i < length (ar_contexts A) \<and>
     cx_arena (ar_contexts A ! i) = ar_id A \<and> cx_generation (ar_contexts A ! i) = ls_generation l \<and>
     cx_state (ar_contexts A ! i) = contextBorrowed"
  by (auto simp: lease_active_def lease_context_def Let_def split: option.splits if_splits)

lemma lease_active_no_panic: "lease_active A l \<noteq> Panic s"
  by (auto simp: lease_active_def Let_def split: option.splits if_splits)

lemma arena_inv_set:
  assumes "arena_inv A" "i < length (ar_contexts A)" "cx_arena w = ar_id A" "cx_state w = cx_state (ar_contexts A ! i)"
  shows "arena_inv (set_context A i w)"
  using assms by (auto simp: arena_inv_def Arena_valid_def nth_list_update)

text \<open>What a step may do to a context: nothing, an update that keeps its ownership, a loan or a return.\<close>

lemma Borrow_cases:
  assumes inv: "arena_inv A" and b: "Borrow A c = Some (A', r)"
  obtains e where "A' = A" "r = Err e"
  | i rest where "ar_available A = i # rest" "i < length (ar_contexts A)" "cx_state (ar_contexts A ! i) = contextAvailable"
      "A' = set_context (A\<lparr>ar_available := rest\<rparr>) i ((retireFailedClaim (ar_contexts A ! i))
         \<lparr>cx_generation := next_generation (cx_generation (ar_contexts A ! i)), cx_state := contextBorrowed\<rparr>)"
      "r = Ok \<lparr>ls_arena = Some (ar_id A), ls_context = Some i, ls_generation = next_generation (cx_generation (ar_contexts A ! i))\<rparr>"
proof -
  have v: "Arena_valid A" using inv by (simp add: arena_inv_def)
  show thesis
  proof (cases "gc_nil c \<or> gc_err c \<noteq> None \<or> gc_done c \<noteq> None")
    case True
    then show thesis using b v that(1) by (auto simp: Borrow_def split: if_splits option.splits)
  next
    case False
    then obtain i rest where a: "ar_available A = i # rest" using b v by (cases "ar_available A") (auto simp: Borrow_def)
    then have "i \<in> set (ar_available A)" by simp
    then have i: "i < length (ar_contexts A)" "cx_state (ar_contexts A ! i) = contextAvailable" "cx_arena (ar_contexts A ! i) = ar_id A"
      using inv by (simp_all add: arena_inv_def)
    then show thesis using that(2)[OF a i(1,2)] b v False a by (simp add: Borrow_def Let_def)
  qed
qed

lemma Return_cases:
  assumes inv: "arena_inv A" and r: "Return A l = (A', r)"
  obtains e where "A' = A" "r = Err e"
  | i w where "lease_active A l = Ok i" "cx_outputClaim (ar_contexts A ! i) AND 1 = 0" "i < length (ar_contexts A)" "cx_state w = contextAvailable" "cx_outputClaim w = 0"
      "cx_arena w = ar_id A" "cx_generation w = cx_generation (ar_contexts A ! i)" "cx_executor w = cx_executor (ar_contexts A ! i)"
      "sl_len (cx_evidenceOffsets w) = 0" "A' = (set_context A i w)\<lparr>ar_available := ar_available A @ [i]\<rparr>" "r = Ok ()"
proof -
  have v: "Arena_valid A" using inv by (simp add: arena_inv_def)
  show thesis
  proof (cases "\<exists>i. lease_active A l = Ok i \<and> cx_outputClaim (ar_contexts A ! i) AND 1 = 0")
    case True
    then obtain i where i: "lease_active A l = Ok i" "cx_outputClaim (ar_contexts A ! i) AND 1 = 0" by blast
    then have ii: "lease_context A l = Some i" "i < length (ar_contexts A)" "cx_state (ar_contexts A ! i) = contextBorrowed"
      "cx_generation (ar_contexts A ! i) = ls_generation l" "cx_arena (ar_contexts A ! i) = ar_id A"
      by (auto simp: lease_active_iff lease_context_def)
    have "set (ar_available A) \<subseteq> {..<length (ar_contexts A)} - {i}" using inv ii(3) by (auto simp: arena_inv_def)
    then have "card (set (ar_available A)) < length (ar_contexts A)"
      using ii(2) by (metis card_Diff1_less card_lessThan card_mono finite_Diff finite_lessThan le_less_trans lessThan_iff)
    then have "length (ar_available A) < ar_cap A" using inv v by (simp add: arena_inv_def Arena_valid_def distinct_card)
    moreover obtain w where w: "Context_reset ((ar_contexts A ! i)\<lparr>cx_state := contextReturning\<rparr>) = Ok w" "cx_arena w = ar_id A"
      "cx_generation w = cx_generation (ar_contexts A ! i)" "cx_executor w = cx_executor (ar_contexts A ! i)" "cx_outputClaim w = 0" "sl_len (cx_evidenceOffsets w) = 0"
      using Context_reset_Ok[of "(ar_contexts A ! i)\<lparr>cx_state := contextReturning\<rparr>"] ii(5) by auto
    ultimately show thesis using that(2)[OF i ii(2), of "w\<lparr>cx_state := contextAvailable\<rparr>"] r v ii i(2) by (simp add: Return_def Return_check_def Return_commit_def Let_def)
  next
    case False
    have same: "set_context A i ((ar_contexts A ! i)\<lparr>cx_state := contextBorrowed\<rparr>) = A"
      if "i < length (ar_contexts A)" "cx_state (ar_contexts A ! i) = contextBorrowed" for i
    proof -
      have "(ar_contexts A ! i)\<lparr>cx_state := contextBorrowed\<rparr> = ar_contexts A ! i" using that(2) by simp
      then show ?thesis by (simp add: set_context_def)
    qed
    show thesis
      using that(1) r v False same
      by (auto simp: Return_def Return_check_def Return_commit_def Let_def lease_active_def lease_context_def split: option.splits if_splits)
  qed
qed

lemma Return_succeeds:
  assumes inv: "arena_inv A" and l: "lease_active A l = Ok i" and c: "cx_outputClaim (ar_contexts A ! i) AND 1 = 0"
  shows "\<exists>A'. Return A l = (A', Ok ())"
proof -
  obtain A' r where r: "Return A l = (A', r)" by (cases "Return A l") auto
  from inv r show ?thesis
  proof (cases rule: Return_cases)
    case (1 e)
    have "lease_context A l = Some i" "cx_state (ar_contexts A ! i) = contextBorrowed" "cx_generation (ar_contexts A ! i) = ls_generation l"
      using l by (auto simp: lease_active_iff lease_context_def)
    then show ?thesis using 1 r inv c Context_reset_Ok[of "(ar_contexts A ! i)\<lparr>cx_state := contextReturning\<rparr>"]
      by (auto simp: Return_def Return_check_def Return_commit_def arena_inv_def Let_def split: if_splits)
  qed (use r in blast)
qed

text \<open>The guarded operations keep who owns a context.\<close>

definition keeps_ownership :: "(worker_context \<Rightarrow> worker_context \<times> 'a res) \<Rightarrow> bool" where
  "keeps_ownership f \<longleftrightarrow> (\<forall>w. cx_arena (fst (f w)) = cx_arena w \<and> cx_state (fst (f w)) = cx_state w \<and>
     cx_generation (fst (f w)) = cx_generation w \<and> \<not> is_panic (snd (f w)))"

lemma with_lease_cases:
  assumes "with_lease A l f = (A', r)"
  obtains e where "A' = A" "r = Err e"
  | i where "lease_active A l = Ok i" "A' = set_context A i (fst (f (ar_contexts A ! i)))" "r = snd (f (ar_contexts A ! i))"
  using assms by (cases "lease_active A l") (auto simp: with_lease_def lease_active_no_panic split: prod.splits)

lemma keeps_ownership_ops [simp]:
  "keeps_ownership (grow_context c)" "keeps_ownership (\<lambda>w. (w\<lparr>cx_input := bs\<rparr>, Ok ()))" "keeps_ownership (\<lambda>w. write_output (cx_output w @ bs) w)"
  "keeps_ownership (write_output bs)" "keeps_ownership (\<lambda>w. (w\<lparr>cx_executor := e, cx_result := rb\<rparr>, Ok ()))" "keeps_ownership (claim_output l)"
  by (auto simp: keeps_ownership_def grow_context_def write_output_def claim_output_def validateCapacity_def Let_def split: res.splits)

lemma is_panic_res_map [simp]: "is_panic (res_map f r) = is_panic r"
  by (cases r) auto

text \<open>The effect of a step on the ownership of the contexts.\<close>

definition keeps :: "arena \<Rightarrow> arena \<Rightarrow> bool" where
  "keeps A A' \<longleftrightarrow> A' = A \<or> (\<exists>i w. i < length (ar_contexts A) \<and> A' = set_context A i w \<and> cx_arena w = cx_arena (ar_contexts A ! i) \<and>
     cx_state w = cx_state (ar_contexts A ! i) \<and> cx_generation w = cx_generation (ar_contexts A ! i))"

lemma keeps_set:
  "i < length (ar_contexts A) \<Longrightarrow> cx_arena w = cx_arena (ar_contexts A ! i) \<Longrightarrow> cx_state w = cx_state (ar_contexts A ! i) \<Longrightarrow>
   cx_generation w = cx_generation (ar_contexts A ! i) \<Longrightarrow> keeps A (set_context A i w)"
  by (auto simp: keeps_def)

lemma keeps_refl [simp]: "keeps A A"
  by (simp add: keeps_def)

lemma with_lease_keeps:
  assumes "keeps_ownership f" "with_lease A l f = (A', r)"
  shows "keeps A A' \<and> \<not> is_panic r"
  using with_lease_cases[OF assms(2)] assms(1) unfolding keeps_def keeps_ownership_def lease_active_iff
  by (metis is_panic.simps(3))

lemma arena_step_effect:
  assumes inv: "arena_inv A" and s: "arena_step oper A = (A', r)"
  shows "\<not> is_panic r \<and> (keeps A A' \<or> (\<exists>c l. Borrow A c = Some (A', Ok l)) \<or> (\<exists>l. Return A l = (A', Ok ())))"
proof (cases oper)
  case (BorrowOp c)
  show ?thesis
  proof (cases "Borrow A c")
    case None
    then show ?thesis using s BorrowOp by (auto simp: keeps_def)
  next
    case (Some x)
    then show ?thesis using s BorrowOp Borrow_cases[OF inv, of c "fst x" "snd x"] by (cases x) (fastforce simp: keeps_def)
  qed
next
  case (ReturnOp l)
  then show ?thesis using s Return_cases[OF inv, of l A' r] by (fastforce simp: keeps_def)
next
  case (ClaimOutputOp l)
  obtain r' where "Lease_ClaimOutput A l = (A', r')" "r = res_map (\<lambda>_. ()) r'" using s ClaimOutputOp by (auto split: prod.splits)
  then show ?thesis using with_lease_keeps[OF keeps_ownership_ops(6), of A l l A' r'] unfolding Lease_ClaimOutput_def by auto
next
  case (ReleaseOp l)
  then show ?thesis using s
    by (auto simp: Output_Release_def output_context_def Let_def split: option.splits if_splits intro: keeps_set)
qed (use s in \<open>auto dest: with_lease_keeps[OF keeps_ownership_ops(1)] with_lease_keeps[OF keeps_ownership_ops(2)]
  with_lease_keeps[OF keeps_ownership_ops(3)] with_lease_keeps[OF keeps_ownership_ops(4)] with_lease_keeps[OF keeps_ownership_ops(5)]
  simp: Lease_Grow_def Lease_SetInput_def Lease_AppendOutput_def Lease_ResetOutput_def store_lease_def\<close>)

lemma keeps_inv: "arena_inv A \<Longrightarrow> keeps A A' \<Longrightarrow> arena_inv A'"
  unfolding keeps_def using arena_inv_set by (metis arena_inv_def)

lemma Borrow_inv:
  assumes inv: "arena_inv A" and b: "Borrow A c = Some (A', r)"
  shows "arena_inv A'"
  using inv b
proof (cases rule: Borrow_cases)
  case (2 i rest)
  then have "distinct (i # rest)" "set (i # rest) = {j. j < length (ar_contexts A) \<and> cx_state (ar_contexts A ! j) = contextAvailable}"
    using inv by (auto simp add: arena_inv_def)
  then have "distinct rest" "set rest = {j. j < length (ar_contexts A) \<and> cx_state (ar_contexts A ! j) = contextAvailable} - {i}" by auto
  then show ?thesis using inv 2 by (auto simp: arena_inv_def Arena_valid_def nth_list_update)
qed (use inv in simp)

lemma Return_inv:
  assumes inv: "arena_inv A" and r: "Return A l = (A', r)"
  shows "arena_inv A'"
  using inv r
proof (cases rule: Return_cases)
  case (2 i w)
  then show ?thesis using inv by (auto simp: arena_inv_def Arena_valid_def nth_list_update lease_active_iff)
qed (use inv in simp)

lemma arena_step_inv: "arena_inv A \<Longrightarrow> arena_inv (fst (arena_step oper A))"
  using arena_step_effect[of A oper "fst (arena_step oper A)" "snd (arena_step oper A)"] keeps_inv Borrow_inv Return_inv
  by (metis prod.collapse)

lemma run_arena_inv: "arena_inv A \<Longrightarrow> arena_inv (run_arena opers A)"
  by (induction opers arbitrary: A) (simp_all add: arena_step_inv)

lemma NewArena_inv: "NewArena arena executor result count c = Ok A \<Longrightarrow> arena_inv A"
  by (auto simp: NewArena_def rbind_Ok_iff arena_inv_def Arena_valid_def new_context_def split: if_splits)

section \<open>Exclusive ownership\<close>

lemma Borrow_exclusive:
  assumes inv: "arena_inv A" and b: "Borrow A c = Some (A', Ok l)"
  shows "\<exists>i. lease_active A' l = Ok i \<and> (\<forall>l'. lease_active A l' \<noteq> Ok i) \<and>
    (\<forall>l' j. lease_active A l' = Ok j \<longrightarrow> lease_active A' l' = Ok j \<and> ar_contexts A' ! j = ar_contexts A ! j)"
  using inv b
proof (cases rule: Borrow_cases)
  case (2 i rest)
  have n: "next_generation g \<noteq> 0" for g by (auto simp: next_generation_def)
  have "cx_arena (ar_contexts A ! i) = ar_id A" using inv 2(2) by (simp add: arena_inv_def)
  then have "lease_active A' l = Ok i" using 2 n by (auto simp: lease_active_iff)
  moreover have "lease_active A l' \<noteq> Ok i" for l' using 2(3) by (auto simp: lease_active_iff)
  moreover have "lease_active A' l' = Ok j \<and> ar_contexts A' ! j = ar_contexts A ! j" if "lease_active A l' = Ok j" for l' j
  proof -
    have "j \<noteq> i" using that 2(3) by (auto simp: lease_active_iff)
    then show ?thesis using that 2(4) by (auto simp: lease_active_iff)
  qed
  ultimately show ?thesis by blast
qed simp

lemma lease_active_unique: "lease_active A l = Ok i \<Longrightarrow> lease_active A l' = Ok i \<Longrightarrow> l = l'"
  by (auto simp: lease_active_iff intro: lease.equality)

section \<open>Expiry\<close>

text \<open>The context \<open>i\<close> has been lent at most \<open>n\<close> times since its generation was \<open>g\<close> and it was free.\<close>

definition past :: "nat \<Rightarrow> u64 \<Rightarrow> nat \<Rightarrow> arena \<Rightarrow> bool" where
  "past i g n A \<longleftrightarrow> i < length (ar_contexts A) \<and> (\<exists>d \<le> 2 * n. cx_generation (ar_contexts A ! i) = g + of_nat d \<and>
     (d = 0 \<longrightarrow> cx_state (ar_contexts A ! i) = contextAvailable))"

lemma past_mono: "past i g n A \<Longrightarrow> n \<le> m \<Longrightarrow> past i g m A"
  unfolding past_def by (meson le_trans mult_le_mono2)

lemma past_step:
  assumes inv: "arena_inv A" and p: "past i g n A"
  shows "past i g (Suc n) (fst (arena_step oper A))"
proof -
  obtain A' r where s: "arena_step oper A = (A', r)" by (cases "arena_step oper A") auto
  obtain d where d: "i < length (ar_contexts A)" "d \<le> 2 * n" "cx_generation (ar_contexts A ! i) = g + of_nat d"
    "d = 0 \<longrightarrow> cx_state (ar_contexts A ! i) = contextAvailable" using p by (auto simp: past_def)
  consider "keeps A A'" | c l where "Borrow A c = Some (A', Ok l)" | l where "Return A l = (A', Ok ())"
    using arena_step_effect[OF inv s] by blast
  then have "past i g (Suc n) A'"
  proof cases
    case 1
    then have "past i g n A'" using p unfolding keeps_def past_def by (auto simp: nth_list_update)
    then show ?thesis by (rule past_mono) simp
  next
    case (2 c l)
    from inv 2 show ?thesis
    proof (cases rule: Borrow_cases)
      case b: (2 j rest)
      show ?thesis
      proof (cases "j = i")
        case True
        have "\<exists>d' \<le> 2 * Suc n. next_generation (g + of_nat d) = g + of_nat d' \<and> d' \<noteq> 0"
        proof (cases "g + of_nat d + 1 = (0 :: u64)")
          case True
          then have "next_generation (g + of_nat d) = g + of_nat (d + 2)" unfolding next_generation_def by (simp add: ac_simps)
          then show ?thesis using d(2) by (intro exI[of _ "d + 2"]) simp
        next
          case False
          then show ?thesis using d(2) unfolding next_generation_def by (intro exI[of _ "d + 1"]) simp
        qed
        then show ?thesis using b d True by (auto simp: past_def)
      next
        case False
        then have "past i g n A'" using p b by (auto simp: past_def)
        then show ?thesis by (rule past_mono) simp
      qed
    qed simp
  next
    case (3 l)
    from inv 3 show ?thesis
    proof (cases rule: Return_cases)
      case b: (2 j w)
      then have "past i g n A'" using p by (auto simp: past_def nth_list_update)
      then show ?thesis by (rule past_mono) simp
    qed simp
  qed
  then show ?thesis using s by simp
qed

lemma past_run: "arena_inv A \<Longrightarrow> past i g n A \<Longrightarrow> past i g (n + length opers) (run_arena opers A)"
proof (induction opers arbitrary: A n)
  case (Cons oper opers)
  then show ?case using Cons.IH[OF arena_step_inv[OF Cons.prems(1)] past_step[OF Cons.prems], of oper] by simp
qed simp

lemma past_inactive:
  assumes "past i (ls_generation l) n A" "2 * n < 2 ^ 64" "ls_context l = Some i"
  shows "lease_active A l \<noteq> Ok j"
proof
  assume "lease_active A l = Ok j"
  then have j: "j = i" "cx_generation (ar_contexts A ! i) = ls_generation l" "cx_state (ar_contexts A ! i) = contextBorrowed"
    using assms(3) by (auto simp: lease_active_iff)
  obtain d where d: "d \<le> 2 * n" "cx_generation (ar_contexts A ! i) = ls_generation l + of_nat d"
    "d = 0 \<longrightarrow> cx_state (ar_contexts A ! i) = contextAvailable" using assms(1) by (auto simp: past_def)
  have "(of_nat d :: u64) = 0" using d(2) j(2) by simp
  then have "2 ^ 64 dvd d" by (simp add: word_of_nat_eq_0_iff)
  then have "d = 0" using d(1) assms(2) by (auto dest: dvd_imp_le)
  then show False using d(3) j(3) by simp
qed

section \<open>Claimed output\<close>

lemma Output_Bytes_iff:
  "Output_Bytes A l = Ok bs \<longleftrightarrow> (\<exists>i. ol_context l = Some i \<and> ol_generation l \<noteq> 0 \<and> ol_claim l AND 1 \<noteq> 0 \<and> i < length (ar_contexts A) \<and>
     cx_generation (ar_contexts A ! i) = ol_generation l \<and> cx_state (ar_contexts A ! i) = contextBorrowed \<and>
     cx_outputClaim (ar_contexts A ! i) = ol_claim l \<and> cx_output (ar_contexts A ! i) = bs)"
  by (auto simp: Output_Bytes_def output_context_def Let_def split: option.splits if_splits)

definition keeps_claimed :: "(worker_context \<Rightarrow> worker_context \<times> 'a res) \<Rightarrow> bool" where
  "keeps_claimed f \<longleftrightarrow> (\<forall>w. cx_outputClaim w AND 1 \<noteq> 0 \<longrightarrow>
     cx_outputClaim (fst (f w)) = cx_outputClaim w \<and> cx_output (fst (f w)) = cx_output w)"

lemma keeps_claimed_ops [simp]:
  "keeps_claimed (grow_context c)" "keeps_claimed (\<lambda>w. (w\<lparr>cx_input := bs\<rparr>, Ok ()))" "keeps_claimed (\<lambda>w. write_output (cx_output w @ bs) w)"
  "keeps_claimed (write_output bs)" "keeps_claimed (\<lambda>w. (w\<lparr>cx_executor := e, cx_result := rb\<rparr>, Ok ()))" "keeps_claimed (claim_output l)"
  by (auto simp: keeps_claimed_def grow_context_def write_output_def claim_output_def Let_def split: res.splits)

lemma with_lease_claimed:
  assumes o: "keeps_ownership f" "keeps_claimed f" and b: "Output_Bytes A l = Ok bs"
  shows "Output_Bytes (fst (with_lease A l' f)) l = Ok bs"
proof -
  obtain A' r where w: "with_lease A l' f = (A', r)" by (cases "with_lease A l' f") auto
  then show ?thesis
  proof (cases rule: with_lease_cases)
    case (2 i)
    obtain j where j: "ol_context l = Some j" "j < length (ar_contexts A)" "cx_outputClaim (ar_contexts A ! j) = ol_claim l"
      "cx_outputClaim (ar_contexts A ! j) AND 1 \<noteq> 0" using b by (auto simp: Output_Bytes_iff)
    have "cx_generation (ar_contexts A' ! j) = cx_generation (ar_contexts A ! j)" "cx_state (ar_contexts A' ! j) = cx_state (ar_contexts A ! j)"
      "cx_outputClaim (ar_contexts A' ! j) = cx_outputClaim (ar_contexts A ! j)" "cx_output (ar_contexts A' ! j) = cx_output (ar_contexts A ! j)"
      using 2(2) j o by (cases "i = j"; simp add: keeps_ownership_def keeps_claimed_def)+
    then show ?thesis using b j(1) 2(2) w by (auto simp: Output_Bytes_iff)
  qed (use w b in simp)
qed

lemma claimed_step:
  assumes inv: "arena_inv A" and b: "Output_Bytes A l = Ok bs" and ne: "oper \<noteq> ReleaseOp l"
  shows "Output_Bytes (fst (arena_step oper A)) l = Ok bs"
proof (cases oper)
  case (BorrowOp c)
  show ?thesis
  proof (cases "Borrow A c")
    case (Some x)
    obtain A' r where x: "Borrow A c = Some (A', r)" using Some by (cases x) auto
    from inv x show ?thesis
    proof (cases rule: Borrow_cases)
      case (2 i rest)
      then show ?thesis using b x BorrowOp unfolding Output_Bytes_iff by (auto simp: nth_list_update)
    qed (use b x BorrowOp in simp)
  qed (use b BorrowOp in simp)
next
  case (ReturnOp l')
  obtain A' r where x: "Return A l' = (A', r)" by (cases "Return A l'") auto
  from inv x show ?thesis
  proof (cases rule: Return_cases)
    case (2 i w)
    then have "ol_context l \<noteq> Some i" using b by (auto simp: Output_Bytes_iff)
    then show ?thesis using 2 b x ReturnOp unfolding Output_Bytes_iff by (auto simp: nth_list_update)
  qed (use b x ReturnOp in simp)
next
  case (ReleaseOp l')
  then have "l' \<noteq> l" using ne by simp
  moreover have "l' = l" if "ol_context l' = ol_context l" "ol_generation l' = ol_generation l" "ol_claim l' = ol_claim l"
    using that by (simp add: output_lease.equality)
  ultimately show ?thesis using b ReleaseOp unfolding Output_Bytes_iff
    by (auto simp: Output_Release_def output_context_def Let_def nth_list_update split: option.splits if_splits)
qed (simp_all add: with_lease_claimed[OF _ _ b] Lease_Grow_def Lease_SetInput_def Lease_AppendOutput_def Lease_ResetOutput_def
  store_lease_def Lease_ClaimOutput_def split_beta)

lemma claimed_run: "arena_inv A \<Longrightarrow> Output_Bytes A l = Ok bs \<Longrightarrow> ReleaseOp l \<notin> set opers \<Longrightarrow> Output_Bytes (run_arena opers A) l = Ok bs"
  by (induction opers arbitrary: A) (auto simp: arena_step_inv claimed_step)

section \<open>Returning a copied lease concurrently\<close>

text \<open>A second return of the same lease that has compared the generation before the first return completes takes
  the context away from its next borrower.\<close>

definition one_context :: "nat \<Rightarrow> worker_context \<Rightarrow> nat list \<Rightarrow> arena" where
  "one_context arena w available = \<lparr>ar_id = arena, ar_contexts = [w], ar_available = available, ar_cap = 1\<rparr>"

lemma one_context_Borrow:
  assumes "cx_arena w = arena" "cx_state w = contextAvailable" "cx_outputClaim w = 0" "\<not> gc_nil ctx" "gc_err ctx = None" "gc_done ctx = None"
  shows "Borrow (one_context arena w [0]) ctx =
    Some (one_context arena (w\<lparr>cx_generation := next_generation (cx_generation w), cx_state := contextBorrowed\<rparr>) [],
      Ok \<lparr>ls_arena = Some arena, ls_context = Some 0, ls_generation = next_generation (cx_generation w)\<rparr>)"
  using assms by (simp add: one_context_def Borrow_def Arena_valid_def set_context_def retireFailedClaim_def Let_def)

lemma one_context_commit:
  assumes "cx_arena w = arena" "cx_state w = contextBorrowed" "cx_outputClaim w = 0"
  shows "\<exists>w'. Return_commit (one_context arena w []) l 0 = (one_context arena w' [0], Ok ()) \<and> cx_arena w' = arena \<and>
    cx_state w' = contextAvailable \<and> cx_outputClaim w' = 0 \<and> cx_generation w' = cx_generation w"
  using assms by (simp add: one_context_def Return_commit_def set_context_def Context_reset_def Result_Reset_def Let_def)

text \<open>C36: A return that races with another return of a copy of the same lease can take the context away from its
  next borrower: if it has compared the generation before the other return and a new loan complete, its
  compare-and-swap succeeds on the new loan, and the new lease is expired although its holder never returned it.\<close>

theorem stale_return_revokes:
  assumes A0: "NewArena arena executor result 1 c = Ok A0" and g: "\<not> gc_nil ctx" "gc_err ctx = None" "gc_done ctx = None"
  shows "\<exists>A1 l1 A2 A3 l2 A4. Borrow A0 ctx = Some (A1, Ok l1) \<and> Return_check A1 l1 = Ok 0 \<and> Return A1 l1 = (A2, Ok ()) \<and>
     Borrow A2 ctx = Some (A3, Ok l2) \<and> lease_active A3 l2 = Ok 0 \<and>
     Return_commit A3 l1 0 = (A4, Ok ()) \<and> lease_active A4 l2 = Err ErrLeaseExpired"
proof -
  obtain w0 where w0: "A0 = one_context arena w0 [0]" "cx_arena w0 = arena" "cx_state w0 = contextAvailable" "cx_outputClaim w0 = 0"
    "cx_generation w0 = 0" using A0 by (auto simp: NewArena_def rbind_Ok_iff one_context_def new_context_def)
  define l1 where "l1 = \<lparr>ls_arena = Some arena, ls_context = Some 0, ls_generation = 1 :: u64\<rparr>"
  define l2 where "l2 = \<lparr>ls_arena = Some arena, ls_context = Some 0, ls_generation = 2 :: u64\<rparr>"
  have n: "next_generation 0 = 1" "next_generation 1 = 2" by (simp_all add: next_generation_def)
  obtain w1 where w1: "Borrow A0 ctx = Some (one_context arena w1 [], Ok l1)" "cx_arena w1 = arena" "cx_state w1 = contextBorrowed"
    "cx_outputClaim w1 = 0" "cx_generation w1 = 1" using one_context_Borrow[OF w0(2-4) g] w0 n by (simp add: l1_def)
  have c1: "Return_check (one_context arena w1 []) l1 = Ok 0"
    using w1 by (simp add: Return_check_def Arena_valid_def one_context_def lease_context_def l1_def)
  obtain w2 where w2: "Return (one_context arena w1 []) l1 = (one_context arena w2 [0], Ok ())" "cx_arena w2 = arena"
    "cx_state w2 = contextAvailable" "cx_outputClaim w2 = 0" "cx_generation w2 = 1"
    using one_context_commit[OF w1(2-4), of l1] w1(5) c1 by (auto simp: Return_def)
  obtain w3 where w3: "Borrow (one_context arena w2 [0]) ctx = Some (one_context arena w3 [], Ok l2)" "cx_arena w3 = arena"
    "cx_state w3 = contextBorrowed" "cx_outputClaim w3 = 0" "cx_generation w3 = 2"
    using one_context_Borrow[OF w2(2-4) g] w2 n by (simp add: l2_def)
  have a3: "lease_active (one_context arena w3 []) l2 = Ok 0" using w3 by (simp add: lease_active_iff l2_def one_context_def)
  obtain w4 where w4: "Return_commit (one_context arena w3 []) l1 0 = (one_context arena w4 [0], Ok ())" "cx_arena w4 = arena"
    "cx_state w4 = contextAvailable" using one_context_commit[OF w3(2-4), of l1] by blast
  have "lease_active (one_context arena w4 [0]) l2 = Err ErrLeaseExpired"
    using w4 by (simp add: lease_active_def lease_context_def l2_def one_context_def)
  then show ?thesis using w1(1) c1 w2(1) w3(1) a3 w4(1) by blast
qed

theorem stale_return_revokes_witness:
  "\<exists>A0 A1 l1 A3 l2 A4. NewArena 7 new_executor empty_result 1 \<lparr>cp_InputBytes = 0, cp_OutputBytes = 0, cp_Rows = 4\<rparr> = Ok A0 \<and>
     Borrow A0 \<lparr>gc_nil = False, gc_err = None, gc_done = None\<rparr> = Some (A1, Ok l1) \<and> lease_active A3 l2 = Ok 0 \<and>
     Return_commit A3 l1 0 = (A4, Ok ()) \<and> lease_active A4 l2 = Err ErrLeaseExpired"
proof -
  let ?c = "\<lparr>cp_InputBytes = 0, cp_OutputBytes = 0, cp_Rows = 4\<rparr>" and ?ctx = "\<lparr>gc_nil = False, gc_err = None, gc_done = None\<rparr>"
  obtain A0 where "NewArena 7 new_executor empty_result 1 ?c = Ok A0" by (simp add: NewArena_def validateCapacity_def)
  then show ?thesis using stale_return_revokes[of 7 new_executor empty_result ?c A0 ?ctx] by fastforce
qed

section \<open>Properties\<close>

text \<open>C34: Whatever sequence of operations on leases and output claims, valid or not, a new arena has been through,
  every context is either free and queued exactly once or lent and not queued, and no further operation panics.\<close>

theorem arena_never_panics:
  assumes "NewArena arena executor result count c = Ok A0"
  shows "arena_inv (run_arena opers A0) \<and> \<not> is_panic (snd (arena_step oper (run_arena opers A0)))"
proof -
  have inv: "arena_inv (run_arena opers A0)" by (rule run_arena_inv[OF NewArena_inv[OF assms]])
  then show ?thesis using arena_step_effect[OF inv, of oper] by (metis prod.collapse)
qed

theorem arena_never_panics_witness:
  "\<exists>A0. NewArena 7 new_executor empty_result 2 \<lparr>cp_InputBytes = 0, cp_OutputBytes = 0, cp_Rows = 4\<rparr> = Ok A0 \<and>
     arena_inv (run_arena [BorrowOp \<lparr>gc_nil = False, gc_err = None, gc_done = None\<rparr>] A0)"
proof -
  let ?c = "\<lparr>cp_InputBytes = 0, cp_OutputBytes = 0, cp_Rows = 4\<rparr>"
  obtain A0 where "NewArena 7 new_executor empty_result 2 ?c = Ok A0" by (simp add: NewArena_def validateCapacity_def)
  then show ?thesis using arena_never_panics[of 7 new_executor empty_result 2 ?c A0] by blast
qed

text \<open>C31: A loan is exclusive: at any point of the life of an arena, a borrowed lease is active, no lease that was
  active before owns its context, and the leases that were active stay active on unchanged contexts.\<close>

theorem lease_exclusive:
  assumes "NewArena arena executor result count c = Ok A0" "Borrow (run_arena opers A0) ctx = Some (A', Ok l)"
  shows "\<exists>i. lease_active A' l = Ok i \<and> (\<forall>l'. lease_active (run_arena opers A0) l' \<noteq> Ok i) \<and>
    (\<forall>l' j. lease_active (run_arena opers A0) l' = Ok j \<longrightarrow>
       lease_active A' l' = Ok j \<and> ar_contexts A' ! j = ar_contexts (run_arena opers A0) ! j)"
  by (rule Borrow_exclusive[OF run_arena_inv[OF NewArena_inv[OF assms(1)]] assms(2)])

theorem lease_exclusive_witness:
  "\<exists>A0 A' l. NewArena 7 new_executor empty_result 2 \<lparr>cp_InputBytes = 0, cp_OutputBytes = 0, cp_Rows = 4\<rparr> = Ok A0 \<and>
     Borrow (run_arena [BorrowOp \<lparr>gc_nil = False, gc_err = None, gc_done = None\<rparr>] A0) \<lparr>gc_nil = False, gc_err = None, gc_done = None\<rparr> =
       Some (A', Ok l) \<and> (\<exists>i. lease_active A' l = Ok i)"
proof -
  let ?c = "\<lparr>cp_InputBytes = 0, cp_OutputBytes = 0, cp_Rows = 4\<rparr>" and ?ctx = "\<lparr>gc_nil = False, gc_err = None, gc_done = None\<rparr>"
  obtain A0 where A0: "NewArena 7 new_executor empty_result 2 ?c = Ok A0" by (simp add: NewArena_def validateCapacity_def)
  then obtain A' l where "Borrow (run_arena [BorrowOp ?ctx] A0) ?ctx = Some (A', Ok l)"
    by (auto simp: NewArena_def validateCapacity_def Borrow_def Arena_valid_def new_context_def set_context_def retireFailedClaim_def Let_def
      numeral_2_eq_2 upt_rec)
  then show ?thesis using lease_exclusive[OF A0] A0 by blast
qed

text \<open>C32: A returned lease stays dead: after it has been returned, no sequence of fewer than \<open>2 ^ 63\<close> operations, in
  which its context may be lent again and again, makes it active again.\<close>

theorem returned_lease_expires:
  assumes "arena_inv A" "Return A l = (A', Ok ())" "length opers < 2 ^ 63"
  shows "lease_active (run_arena opers A') l \<noteq> Ok j \<and> snd (Return (run_arena opers A') l) \<noteq> Ok ()"
proof -
  from assms(1,2) obtain i where i: "lease_active A l = Ok i" "past i (ls_generation l) 0 A'" "ls_context l = Some i"
  proof (cases rule: Return_cases)
    case (2 i w)
    then show ?thesis using that[of i] by (auto simp: past_def lease_active_iff)
  qed simp
  have inv: "arena_inv A'" by (rule Return_inv[OF assms(1,2)])
  have dead: "lease_active (run_arena opers A') l \<noteq> Ok k" for k
    by (rule past_inactive[OF past_run[OF inv i(2), of opers] _ i(3)]) (use assms(3) in simp)
  moreover have "snd (Return (run_arena opers A') l) \<noteq> Ok ()"
  proof
    assume a: "snd (Return (run_arena opers A') l) = Ok ()"
    obtain B r where b: "Return (run_arena opers A') l = (B, r)" by (cases "Return (run_arena opers A') l") auto
    from run_arena_inv[OF inv] b show False by (cases rule: Return_cases) (use a b dead in auto)
  qed
  ultimately show ?thesis by blast
qed

theorem returned_lease_expires_witness:
  "\<exists>A l A'. Return A l = (A', Ok ()) \<and> lease_active (run_arena [BorrowOp \<lparr>gc_nil = False, gc_err = None, gc_done = None\<rparr>] A') l \<noteq> Ok 0"
proof -
  let ?c = "\<lparr>cp_InputBytes = 0, cp_OutputBytes = 0, cp_Rows = 4\<rparr>" and ?ctx = "\<lparr>gc_nil = False, gc_err = None, gc_done = None\<rparr>"
  obtain A0 where A0: "NewArena 7 new_executor empty_result 1 ?c = Ok A0" by (simp add: NewArena_def validateCapacity_def)
  have inv0: "arena_inv A0" by (rule NewArena_inv[OF A0])
  obtain A l where b: "Borrow A0 ?ctx = Some (A, Ok l)" and c: "\<forall>w \<in> set (ar_contexts A). cx_outputClaim w = 0"
    using A0 by (auto simp: NewArena_def validateCapacity_def Borrow_def Arena_valid_def new_context_def set_context_def retireFailedClaim_def Let_def)
  have inv: "arena_inv A" by (rule Borrow_inv[OF inv0 b])
  obtain i where i: "lease_active A l = Ok i" using Borrow_exclusive[OF inv0 b] by blast
  then have "cx_outputClaim (ar_contexts A ! i) = 0" using c by (simp add: lease_active_iff)
  then obtain A' where "Return A l = (A', Ok ())"
    using Return_succeeds[OF inv i] by auto
  then show ?thesis using returned_lease_expires[OF inv, of l A' "[BorrowOp ?ctx]" 0] by auto
qed

text \<open>C33: Claimed output is stable: while an output claim is valid, no sequence of operations that does not release
  exactly this claim changes the bytes that it reads; in particular the context cannot be returned.\<close>

theorem claimed_output_stable:
  assumes "arena_inv A" "Output_Bytes A l = Ok bs" "ReleaseOp l \<notin> set opers"
  shows "Output_Bytes (run_arena opers A) l = Ok bs"
  by (rule claimed_run[OF assms])

definition sample_context :: go_context where
  "sample_context = \<lparr>gc_nil = False, gc_err = None, gc_done = None\<rparr>"

definition sample_arena :: arena where
  "sample_arena = (case NewArena 7 new_executor empty_result 2 \<lparr>cp_InputBytes = 0, cp_OutputBytes = 0, cp_Rows = 4\<rparr> of Ok A \<Rightarrow> A)"

definition sample_lease :: lease where
  "sample_lease = \<lparr>ls_arena = Some 7, ls_context = Some 0, ls_generation = 1\<rparr>"

definition sample_claim :: output_lease where
  "sample_claim = \<lparr>ol_context = Some 0, ol_generation = 1, ol_claim = 1\<rparr>"

theorem claimed_output_stable_witness:
  "Output_Bytes (run_arena [ReturnOp sample_lease, BorrowOp sample_context, AppendOutputOp sample_lease [3]]
     (run_arena [BorrowOp sample_context, AppendOutputOp sample_lease [1, 2], ClaimOutputOp sample_lease] sample_arena)) sample_claim = Ok [1, 2]"
proof (rule claimed_output_stable)
  have "NewArena 7 new_executor empty_result 2 \<lparr>cp_InputBytes = 0, cp_OutputBytes = 0, cp_Rows = 4\<rparr> = Ok sample_arena"
    by (simp add: sample_arena_def NewArena_def validateCapacity_def)
  then show "arena_inv (run_arena [BorrowOp sample_context, AppendOutputOp sample_lease [1, 2], ClaimOutputOp sample_lease] sample_arena)"
    by (rule run_arena_inv[OF NewArena_inv])
  show "Output_Bytes (run_arena [BorrowOp sample_context, AppendOutputOp sample_lease [1, 2], ClaimOutputOp sample_lease] sample_arena)
    sample_claim = Ok [1, 2]" by code_simp
qed simp

end
