(* ===== verification/NR_Scheduler.thy ===== *)
theory NR_Scheduler
  imports NR_Shard NR_Arena
begin

text \<open>
  The batch scheduler, \<^verbatim>\<open>internal/scheduler/scheduler.go\<close> and \<^verbatim>\<open>internal/scheduler/worker.go\<close>, as a
  transition system over its shared state: the queue of free batch states, the tokens that bound the shards in
  flight, the queue of shard jobs, the idle workers, the arena of worker contexts and the batch states. The steps
  are the communications of the goroutines: the calls of \<^verbatim>\<open>Execute\<close> and the workers interleave in every
  order, and callers and shutdown come at any time. The evaluation of a shard, which only touches the
  context it has leased and its own result slot, is one step.

  In every reachable state the tokens, leases, jobs and batch states are conserved, some step is enabled as long
  as a call is in progress, every call returns after boundedly many steps, and a call that is not canceled and
  not refused returns exactly the reference result of its batch.
\<close>

section \<open>Configuration\<close>

record sched_config =
  cf_Capacity :: capacity
  cf_Workers :: int
  cf_QueueDepth :: int
  cf_ParallelRows :: nat

abbreviation DefaultParallelRows :: nat where "DefaultParallelRows \<equiv> 256"

definition desiredShards :: "nat \<Rightarrow> nat \<Rightarrow> nat \<Rightarrow> nat" where
  "desiredShards parallelRows workers rows =
     (let threshold = (if parallelRows = 0 then DefaultParallelRows else parallelRows) in
      if rows = 0 \<or> threshold = 0 \<or> rows < threshold then 1
      else let words = (rows + 63) div 64 in if words < workers then words else workers)"

section \<open>A shard on a leased context\<close>

definition run_lease :: "simd_backend \<Rightarrow> (nat \<Rightarrow> program) \<Rightarrow> arena \<Rightarrow> lease \<Rightarrow> result_batch \<Rightarrow> nat \<Rightarrow> batch \<Rightarrow> row_range \<Rightarrow> arena \<times> result_batch res" where
  "run_lease K H A l dst a b r =
     (let rows = rg_end r - rg_start r in
      case Lease_Grow A l \<lparr>cp_InputBytes = 0, cp_OutputBytes = 0, cp_Rows = rows\<rparr> of
        (A1, Err e) \<Rightarrow> (A1, Err e) | (A1, Panic s) \<Rightarrow> (A1, Panic s)
      | (A1, Ok _) \<Rightarrow>
     (case lease_active A1 l of Err e \<Rightarrow> (A1, Err e) | Panic s \<Rightarrow> (A1, Panic s)
      | Ok i \<Rightarrow>
        let w = ar_contexts A1 ! i in
        if rg_start r = 0 \<and> rg_end r = b_Rows b
        then (case Execute K H (cx_executor w) dst a b of (e, out) \<Rightarrow> (set_context A1 i (w\<lparr>cx_executor := e\<rparr>), out))
        else let scratchLen = rows + 1 in
          if scratchLen > length (sl_array (cx_evidenceOffsets w)) then (A1, Err ErrInvalidCapacity)
          else (case ExecuteRange K H (cx_executor w) dst a b (rg_start r) (rg_end r) (take scratchLen (sl_array (cx_evidenceOffsets w))) of
            (e, out) \<Rightarrow> (set_context A1 i (w\<lparr>cx_executor := e\<rparr>), out))))"

text \<open>The part of \<^verbatim>\<open>executeShard\<close> after the loan: the check of the cancellation, the evaluation and the return.\<close>

definition finish_shard :: "simd_backend \<Rightarrow> (nat \<Rightarrow> program) \<Rightarrow> arena \<Rightarrow> lease \<Rightarrow> err option \<Rightarrow> result_batch \<Rightarrow> nat \<Rightarrow> batch \<Rightarrow> row_range \<Rightarrow>
    arena \<times> result_batch res" where
  "finish_shard K H A l ctxErr dst a b r =
     (case (case ctxErr of Some e \<Rightarrow> (A, Err e) | None \<Rightarrow> run_lease K H A l dst a b r) of (A1, out) \<Rightarrow>
      case Return A1 l of (A2, ret) \<Rightarrow>
        (A2, case ret of Panic s \<Rightarrow> Panic s | Ok _ \<Rightarrow> out
           | Err e \<Rightarrow> (case out of Ok _ \<Rightarrow> Err e | _ \<Rightarrow> out)))"

section \<open>State\<close>

text \<open>The phase of a shard: not yet submitted, in the job queue, taken up by a worker (or by the caller itself),
  holding a lease, or done. A batch state is free, received from the queue, admitted, in possession of its first
  token, reserving more tokens, or running its shards; the shutdown drains the free states one by one.\<close>

datatype shard_phase = Unsent | Queued | Running bool | Leased bool lease | Finished

datatype batch_phase = BatchFree | BatchDrained | BatchReceived | BatchAdmitted | BatchToken | BatchReserving nat | BatchActive

record batch_state =
  bs_phase :: batch_phase
  bs_canceled :: bool
  bs_program :: nat
  bs_batch :: batch
  bs_ranges :: "row_range list"
  bs_results :: "result_batch list"
  bs_errors :: "err option list"
  bs_shards :: "shard_phase list"

record sched =
  sd_arena :: arena
  sd_available :: "nat list"
  sd_tokens :: nat
  sd_jobs :: "(nat \<times> nat) list"
  sd_idle :: nat
  sd_states :: "batch_state list"
  sd_stopping :: bool
  sd_serial :: u64
  sd_parallel :: u64
  sd_returns :: "(nat \<times> batch \<times> bool \<times> result_batch res) list"

definition free_state :: "nat \<Rightarrow> result_batch \<Rightarrow> batch \<Rightarrow> batch_state" where
  "free_state workers result b =
     \<lparr>bs_phase = BatchFree, bs_canceled = False, bs_program = 0, bs_batch = b, bs_ranges = [],
      bs_results = replicate workers result, bs_errors = replicate workers None, bs_shards = []\<rparr>"

definition NewScheduler :: "nat \<Rightarrow> executor \<Rightarrow> result_batch \<Rightarrow> batch \<Rightarrow> sched_config \<Rightarrow> sched res" where
  "NewScheduler arena executor result noBatch c =
     (if cf_Workers c \<le> 0 \<or> cf_QueueDepth c \<le> 0 then Err ErrInvalidScheduler
      else case validateCapacity (cf_Capacity c) of Ok _ \<Rightarrow>
        if cf_QueueDepth c > int MaxInt div cf_Workers c then Err ErrInvalidScheduler
        else (case NewArena arena executor result (cf_Workers c) (cf_Capacity c) of
          Ok A \<Rightarrow> Ok \<lparr>sd_arena = A, sd_available = [0..<nat (cf_QueueDepth c)], sd_tokens = nat (cf_Workers c), sd_jobs = [],
              sd_idle = nat (cf_Workers c), sd_states = replicate (nat (cf_QueueDepth c)) (free_state (nat (cf_Workers c)) result noBatch),
              sd_stopping = False, sd_serial = 0, sd_parallel = 0, sd_returns = []\<rparr>
        | _ \<Rightarrow> Err ErrInvalidScheduler)
      | _ \<Rightarrow> Err ErrInvalidScheduler)"

section \<open>Steps\<close>

abbreviation state_at :: "sched \<Rightarrow> nat \<Rightarrow> batch_state" where
  "state_at S i \<equiv> sd_states S ! i"

definition set_state :: "sched \<Rightarrow> nat \<Rightarrow> batch_state \<Rightarrow> sched" where
  "set_state S i s = S\<lparr>sd_states := (sd_states S)[i := s]\<rparr>"

definition set_phase :: "sched \<Rightarrow> nat \<Rightarrow> batch_phase \<Rightarrow> sched" where
  "set_phase S i ph = set_state S i ((state_at S i)\<lparr>bs_phase := ph\<rparr>)"

definition set_shard :: "sched \<Rightarrow> nat \<Rightarrow> nat \<Rightarrow> shard_phase \<Rightarrow> sched" where
  "set_shard S i j x = set_state S i ((state_at S i)\<lparr>bs_shards := (bs_shards (state_at S i))[j := x]\<rparr>)"

text \<open>A call gives its batch state back and returns; the returns are recorded, with the state of the cancellation.\<close>

definition leave :: "sched \<Rightarrow> nat \<Rightarrow> result_batch res \<Rightarrow> sched" where
  "leave S i r =
     (set_phase S i BatchFree)\<lparr>sd_available := sd_available S @ [i],
        sd_returns := sd_returns S @ [(bs_program (state_at S i), bs_batch (state_at S i), bs_canceled (state_at S i), r)]\<rparr>"

text \<open>The partition of the rows once the tokens are reserved; a batch of one shard is run by the caller.\<close>

definition start_batch :: "nat \<Rightarrow> sched \<Rightarrow> nat \<Rightarrow> nat \<Rightarrow> sched" where
  "start_batch workers S i acquired =
     (let s = state_at S i; ranges = partitionRows workers (b_Rows (bs_batch s)) (int acquired);
          errors = map (\<lambda>k. if k < length ranges then None else bs_errors s ! k) [0..<length (bs_errors s)];
          s1 = s\<lparr>bs_phase := BatchActive, bs_ranges := ranges, bs_errors := errors\<rparr> in
      if length ranges = 1 then (set_state S i (s1\<lparr>bs_shards := [Running False]\<rparr>))\<lparr>sd_serial := sd_serial S + 1\<rparr>
      else (set_state S i (s1\<lparr>bs_shards := replicate (length ranges) Unsent\<rparr>))\<lparr>sd_parallel := sd_parallel S + 1\<rparr>)"

text \<open>\<^verbatim>\<open>runShard\<close> after the evaluation: the error is stored, the token goes back, and a worker is idle again.\<close>

definition end_shard :: "sched \<Rightarrow> nat \<Rightarrow> nat \<Rightarrow> bool \<Rightarrow> result_batch res \<Rightarrow> sched" where
  "end_shard S i j worker r =
     (let s = state_at S i;
          s1 = s\<lparr>bs_shards := (bs_shards s)[j := Finished],
            bs_errors := (bs_errors s)[j := (case r of Err e \<Rightarrow> Some e | _ \<Rightarrow> None)],
            bs_results := (case r of Ok x \<Rightarrow> (bs_results s)[j := x] | _ \<Rightarrow> bs_results s)\<rparr> in
      (set_state S i s1)\<lparr>sd_tokens := sd_tokens S + 1, sd_idle := (if worker then sd_idle S + 1 else sd_idle S)\<rparr>)"

text \<open>A canceled caller stops submitting: the shards from \<open>submitted\<close> on fail and their tokens go back.\<close>

definition unsend :: "sched \<Rightarrow> nat \<Rightarrow> nat \<Rightarrow> sched" where
  "unsend S i submitted =
     (let s = state_at S i; n = length (bs_shards s) in
      (set_state S i (s\<lparr>bs_shards := take submitted (bs_shards s) @ replicate (n - submitted) Finished,
          bs_errors := map (\<lambda>k. if submitted \<le> k \<and> k < n then Some ErrCanceled else bs_errors s ! k) [0..<length (bs_errors s)]\<rparr>))
        \<lparr>sd_tokens := sd_tokens S + (n - submitted)\<rparr>)"

text \<open>The end of a call once all its shards are done: a cancellation, the first error of a shard, or the merge.\<close>

fun first_error :: "err option list \<Rightarrow> err option" where
  "first_error [] = None"
| "first_error (Some e # es) = Some e"
| "first_error (None # es) = first_error es"

definition batch_outcome :: "batch_state \<Rightarrow> result_batch \<Rightarrow> result_batch res" where
  "batch_outcome s dst =
     (if bs_canceled s then Err ErrCanceled
      else case first_error (take (length (bs_ranges s)) (bs_errors s)) of Some e \<Rightarrow> Err e
      | None \<Rightarrow> mergeResults dst (take (length (bs_ranges s)) (bs_results s)) (bs_ranges s) (b_Rows (bs_batch s)))"

abbreviation ctx_of :: "bool \<Rightarrow> go_context" where
  "ctx_of canceled \<equiv> \<lparr>gc_nil = False, gc_err = (if canceled then Some ErrCanceled else None), gc_done = None\<rparr>"

abbreviation ctx_error :: "bool \<Rightarrow> err option" where
  "ctx_error canceled \<equiv> (if canceled then Some ErrCanceled else None)"

text \<open>The steps of the system; \<open>calls\<close> are the calls that clients make. A step of the environment is a new call,
  a cancellation or the start of the shutdown.\<close>

inductive env_step :: "(nat \<Rightarrow> batch \<Rightarrow> bool) \<Rightarrow> sched \<Rightarrow> sched \<Rightarrow> bool" for calls where
  env_call: "sd_available S = i # rest \<Longrightarrow> \<not> sd_stopping S \<Longrightarrow> calls a b \<Longrightarrow>
     env_step calls S ((set_state S i ((state_at S i)\<lparr>bs_phase := BatchReceived, bs_canceled := False, bs_program := a, bs_batch := b,
       bs_shards := []\<rparr>))\<lparr>sd_available := rest\<rparr>)"
| env_cancel: "i < length (sd_states S) \<Longrightarrow> bs_phase (state_at S i) \<noteq> BatchFree \<Longrightarrow> bs_phase (state_at S i) \<noteq> BatchDrained \<Longrightarrow>
     env_step calls S (set_state S i ((state_at S i)\<lparr>bs_canceled := True\<rparr>))"
| env_close: "env_step calls S (S\<lparr>sd_stopping := True\<rparr>)"

inductive sched_step :: "simd_backend \<Rightarrow> (nat \<Rightarrow> program) \<Rightarrow> nat \<Rightarrow> nat \<Rightarrow> sched \<Rightarrow> sched \<Rightarrow> bool" for K H workers parallelRows where
  refuse: "i < length (sd_states S) \<Longrightarrow> bs_phase (state_at S i) = BatchReceived \<Longrightarrow> bs_canceled (state_at S i) \<or> sd_stopping S \<Longrightarrow>
     sched_step K H workers parallelRows S (leave S i (Err (if bs_canceled (state_at S i) then ErrCanceled else ErrSchedulerClosed)))"
| admit: "i < length (sd_states S) \<Longrightarrow> bs_phase (state_at S i) = BatchReceived \<Longrightarrow> \<not> bs_canceled (state_at S i) \<Longrightarrow> \<not> sd_stopping S \<Longrightarrow>
     sched_step K H workers parallelRows S (set_phase S i BatchAdmitted)"
| give_up: "i < length (sd_states S) \<Longrightarrow> bs_phase (state_at S i) = BatchAdmitted \<Longrightarrow> bs_canceled (state_at S i) \<Longrightarrow>
     sched_step K H workers parallelRows S (leave S i (Err ErrCanceled))"
| first_token: "i < length (sd_states S) \<Longrightarrow> bs_phase (state_at S i) = BatchAdmitted \<Longrightarrow> sd_tokens S > 0 \<Longrightarrow>
     sched_step K H workers parallelRows S ((set_phase S i BatchToken)\<lparr>sd_tokens := sd_tokens S - 1\<rparr>)"
| give_back: "i < length (sd_states S) \<Longrightarrow> bs_phase (state_at S i) = BatchToken \<Longrightarrow> bs_canceled (state_at S i) \<Longrightarrow>
     sched_step K H workers parallelRows S ((leave S i (Err ErrCanceled))\<lparr>sd_tokens := sd_tokens S + 1\<rparr>)"
| reserve_first: "i < length (sd_states S) \<Longrightarrow> bs_phase (state_at S i) = BatchToken \<Longrightarrow> \<not> bs_canceled (state_at S i) \<Longrightarrow>
     sched_step K H workers parallelRows S (set_phase S i (BatchReserving 1))"
| reserve: "i < length (sd_states S) \<Longrightarrow> bs_phase (state_at S i) = BatchReserving n \<Longrightarrow>
     n < desiredShards parallelRows workers (b_Rows (bs_batch (state_at S i))) \<Longrightarrow> sd_tokens S > 0 \<Longrightarrow>
     sched_step K H workers parallelRows S ((set_phase S i (BatchReserving (n + 1)))\<lparr>sd_tokens := sd_tokens S - 1\<rparr>)"
| start: "i < length (sd_states S) \<Longrightarrow> bs_phase (state_at S i) = BatchReserving n \<Longrightarrow>
     n \<ge> desiredShards parallelRows workers (b_Rows (bs_batch (state_at S i))) \<or> sd_tokens S = 0 \<Longrightarrow>
     sched_step K H workers parallelRows S (start_batch workers S i n)"
| submit: "i < length (sd_states S) \<Longrightarrow> bs_phase (state_at S i) = BatchActive \<Longrightarrow> j < length (bs_shards (state_at S i)) \<Longrightarrow>
     bs_shards (state_at S i) ! j = Unsent \<Longrightarrow> (\<forall>k < j. bs_shards (state_at S i) ! k \<noteq> Unsent) \<Longrightarrow> length (sd_jobs S) < workers \<Longrightarrow>
     sched_step K H workers parallelRows S ((set_shard S i j Queued)\<lparr>sd_jobs := sd_jobs S @ [(i, j)]\<rparr>)"
| stop_submit: "i < length (sd_states S) \<Longrightarrow> bs_phase (state_at S i) = BatchActive \<Longrightarrow> j < length (bs_shards (state_at S i)) \<Longrightarrow>
     bs_shards (state_at S i) ! j = Unsent \<Longrightarrow> (\<forall>k < j. bs_shards (state_at S i) ! k \<noteq> Unsent) \<Longrightarrow> bs_canceled (state_at S i) \<Longrightarrow>
     sched_step K H workers parallelRows S (unsend S i j)"
| take_job: "sd_jobs S = (i, j) # rest \<Longrightarrow> sd_idle S > 0 \<Longrightarrow>
     sched_step K H workers parallelRows S ((set_shard S i j (Running True))\<lparr>sd_jobs := rest, sd_idle := sd_idle S - 1\<rparr>)"
| skip_shard: "i < length (sd_states S) \<Longrightarrow> bs_phase (state_at S i) = BatchActive \<Longrightarrow> j < length (bs_shards (state_at S i)) \<Longrightarrow>
     bs_shards (state_at S i) ! j = Running worker \<Longrightarrow> bs_canceled (state_at S i) \<Longrightarrow>
     sched_step K H workers parallelRows S (end_shard S i j worker (Err ErrCanceled))"
| borrow: "i < length (sd_states S) \<Longrightarrow> bs_phase (state_at S i) = BatchActive \<Longrightarrow> j < length (bs_shards (state_at S i)) \<Longrightarrow>
     bs_shards (state_at S i) ! j = Running worker \<Longrightarrow> \<not> bs_canceled (state_at S i) \<Longrightarrow>
     Borrow (sd_arena S) (ctx_of False) = Some (A, Ok l) \<Longrightarrow>
     sched_step K H workers parallelRows S ((set_shard S i j (Leased worker l))\<lparr>sd_arena := A\<rparr>)"
| run: "i < length (sd_states S) \<Longrightarrow> bs_phase (state_at S i) = BatchActive \<Longrightarrow> j < length (bs_shards (state_at S i)) \<Longrightarrow>
     bs_shards (state_at S i) ! j = Leased worker l \<Longrightarrow>
     finish_shard K H (sd_arena S) l (ctx_error (bs_canceled (state_at S i))) (bs_results (state_at S i) ! j) (bs_program (state_at S i))
       (bs_batch (state_at S i)) (bs_ranges (state_at S i) ! j) = (A, r) \<Longrightarrow> \<not> is_panic r \<Longrightarrow>
     sched_step K H workers parallelRows S ((end_shard S i j worker r)\<lparr>sd_arena := A\<rparr>)"
| finish: "i < length (sd_states S) \<Longrightarrow> bs_phase (state_at S i) = BatchActive \<Longrightarrow> (\<forall>x \<in> set (bs_shards (state_at S i)). x = Finished) \<Longrightarrow>
     sched_step K H workers parallelRows S (leave S i (batch_outcome (state_at S i) dst))"
| drain: "sd_stopping S \<Longrightarrow> sd_available S = i # rest \<Longrightarrow>
     sched_step K H workers parallelRows S ((set_phase S i BatchDrained)\<lparr>sd_available := rest\<rparr>)"

text \<open>The states that the system reaches from its construction.\<close>

inductive reachable :: "simd_backend \<Rightarrow> (nat \<Rightarrow> program) \<Rightarrow> (nat \<Rightarrow> batch \<Rightarrow> bool) \<Rightarrow> nat \<Rightarrow> nat \<Rightarrow> sched \<Rightarrow> sched \<Rightarrow> bool"
  for K H calls workers parallelRows S0 where
  initially: "reachable K H calls workers parallelRows S0 S0"
| internal: "reachable K H calls workers parallelRows S0 S \<Longrightarrow> sched_step K H workers parallelRows S S' \<Longrightarrow>
    reachable K H calls workers parallelRows S0 S'"
| external: "reachable K H calls workers parallelRows S0 S \<Longrightarrow> env_step calls S S' \<Longrightarrow> reachable K H calls workers parallelRows S0 S'"

end
