(* ===== verification/NR_SchedInv.thy ===== *)
theory NR_SchedInv
  imports NR_Scheduler
begin

text \<open>
  The invariant of the scheduler of \<open>NR_Scheduler\<close>: tokens, leases, idle workers, jobs and batch states are
  conserved, the leases of the running shards are active and distinct, and every finished shard holds the
  reference results of its rows. From it follow that the system never blocks while a call is in progress, that
  every call returns, that a shutdown completes, and that every call returns the reference result.
\<close>

section \<open>One shard\<close>

definition valid_call :: "(nat \<Rightarrow> program) \<Rightarrow> nat \<Rightarrow> batch \<Rightarrow> bool" where
  "valid_call H a b \<longleftrightarrow> program_ok (H a) \<and> physical (H a) b \<and> input_ok (H a) b \<and> sizes_fit (H a) b \<and> b_rowStride b = 0 \<and> b_rowBase b = 0"

definition arena_ready :: "(nat \<Rightarrow> program) \<Rightarrow> nat \<Rightarrow> arena \<Rightarrow> bool" where
  "arena_ready H N A \<longleftrightarrow> arena_inv A \<and> length (ar_contexts A) = N \<and>
     (\<forall>w \<in> set (ar_contexts A). executor_inv H (cx_executor w) \<and> cx_outputClaim w = 0 \<and> sl_len (cx_evidenceOffsets w) = 0)"

lemma set_context_twice [simp]: "set_context (set_context A i w) i w' = set_context A i w'"
  by (simp add: set_context_def)

lemma arena_ready_set:
  assumes "arena_ready H N A" "i < length (ar_contexts A)" "cx_arena w = cx_arena (ar_contexts A ! i)" "cx_state w = cx_state (ar_contexts A ! i)"
    "executor_inv H (cx_executor w)" "cx_outputClaim w = 0" "sl_len (cx_evidenceOffsets w) = 0"
  shows "arena_ready H N (set_context A i w)"
proof -
  have inv: "arena_inv A" using assms(1) by (simp add: arena_ready_def)
  then have "cx_arena w = ar_id A" using assms(2,3) by (simp add: arena_inv_def)
  then have "arena_inv (set_context A i w)" using arena_inv_set[OF inv assms(2) _ assms(4)] by simp
  then show ?thesis using assms set_update_subset_insert[of "ar_contexts A" i w] by (auto simp: arena_ready_def)
qed

lemma lease_active_set:
  assumes "cx_arena w = cx_arena (ar_contexts A ! i)" "cx_state w = cx_state (ar_contexts A ! i)" "cx_generation w = cx_generation (ar_contexts A ! i)"
  shows "lease_active (set_context A i w) l = lease_active A l"
  using assms by (cases "i < length (ar_contexts A)")
    (auto simp: lease_active_def lease_context_def Let_def nth_list_update split: option.split)

context simd_contract begin

lemma range_executes:
  assumes v: "valid_call H a b" and inv: "executor_inv H e" and r: "range_ok b (rg_start r) (rg_end r)"
  shows "\<exists>e'. Execute K H e dst a b = (e', Ok (result_of (H a) b)) \<and> executor_inv H e'"
    "length eo = rg_end r - rg_start r + 1 \<Longrightarrow>
     \<exists>e'. ExecuteRange K H e dst a b (rg_start r) (rg_end r) eo = (e', Ok (shard_of (row_spec (H a) b) r)) \<and> executor_inv H e'"
proof -
  note v' = v[unfolded valid_call_def]
  show "\<exists>e'. Execute K H e dst a b = (e', Ok (result_of (H a) b)) \<and> executor_inv H e'"
    using executeMode_Ok[of H a b e dst executionAuto] v' inv by (auto simp: Execute_def)
  show "\<exists>e'. ExecuteRange K H e dst a b (rg_start r) (rg_end r) eo = (e', Ok (shard_of (row_spec (H a) b) r)) \<and> executor_inv H e'"
    if "length eo = rg_end r - rg_start r + 1"
    using executeRangeMode_Ok[of H a b e "rg_start r" "rg_end r" eo dst executionAuto] v' inv r that by (auto simp: ExecuteRange_def shard_of_def)
qed

lemma run_lease_Ok:
  assumes A: "arena_ready H N A" and l: "lease_active A l = Ok c" and v: "valid_call H a b" and r: "range_ok b (rg_start r) (rg_end r)"
  shows "\<exists>A'. run_lease K H A l dst a b r = (A', Ok (shard_of (row_spec (H a) b) r)) \<and> arena_ready H N A' \<and>
    (\<forall>l'. lease_active A' l' = lease_active A l') \<and> ar_available A' = ar_available A"
proof -
  let ?rows = "rg_end r - rg_start r"
  let ?w = "ar_contexts A ! c"
  let ?w1 = "?w\<lparr>cx_evidenceOffsets := growExact 0 (cx_evidenceOffsets ?w) (?rows + 1)\<rparr>"
  have c: "c < length (ar_contexts A)" using l by (simp add: lease_active_iff)
  then have w: "executor_inv H (cx_executor ?w)" "cx_outputClaim ?w = 0" "sl_len (cx_evidenceOffsets ?w) = 0"
    using A by (simp_all add: arena_ready_def)
  have "b_Rows b \<le> MaxUint32" using v by (simp add: valid_call_def physical_def batch_u32_def)
  then have cap: "?rows \<le> MaxUint32" using r unfolding range_ok_def by linarith
  have g: "Lease_Grow A l \<lparr>cp_InputBytes = 0, cp_OutputBytes = 0, cp_Rows = ?rows\<rparr> = (set_context A c ?w1, Ok ())"
    using l w(2) cap by (simp add: Lease_Grow_def with_lease_def grow_context_def validateCapacity_def)
  have a1: "lease_active (set_context A c ?w1) l' = lease_active A l'" for l' by (rule lease_active_set) simp_all
  have n: "ar_contexts (set_context A c ?w1) ! c = ?w1" using c by simp
  have len: "?rows + 1 \<le> length (sl_array (cx_evidenceOffsets ?w1))" using w(3) by (simp add: growExact_def scratch_view_def)
  have sl: "sl_len (cx_evidenceOffsets ?w1) = 0" using w(3) by (simp add: growExact_def)
  have fin: "arena_ready H N (set_context (set_context A c ?w1) c (?w1\<lparr>cx_executor := e\<rparr>)) \<and>
      (\<forall>l'. lease_active (set_context (set_context A c ?w1) c (?w1\<lparr>cx_executor := e\<rparr>)) l' = lease_active A l')" if "executor_inv H e" for e
  proof -
    have "arena_ready H N (set_context A c (?w1\<lparr>cx_executor := e\<rparr>))"
      using arena_ready_set[OF A c] that w sl by simp
    moreover have "lease_active (set_context A c (?w1\<lparr>cx_executor := e\<rparr>)) l' = lease_active A l'" for l' by (rule lease_active_set) simp_all
    ultimately show ?thesis by simp
  qed
  show ?thesis
  proof (cases "rg_start r = 0 \<and> rg_end r = b_Rows b")
    case True
    obtain e where e: "Execute K H (cx_executor ?w) dst a b = (e, Ok (result_of (H a) b))" "executor_inv H e"
      using range_executes(1)[OF v w(1) r] by blast
    have "result_of (H a) b = shard_of (row_spec (H a) b) r" using True by (simp add: result_of_def shard_of_def)
    then show ?thesis using True g a1 l n e fin[OF e(2)] by (simp add: run_lease_def)
  next
    case False
    obtain e where e: "ExecuteRange K H (cx_executor ?w) dst a b (rg_start r) (rg_end r) (take (?rows + 1) (sl_array (cx_evidenceOffsets ?w1))) =
        (e, Ok (shard_of (row_spec (H a) b) r))" "executor_inv H e"
      using range_executes(2)[OF v w(1) r, of "take (?rows + 1) (sl_array (cx_evidenceOffsets ?w1))" dst] len by auto
    have "run_lease K H A l dst a b r = (set_context A c (?w1\<lparr>cx_executor := e\<rparr>), Ok (shard_of (row_spec (H a) b) r))"
      unfolding run_lease_def Let_def g prod.case res.case a1 l n if_not_P[OF False] using e(1) len by simp
    then show ?thesis using fin[OF e(2)] by simp
  qed
qed

end

lemma Return_ready:
  assumes A: "arena_ready H N A" and l: "lease_active A l = Ok c"
  shows "\<exists>A'. Return A l = (A', Ok ()) \<and> arena_ready H N A' \<and> (\<forall>l' c'. lease_active A l' = Ok c' \<and> l' \<noteq> l \<longrightarrow> lease_active A' l' = Ok c') \<and>
    length (ar_available A') = length (ar_available A) + 1"
proof -
  have c: "c < length (ar_contexts A)" "lease_context A l = Some c" "cx_state (ar_contexts A ! c) = contextBorrowed"
    "cx_generation (ar_contexts A ! c) = ls_generation l" using l by (auto simp: lease_active_iff lease_context_def)
  have inv: "arena_inv A" using A by (simp add: arena_ready_def)
  have w0: "cx_outputClaim (ar_contexts A ! c) = 0" "executor_inv H (cx_executor (ar_contexts A ! c))" "sl_len (cx_evidenceOffsets (ar_contexts A ! c)) = 0"
    using A c(1) by (simp_all add: arena_ready_def)
  obtain A' r where r: "Return A l = (A', r)" by (cases "Return A l") auto
  from inv r show ?thesis
  proof (cases rule: Return_cases)
    case (1 e)
    then show ?thesis using r inv l
      by (auto simp: Return_def Return_check_def Return_commit_def arena_inv_def c w0 Let_def Context_reset_def Result_Reset_def split: if_splits)
  next
    case (2 i w)
    then have i: "i = c" using l by simp
    have "lease_active A' l' = Ok c'" if "lease_active A l' = Ok c'" "l' \<noteq> l" for l' c'
    proof -
      have "c' \<noteq> c" using that l lease_active_unique by blast
      then show ?thesis using that(1) 2(10) i by (auto simp: lease_active_iff)
    qed
    then show ?thesis
      using r 2 A i w0 Return_inv[OF inv r] set_update_subset_insert[of "ar_contexts A" i w] by (auto simp: arena_ready_def)
  qed
qed

text \<open>The part of a shard after its loan: the other leases stay active, and the context is free again.\<close>

definition shard_effect :: "(nat \<Rightarrow> program) \<Rightarrow> nat \<Rightarrow> arena \<Rightarrow> lease \<Rightarrow> arena \<Rightarrow> bool" where
  "shard_effect H N A l A' \<longleftrightarrow> arena_ready H N A' \<and> (\<forall>l' c'. lease_active A l' = Ok c' \<and> l' \<noteq> l \<longrightarrow> lease_active A' l' = Ok c') \<and>
     length (ar_available A') = length (ar_available A) + 1"

context simd_contract begin

lemma finish_shard_Ok:
  assumes A: "arena_ready H N A" and l: "lease_active A l = Ok c" and v: "valid_call H a b" and r: "range_ok b (rg_start r) (rg_end r)"
  shows "\<exists>A'. finish_shard K H A l ctxErr dst a b r =
      (A', case ctxErr of Some e \<Rightarrow> Err e | None \<Rightarrow> Ok (shard_of (row_spec (H a) b) r)) \<and> shard_effect H N A l A'"
proof (cases ctxErr)
  case None
  obtain A1 where A1: "run_lease K H A l dst a b r = (A1, Ok (shard_of (row_spec (H a) b) r))" "arena_ready H N A1"
    "\<forall>l'. lease_active A1 l' = lease_active A l'" "ar_available A1 = ar_available A" using run_lease_Ok[OF A l v r] by blast
  then show ?thesis using Return_ready[OF A1(2), of l c] l None by (auto simp: finish_shard_def shard_effect_def)
next
  case (Some e)
  then show ?thesis using Return_ready[OF A l] by (auto simp: finish_shard_def shard_effect_def)
qed

end

section \<open>Invariant\<close>

definition shards_of :: "batch_state \<Rightarrow> shard_phase list" where
  "shards_of s = (if bs_phase s = BatchActive then bs_shards s else [])"

definition shard_at :: "sched \<Rightarrow> nat \<Rightarrow> nat \<Rightarrow> shard_phase option" where
  "shard_at S i j = (if i < length (sd_states S) \<and> j < length (shards_of (state_at S i)) then Some (shards_of (state_at S i) ! j) else None)"

text \<open>The tokens, leases, workers and queue entries that a shard and a call hold, and the steps that they still have to do.\<close>

fun is_leased :: "shard_phase \<Rightarrow> nat" where
  "is_leased (Leased w l) = 1"
| "is_leased x = 0"

fun is_busy :: "shard_phase \<Rightarrow> nat" where
  "is_busy (Running w) = (if w then 1 else 0)"
| "is_busy (Leased w l) = (if w then 1 else 0)"
| "is_busy x = 0"

fun is_queued :: "shard_phase \<Rightarrow> nat" where
  "is_queued Queued = 1"
| "is_queued x = 0"

fun is_open :: "shard_phase \<Rightarrow> nat" where
  "is_open Finished = 0"
| "is_open x = 1"

fun steps_left :: "shard_phase \<Rightarrow> nat" where
  "steps_left Unsent = 4"
| "steps_left Queued = 3"
| "steps_left (Running w) = 2"
| "steps_left (Leased w l) = 1"
| "steps_left Finished = 0"

definition count_shards :: "(shard_phase \<Rightarrow> nat) \<Rightarrow> batch_state \<Rightarrow> nat" where
  "count_shards g s = sum_list (map g (shards_of s))"

definition tokens_held :: "batch_state \<Rightarrow> nat" where
  "tokens_held s = (case bs_phase s of BatchToken \<Rightarrow> 1 | BatchReserving n \<Rightarrow> n | _ \<Rightarrow> count_shards is_open s)"

definition call_steps :: "nat \<Rightarrow> batch_state \<Rightarrow> nat" where
  "call_steps N s =
     (case bs_phase s of BatchDrained \<Rightarrow> 0 | BatchFree \<Rightarrow> 1 | BatchActive \<Rightarrow> 2 + count_shards steps_left s
      | BatchReserving n \<Rightarrow> 3 + 4 * N + (N - n) | BatchToken \<Rightarrow> 4 + 5 * N | BatchAdmitted \<Rightarrow> 5 + 5 * N | BatchReceived \<Rightarrow> 6 + 5 * N)"

definition sched_total :: "(batch_state \<Rightarrow> nat) \<Rightarrow> sched \<Rightarrow> nat" where
  "sched_total f S = sum_list (map f (sd_states S))"

text \<open>A call in progress is one of the calls of the clients; its finished shards hold their results.\<close>

definition shard_done :: "(nat \<Rightarrow> program) \<Rightarrow> batch_state \<Rightarrow> nat \<Rightarrow> bool" where
  "shard_done H s j \<longleftrightarrow>
     (case bs_errors s ! j of None \<Rightarrow> bs_results s ! j = shard_of (row_spec (H (bs_program s)) (bs_batch s)) (bs_ranges s ! j)
      | Some e \<Rightarrow> e = ErrCanceled \<and> bs_canceled s)"

definition state_ok :: "(nat \<Rightarrow> program) \<Rightarrow> (nat \<Rightarrow> batch \<Rightarrow> bool) \<Rightarrow> nat \<Rightarrow> nat \<Rightarrow> batch_state \<Rightarrow> bool" where
  "state_ok H calls N parallelRows s \<longleftrightarrow> length (bs_errors s) = N \<and> length (bs_results s) = N \<and>
     (bs_phase s \<noteq> BatchFree \<and> bs_phase s \<noteq> BatchDrained \<longrightarrow> calls (bs_program s) (bs_batch s)) \<and>
     (\<forall>n. bs_phase s = BatchReserving n \<longrightarrow> 1 \<le> n \<and> n \<le> desiredShards parallelRows N (b_Rows (bs_batch s))) \<and>
     (bs_phase s = BatchActive \<longrightarrow> tiles (b_Rows (bs_batch s)) 0 (bs_ranges s) \<and> bs_ranges s \<noteq> [] \<and> length (bs_ranges s) \<le> N \<and>
        length (bs_shards s) = length (bs_ranges s) \<and>
        (\<forall>j k. j \<le> k \<and> k < length (bs_shards s) \<and> bs_shards s ! j = Unsent \<longrightarrow> bs_shards s ! k = Unsent) \<and> (\<forall>j < length (bs_shards s). bs_shards s ! j = Finished \<longrightarrow> shard_done H s j))"

definition jobs_ok :: "sched \<Rightarrow> bool" where
  "jobs_ok S \<longleftrightarrow> distinct (sd_jobs S) \<and> (\<forall>(i, j) \<in> set (sd_jobs S). shard_at S i j = Some Queued)"

definition leases_ok :: "sched \<Rightarrow> bool" where
  "leases_ok S \<longleftrightarrow> (\<forall>i j w l. shard_at S i j = Some (Leased w l) \<longrightarrow> (\<exists>c. lease_active (sd_arena S) l = Ok c)) \<and>
     (\<forall>i j w l i' j' w'. shard_at S i j = Some (Leased w l) \<and> shard_at S i' j' = Some (Leased w' l) \<longrightarrow> i = i' \<and> j = j')"

definition available_ok :: "sched \<Rightarrow> bool" where
  "available_ok S \<longleftrightarrow> distinct (sd_available S) \<and>
     (\<forall>i. i \<in> set (sd_available S) \<longleftrightarrow> i < length (sd_states S) \<and> bs_phase (state_at S i) = BatchFree)"

definition counts_ok :: "nat \<Rightarrow> sched \<Rightarrow> bool" where
  "counts_ok N S \<longleftrightarrow> sd_tokens S + sched_total tokens_held S = N \<and> length (ar_available (sd_arena S)) + sched_total (count_shards is_leased) S = N \<and>
     sd_idle S + sched_total (count_shards is_busy) S = N \<and> length (sd_jobs S) = sched_total (count_shards is_queued) S"

text \<open>What a call may return: a canceled call fails with the cancellation, a call that met the shutdown is refused, and
  every other call returns the result of its batch.\<close>

definition return_ok :: "(nat \<Rightarrow> program) \<Rightarrow> bool \<Rightarrow> nat \<Rightarrow> batch \<Rightarrow> bool \<Rightarrow> result_batch res \<Rightarrow> bool" where
  "return_ok H stopping a b canceled r \<longleftrightarrow>
     (if canceled then r = Err ErrCanceled else r = Ok (result_of (H a) b) \<or> (r = Err ErrSchedulerClosed \<and> stopping))"

definition returns_ok :: "(nat \<Rightarrow> program) \<Rightarrow> sched \<Rightarrow> bool" where
  "returns_ok H S \<longleftrightarrow> (\<forall>(a, b, canceled, r) \<in> set (sd_returns S). return_ok H (sd_stopping S) a b canceled r)"

definition sched_inv :: "(nat \<Rightarrow> program) \<Rightarrow> (nat \<Rightarrow> batch \<Rightarrow> bool) \<Rightarrow> nat \<Rightarrow> nat \<Rightarrow> sched \<Rightarrow> bool" where
  "sched_inv H calls N parallelRows S \<longleftrightarrow> arena_ready H N (sd_arena S) \<and> available_ok S \<and> counts_ok N S \<and> jobs_ok S \<and> leases_ok S \<and>
     (\<forall>s \<in> set (sd_states S). state_ok H calls N parallelRows s) \<and> returns_ok H S"

section \<open>Sums\<close>

lemma sum_list_update_add: "i < length xs \<Longrightarrow> sum_list (map f (xs[i := x])) + f (xs ! i) = sum_list (map f xs) + (f x :: nat)"
proof (induction xs arbitrary: i)
  case (Cons y ys)
  then show ?case by (cases i) (simp_all add: ac_simps)
qed simp

lemma total_update: "i < length (sd_states S) \<Longrightarrow> sd_states S' = (sd_states S)[i := s] \<Longrightarrow> sched_total f S' + f (state_at S i) = sched_total f S + f s"
  unfolding sched_total_def by (simp add: sum_list_update_add)

lemma total_ge: "i < length (sd_states S) \<Longrightarrow> f (state_at S i) \<le> sched_total f S"
  unfolding sched_total_def by (metis elem_le_sum_list length_map nth_map)

lemma count_shards_update:
  "bs_phase s = BatchActive \<Longrightarrow> bs_phase s' = BatchActive \<Longrightarrow> bs_shards s' = (bs_shards s)[j := x] \<Longrightarrow> j < length (bs_shards s) \<Longrightarrow>
   count_shards g s' + g (bs_shards s ! j) = count_shards g s + g x"
  unfolding count_shards_def shards_of_def by (simp add: sum_list_update_add)

lemma count_shards_ge: "bs_phase s = BatchActive \<Longrightarrow> j < length (bs_shards s) \<Longrightarrow> g (bs_shards s ! j) \<le> count_shards g s"
  unfolding count_shards_def shards_of_def using elem_le_sum_list[of j "map g (bs_shards s)"] by simp

lemma count_shards_inactive [simp]: "bs_phase s \<noteq> BatchActive \<Longrightarrow> count_shards g s = 0"
  by (simp add: count_shards_def shards_of_def)

lemma tokens_held_active [simp]: "bs_phase s = BatchActive \<Longrightarrow> tokens_held s = count_shards is_open s"
  by (simp add: tokens_held_def)

section \<open>Preservation\<close>

lemma shard_at_update:
  assumes "i < length (sd_states S)" "sd_states S' = (sd_states S)[i := s]"
  shows "shard_at S' i' j = (if i' = i then if j < length (shards_of s) then Some (shards_of s ! j) else None else shard_at S i' j)"
  using assms by (auto simp: shard_at_def)

lemma inv_update:
  assumes inv: "sched_inv H calls N parallelRows S" and i: "i < length (sd_states S)" and s: "sd_states S' = (sd_states S)[i := s]"
    and "arena_ready H N (sd_arena S')" "available_ok S'" "jobs_ok S'" "leases_ok S'" "state_ok H calls N parallelRows s" "returns_ok H S'"
    and "sd_tokens S' + tokens_held s = sd_tokens S + tokens_held (state_at S i)"
      "length (ar_available (sd_arena S')) + count_shards is_leased s = length (ar_available (sd_arena S)) + count_shards is_leased (state_at S i)"
      "sd_idle S' + count_shards is_busy s = sd_idle S + count_shards is_busy (state_at S i)"
      "length (sd_jobs S') + count_shards is_queued (state_at S i) = length (sd_jobs S) + count_shards is_queued s"
  shows "sched_inv H calls N parallelRows S'"
proof -
  have "counts_ok N S'" using inv assms(10-13) total_update[OF i s, of tokens_held] total_update[OF i s, of "count_shards is_leased"]
      total_update[OF i s, of "count_shards is_busy"] total_update[OF i s, of "count_shards is_queued"]
    unfolding sched_inv_def counts_ok_def by linarith
  moreover have "\<forall>s \<in> set (sd_states S'). state_ok H calls N parallelRows s"
    using inv s assms(8) set_update_subset_insert[of "sd_states S" i s] by (auto simp: sched_inv_def)
  ultimately show ?thesis using assms by (simp add: sched_inv_def)
qed

text \<open>A step that neither queues nor leases a shard.\<close>

definition quiet :: "shard_phase list \<Rightarrow> shard_phase list \<Rightarrow> bool" where
  "quiet xs ys \<longleftrightarrow> (\<forall>j w l. j < length ys \<and> ys ! j = Leased w l \<longrightarrow> j < length xs \<and> xs ! j = Leased w l) \<and>
     (\<forall>j. j < length xs \<and> xs ! j = Queued \<longrightarrow> j < length ys \<and> ys ! j = Queued)"

lemma quiet_refl [simp]: "quiet xs xs"
  by (simp add: quiet_def)

lemma inv_quiet:
  assumes inv: "sched_inv H calls N parallelRows S" and i: "i < length (sd_states S)" and s: "sd_states S' = (sd_states S)[i := s]"
    and e: "sd_arena S' = sd_arena S" "sd_jobs S' = sd_jobs S" and q: "quiet (shards_of (state_at S i)) (shards_of s)"
    and "available_ok S'" "state_ok H calls N parallelRows s" "returns_ok H S'"
    and "sd_tokens S' + tokens_held s = sd_tokens S + tokens_held (state_at S i)"
      "count_shards is_leased s = count_shards is_leased (state_at S i)"
      "sd_idle S' + count_shards is_busy s = sd_idle S + count_shards is_busy (state_at S i)"
      "count_shards is_queued s = count_shards is_queued (state_at S i)"
  shows "sched_inv H calls N parallelRows S'"
proof (rule inv_update[OF inv i s _ assms(7) _ _ assms(8-10) _ assms(12)])
  show "arena_ready H N (sd_arena S')" using inv e(1) by (simp add: sched_inv_def)
  show "length (ar_available (sd_arena S')) + count_shards is_leased s = length (ar_available (sd_arena S)) + count_shards is_leased (state_at S i)"
    using assms(11) e(1) by simp
  show "length (sd_jobs S') + count_shards is_queued (state_at S i) = length (sd_jobs S) + count_shards is_queued s" using assms(13) e(2) by simp
  have "shard_at S i' j = Some (Leased w l)" if "shard_at S' i' j = Some (Leased w l)" for i' j w l
  proof (cases "i' = i")
    case True
    then have "j < length (shards_of s) \<and> shards_of s ! j = Leased w l" using that by (simp add: shard_at_update[OF i s] split: if_splits)
    then have "j < length (shards_of (state_at S i)) \<and> shards_of (state_at S i) ! j = Leased w l" using q unfolding quiet_def by blast
    then show ?thesis using True i by (simp add: shard_at_def)
  qed (use that in \<open>simp add: shard_at_update[OF i s]\<close>)
  moreover have "leases_ok S" using inv by (simp add: sched_inv_def)
  ultimately show "leases_ok S'" unfolding leases_ok_def e(1) by blast
  have "shard_at S' i' j = Some Queued" if "shard_at S i' j = Some Queued" for i' j
  proof (cases "i' = i")
    case True
    then have "j < length (shards_of (state_at S i)) \<and> shards_of (state_at S i) ! j = Queued" using that by (simp add: shard_at_def split: if_splits)
    then have "j < length (shards_of s) \<and> shards_of s ! j = Queued" using q unfolding quiet_def by blast
    then show ?thesis using True by (simp add: shard_at_update[OF i s])
  qed (use that in \<open>simp add: shard_at_update[OF i s]\<close>)
  moreover have "jobs_ok S" using inv by (simp add: sched_inv_def)
  ultimately show "jobs_ok S'" unfolding jobs_ok_def e(2) by blast
qed

lemma set_state_simps [simp]:
  "sd_states (set_state S i s) = (sd_states S)[i := s]" "sd_arena (set_state S i s) = sd_arena S" "sd_available (set_state S i s) = sd_available S"
  "sd_tokens (set_state S i s) = sd_tokens S" "sd_jobs (set_state S i s) = sd_jobs S" "sd_idle (set_state S i s) = sd_idle S"
  "sd_stopping (set_state S i s) = sd_stopping S" "sd_returns (set_state S i s) = sd_returns S" "sd_serial (set_state S i s) = sd_serial S"
  "sd_parallel (set_state S i s) = sd_parallel S"
  by (simp_all add: set_state_def)

lemma available_keep:
  assumes "available_ok S" "i < length (sd_states S)" "sd_states S' = (sd_states S)[i := s]" "sd_available S' = sd_available S"
    "bs_phase s = BatchFree \<longleftrightarrow> bs_phase (state_at S i) = BatchFree"
  shows "available_ok S'"
  using assms by (auto simp: available_ok_def nth_list_update)

lemma available_push:
  assumes "available_ok S" "i < length (sd_states S)" "sd_states S' = (sd_states S)[i := s]" "sd_available S' = sd_available S @ [i]"
    "bs_phase s = BatchFree" "bs_phase (state_at S i) \<noteq> BatchFree"
  shows "available_ok S'"
  using assms by (auto simp: available_ok_def nth_list_update)

lemma available_pop:
  assumes a: "available_ok S" "sd_available S = i # rest" "sd_states S' = (sd_states S)[i := s]" "sd_available S' = rest" "bs_phase s \<noteq> BatchFree"
  shows "available_ok S' \<and> i < length (sd_states S) \<and> bs_phase (state_at S i) = BatchFree"
proof -
  have i: "i < length (sd_states S) \<and> bs_phase (state_at S i) = BatchFree" using a(1,2) unfolding available_ok_def by (metis list.set_intros(1))
  have "set (i # rest) = {k. k < length (sd_states S) \<and> bs_phase (state_at S k) = BatchFree}" "distinct (i # rest)"
    using a(1,2) by (auto simp: available_ok_def)
  then have "distinct rest" "set rest = {k. k < length (sd_states S) \<and> bs_phase (state_at S k) = BatchFree} - {i}" by auto
  then show ?thesis using i a by (auto simp: available_ok_def nth_list_update)
qed

text \<open>A call that returns before its shards run, or after they are all finished.\<close>

lemma leave_inv:
  assumes inv: "sched_inv H calls N parallelRows S" and i: "i < length (sd_states S)"
    and ph: "bs_phase (state_at S i) \<noteq> BatchFree" "bs_phase (state_at S i) \<noteq> BatchDrained" and f: "\<forall>x \<in> set (shards_of (state_at S i)). x = Finished"
    and r: "return_ok H (sd_stopping S) (bs_program (state_at S i)) (bs_batch (state_at S i)) (bs_canceled (state_at S i)) r"
    and S': "S' = (leave S i r)\<lparr>sd_tokens := sd_tokens S + tokens_held (state_at S i)\<rparr>"
  shows "sched_inv H calls N parallelRows S'"
proof -
  let ?s = "(state_at S i)\<lparr>bs_phase := BatchFree\<rparr>"
  have st: "sd_states S' = (sd_states S)[i := ?s]" by (simp add: S' leave_def set_phase_def)
  have sh: "shards_of ?s = []" by (simp add: shards_of_def)
  have z: "count_shards g (state_at S i) = 0" if "g Finished = 0" for g
    using f that by (auto simp: count_shards_def sum_list_eq_0_iff)
  have "state_ok H calls N parallelRows (state_at S i)" using inv i by (simp add: sched_inv_def)
  then have ok: "state_ok H calls N parallelRows ?s" by (simp add: state_ok_def)
  show ?thesis
  proof (rule inv_quiet[OF inv i st _ _ _ _ ok])
    show "quiet (shards_of (state_at S i)) (shards_of ?s)" using f unfolding sh quiet_def by (metis less_nat_zero_code list.size(3) nth_mem shard_phase.distinct(13))
    show "available_ok S'" using available_push[OF _ i st] inv ph by (simp add: sched_inv_def S' leave_def set_phase_def)
    show "returns_ok H S'" using inv r by (auto simp: sched_inv_def returns_ok_def S' leave_def set_phase_def)
    show "sd_tokens S' + tokens_held ?s = sd_tokens S + tokens_held (state_at S i)" by (simp add: S' tokens_held_def)
  qed (use z in \<open>simp_all add: S' leave_def set_phase_def\<close>)
qed

lemma leave_inv0:
  assumes inv: "sched_inv H calls N parallelRows S" and i: "i < length (sd_states S)"
    and ph: "bs_phase (state_at S i) \<noteq> BatchFree" "bs_phase (state_at S i) \<noteq> BatchDrained" and f: "\<forall>x \<in> set (shards_of (state_at S i)). x = Finished"
    and r: "return_ok H (sd_stopping S) (bs_program (state_at S i)) (bs_batch (state_at S i)) (bs_canceled (state_at S i)) r"
    and t: "tokens_held (state_at S i) = 0"
  shows "sched_inv H calls N parallelRows (leave S i r)"
proof -
  have "leave S i r = (leave S i r)\<lparr>sd_tokens := sd_tokens S + tokens_held (state_at S i)\<rparr>"
    by (simp add: leave_def set_phase_def set_state_def t)
  from leave_inv[OF inv i ph f r this] show ?thesis .
qed

lemma state_okD: "sched_inv H calls N parallelRows S \<Longrightarrow> i < length (sd_states S) \<Longrightarrow> state_ok H calls N parallelRows (state_at S i)"
  by (simp add: sched_inv_def)

lemma availableD: "sched_inv H calls N parallelRows S \<Longrightarrow> available_ok S"
  by (simp add: sched_inv_def)

text \<open>A step of a call before its shards run.\<close>

lemma phase_inv:
  assumes inv: "sched_inv H calls N parallelRows S" and i: "i < length (sd_states S)"
    and ph: "bs_phase (state_at S i) \<in> {BatchReceived, BatchAdmitted, BatchToken} \<or> (\<exists>n. bs_phase (state_at S i) = BatchReserving n)"
    and ph': "ph \<in> {BatchAdmitted, BatchToken} \<or>
      (\<exists>n. ph = BatchReserving n \<and> 1 \<le> n \<and> n \<le> desiredShards parallelRows N (b_Rows (bs_batch (state_at S i))))"
    and S': "S' = (set_phase S i ph)\<lparr>sd_tokens := t\<rparr>" and t: "t + tokens_held ((state_at S i)\<lparr>bs_phase := ph\<rparr>) = sd_tokens S + tokens_held (state_at S i)"
  shows "sched_inv H calls N parallelRows S'"
proof -
  let ?s = "(state_at S i)\<lparr>bs_phase := ph\<rparr>"
  have st: "sd_states S' = (sd_states S)[i := ?s]" by (simp add: S' set_phase_def)
  have na: "bs_phase (state_at S i) \<noteq> BatchActive" "bs_phase ?s \<noteq> BatchActive" "bs_phase (state_at S i) \<noteq> BatchFree" "bs_phase ?s \<noteq> BatchFree"
    using ph ph' by auto
  have ok: "state_ok H calls N parallelRows ?s" using state_okD[OF inv i] ph ph' by (auto simp: state_ok_def)
  show ?thesis
  proof (rule inv_quiet[OF inv i st _ _ _ _ ok])
    show "available_ok S'" using available_keep[OF availableD[OF inv] i st] na by (simp add: S' set_phase_def)
    show "returns_ok H S'" using inv by (simp add: sched_inv_def returns_ok_def S' set_phase_def)
    show "sd_tokens S' + tokens_held ?s = sd_tokens S + tokens_held (state_at S i)" using t by (simp add: S')
  qed (use na in \<open>simp_all add: S' set_phase_def shards_of_def\<close>)
qed

lemma drain_inv:
  assumes inv: "sched_inv H calls N parallelRows S" and a: "sd_available S = i # rest"
  shows "sched_inv H calls N parallelRows ((set_phase S i BatchDrained)\<lparr>sd_available := rest\<rparr>)"
proof -
  let ?s = "(state_at S i)\<lparr>bs_phase := BatchDrained\<rparr>" and ?S = "(set_phase S i BatchDrained)\<lparr>sd_available := rest\<rparr>"
  have st: "sd_states ?S = (sd_states S)[i := ?s]" by (simp add: set_phase_def)
  note pop = available_pop[OF availableD[OF inv] a st]
  have i: "i < length (sd_states S)" "bs_phase (state_at S i) = BatchFree" "available_ok ?S" using pop by simp_all
  have ok: "state_ok H calls N parallelRows ?s" using state_okD[OF inv i(1)] by (simp add: state_ok_def)
  show ?thesis
    by (rule inv_quiet[OF inv i(1) st _ _ _ i(3) ok])
      (use inv i(2) in \<open>simp_all add: set_phase_def shards_of_def sched_inv_def returns_ok_def tokens_held_def\<close>)
qed

lemma env_inv:
  assumes inv: "sched_inv H calls N parallelRows S" and e: "env_step calls S S'"
  shows "sched_inv H calls N parallelRows S'"
  using e
proof cases
  case (env_call i rest a b)
  let ?s = "(state_at S i)\<lparr>bs_phase := BatchReceived, bs_canceled := False, bs_program := a, bs_batch := b, bs_shards := []\<rparr>"
  have st: "sd_states S' = (sd_states S)[i := ?s]" by (simp add: env_call)
  note pop = available_pop[OF availableD[OF inv] env_call(2) st]
  have i: "i < length (sd_states S)" "bs_phase (state_at S i) = BatchFree" "available_ok S'" using pop by (simp_all add: env_call)
  have ok: "state_ok H calls N parallelRows ?s" using state_okD[OF inv i(1)] env_call(4) by (simp add: state_ok_def)
  show ?thesis
    by (rule inv_quiet[OF inv i(1) st _ _ _ i(3) ok])
      (use inv i(2) in \<open>simp_all add: env_call(1) shards_of_def sched_inv_def returns_ok_def tokens_held_def\<close>)
next
  case (env_cancel i)
  let ?s = "(state_at S i)\<lparr>bs_canceled := True\<rparr>"
  have st: "sd_states S' = (sd_states S)[i := ?s]" by (simp add: env_cancel)
  have ok: "state_ok H calls N parallelRows ?s" using state_okD[OF inv env_cancel(2)] by (auto simp: state_ok_def shard_done_def split: option.splits)
  have sh: "shards_of ?s = shards_of (state_at S i)" by (simp add: shards_of_def)
  have c: "count_shards g ?s = count_shards g (state_at S i)" for g by (simp add: count_shards_def sh)
  show ?thesis
  proof (rule inv_quiet[OF inv env_cancel(2) st _ _ _ _ ok])
    show "available_ok S'" using available_keep[OF availableD[OF inv] env_cancel(2) st] by (simp add: env_cancel)
    show "sd_tokens S' + tokens_held ?s = sd_tokens S + tokens_held (state_at S i)"
      by (simp add: env_cancel tokens_held_def c split: batch_phase.split)
  qed (use inv in \<open>simp_all add: env_cancel(1) sh c sched_inv_def returns_ok_def\<close>)
next
  case env_close
  then have "shard_at S' = shard_at S" by (intro ext) (simp add: shard_at_def)
  moreover have "returns_ok H S'" using inv env_close by (auto simp: sched_inv_def returns_ok_def return_ok_def split: if_splits)
  ultimately show ?thesis
    using inv env_close by (simp add: sched_inv_def available_ok_def counts_ok_def sched_total_def jobs_ok_def leases_ok_def)
qed

lemma desiredShards_bounds:
  assumes "0 < N"
  shows "1 \<le> desiredShards parallelRows N rows" "desiredShards parallelRows N rows \<le> N"
    "desiredShards parallelRows N rows = 1 \<or> desiredShards parallelRows N rows \<le> (rows + 63) div 64"
  using assms by (auto simp: desiredShards_def Let_def)

lemma start_inv:
  assumes inv: "sched_inv H calls N parallelRows S" and i: "i < length (sd_states S)" and ph: "bs_phase (state_at S i) = BatchReserving n"
    and N: "0 < N" and rows: "b_Rows (bs_batch (state_at S i)) \<le> MaxUint32"
  shows "sched_inv H calls N parallelRows (start_batch N S i n)"
proof -
  let ?b = "bs_batch (state_at S i)" and ?S = "start_batch N S i n"
  define ranges where "ranges = partitionRows N (b_Rows ?b) (int n)"
  have n: "1 \<le> n" "n \<le> desiredShards parallelRows N (b_Rows ?b)" using state_okD[OF inv i] ph by (simp_all add: state_ok_def)
  have len: "length ranges = n" unfolding ranges_def
    by (rule length_partitionRows) (use n desiredShards_bounds[OF N, of parallelRows "b_Rows ?b"] in linarith)+
  have t: "tiles (b_Rows ?b) 0 ranges \<and> ranges \<noteq> [] \<and> length ranges \<le> N" using partitionRows_tiles[OF rows] N by (simp add: ranges_def)
  define sh where "sh = (if n = 1 then [Running False] else replicate n Unsent)"
  define s where "s = (state_at S i)\<lparr>bs_phase := BatchActive, bs_ranges := ranges,
    bs_errors := map (\<lambda>k. if k < n then None else bs_errors (state_at S i) ! k) [0..<length (bs_errors (state_at S i))], bs_shards := sh\<rparr>"
  have S: "sd_states ?S = (sd_states S)[i := s]" "sd_arena ?S = sd_arena S" "sd_jobs ?S = sd_jobs S" "sd_tokens ?S = sd_tokens S" "sd_idle ?S = sd_idle S"
    "sd_available ?S = sd_available S" "sd_returns ?S = sd_returns S" "sd_stopping ?S = sd_stopping S"
    unfolding start_batch_def s_def sh_def Let_def ranges_def[symmetric] len by (simp_all split: if_split)
  have shl: "length sh = n" using n(1) by (simp add: sh_def)
  have x: "x \<in> {Running False, Unsent}" if "x \<in> set sh" for x using that by (auto simp: sh_def split: if_splits)
  then have nth: "sh ! j \<in> {Running False, Unsent}" if "j < n" for j using that shl by (metis nth_mem)
  have "sh ! k = Unsent" if "j \<le> k" "k < n" "sh ! j = Unsent" for j k using that by (auto simp: sh_def split: if_splits)
  then have ok: "state_ok H calls N parallelRows s"
    using state_okD[OF inv i] ph t len shl nth unfolding state_ok_def s_def by fastforce
  have z: "count_shards g s = 0" if "g (Running False) = 0" "g Unsent = 0" for g
    using x that by (auto simp: count_shards_def shards_of_def s_def sum_list_eq_0_iff)
  have "count_shards is_open s = n" using n(1) by (auto simp: count_shards_def shards_of_def s_def sh_def sum_list_replicate)
  then have held: "tokens_held s = n" by (simp add: tokens_held_def s_def)
  show ?thesis
  proof (rule inv_quiet[OF inv i S(1-3) _ _ ok])
    show "quiet (shards_of (state_at S i)) (shards_of s)" using ph nth shl by (fastforce simp: quiet_def shards_of_def s_def)
    show "available_ok ?S" by (rule available_keep[OF availableD[OF inv] i S(1,6)]) (simp add: ph s_def)
    show "returns_ok H ?S" using inv S(7,8) by (simp add: sched_inv_def returns_ok_def)
    show "sd_tokens ?S + tokens_held s = sd_tokens S + tokens_held (state_at S i)" by (simp add: held S(4)) (simp add: tokens_held_def ph)
  qed (use z ph S(5) in simp_all)
qed

text \<open>A step of one shard.\<close>

lemma shard_at_shard:
  assumes "i < length (sd_states S)" "bs_phase (state_at S i) = BatchActive" "j < length (bs_shards (state_at S i))"
    "sd_states S' = (sd_states S)[i := s]" "bs_phase s = BatchActive" "bs_shards s = (bs_shards (state_at S i))[j := x]"
  shows "shard_at S' i' j' = (if i' = i \<and> j' = j then Some x else shard_at S i' j')"
  using assms by (auto simp: shard_at_def shards_of_def nth_list_update)

lemma shard_at_set_shard:
  assumes "i < length (sd_states S)" "bs_phase (state_at S i) = BatchActive" "j < length (bs_shards (state_at S i))"
    "sd_states S' = sd_states (set_shard S i j x)"
  shows "shard_at S' i' j' = (if i' = i \<and> j' = j then Some x else shard_at S i' j')"
  by (rule shard_at_shard[OF assms(1-3), of _ "(state_at S i)\<lparr>bs_shards := (bs_shards (state_at S i))[j := x]\<rparr>"])
    (use assms in \<open>simp_all add: set_shard_def\<close>)

lemma shard_done_shards [simp]: "shard_done H (s\<lparr>bs_shards := xs\<rparr>) j = shard_done H s j"
  by (simp add: shard_done_def split: option.split)

lemma leases_keep:
  assumes "leases_ok S" "sd_arena S' = sd_arena S" "\<And>i j w l. shard_at S' i j = Some (Leased w l) \<Longrightarrow> shard_at S i j = Some (Leased w l)"
  shows "leases_ok S'"
  using assms(1,3) unfolding leases_ok_def assms(2) by blast

lemma state_ok_shard:
  assumes ok: "state_ok H calls N parallelRows s" and ph: "bs_phase s = BatchActive" and j: "j < length (bs_shards s)"
    and u: "bs_shards s ! j = Unsent \<Longrightarrow> \<forall>k < j. bs_shards s ! k \<noteq> Unsent" and x: "x \<noteq> Unsent" "x \<noteq> Finished"
  shows "state_ok H calls N parallelRows (s\<lparr>bs_shards := (bs_shards s)[j := x]\<rparr>)"
proof -
  let ?s = "s\<lparr>bs_shards := (bs_shards s)[j := x]\<rparr>"
  have "bs_shards ?s ! k = Unsent" if "a \<le> k" "k < length (bs_shards ?s)" "bs_shards ?s ! a = Unsent" for a k
  proof -
    have "a \<noteq> j" "bs_shards s ! a = Unsent" using that x j by (auto simp: nth_list_update split: if_splits)
    moreover have "k \<noteq> j"
    proof
      assume "k = j"
      then have "a < j" using that(1) \<open>a \<noteq> j\<close> by simp
      moreover have "bs_shards s ! j = Unsent" using ok ph that \<open>k = j\<close> \<open>bs_shards s ! a = Unsent\<close> j by (auto simp: state_ok_def)
      ultimately show False using u \<open>bs_shards s ! a = Unsent\<close> by blast
    qed
    ultimately show ?thesis using ok ph that by (auto simp: state_ok_def)
  qed
  moreover have "shard_done H ?s k" if "k < length (bs_shards ?s)" "bs_shards ?s ! k = Finished" for k
    using ok ph that x j by (cases "k = j") (auto simp: state_ok_def)
  ultimately show ?thesis using ok ph unfolding state_ok_def by auto
qed

lemma set_shard_inv:
  assumes inv: "sched_inv H calls N parallelRows S" and i: "i < length (sd_states S)" "bs_phase (state_at S i) = BatchActive"
      "j < length (bs_shards (state_at S i))"
    and u: "bs_shards (state_at S i) ! j = Unsent \<Longrightarrow> \<forall>k < j. bs_shards (state_at S i) ! k \<noteq> Unsent" and x: "x \<noteq> Unsent" "x \<noteq> Finished"
    and S': "sd_states S' = sd_states (set_shard S i j x)" "sd_tokens S' = sd_tokens S" "sd_available S' = sd_available S" "sd_returns S' = sd_returns S" "sd_stopping S' = sd_stopping S"
    and y: "is_open (bs_shards (state_at S i) ! j) = 1"
    and A: "arena_ready H N (sd_arena S')" "jobs_ok S'" "leases_ok S'"
      "length (ar_available (sd_arena S')) + is_leased x = length (ar_available (sd_arena S)) + is_leased (bs_shards (state_at S i) ! j)"
      "sd_idle S' + is_busy x = sd_idle S + is_busy (bs_shards (state_at S i) ! j)"
      "length (sd_jobs S') + is_queued (bs_shards (state_at S i) ! j) = length (sd_jobs S) + is_queued x"
  shows "sched_inv H calls N parallelRows S'"
proof -
  let ?s = "(state_at S i)\<lparr>bs_shards := (bs_shards (state_at S i))[j := x]\<rparr>"
  have st: "sd_states S' = (sd_states S)[i := ?s]" using S'(1) by (simp add: set_shard_def)
  have ok: "state_ok H calls N parallelRows ?s" by (rule state_ok_shard[OF state_okD[OF inv i(1)] i(2,3) u x])
  have c: "count_shards g ?s + g (bs_shards (state_at S i) ! j) = count_shards g (state_at S i) + g x" for g
    by (rule count_shards_update) (use i in simp_all)
  have "is_open x = 1" using x by (cases x) auto
  show ?thesis
  proof (rule inv_update[OF inv i(1) st A(1) _ A(2,3) ok])
    show "available_ok S'" using available_keep[OF availableD[OF inv] i(1) st S'(3)] by simp
    show "returns_ok H S'" using inv S'(4,5) by (simp add: sched_inv_def returns_ok_def)
    show "sd_tokens S' + tokens_held ?s = sd_tokens S + tokens_held (state_at S i)"
      using c[of is_open] S'(2) i(2) y \<open>is_open x = 1\<close> by simp
  qed (use A(4-6) c[of is_leased] c[of is_busy] c[of is_queued] in linarith)+
qed

lemma submit_inv:
  assumes inv: "sched_inv H calls N parallelRows S" and i: "i < length (sd_states S)" "bs_phase (state_at S i) = BatchActive"
      "j < length (bs_shards (state_at S i))" "bs_shards (state_at S i) ! j = Unsent" "\<forall>k < j. bs_shards (state_at S i) ! k \<noteq> Unsent"
  shows "sched_inv H calls N parallelRows ((set_shard S i j Queued)\<lparr>sd_jobs := sd_jobs S @ [(i, j)]\<rparr>)"
    (is "sched_inv H calls N parallelRows ?S")
proof -
  have at: "shard_at ?S i' j' = (if i' = i \<and> j' = j then Some Queued else shard_at S i' j')" for i' j'
    by (rule shard_at_set_shard[OF i(1-3)]) simp
  have "shard_at S i j = Some Unsent" using i by (simp add: shard_at_def shards_of_def)
  then have "(i, j) \<notin> set (sd_jobs S)" using inv by (auto simp: sched_inv_def jobs_ok_def)
  then have jobs: "jobs_ok ?S" using inv unfolding sched_inv_def jobs_ok_def at by auto
  have leases: "leases_ok ?S" by (rule leases_keep[of S]) (use inv at in \<open>auto simp: sched_inv_def set_shard_def split: if_splits\<close>)
  show ?thesis
    by (rule set_shard_inv[OF inv i(1-3), where x = Queued]) (use inv i jobs leases in \<open>simp_all add: set_shard_def sched_inv_def\<close>)
qed

lemma take_job_inv:
  assumes inv: "sched_inv H calls N parallelRows S" and q: "sd_jobs S = (i, j) # rest" and idle: "sd_idle S > 0"
  shows "sched_inv H calls N parallelRows ((set_shard S i j (Running True))\<lparr>sd_jobs := rest, sd_idle := sd_idle S - 1\<rparr>)"
    (is "sched_inv H calls N parallelRows ?S")
proof -
  have "shard_at S i j = Some Queued" using inv q by (simp add: sched_inv_def jobs_ok_def)
  then have i: "i < length (sd_states S)" "bs_phase (state_at S i) = BatchActive" "j < length (bs_shards (state_at S i))"
      "bs_shards (state_at S i) ! j = Queued" by (auto simp: shard_at_def shards_of_def split: if_splits)
  have at: "shard_at ?S i' j' = (if i' = i \<and> j' = j then Some (Running True) else shard_at S i' j')" for i' j'
    by (rule shard_at_set_shard[OF i(1-3)]) simp
  have jobs: "jobs_ok ?S" using inv q unfolding sched_inv_def jobs_ok_def at by auto
  have leases: "leases_ok ?S" by (rule leases_keep[of S]) (use inv at in \<open>auto simp: sched_inv_def set_shard_def split: if_splits\<close>)
  show ?thesis
    by (rule set_shard_inv[OF inv i(1-3), where x = "Running True"]) (use inv i idle q jobs leases in \<open>simp_all add: set_shard_def sched_inv_def\<close>)
qed

lemma Borrow_ready:
  assumes A: "arena_ready H N A" and b: "Borrow A c = Some (A', Ok l)"
  shows "arena_ready H N A' \<and> length (ar_available A) = Suc (length (ar_available A'))"
proof -
  have inv: "arena_inv A" using A by (simp add: arena_ready_def)
  from inv b show ?thesis
  proof (cases rule: Borrow_cases)
    case (2 i rest)
    let ?w = "(retireFailedClaim (ar_contexts A ! i))\<lparr>cx_generation := next_generation (cx_generation (ar_contexts A ! i)), cx_state := contextBorrowed\<rparr>"
    have "ar_contexts A ! i \<in> set (ar_contexts A)" using 2(2) by simp
    then have "executor_inv H (cx_executor ?w) \<and> cx_outputClaim ?w = 0 \<and> sl_len (cx_evidenceOffsets ?w) = 0"
      using A by (auto simp: arena_ready_def retireFailedClaim_def)
    then show ?thesis using A 2 Borrow_inv[OF inv b] set_update_subset_insert[of "ar_contexts A" i ?w] by (auto simp: arena_ready_def)
  qed simp
qed

lemma borrow_inv:
  assumes inv: "sched_inv H calls N parallelRows S" and i: "i < length (sd_states S)" "bs_phase (state_at S i) = BatchActive"
      "j < length (bs_shards (state_at S i))" "bs_shards (state_at S i) ! j = Running w" and b: "Borrow (sd_arena S) c = Some (A, Ok l)"
  shows "sched_inv H calls N parallelRows ((set_shard S i j (Leased w l))\<lparr>sd_arena := A\<rparr>)"
    (is "sched_inv H calls N parallelRows ?S")
proof -
  have A: "arena_ready H N (sd_arena S)" "jobs_ok S" "leases_ok S" using inv by (simp_all add: sched_inv_def)
  then have ai: "arena_inv (sd_arena S)" by (simp add: arena_ready_def)
  obtain ctx where ctx: "lease_active A l = Ok ctx" "\<forall>l'. lease_active (sd_arena S) l' \<noteq> Ok ctx"
    "\<forall>l' k. lease_active (sd_arena S) l' = Ok k \<longrightarrow> lease_active A l' = Ok k" using Borrow_exclusive[OF ai b] by blast
  have at: "shard_at ?S i' j' = (if i' = i \<and> j' = j then Some (Leased w l) else shard_at S i' j')" for i' j'
    by (rule shard_at_set_shard[OF i(1-3)]) simp
  have "shard_at S i j = Some (Running w)" using i by (simp add: shard_at_def shards_of_def)
  then have jobs: "jobs_ok ?S" using A(2) unfolding jobs_ok_def at by (auto simp: set_shard_def)
  have old: "\<exists>k. lease_active (sd_arena S) l' = Ok k \<and> l' \<noteq> l" if "shard_at S i' j' = Some (Leased w' l')" for i' j' w' l'
    using A(3) that ctx unfolding leases_ok_def by (metis res.inject(1))
  have leases: "leases_ok ?S" using old A(3) ctx unfolding leases_ok_def at
    by (simp split: if_splits) metis
  show ?thesis
    by (rule set_shard_inv[OF inv i(1-3), where x = "Leased w l"]) (use inv i Borrow_ready[OF A(1) b] jobs leases in \<open>simp_all add: set_shard_def\<close>)
qed

text \<open>The end of a shard.\<close>

lemma end_shard_inv:
  assumes inv: "sched_inv H calls N parallelRows S" and i: "i < length (sd_states S)" "bs_phase (state_at S i) = BatchActive"
      "j < length (bs_shards (state_at S i))" and x: "bs_shards (state_at S i) ! j = Running w \<or> bs_shards (state_at S i) ! j = Leased w l"
    and r: "(r = Err ErrCanceled \<and> bs_canceled (state_at S i)) \<or>
      r = Ok (shard_of (row_spec (H (bs_program (state_at S i))) (bs_batch (state_at S i))) (bs_ranges (state_at S i) ! j))"
    and S': "S' = (end_shard S i j w r)\<lparr>sd_arena := A\<rparr>" and A: "arena_ready H N A" "leases_ok S'"
      "length (ar_available A) = length (ar_available (sd_arena S)) + is_leased (bs_shards (state_at S i) ! j)"
  shows "sched_inv H calls N parallelRows S'"
proof -
  let ?s0 = "state_at S i"
  define s where "s = ?s0\<lparr>bs_shards := (bs_shards ?s0)[j := Finished], bs_errors := (bs_errors ?s0)[j := (case r of Err e \<Rightarrow> Some e | _ \<Rightarrow> None)],
    bs_results := (case r of Ok x \<Rightarrow> (bs_results ?s0)[j := x] | _ \<Rightarrow> bs_results ?s0)\<rparr>"
  have s: "bs_phase s = BatchActive" "bs_shards s = (bs_shards ?s0)[j := Finished]" "bs_ranges s = bs_ranges ?s0" "bs_program s = bs_program ?s0"
    "bs_batch s = bs_batch ?s0" "bs_canceled s = bs_canceled ?s0" by (simp_all add: s_def i)
  have S: "sd_states S' = (sd_states S)[i := s]" "sd_tokens S' = sd_tokens S + 1" "sd_idle S' = (if w then sd_idle S + 1 else sd_idle S)"
    "sd_jobs S' = sd_jobs S" "sd_available S' = sd_available S" "sd_returns S' = sd_returns S" "sd_arena S' = A" "sd_stopping S' = sd_stopping S"
    by (simp_all add: S' end_shard_def s_def Let_def)
  have ok0: "state_ok H calls N parallelRows ?s0" by (rule state_okD[OF inv i(1)])
  then have l: "length (bs_errors ?s0) = N" "length (bs_results ?s0) = N" "length (bs_shards ?s0) \<le> N" using i(2) by (simp_all add: state_ok_def)
  have sd: "shard_done H s j" using r l i(3) s by (auto simp: shard_done_def s_def)
  have sk: "shard_done H s k = shard_done H ?s0 k" if "k \<noteq> j" for k
    using that r s(3-6) by (auto simp: shard_done_def s_def split: option.split)
  have un: "bs_shards s ! k = Unsent" if "a \<le> k" "k < length (bs_shards s)" "bs_shards s ! a = Unsent" for a k
  proof -
    have "a \<noteq> j" "bs_shards ?s0 ! a = Unsent" using that s(2) i(3) by (auto simp: nth_list_update split: if_splits)
    then have "bs_shards ?s0 ! k = Unsent" using ok0 i(2) that s(2) by (auto simp: state_ok_def)
    then show ?thesis using x s(2) by (cases "k = j") auto
  qed
  have fin: "shard_done H s k" if "k < length (bs_shards s)" "bs_shards s ! k = Finished" for k
    using that sd sk ok0 i(2) s(2) by (cases "k = j") (auto simp: state_ok_def)
  have "length (bs_errors s) = N" "length (bs_results s) = N" using l r by (auto simp: s_def)
  then have ok: "state_ok H calls N parallelRows s" using ok0 i(2) s un fin unfolding state_ok_def by auto
  have c: "count_shards g s + g (bs_shards ?s0 ! j) = count_shards g ?s0 + g Finished" for g by (rule count_shards_update[OF i(2) s(1,2) i(3)])
  have at: "shard_at S' i' j' = (if i' = i \<and> j' = j then Some Finished else shard_at S i' j')" for i' j'
    by (rule shard_at_shard[OF i(1-3) S(1) s(1,2)])
  have at0: "shard_at S i j \<noteq> Some Queued" using i x by (auto simp: shard_at_def shards_of_def)
  show ?thesis
  proof (rule inv_update[OF inv i(1) S(1) _ _ _ A(2) ok])
    show "arena_ready H N (sd_arena S')" using A(1) S(7) by simp
    show "available_ok S'" using available_keep[OF availableD[OF inv] i(1) S(1,5)] s(1) i(2) by simp
    have "jobs_ok S" using inv by (simp add: sched_inv_def)
    then show "jobs_ok S'" unfolding jobs_ok_def S(4) at using at0 by (auto split: if_splits)
    show "returns_ok H S'" using inv S(6,8) by (simp add: sched_inv_def returns_ok_def)
  qed (use c[of is_open] c[of is_leased] c[of is_busy] c[of is_queued] x s(1) i(2) S A(3) in \<open>auto split: if_splits\<close>)
qed

lemma end_shard_at:
  assumes i: "i < length (sd_states S)" "bs_phase (state_at S i) = BatchActive" "j < length (bs_shards (state_at S i))"
    and S': "sd_states S' = sd_states (end_shard S i j w r)"
  shows "shard_at S' i' j' = (if i' = i \<and> j' = j then Some Finished else shard_at S i' j')"
proof -
  let ?s = "state_at S i"
  show ?thesis
    by (rule shard_at_shard[OF i, of _ "?s\<lparr>bs_shards := (bs_shards ?s)[j := Finished],
        bs_errors := (bs_errors ?s)[j := (case r of Err e \<Rightarrow> Some e | _ \<Rightarrow> None)],
        bs_results := (case r of Ok x \<Rightarrow> (bs_results ?s)[j := x] | _ \<Rightarrow> bs_results ?s)\<rparr>"]) (simp_all add: S' end_shard_def Let_def i(2))
qed

lemma skip_inv:
  assumes inv: "sched_inv H calls N parallelRows S" and i: "i < length (sd_states S)" "bs_phase (state_at S i) = BatchActive"
      "j < length (bs_shards (state_at S i))" "bs_shards (state_at S i) ! j = Running w" "bs_canceled (state_at S i)"
  shows "sched_inv H calls N parallelRows (end_shard S i j w (Err ErrCanceled))"
proof -
  let ?S = "end_shard S i j w (Err ErrCanceled)"
  have a: "?S = ?S\<lparr>sd_arena := sd_arena S\<rparr>" by (simp add: end_shard_def set_state_def Let_def)
  have leases: "leases_ok ?S" by (rule leases_keep[of S])
    (use inv end_shard_at[OF i(1-3), of ?S w "Err ErrCanceled"] in \<open>auto simp: sched_inv_def end_shard_def Let_def split: if_splits\<close>)
  show ?thesis by (rule end_shard_inv[OF inv i(1-3) _ _ a _ leases]) (use inv i in \<open>auto simp: sched_inv_def\<close>)
qed

lemma unsend_inv:
  assumes inv: "sched_inv H calls N parallelRows S" and i: "i < length (sd_states S)" "bs_phase (state_at S i) = BatchActive"
      "j < length (bs_shards (state_at S i))" "bs_shards (state_at S i) ! j = Unsent" "bs_canceled (state_at S i)"
      "\<forall>k < j. bs_shards (state_at S i) ! k \<noteq> Unsent"
  shows "sched_inv H calls N parallelRows (unsend S i j)"
proof -
  let ?s0 = "state_at S i" and ?S = "unsend S i j"
  define n where "n = length (bs_shards ?s0)"
  define s where "s = ?s0\<lparr>bs_shards := take j (bs_shards ?s0) @ replicate (n - j) Finished,
    bs_errors := map (\<lambda>k. if j \<le> k \<and> k < n then Some ErrCanceled else bs_errors ?s0 ! k) [0..<length (bs_errors ?s0)]\<rparr>"
  have S: "sd_states ?S = (sd_states S)[i := s]" "sd_tokens ?S = sd_tokens S + (n - j)" "sd_idle ?S = sd_idle S" "sd_jobs ?S = sd_jobs S"
    "sd_available ?S = sd_available S" "sd_returns ?S = sd_returns S" "sd_arena ?S = sd_arena S" "sd_stopping ?S = sd_stopping S"
    by (simp_all add: unsend_def s_def n_def Let_def)
  have ok0: "state_ok H calls N parallelRows ?s0" by (rule state_okD[OF inv i(1)])
  have jn: "j < n" using i(3) by (simp add: n_def)
  have un: "bs_shards ?s0 ! k = Unsent" if "j \<le> k" "k < n" for k using ok0 i(2,4) that unfolding state_ok_def n_def by blast
  have old: "bs_shards ?s0 = take j (bs_shards ?s0) @ replicate (n - j) Unsent"
  proof (rule nth_equalityI)
    fix k assume "k < length (bs_shards ?s0)"
    then show "bs_shards ?s0 ! k = (take j (bs_shards ?s0) @ replicate (n - j) Unsent) ! k"
      using un[of k] jn by (cases "k < j") (simp_all add: nth_append n_def)
  qed (use jn in \<open>simp add: n_def\<close>)
  have s: "bs_phase s = BatchActive" "length (bs_shards s) = n" "bs_ranges s = bs_ranges ?s0" "bs_batch s = bs_batch ?s0"
    "bs_program s = bs_program ?s0" "bs_canceled s" "bs_results s = bs_results ?s0" "length (bs_errors s) = length (bs_errors ?s0)"
    "bs_shards s ! k = (if k < j then bs_shards ?s0 ! k else Finished)" if "k < n" for k
    using that i jn by (simp_all add: s_def n_def nth_append)
  have lN: "n \<le> length (bs_errors ?s0)" using ok0 i(2) by (simp add: state_ok_def n_def)
  have "shard_done H s k" if "k < n" "bs_shards s ! k = Finished" for k
  proof (cases "k < j")
    case True
    then have "shard_done H ?s0 k" using ok0 i(2) that s(9)[OF that(1)] by (auto simp: state_ok_def n_def)
    then show ?thesis using True that(1) lN s(3-7)[OF that(1)] by (auto simp: shard_done_def s_def split: option.splits)
  next
    case False
    then show ?thesis using that lN s(6)[OF jn] by (simp add: shard_done_def s_def i(5))
  qed
  moreover have "bs_shards s ! a \<noteq> Unsent" if "a < n" for a using that s(9)[of a] i(6) by auto
  ultimately have ok: "state_ok H calls N parallelRows s" using ok0 i(2) s(1-8)[OF jn] unfolding state_ok_def n_def by auto
  have c: "count_shards g s + (n - j) * g Unsent = count_shards g ?s0 + (n - j) * g Finished" for g
  proof -
    have "count_shards g ?s0 = sum_list (map g (take j (bs_shards ?s0))) + (n - j) * g Unsent"
      unfolding count_shards_def shards_of_def by (subst old) (simp add: i(2) sum_list_replicate)
    moreover have "count_shards g s = sum_list (map g (take j (bs_shards ?s0))) + (n - j) * g Finished"
      by (simp add: count_shards_def shards_of_def i(2) s_def sum_list_replicate)
    ultimately show ?thesis by simp
  qed
  show ?thesis
  proof (rule inv_quiet[OF inv i(1) S(1,7,4) _ _ ok])
    show "quiet (shards_of ?s0) (shards_of s)"
    proof -
      have "k < j" if "k < n" "bs_shards ?s0 ! k = Queued" for k using that un[of k] by (cases "k < j") auto
      then show ?thesis using i(2) s(1,2)[OF jn] s(9) by (auto simp: quiet_def shards_of_def n_def split: if_splits)
    qed
    show "available_ok ?S" using available_keep[OF availableD[OF inv] i(1) S(1,5)] s(1)[OF jn] i(2) by simp
    show "returns_ok H ?S" using inv S(6,8) by (simp add: sched_inv_def returns_ok_def)
  qed (use c[of is_open] c[of is_leased] c[of is_busy] c[of is_queued] s(1)[OF jn] i(2) S in simp_all)
qed

section \<open>The outcome of a call\<close>

lemma first_error_None: "(\<forall>e \<in> set es. e = None) \<Longrightarrow> first_error es = None"
  by (induction es) auto

lemma batch_outcome_Ok:
  assumes ok: "state_ok H calls N parallelRows s" and ph: "bs_phase s = BatchActive" and f: "\<forall>x \<in> set (bs_shards s). x = Finished"
    and v: "valid_call H (bs_program s) (bs_batch s)"
  shows "batch_outcome s dst = (if bs_canceled s then Err ErrCanceled else Ok (result_of (H (bs_program s)) (bs_batch s)))"
proof (cases "bs_canceled s")
  case False
  let ?R = "row_spec (H (bs_program s)) (bs_batch s)" and ?n = "length (bs_ranges s)"
  have l: "length (bs_shards s) = ?n" "?n \<le> N" "length (bs_errors s) = N" "length (bs_results s) = N"
    "tiles (b_Rows (bs_batch s)) 0 (bs_ranges s)" "bs_ranges s \<noteq> []" using ok ph by (simp_all add: state_ok_def)
  have d: "shard_done H s j" if "j < ?n" for j using ok ph f l(1) that by (simp add: state_ok_def)
  have e: "bs_errors s ! j = None" "bs_results s ! j = shard_of ?R (bs_ranges s ! j)" if "j < ?n" for j
    using d[OF that] False by (auto simp: shard_done_def split: option.splits)
  have "first_error (take ?n (bs_errors s)) = None" using e(1) l by (intro first_error_None) (auto simp: in_set_conv_nth)
  moreover have "take ?n (bs_results s) = map (shard_of ?R) (bs_ranges s)" using e(2) l by (intro nth_equalityI) auto
  moreover have "edges_fit (b_Rows (bs_batch s)) ?R"
    using row_spec_edges_fit[of "H (bs_program s)" "bs_batch s"] v by (simp add: valid_call_def input_ok_def)
  moreover have "b_Rows (bs_batch s) + 1 \<le> MaxInt" using v by (simp add: valid_call_def physical_def batch_u32_def)
  ultimately show ?thesis using False mergeResults_rows l(5,6) by (simp add: batch_outcome_def result_of_def)
qed (simp add: batch_outcome_def)

section \<open>All steps\<close>

lemma tile_range_ok:
  assumes "state_ok H calls N parallelRows s" "bs_phase s = BatchActive" "j < length (bs_shards s)" "valid_call H (bs_program s) (bs_batch s)"
  shows "range_ok (bs_batch s) (rg_start (bs_ranges s ! j)) (rg_end (bs_ranges s ! j))"
  using assms tiles_nth[of "b_Rows (bs_batch s)" 0 "bs_ranges s" j] by (simp add: state_ok_def range_ok_def valid_call_def)

lemma state_call:
  assumes "sched_inv H calls N parallelRows S" "i < length (sd_states S)" "\<forall>a b. calls a b \<longrightarrow> valid_call H a b"
    "bs_phase (state_at S i) \<noteq> BatchFree" "bs_phase (state_at S i) \<noteq> BatchDrained"
  shows "valid_call H (bs_program (state_at S i)) (bs_batch (state_at S i))"
  using state_okD[OF assms(1,2)] assms(3-5) by (simp add: state_ok_def)

context simd_contract begin

lemma run_inv:
  assumes inv: "sched_inv H calls N parallelRows S" and V: "\<forall>a b. calls a b \<longrightarrow> valid_call H a b"
    and i: "i < length (sd_states S)" "bs_phase (state_at S i) = BatchActive"
      "j < length (bs_shards (state_at S i))" "bs_shards (state_at S i) ! j = Leased w l"
  shows "\<exists>A r. finish_shard K H (sd_arena S) l (ctx_error (bs_canceled (state_at S i))) (bs_results (state_at S i) ! j) (bs_program (state_at S i))
      (bs_batch (state_at S i)) (bs_ranges (state_at S i) ! j) = (A, r) \<and> \<not> is_panic r \<and>
    sched_inv H calls N parallelRows ((end_shard S i j w r)\<lparr>sd_arena := A\<rparr>)"
proof -
  let ?s = "state_at S i"
  have v: "valid_call H (bs_program ?s) (bs_batch ?s)" using state_call[OF inv i(1) V] i(2) by simp
  have at0: "shard_at S i j = Some (Leased w l)" using i by (simp add: shard_at_def shards_of_def)
  have A0: "arena_ready H N (sd_arena S)" "leases_ok S" using inv by (simp_all add: sched_inv_def)
  then obtain c where c: "lease_active (sd_arena S) l = Ok c" using at0 unfolding leases_ok_def by blast
  obtain A where A: "finish_shard K H (sd_arena S) l (ctx_error (bs_canceled ?s)) (bs_results ?s ! j) (bs_program ?s) (bs_batch ?s) (bs_ranges ?s ! j) =
      (A, case ctx_error (bs_canceled ?s) of Some e \<Rightarrow> Err e | None \<Rightarrow> Ok (shard_of (row_spec (H (bs_program ?s)) (bs_batch ?s)) (bs_ranges ?s ! j)))"
    and eff: "shard_effect H N (sd_arena S) l A"
    using finish_shard_Ok[OF A0(1) c v tile_range_ok[OF state_okD[OF inv i(1)] i(2,3) v]] by blast
  define r where "r = (if bs_canceled ?s then Err ErrCanceled else Ok (shard_of (row_spec (H (bs_program ?s)) (bs_batch ?s)) (bs_ranges ?s ! j)))"
  define S' where "S' = (end_shard S i j w r)\<lparr>sd_arena := A\<rparr>"
  have at: "shard_at S' i' j' = (if i' = i \<and> j' = j then Some Finished else shard_at S i' j')" for i' j'
    by (rule end_shard_at[OF i(1-3)]) (simp add: S'_def)
  have other: "\<exists>c'. lease_active A l' = Ok c'" if "shard_at S i' j' = Some (Leased w' l')" "\<not> (i' = i \<and> j' = j)" for i' j' w' l'
  proof -
    have "l' \<noteq> l" using that A0(2) at0 unfolding leases_ok_def by blast
    moreover have "\<exists>c'. lease_active (sd_arena S) l' = Ok c'" using that(1) A0(2) unfolding leases_ok_def by blast
    ultimately show ?thesis using eff unfolding shard_effect_def by blast
  qed
  have sA: "sd_arena S' = A" by (simp add: S'_def)
  have sub: "shard_at S i' j' = Some (Leased w' l') \<and> \<not> (i' = i \<and> j' = j)" if "shard_at S' i' j' = Some (Leased w' l')" for i' j' w' l'
    using that unfolding at by (simp split: if_splits)
  have leases: "leases_ok S'" unfolding leases_ok_def sA using sub other A0(2)[unfolded leases_ok_def] by blast
  have "sched_inv H calls N parallelRows S'"
    by (rule end_shard_inv[OF inv i(1-3) _ _ S'_def _ leases]) (use i eff in \<open>auto simp: r_def shard_effect_def\<close>)
  moreover have "finish_shard K H (sd_arena S) l (ctx_error (bs_canceled ?s)) (bs_results ?s ! j) (bs_program ?s) (bs_batch ?s) (bs_ranges ?s ! j) = (A, r)"
    using A by (simp add: r_def)
  moreover have "\<not> is_panic r" by (simp add: r_def)
  ultimately show ?thesis unfolding S'_def by blast
qed

lemma step_inv:
  assumes inv: "sched_inv H calls N parallelRows S" and V: "\<forall>a b. calls a b \<longrightarrow> valid_call H a b" and N: "0 < N"
    and s: "sched_step K H N parallelRows S S'"
  shows "sched_inv H calls N parallelRows S'"
  using s
proof cases
  case (refuse i)
  show ?thesis unfolding refuse(1) by (rule leave_inv0[OF inv refuse(2)]) (use refuse(3,4) in \<open>auto simp: shards_of_def tokens_held_def return_ok_def\<close>)
next
  case (admit i)
  show ?thesis
    by (rule phase_inv[OF inv admit(2), of BatchAdmitted _ "sd_tokens S"])
      (use admit(1,3) in \<open>simp_all add: tokens_held_def set_phase_def set_state_def\<close>)
next
  case (give_up i)
  show ?thesis unfolding give_up(1) by (rule leave_inv0[OF inv give_up(2)]) (use give_up(3,4) in \<open>simp_all add: shards_of_def tokens_held_def return_ok_def\<close>)
next
  case (first_token i)
  show ?thesis
    by (rule phase_inv[OF inv first_token(2) _ _ first_token(1)]) (use first_token(3,4) in \<open>simp_all add: tokens_held_def\<close>)
next
  case (give_back i)
  show ?thesis
    by (rule leave_inv[OF inv give_back(2), where r = "Err ErrCanceled"]) (use give_back(1,3,4) in \<open>simp_all add: shards_of_def tokens_held_def return_ok_def\<close>)
next
  case (reserve_first i)
  show ?thesis
    by (rule phase_inv[OF inv reserve_first(2), of "BatchReserving 1" _ "sd_tokens S"])
      (use reserve_first(1,3) desiredShards_bounds(1)[OF N] in \<open>simp_all add: tokens_held_def set_phase_def set_state_def\<close>)
next
  case (reserve i n)
  show ?thesis
    by (rule phase_inv[OF inv reserve(2) _ _ reserve(1)]) (use reserve(3-5) in \<open>simp_all add: tokens_held_def\<close>)
next
  case (start i n)
  have "valid_call H (bs_program (state_at S i)) (bs_batch (state_at S i))" using state_call[OF inv start(2) V] start(3) by simp
  then show ?thesis using start_inv[OF inv start(2,3) N] start(1) by (simp add: valid_call_def physical_def batch_u32_def)
next
  case (submit i j)
  show ?thesis unfolding submit(1) by (rule submit_inv[OF inv submit(2-6)])
next
  case (stop_submit i j)
  show ?thesis unfolding stop_submit(1) by (rule unsend_inv[OF inv stop_submit(2-5,7,6)])
next
  case (take_job i j rest)
  show ?thesis unfolding take_job(1) by (rule take_job_inv[OF inv take_job(2,3)])
next
  case (skip_shard i j w)
  show ?thesis unfolding skip_shard(1) by (rule skip_inv[OF inv skip_shard(2-6)])
next
  case (borrow i j w A l)
  show ?thesis unfolding borrow(1) by (rule borrow_inv[OF inv borrow(2-5,7)])
next
  case (run i j w l A r)
  then show ?thesis using run_inv[OF inv V run(2-5)] unfolding run(1,6) by auto
next
  case (finish i dst)
  have v: "valid_call H (bs_program (state_at S i)) (bs_batch (state_at S i))" using state_call[OF inv finish(2) V] finish(3) by simp
  have z: "count_shards is_open (state_at S i) = 0" using finish(3,4) by (auto simp: count_shards_def shards_of_def sum_list_eq_0_iff)
  show ?thesis unfolding finish(1)
    by (rule leave_inv0[OF inv finish(2)])
      (use finish(3,4) z batch_outcome_Ok[OF state_okD[OF inv finish(2)] finish(3,4) v, of dst] in \<open>simp_all add: shards_of_def return_ok_def\<close>)
next
  case (drain i rest)
  show ?thesis unfolding drain(1) by (rule drain_inv[OF inv drain(3)])
qed

end

section \<open>Reachable states\<close>

lemma NewScheduler_inv:
  assumes n: "NewScheduler arena executor result noBatch c = Ok S" and e: "executor_inv H executor"
  shows "sched_inv H calls (nat (cf_Workers c)) parallelRows S \<and> 0 < cf_Workers c"
proof -
  let ?N = "nat (cf_Workers c)" and ?Q = "nat (cf_QueueDepth c)"
  obtain A where A: "NewArena arena executor result (cf_Workers c) (cf_Capacity c) = Ok A" and w: "0 < cf_Workers c"
    and S: "S = \<lparr>sd_arena = A, sd_available = [0..<?Q], sd_tokens = ?N, sd_jobs = [], sd_idle = ?N,
      sd_states = replicate ?Q (free_state ?N result noBatch), sd_stopping = False, sd_serial = 0, sd_parallel = 0, sd_returns = []\<rparr>"
    using n unfolding NewScheduler_def by (auto split: if_splits res.splits)
  have "arena_inv A" by (rule NewArena_inv[OF A])
  then have a: "arena_ready H ?N A" "length (ar_available A) = ?N"
    using A e w by (auto simp: arena_ready_def NewArena_def rbind_Ok_iff new_context_def split: if_splits)
  have fs: "bs_phase (free_state ?N result noBatch) = BatchFree" by (simp add: free_state_def)
  have "sched_total f S = 0" if "f (free_state ?N result noBatch) = 0" for f using that by (simp add: sched_total_def S sum_list_replicate)
  then have "counts_ok ?N S" using fs a(2) by (simp add: counts_ok_def tokens_held_def) (simp add: S)
  moreover have "shard_at S i j = None" for i j by (simp add: shard_at_def shards_of_def S free_state_def)
  then have "jobs_ok S \<and> leases_ok S" by (simp add: jobs_ok_def leases_ok_def S)
  moreover have "available_ok S" by (auto simp: available_ok_def S fs)
  moreover have "state_ok H calls ?N parallelRows (free_state ?N result noBatch)" by (simp add: state_ok_def free_state_def)
  ultimately show ?thesis using a(1) w by (auto simp: sched_inv_def returns_ok_def S)
qed

lemma sum_list_map_less:
  assumes "\<And>x. x \<in> set xs \<Longrightarrow> f x \<le> (g x :: nat)" "y \<in> set xs" "f y < g y"
  shows "sum_list (map f xs) < sum_list (map g xs)"
  using assms
proof (induction xs)
  case (Cons x xs)
  have "sum_list (map f xs) \<le> sum_list (map g xs)" using Cons.prems(1) by (intro sum_list_mono) simp
  moreover have "f x \<le> g x" using Cons.prems(1) by simp
  ultimately show ?case using Cons by (cases "y = x") (simp, force)
qed simp

lemma shards_below_tokens:
  assumes inv: "sched_inv H calls N parallelRows S" and i: "i < length (sd_states S)" "bs_phase (state_at S i) = BatchActive"
      "j < length (bs_shards (state_at S i))" and g: "\<And>x. g x \<le> is_open x" "g (bs_shards (state_at S i) ! j) < is_open (bs_shards (state_at S i) ! j)"
  shows "sched_total (count_shards g) S < N"
proof -
  have le: "count_shards g s \<le> tokens_held s" for s
  proof (cases "bs_phase s = BatchActive")
    case True
    then show ?thesis using g(1) by (simp add: count_shards_def) (intro sum_list_mono, simp)
  qed simp
  have "count_shards g (state_at S i) < tokens_held (state_at S i)"
    unfolding tokens_held_active[OF i(2)] count_shards_def shards_of_def if_P[OF i(2)]
    by (rule sum_list_map_less[where y = "bs_shards (state_at S i) ! j"]) (use g i(3) in simp_all)
  then have "sched_total (count_shards g) S < sched_total tokens_held S"
    unfolding sched_total_def by (intro sum_list_map_less[where y = "state_at S i"]) (use le i(1) in auto)
  then show ?thesis using inv by (simp add: sched_inv_def counts_ok_def)
qed

lemma sum_list_map_pos: "0 < sum_list (map f xs) \<Longrightarrow> \<exists>i < length xs. 0 < (f (xs ! i) :: nat)"
proof (induction xs)
  case (Cons x xs)
  then show ?case by (cases "0 < f x") (force intro: exI[of _ "Suc _"])+
qed simp

lemma total_pos: "0 < sched_total f S \<Longrightarrow> \<exists>i < length (sd_states S). 0 < f (state_at S i)"
  unfolding sched_total_def by (rule sum_list_map_pos)

lemma count_pos: "0 < count_shards g s \<Longrightarrow> bs_phase s = BatchActive \<and> (\<exists>j < length (bs_shards s). 0 < g (bs_shards s ! j))"
  unfolding count_shards_def shards_of_def using sum_list_map_pos[of g "bs_shards s"] by (auto split: if_splits)

context simd_contract begin

lemma reachable_inv:
  assumes "reachable K H calls N parallelRows S0 S" "sched_inv H calls N parallelRows S0" "\<forall>a b. calls a b \<longrightarrow> valid_call H a b" "0 < N"
  shows "sched_inv H calls N parallelRows S"
  using assms by (induction rule: reachable.induct) (auto intro: step_inv env_inv)

section \<open>Progress\<close>

text \<open>A shard that a worker or its caller has taken up can always go on: a context is free for it.\<close>

lemma shard_progress:
  assumes inv: "sched_inv H calls N parallelRows S" and V: "\<forall>a b. calls a b \<longrightarrow> valid_call H a b"
    and i: "i < length (sd_states S)" "bs_phase (state_at S i) = BatchActive" "j < length (bs_shards (state_at S i))"
    and x: "bs_shards (state_at S i) ! j = Running w \<or> bs_shards (state_at S i) ! j = Leased w l"
  shows "\<exists>S'. sched_step K H N parallelRows S S'"
proof (cases "bs_shards (state_at S i) ! j = Running w")
  case True
  show ?thesis
  proof (cases "bs_canceled (state_at S i)")
    case False
    have "is_leased x \<le> is_open x" for x by (cases x) auto
    then have "sched_total (count_shards is_leased) S < N" using shards_below_tokens[OF inv i, of is_leased] True by simp
    then have "length (ar_available (sd_arena S)) > 0" using inv unfolding sched_inv_def counts_ok_def by linarith
    then obtain k rest where a: "ar_available (sd_arena S) = k # rest" by (cases "ar_available (sd_arena S)") auto
    have ai: "arena_inv (sd_arena S)" using inv by (simp add: sched_inv_def arena_ready_def)
    then have v: "Arena_valid (sd_arena S)" by (simp add: arena_inv_def)
    have k: "k \<in> set (ar_available (sd_arena S))" using a by simp
    then have "k < length (ar_contexts (sd_arena S))" "cx_state (ar_contexts (sd_arena S) ! k) = contextAvailable"
      "cx_arena (ar_contexts (sd_arena S) ! k) = ar_id (sd_arena S)" using ai unfolding arena_inv_def by blast+
    then have "\<exists>A l. Borrow (sd_arena S) (ctx_of False) = Some (A, Ok l)" using a v by (simp add: Borrow_def Let_def)
    then show ?thesis using sched_step.borrow[OF i True False] by blast
  qed (use sched_step.skip_shard[OF i True] in blast)
next
  case False
  then have "bs_shards (state_at S i) ! j = Leased w l" using x by simp
  then show ?thesis using run_inv[OF inv V i] sched_step.run[OF i] by blast
qed

lemma active_progress:
  assumes inv: "sched_inv H calls N parallelRows S" and V: "\<forall>a b. calls a b \<longrightarrow> valid_call H a b" and N: "0 < N"
    and i: "i < length (sd_states S)" "bs_phase (state_at S i) = BatchActive"
  shows "\<exists>S'. sched_step K H N parallelRows S S'"
proof (cases "\<forall>x \<in> set (bs_shards (state_at S i)). x = Finished")
  case True
  then show ?thesis using sched_step.finish[OF i True] by blast
next
  case False
  then obtain j where j: "j < length (bs_shards (state_at S i))" "bs_shards (state_at S i) ! j \<noteq> Finished" by (auto simp: in_set_conv_nth)
  show ?thesis
  proof (cases "bs_shards (state_at S i) ! j")
    case Unsent
    define k where "k = (LEAST k. bs_shards (state_at S i) ! k = Unsent)"
    have k: "bs_shards (state_at S i) ! k = Unsent" unfolding k_def by (rule LeastI[of _ j]) (rule Unsent)
    have kj: "k \<le> j" unfolding k_def by (rule Least_le) (rule Unsent)
    have first: "\<forall>m < k. bs_shards (state_at S i) ! m \<noteq> Unsent" using not_less_Least unfolding k_def by blast
    have "is_queued x \<le> is_open x" for x by (cases x) auto
    then have "sched_total (count_shards is_queued) S < N" using shards_below_tokens[OF inv i, of k is_queued] k kj j(1) by simp
    then have "length (sd_jobs S) < N" using inv by (simp add: sched_inv_def counts_ok_def)
    then show ?thesis using sched_step.submit[OF i _ k first] kj j(1) by (meson le_less_trans)
  next
    case Queued
    have "0 < sched_total (count_shards is_queued) S"
      using count_shards_ge[OF i(2) j(1), of is_queued] total_ge[OF i(1), of "count_shards is_queued"] Queued by simp
    then have "sd_jobs S \<noteq> []" using inv by (auto simp: sched_inv_def counts_ok_def)
    then obtain a b rest where q: "sd_jobs S = (a, b) # rest" by (cases "sd_jobs S") auto
    show ?thesis
    proof (cases "sd_idle S > 0")
      case False
      then have "0 < sched_total (count_shards is_busy) S" using inv N by (simp add: sched_inv_def counts_ok_def)
      then obtain m where m: "m < length (sd_states S)" "0 < count_shards is_busy (state_at S m)" using total_pos by blast
      then obtain n where n: "bs_phase (state_at S m) = BatchActive" "n < length (bs_shards (state_at S m))" "0 < is_busy (bs_shards (state_at S m) ! n)"
        using count_pos by blast
      then show ?thesis using shard_progress[OF inv V m(1) n(1,2)] by (cases "bs_shards (state_at S m) ! n") auto
    qed (use sched_step.take_job[OF q] in blast)
  qed (use shard_progress[OF inv V i j(1)] j(2) in auto)
qed

lemma held_progress:
  assumes inv: "sched_inv H calls N parallelRows S" and V: "\<forall>a b. calls a b \<longrightarrow> valid_call H a b" and N: "0 < N"
    and i: "i < length (sd_states S)" "0 < tokens_held (state_at S i)"
  shows "\<exists>S'. sched_step K H N parallelRows S S'"
proof (cases "bs_phase (state_at S i)")
  case BatchToken
  then show ?thesis using sched_step.give_back[OF i(1)] sched_step.reserve_first[OF i(1)] by blast
next
  case (BatchReserving n)
  then show ?thesis using sched_step.reserve[OF i(1) BatchReserving] sched_step.start[OF i(1) BatchReserving]
    by (metis gr0I linorder_not_le)
qed (use i active_progress[OF inv V N i(1)] in \<open>auto simp: tokens_held_def\<close>)

text \<open>As long as a call is in progress, or a shutdown is not complete, the system can go on.\<close>

lemma progress:
  assumes inv: "sched_inv H calls N parallelRows S" and V: "\<forall>a b. calls a b \<longrightarrow> valid_call H a b" and N: "0 < N"
    and i: "i < length (sd_states S)" "bs_phase (state_at S i) \<noteq> BatchDrained" "bs_phase (state_at S i) = BatchFree \<Longrightarrow> sd_stopping S"
  shows "\<exists>S'. sched_step K H N parallelRows S S'"
proof (cases "bs_phase (state_at S i)")
  case BatchFree
  then have "i \<in> set (sd_available S)" using availableD[OF inv] i(1) by (simp add: available_ok_def)
  then obtain k rest where "sd_available S = k # rest" by (cases "sd_available S") auto
  then show ?thesis using sched_step.drain[OF i(3)[OF BatchFree]] by blast
next
  case BatchReceived
  then show ?thesis using sched_step.refuse[OF i(1)] sched_step.admit[OF i(1)] by blast
next
  case BatchAdmitted
  show ?thesis
  proof (cases "sd_tokens S > 0")
    case False
    then have "0 < sched_total tokens_held S" using inv N by (simp add: sched_inv_def counts_ok_def)
    then show ?thesis using total_pos held_progress[OF inv V N] by blast
  qed (use sched_step.first_token[OF i(1) BatchAdmitted] in blast)
next
  case BatchToken
  then show ?thesis using held_progress[OF inv V N i(1)] by (simp add: tokens_held_def)
next
  case (BatchReserving n)
  then show ?thesis using held_progress[OF inv V N i(1)] state_okD[OF inv i(1)] by (simp add: tokens_held_def state_ok_def)
qed (use i active_progress[OF inv V N i(1)] in auto)

end

section \<open>Every step is a step towards the end\<close>

lemma total_less:
  assumes "i < length (sd_states S)" "sd_states S' = (sd_states S)[i := s]" "f s < f (state_at S i)"
  shows "sched_total f S' < sched_total f S"
  using total_update[OF assms(1,2), of f] assms(3) by linarith

lemma call_steps_shard:
  assumes "bs_phase s = BatchActive" "j < length (bs_shards s)" "steps_left x < steps_left (bs_shards s ! j)"
  shows "call_steps N (s\<lparr>bs_shards := (bs_shards s)[j := x]\<rparr>) < call_steps N s"
  using assms count_shards_update[of s "s\<lparr>bs_shards := (bs_shards s)[j := x]\<rparr>" j x steps_left] by (simp add: call_steps_def)

lemma call_steps_pos: "bs_phase s \<noteq> BatchFree \<Longrightarrow> bs_phase s \<noteq> BatchDrained \<Longrightarrow> 1 < call_steps N s"
  by (cases "bs_phase s") (simp_all add: call_steps_def)

lemma end_shard_decreases:
  assumes "i < length (sd_states S)" "bs_phase (state_at S i) = BatchActive" "j < length (bs_shards (state_at S i))"
    "0 < steps_left (bs_shards (state_at S i) ! j)" "sd_states S' = sd_states (end_shard S i j w r)"
  shows "sched_total (call_steps N) S' < sched_total (call_steps N) S"
proof -
  let ?s = "state_at S i"
  let ?t = "?s\<lparr>bs_shards := (bs_shards ?s)[j := Finished], bs_errors := (bs_errors ?s)[j := (case r of Err e \<Rightarrow> Some e | _ \<Rightarrow> None)],
    bs_results := (case r of Ok x \<Rightarrow> (bs_results ?s)[j := x] | _ \<Rightarrow> bs_results ?s)\<rparr>"
  have "call_steps N ?t = call_steps N (?s\<lparr>bs_shards := (bs_shards ?s)[j := Finished]\<rparr>)"
    by (simp add: call_steps_def count_shards_def shards_of_def split: batch_phase.split)
  also have "\<dots> < call_steps N ?s" by (rule call_steps_shard) (use assms in simp_all)
  finally show ?thesis using total_less[OF assms(1), of S' ?t] assms(5) by (simp add: end_shard_def Let_def)
qed

lemma start_decreases:
  assumes inv: "sched_inv H calls N parallelRows S" and i: "i < length (sd_states S)" and ph: "bs_phase (state_at S i) = BatchReserving n"
    and N: "0 < N"
  shows "sched_total (call_steps N) (start_batch N S i n) < sched_total (call_steps N) S"
proof -
  let ?s = "state_at S i" and ?ranges = "partitionRows N (b_Rows (bs_batch (state_at S i))) (int n)"
  have n: "1 \<le> n" "n \<le> desiredShards parallelRows N (b_Rows (bs_batch ?s))" using state_okD[OF inv i] ph by (simp_all add: state_ok_def)
  have len: "length ?ranges = n"
    by (rule length_partitionRows) (use n desiredShards_bounds[OF N, of parallelRows "b_Rows (bs_batch ?s)"] in linarith)+
  have "n \<le> N" using n desiredShards_bounds(2)[OF N, of parallelRows "b_Rows (bs_batch ?s)"] by linarith
  define sh where "sh = (if n = 1 then [Running False] else replicate n Unsent)"
  let ?t = "?s\<lparr>bs_phase := BatchActive, bs_ranges := ?ranges,
    bs_errors := map (\<lambda>k. if k < n then None else bs_errors ?s ! k) [0..<length (bs_errors ?s)], bs_shards := sh\<rparr>"
  have "sd_states (start_batch N S i n) = (sd_states S)[i := ?t]" unfolding start_batch_def Let_def len sh_def by simp
  moreover have "count_shards steps_left ?t \<le> 4 * n" using n(1) by (simp add: count_shards_def shards_of_def sh_def sum_list_replicate)
  then have "call_steps N ?t < call_steps N ?s" using \<open>n \<le> N\<close> ph by (simp add: call_steps_def)
  ultimately show ?thesis using total_less[OF i] by blast
qed

lemma unsend_decreases:
  assumes "i < length (sd_states S)" "bs_phase (state_at S i) = BatchActive" "j < length (bs_shards (state_at S i))"
    "bs_shards (state_at S i) ! j = Unsent"
  shows "sched_total (call_steps N) (unsend S i j) < sched_total (call_steps N) S"
proof -
  let ?s = "state_at S i" and ?n = "length (bs_shards (state_at S i))"
  let ?t = "?s\<lparr>bs_shards := take j (bs_shards ?s) @ replicate (?n - j) Finished,
    bs_errors := map (\<lambda>k. if j \<le> k \<and> k < ?n then Some ErrCanceled else bs_errors ?s ! k) [0..<length (bs_errors ?s)]\<rparr>"
  have st: "sd_states (unsend S i j) = (sd_states S)[i := ?t]" by (simp add: unsend_def Let_def)
  have "bs_shards ?s = take j (bs_shards ?s) @ bs_shards ?s ! j # drop (Suc j) (bs_shards ?s)" by (rule id_take_nth_drop[OF assms(3)])
  then have "sum_list (map steps_left (bs_shards ?s)) =
      sum_list (map steps_left (take j (bs_shards ?s))) + 4 + sum_list (map steps_left (drop (Suc j) (bs_shards ?s)))"
    by (metis (no_types, lifting) add.assoc assms(4) list.simps(9) map_append steps_left.simps(1) sum_list.Cons sum_list_append)
  then have "count_shards steps_left ?t < count_shards steps_left ?s"
    using assms(2) by (simp add: count_shards_def shards_of_def sum_list_replicate)
  then have "call_steps N ?t < call_steps N ?s" using assms(2) by (simp add: call_steps_def)
  then show ?thesis by (rule total_less[OF assms(1) st])
qed

lemma step_decreases:
  assumes inv: "sched_inv H calls N parallelRows S" and N: "0 < N" and s: "sched_step K H N parallelRows S S'"
  shows "sched_total (call_steps N) S' < sched_total (call_steps N) S"
proof -
  have phase: "sched_total (call_steps N) T < sched_total (call_steps N) S"
    if "i < length (sd_states S)" "sd_states T = sd_states (set_phase S i ph)" "call_steps N ((state_at S i)\<lparr>bs_phase := ph\<rparr>) < call_steps N (state_at S i)" for i T ph
    using total_less[OF that(1), of T] that(2,3) by (simp add: set_phase_def)
  have shard: "sched_total (call_steps N) T < sched_total (call_steps N) S"
    if "i < length (sd_states S)" "bs_phase (state_at S i) = BatchActive" "j < length (bs_shards (state_at S i))"
      "sd_states T = sd_states (set_shard S i j x)" "steps_left x < steps_left (bs_shards (state_at S i) ! j)" for i j T x
    using total_less[OF that(1), of T] that(4) call_steps_shard[OF that(2,3,5)] by (simp add: set_shard_def)
  have gone: "sched_total (call_steps N) T < sched_total (call_steps N) S"
    if "i < length (sd_states S)" "sd_states T = sd_states (leave S i r)" "bs_phase (state_at S i) \<noteq> BatchFree" "bs_phase (state_at S i) \<noteq> BatchDrained" for i T r
    using phase[OF that(1), of T BatchFree] that(2) call_steps_pos[OF that(3,4)] by (simp add: leave_def) (simp add: call_steps_def)
  show ?thesis using s
  proof cases
    case (refuse i) then show ?thesis using gone[OF refuse(2), of S'] by simp
  next
    case (admit i) then show ?thesis using phase[OF admit(2), of S' BatchAdmitted] by (simp add: call_steps_def)
  next
    case (give_up i) then show ?thesis using gone[OF give_up(2), of S'] by simp
  next
    case (first_token i) then show ?thesis using phase[OF first_token(2), of S' BatchToken] by (simp add: call_steps_def)
  next
    case (give_back i) then show ?thesis using gone[OF give_back(2), of S'] by simp
  next
    case (reserve_first i) then show ?thesis using phase[OF reserve_first(2), of S' "BatchReserving 1"] by (simp add: call_steps_def)
  next
    case (reserve i n)
    then have "n < N" using desiredShards_bounds(2)[OF N, of parallelRows "b_Rows (bs_batch (state_at S i))"] by linarith
    then show ?thesis using reserve phase[OF reserve(2), of S' "BatchReserving (n + 1)"] by (simp add: call_steps_def)
  next
    case (start i n) then show ?thesis using start_decreases[OF inv start(2,3) N] by simp
  next
    case (submit i j) then show ?thesis using shard[OF submit(2-4), of S' Queued] by simp
  next
    case (stop_submit i j) then show ?thesis using unsend_decreases[OF stop_submit(2-5)] by simp
  next
    case (take_job i j rest)
    have "shard_at S i j = Some Queued" using inv take_job(2) by (simp add: sched_inv_def jobs_ok_def)
    then have i: "i < length (sd_states S)" "bs_phase (state_at S i) = BatchActive" "j < length (bs_shards (state_at S i))"
      "bs_shards (state_at S i) ! j = Queued" by (auto simp: shard_at_def shards_of_def split: if_splits)
    show ?thesis using take_job(1) i(4) shard[OF i(1-3), of S' "Running True"] by simp
  next
    case (skip_shard i j w) then show ?thesis using end_shard_decreases[OF skip_shard(2-4)] by simp
  next
    case (borrow i j w A l) then show ?thesis using shard[OF borrow(2-4), of S' "Leased w l"] by simp
  next
    case (run i j w l A r) then show ?thesis using end_shard_decreases[OF run(2-4)] by simp
  next
    case (finish i dst) then show ?thesis using gone[OF finish(2), of S'] by simp
  next
    case (drain i rest)
    then have "i < length (sd_states S)" "bs_phase (state_at S i) = BatchFree" using availableD[OF inv] by (auto simp: available_ok_def)
    then show ?thesis using drain(1) phase[of i S' BatchDrained] by (simp add: call_steps_def)
  qed
qed

lemma steps_left_sum: "sum_list (map steps_left xs) \<le> 4 * length xs"
proof (induction xs)
  case (Cons x xs)
  have "steps_left x \<le> 4" by (cases x) auto
  then show ?case using Cons by simp
qed simp

lemma total_call_steps:
  assumes inv: "sched_inv H calls N parallelRows S"
  shows "sched_total (call_steps N) S \<le> length (sd_states S) * (6 + 5 * N)"
proof -
  have "call_steps N s \<le> 6 + 5 * N" if "s \<in> set (sd_states S)" for s
  proof -
    have "bs_phase s = BatchActive \<Longrightarrow> length (bs_shards s) \<le> N" using inv that by (simp add: sched_inv_def state_ok_def)
    then have "count_shards steps_left s \<le> 4 * N"
      using steps_left_sum[of "bs_shards s"] by (cases "bs_phase s = BatchActive") (simp_all add: count_shards_def shards_of_def)
    then show ?thesis by (cases "bs_phase s") (simp_all add: call_steps_def)
  qed
  then show ?thesis unfolding sched_total_def
    using sum_list_mono[of "sd_states S" "call_steps N" "\<lambda>_. 6 + 5 * N"] by (simp add: sum_list_triv)
qed

context simd_contract begin

lemma run_bounded:
  assumes "(sched_step K H N parallelRows ^^ k) S S'" "sched_inv H calls N parallelRows S" "\<forall>a b. calls a b \<longrightarrow> valid_call H a b" "0 < N"
  shows "sched_inv H calls N parallelRows S' \<and> k + sched_total (call_steps N) S' \<le> sched_total (call_steps N) S"
  using assms(1)
proof (induction k arbitrary: S')
  case 0
  then show ?case using assms(2) by simp
next
  case (Suc k)
  then obtain T where T: "(sched_step K H N parallelRows ^^ k) S T" "sched_step K H N parallelRows T S'" by auto
  then have inv: "sched_inv H calls N parallelRows T" and le: "k + sched_total (call_steps N) T \<le> sched_total (call_steps N) S" using Suc.IH by blast+
  then show ?case using step_inv[OF inv assms(3,4) T(2)] step_decreases[OF inv assms(4) T(2)] by simp
qed

text \<open>From every state, a run of the system ends within its bound, with every call returned and every free batch state
  drained if the shutdown has started.\<close>

lemma run_completes:
  assumes inv: "sched_inv H calls N parallelRows S" and V: "\<forall>a b. calls a b \<longrightarrow> valid_call H a b" and N: "0 < N"
  shows "\<exists>k S'. k \<le> length (sd_states S) * (6 + 5 * N) \<and> (sched_step K H N parallelRows ^^ k) S S' \<and>
    (\<forall>s \<in> set (sd_states S'). bs_phase s = BatchDrained \<or> (bs_phase s = BatchFree \<and> \<not> sd_stopping S'))"
proof -
  have "\<exists>k S'. (sched_step K H N parallelRows ^^ k) S S' \<and> (\<nexists>T. sched_step K H N parallelRows S' T)" using inv
  proof (induction "sched_total (call_steps N) S" arbitrary: S rule: less_induct)
    case less
    show ?case
    proof (cases "\<exists>T. sched_step K H N parallelRows S T")
      case True
      then obtain T where T: "sched_step K H N parallelRows S T" by blast
      then obtain k S' where "(sched_step K H N parallelRows ^^ k) T S'" "\<nexists>U. sched_step K H N parallelRows S' U"
        using less.hyps[OF step_decreases[OF less.prems N T] step_inv[OF less.prems V N T]] by blast
      then show ?thesis using T by (metis relpowp_Suc_I2)
    next
      case False
      then show ?thesis by (metis relpowp_0_I)
    qed
  qed
  then obtain k S' where k: "(sched_step K H N parallelRows ^^ k) S S'" and stuck: "\<nexists>T. sched_step K H N parallelRows S' T" by blast
  have inv': "sched_inv H calls N parallelRows S'" and "k \<le> sched_total (call_steps N) S" using run_bounded[OF k inv V N] by simp_all
  moreover have "bs_phase s = BatchDrained \<or> (bs_phase s = BatchFree \<and> \<not> sd_stopping S')" if "s \<in> set (sd_states S')" for s
    using that progress[OF inv' V N] stuck by (metis in_set_conv_nth)
  ultimately show ?thesis using k total_call_steps[OF inv] by (meson order_trans)
qed

end

section \<open>A call leaves a trace\<close>

definition call_seen :: "sched \<Rightarrow> bool" where
  "call_seen S \<longleftrightarrow> sd_returns S \<noteq> [] \<or> (\<exists>i < length (sd_states S). bs_phase (state_at S i) \<noteq> BatchFree \<and> bs_phase (state_at S i) \<noteq> BatchDrained)"

lemma call_seen_update:
  "i < length (sd_states S) \<Longrightarrow> sd_states S' = (sd_states S)[i := s] \<Longrightarrow> bs_phase s \<noteq> BatchFree \<Longrightarrow> bs_phase s \<noteq> BatchDrained \<Longrightarrow> call_seen S'"
  unfolding call_seen_def by (metis length_list_update nth_list_update_eq)

lemma call_seen_step:
  assumes inv: "sched_inv H calls N parallelRows S" and s: "sched_step K H N parallelRows S S'" and c: "call_seen S"
  shows "call_seen S'"
  using s
proof cases
  case (take_job i j rest)
  then have "shard_at S i j = Some Queued" using inv by (simp add: sched_inv_def jobs_ok_def)
  then have "i < length (sd_states S)" "bs_phase (state_at S i) = BatchActive" by (auto simp: shard_at_def shards_of_def split: if_splits)
  then show ?thesis using take_job(1) by (intro call_seen_update[of i S]) (auto simp: set_shard_def)
next
  case (drain i rest)
  then have "bs_phase (state_at S i) = BatchFree" using availableD[OF inv] by (auto simp: available_ok_def)
  then show ?thesis using c drain(1) unfolding call_seen_def by (simp add: set_phase_def) (metis nth_list_update_neq)
next
  case (start i n)
  then show ?thesis by (intro call_seen_update[of i S S' "state_at S' i"]) (auto simp: start_batch_def Let_def)
next
  case (stop_submit i j)
  then show ?thesis by (intro call_seen_update[of i S S' "state_at S' i"]) (auto simp: unsend_def Let_def)
next
  case (skip_shard i j w)
  then show ?thesis by (intro call_seen_update[of i S S' "state_at S' i"]) (auto simp: end_shard_def Let_def)
next
  case (run i j w l A r)
  then show ?thesis by (intro call_seen_update[of i S S' "state_at S' i"]) (auto simp: end_shard_def Let_def)
next
  case (admit i)
  then show ?thesis by (intro call_seen_update[of i S S' "state_at S' i"]) (auto simp: set_phase_def)
next
  case (first_token i)
  then show ?thesis by (intro call_seen_update[of i S S' "state_at S' i"]) (auto simp: set_phase_def)
next
  case (reserve_first i)
  then show ?thesis by (intro call_seen_update[of i S S' "state_at S' i"]) (auto simp: set_phase_def)
next
  case (reserve i n)
  then show ?thesis by (intro call_seen_update[of i S S' "state_at S' i"]) (auto simp: set_phase_def)
next
  case (submit i j)
  then show ?thesis by (intro call_seen_update[of i S S' "state_at S' i"]) (auto simp: set_shard_def)
next
  case (borrow i j w A l)
  then show ?thesis by (intro call_seen_update[of i S S' "state_at S' i"]) (auto simp: set_shard_def)
qed (auto simp: call_seen_def leave_def)

context simd_contract begin

text \<open>A call on an idle scheduler that is left alone returns.\<close>

lemma call_returns:
  assumes inv: "sched_inv H calls N parallelRows S" and V: "\<forall>a b. calls a b \<longrightarrow> valid_call H a b" and N: "0 < N" and c: "call_seen S"
  shows "\<exists>k S'. (sched_step K H N parallelRows ^^ k) S S' \<and> sd_returns S' \<noteq> []"
proof -
  obtain k S' where k: "(sched_step K H N parallelRows ^^ k) S S'"
    and rest: "\<forall>s \<in> set (sd_states S'). bs_phase s = BatchDrained \<or> (bs_phase s = BatchFree \<and> \<not> sd_stopping S')"
    using run_completes[OF inv V N] by blast
  have "call_seen T \<and> sched_inv H calls N parallelRows T" if "(sched_step K H N parallelRows ^^ n) S T" for n T
    using that
  proof (induction n arbitrary: T)
    case (Suc n)
    then obtain U where "(sched_step K H N parallelRows ^^ n) S U" "sched_step K H N parallelRows U T" by auto
    then show ?case using Suc.IH call_seen_step step_inv[OF _ V N] by blast
  qed (use inv c in simp)
  from this[OF k] have "sd_returns S' \<noteq> []" using rest by (auto simp: call_seen_def)
  then show ?thesis using k by blast
qed

lemma reachable_run: "reachable K H calls N parallelRows S0 S \<Longrightarrow> (sched_step K H N parallelRows ^^ k) S S' \<Longrightarrow> reachable K H calls N parallelRows S0 S'"
  by (induction k arbitrary: S') (auto intro: internal)

end

end
