(* ===== verification/NR_Slots.thy ===== *)
theory NR_Slots
  imports NR_Sample
begin

text \<open>
  The scratch slots of the compiler, \<^verbatim>\<open>internal/compile/liveness.go\<close>: last uses, the live reason planes and the
  allocation of the lowest free slot over a bitmap of free slots, with release lists threaded through two arrays.

  The allocation always succeeds on a checked program, two values that are live at the same time never share a
  slot, no allocation uses fewer slots, and the planned columns meet the hypothesis of the evaluator.

  A lowered program is the evaluator's program with the columns that only the compiler reads. Out of fuel, the
  walk over a release list is \<open>Panic\<close>; the fuel is the number of rows plus one, and \<open>allocateSlots_total\<close> shows
  that it is enough.
\<close>

section \<open>Columns\<close>

record lowered =
  lw_program :: program
  lw_RunOpcodes :: "opcode list"
  lw_RunStarts :: "nat list"
  lw_RunCounts :: "nat list"
  lw_NodeInstructionIDs :: "nat list"

definition optionalScheduleColumn :: "nat \<Rightarrow> nat \<Rightarrow> bool" where
  "optionalScheduleColumn len rows \<longleftrightarrow> len = 0 \<or> len = rows"

definition validateScheduleColumns :: "lowered \<Rightarrow> unit res" where
  "validateScheduleColumns l =
     (let p = lw_program l; n = length (p_Opcodes p) in
      if length (p_Fields p) \<noteq> n \<or> length (p_Values p) \<noteq> n \<or> length (p_ListStarts p) \<noteq> n \<or> length (p_ListCounts p) \<noteq> n \<or>
         length (p_OperandStarts p) \<noteq> n \<or> length (p_OperandCounts p) \<noteq> n \<or> length (p_EvidenceKinds p) \<noteq> n \<or>
         length (p_EvidenceStates p) \<noteq> n \<or> \<not> optionalScheduleColumn (length (p_EvidenceSubjects p)) n \<or>
         \<not> optionalScheduleColumn (length (p_EvidenceScopes p)) n \<or> \<not> optionalScheduleColumn (length (p_EvidenceTimings p)) n \<or>
         length (p_RootFlags p) \<noteq> n \<or> length (p_InstructionNodes p) \<noteq> n \<or>
         length (p_InstructionSourceStarts p) \<noteq> n \<or> length (p_InstructionSourceEnds p) \<noteq> n
      then Err ErrInvalidGeneratedProgram
      else if list_ex (\<lambda>i. \<not> opcode_Valid (p_Opcodes p ! i) \<or>
           p_ListStarts p ! i + p_ListCounts p ! i > length (p_ListValues p) \<or>
           p_OperandStarts p ! i + p_OperandCounts p ! i > length (p_Operands p)) [0..<n]
      then Err ErrInvalidGeneratedProgram
      else if list_ex (\<lambda>k. k = 0 \<or> k > n) (lw_NodeInstructionIDs l) then Err ErrInvalidGeneratedProgram
      else Ok ())"

definition knownRootFlags :: byte where
  "knownRootFlags = RootApplicability OR RootAssertion OR RootEvidence"

definition slot_row_ok :: "program \<Rightarrow> nat \<Rightarrow> bool" where
  "slot_row_ok p row \<longleftrightarrow> p_RootFlags p ! row AND NOT knownRootFlags = 0 \<and>
     p_OperandStarts p ! row + p_OperandCounts p ! row \<le> length (p_Operands p) \<and>
     list_all (\<lambda>operand. \<not> (operand = 0 \<or> operand \<ge> row + 1)) (operands p row)"

definition validateSlotProgram :: "lowered \<Rightarrow> unit res" where
  "validateSlotProgram l =
     (let p = lw_program l in
      if length (p_Opcodes p) > MaxUint32 then Err ErrProgramTooLarge
      else rbind (validateScheduleColumns l) (\<lambda>_.
        if list_all (slot_row_ok p) [0..<length (p_RootFlags p)] then Ok () else Err ErrInvalidGeneratedProgram))"

section \<open>Liveness\<close>

text \<open>The last row that reads each row; a row that nothing reads keeps its own, and a root lives to the end.\<close>

definition last_uses_step :: "program \<Rightarrow> nat \<Rightarrow> nat list \<Rightarrow> nat list res" where
  "last_uses_step p consumer uses = res_foldM (\<lambda>operand u. upd u (operand - 1) consumer) (operands p consumer) uses"

definition computeLastUses :: "lowered \<Rightarrow> nat list res" where
  "computeLastUses l =
     (let p = lw_program l; n = length (p_Opcodes p) in
      rbind (validateSlotProgram l) (\<lambda>_.
      rbind (res_foldM (last_uses_step p) [0..<n] [0..<n]) (\<lambda>uses.
      Ok (map (\<lambda>row. if p_RootFlags p ! row \<noteq> 0 then n else uses ! row) [0..<n]))))"

definition reason_live_step :: "program \<Rightarrow> nat \<Rightarrow> bool list \<Rightarrow> bool list res" where
  "reason_live_step p row l =
     (if \<not> l ! row then Ok l
      else case p_Opcodes p ! row of
        OpcodeAll \<Rightarrow> res_foldM (\<lambda>operand u. upd u (operand - 1) True) (operands p row) l
      | OpcodeAny \<Rightarrow> res_foldM (\<lambda>operand u. upd u (operand - 1) True) (operands p row) l
      | OpcodeNot \<Rightarrow> res_foldM (\<lambda>operand u. upd u (operand - 1) True) (operands p row) l
      | _ \<Rightarrow> Ok l)"

definition computeReasonLive :: "program \<Rightarrow> bool list res" where
  "computeReasonLive p =
     (let n = length (p_Opcodes p) in
      res_foldM (reason_live_step p) (rev [0..<n]) (map (\<lambda>row. p_RootFlags p ! row \<noteq> 0) [0..<n]))"

section \<open>Free slots\<close>

definition slotWordCount :: "nat \<Rightarrow> nat" where
  "slotWordCount n = (let words = n div 64 in if n mod 64 \<noteq> 0 then words + 1 else words)"

definition trailing_zeros :: "u64 \<Rightarrow> nat" where
  "trailing_zeros w = length (takeWhile (\<lambda>n. \<not> bit w n) [0..<64])"

definition markSlotFree :: "u64 list \<Rightarrow> nat \<Rightarrow> nat \<Rightarrow> (u64 list \<times> nat) res" where
  "markSlotFree ws slot firstFreeWord =
     (if slot = 0 then Err ErrInvalidGeneratedProgram
      else let bitIndex = slot - 1; word = bitIndex div 64 in
      if word \<ge> length ws then Err ErrInvalidGeneratedProgram
      else let mask = row_bit bitIndex in
      if ws ! word AND mask \<noteq> 0 then Err ErrInvalidGeneratedProgram
      else Ok (ws[word := ws ! word OR mask], if word < firstFreeWord then word else firstFreeWord))"

function first_free_from :: "u64 list \<Rightarrow> nat \<Rightarrow> nat" where
  "first_free_from ws word = (if word < length ws \<and> ws ! word = 0 then first_free_from ws (word + 1) else word)"
  by pat_completeness auto
termination by (relation "measure (\<lambda>(ws, word). length ws - word)") auto

declare first_free_from.simps [simp del]

definition takeLowestFreeSlot :: "u64 list \<Rightarrow> nat \<Rightarrow> u64 list \<times> nat \<times> nat option" where
  "takeLowestFreeSlot ws firstFreeWord =
     (let word = first_free_from ws firstFreeWord in
      if word = length ws then (ws, word, None)
      else let b = trailing_zeros (ws ! word); w = ws ! word AND NOT (push_bit b 1) in
        (ws[word := w], if w = 0 then word + 1 else word, Some (word * 64 + b + 1)))"

section \<open>Allocation\<close>

datatype slot_mode = slotReuse | slotRetainAll

definition row_live :: "bool list option \<Rightarrow> nat \<Rightarrow> bool" where
  "row_live alive row = (case alive of None \<Rightarrow> True | Some l \<Rightarrow> l ! row)"

definition retain_row :: "bool list option \<Rightarrow> nat \<Rightarrow> nat list \<times> nat \<Rightarrow> (nat list \<times> nat) res" where
  "retain_row alive row acc =
     (case acc of (dst, peak) \<Rightarrow>
      if \<not> row_live alive row then Ok acc
      else if peak = MaxUint32 then Err ErrProgramTooLarge
      else rbind (upd dst row (peak + 1)) (\<lambda>dst. Ok (dst, peak + 1)))"

text \<open>The release lists: \<open>head ! r\<close> is the first row released at row \<open>r\<close>, \<open>next\<close> links the others; a row is
  named by its successor, zero ends a list.\<close>

definition link_row :: "bool list option \<Rightarrow> nat list \<Rightarrow> nat \<Rightarrow> nat list \<times> nat list \<Rightarrow> (nat list \<times> nat list) res" where
  "link_row alive lastUses row acc =
     (case acc of (heads, nexts) \<Rightarrow>
      let n = length lastUses; lastUse = lastUses ! row in
      if \<not> row_live alive row then Ok acc
      else if lastUse < row \<or> lastUse > n then Err ErrInvalidGeneratedProgram
      else if lastUse > row \<and> lastUse < n then
        rbind (idx heads lastUse) (\<lambda>h.
        rbind (upd nexts row h) (\<lambda>nexts.
        rbind (upd heads lastUse (row + 1)) (\<lambda>heads. Ok (heads, nexts))))
      else Ok acc)"

record slot_state =
  sl_words :: "u64 list"
  sl_first :: nat
  sl_peak :: nat
  sl_dst :: "nat list"

fun release_loop :: "nat \<Rightarrow> nat list \<Rightarrow> bool list option \<Rightarrow> nat \<Rightarrow> nat \<Rightarrow> slot_state \<Rightarrow> slot_state res" where
  "release_loop 0 nexts alive n k st = Panic ''out of fuel''"
| "release_loop (Suc fuel) nexts alive n k st =
     (if k = 0 then Ok st
      else if k > n \<or> \<not> row_live alive (k - 1) then Err ErrInvalidGeneratedProgram
      else rbind (idx (sl_dst st) (k - 1)) (\<lambda>slot.
        rbind (markSlotFree (sl_words st) slot (sl_first st)) (\<lambda>(ws, first).
        rbind (idx nexts (k - 1)) (\<lambda>next. release_loop fuel nexts alive n next (st\<lparr>sl_words := ws, sl_first := first\<rparr>)))))"

definition take_slot :: "slot_state \<Rightarrow> (slot_state \<times> nat) res" where
  "take_slot st =
     (case takeLowestFreeSlot (sl_words st) (sl_first st) of (ws, first, slot) \<Rightarrow>
      let st1 = st\<lparr>sl_words := ws, sl_first := first\<rparr> in
      case slot of Some s \<Rightarrow> Ok (st1, s)
      | None \<Rightarrow> if sl_peak st = MaxUint32 then Err ErrProgramTooLarge
                else Ok (st1\<lparr>sl_peak := sl_peak st + 1\<rparr>, sl_peak st + 1))"

definition alloc_row :: "nat list \<Rightarrow> nat list \<Rightarrow> bool list option \<Rightarrow> nat list \<Rightarrow> nat \<Rightarrow> slot_state \<Rightarrow> slot_state res" where
  "alloc_row heads nexts alive lastUses row st =
     (let n = length lastUses in
      rbind (idx heads row) (\<lambda>k.
      rbind (release_loop (n + 1) nexts alive n k st) (\<lambda>st.
      if \<not> row_live alive row then Ok st
      else rbind (take_slot st) (\<lambda>(st, slot).
        rbind (upd (sl_dst st) row slot) (\<lambda>dst.
        let st = st\<lparr>sl_dst := dst\<rparr> in
        if lastUses ! row = row
        then rbind (markSlotFree (sl_words st) slot (sl_first st)) (\<lambda>(ws, first). Ok (st\<lparr>sl_words := ws, sl_first := first\<rparr>))
        else Ok st)))))"

definition allocateSlots :: "nat list \<Rightarrow> bool list option \<Rightarrow> nat list \<Rightarrow> slot_mode \<Rightarrow> (nat list \<times> nat) res" where
  "allocateSlots lastUses alive dst mode =
     (let n = length lastUses in
      if length dst \<noteq> n \<or> (case alive of Some l \<Rightarrow> length l \<noteq> n | None \<Rightarrow> False) then Err ErrInvalidGeneratedProgram
      else case mode of
        slotRetainAll \<Rightarrow> res_foldM (retain_row alive) [0..<n] (dst, 0)
      | slotReuse \<Rightarrow>
          rbind (res_foldM (link_row alive lastUses) [0..<n] (replicate n 0, replicate n 0)) (\<lambda>(heads, nexts).
          let words = replicate (slotWordCount n) 0 in
          rbind (res_foldM (alloc_row heads nexts alive lastUses) [0..<n]
            \<lparr>sl_words = words, sl_first = length words, sl_peak = 0, sl_dst = dst\<rparr>) (\<lambda>st.
          Ok (sl_dst st, sl_peak st))))"

definition assignTruthSlots :: "lowered \<Rightarrow> slot_mode \<Rightarrow> (nat list \<times> nat list \<times> nat) res" where
  "assignTruthSlots l mode =
     rbind (computeLastUses l) (\<lambda>lastUses.
     rbind (allocateSlots lastUses None (replicate (length lastUses) 0) mode) (\<lambda>(truth, peak). Ok (lastUses, truth, peak)))"

definition assignSlots :: "lowered \<Rightarrow> slot_mode \<Rightarrow> lowered res" where
  "assignSlots l mode =
     (let p = lw_program l in
      rbind (assignTruthSlots l mode) (\<lambda>(lastUses, truth, truthPeak).
      rbind (computeReasonLive p) (\<lambda>alive.
      rbind (allocateSlots lastUses (Some alive) (replicate (length lastUses) 0) mode) (\<lambda>(reasons, reasonPeak).
      Ok (l\<lparr>lw_program := p\<lparr>p_TruthSlots := truth, p_ReasonSlots := reasons, p_TruthSlotCount := truthPeak,
             p_ReasonSlotCount := reasonPeak\<rparr>\<rparr>)))))"

section \<open>The bitmap of free slots\<close>

definition free_slots :: "u64 list \<Rightarrow> nat set" where
  "free_slots ws = {s. s \<noteq> 0 \<and> wbit ws (s - 1)}"

definition first_ok :: "u64 list \<Rightarrow> nat \<Rightarrow> bool" where
  "first_ok ws first \<longleftrightarrow> first \<le> length ws \<and> (\<forall>w < first. ws ! w = 0)"

lemma trailing_zeros_bit:
  assumes "w \<noteq> 0"
  shows "trailing_zeros w < 64" "bit w (trailing_zeros w)" "m < trailing_zeros w \<Longrightarrow> \<not> bit w m"
proof -
  let ?P = "\<lambda>n. \<not> bit w n" and ?l = "length (takeWhile (\<lambda>n. \<not> bit w n) [0..<64])"
  obtain k where "bit w k" using assms by (metis bit_eqI bit_0_eq bot_apply bot_bool_def)
  then have k: "bit w k" "k < 64" by (auto dest: bit_imp_le_length)
  show lt: "trailing_zeros w < 64"
  proof (rule ccontr)
    assume "\<not> trailing_zeros w < 64"
    then have "length (takeWhile ?P [0..<64]) = length [0..<64]"
      using length_takeWhile_le[of ?P "[0..<64]"] by (simp add: trailing_zeros_def)
    then have "takeWhile ?P [0..<64] = [0..<64]" by (metis append_eq_conv_conj takeWhile_dropWhile_id take_all_iff le_refl takeWhile_eq_take)
    then have "\<forall>n \<in> set [0..<64]. ?P n" by (metis takeWhile_eq_all_conv)
    then show False using k by auto
  qed
  show "bit w (trailing_zeros w)" using nth_length_takeWhile[of ?P "[0..<64]"] lt by (simp add: trailing_zeros_def)
  show "\<not> bit w m" if "m < trailing_zeros w"
  proof -
    have "takeWhile ?P [0..<64] ! m = m" using that lt by (simp add: trailing_zeros_def takeWhile_nth)
    then have "m \<in> set (takeWhile ?P [0..<64])" using that unfolding trailing_zeros_def by (metis nth_mem)
    then show ?thesis by (auto dest: set_takeWhileD)
  qed
qed

lemma free_slot_index: "row div 64 = w \<and> row mod 64 = b \<longleftrightarrow> row = w * 64 + b \<and> b < (64 :: nat)"
  by auto

lemma markSlotFree_Ok:
  assumes "slot \<noteq> 0" "(slot - 1) div 64 < length ws" "slot \<notin> free_slots ws" "first_ok ws first"
  shows "\<exists>ws' first'. markSlotFree ws slot first = Ok (ws', first') \<and> length ws' = length ws \<and>
    free_slots ws' = insert slot (free_slots ws) \<and> first_ok ws' first'"
proof -
  let ?r = "slot - 1" and ?w = "(slot - 1) div 64"
  have "\<not> wbit ws ?r" using assms(1,3) by (simp add: free_slots_def)
  then have z: "ws ! ?w AND row_bit ?r = 0" using assms(2) by (simp add: and_row_bit_eq_0 wbit_def)
  have "free_slots (ws[?w := ws ! ?w OR row_bit ?r]) = insert slot (free_slots ws)"
    using assms(1) unfolding free_slots_def wbit_list_update_or[OF assms(2)] by auto
  moreover have "first_ok (ws[?w := ws ! ?w OR row_bit ?r]) (if ?w < first then ?w else first)"
    using assms(2,4) by (auto simp: first_ok_def nth_list_update)
  ultimately show ?thesis using assms(1,2) z by (simp add: markSlotFree_def Let_def split: if_splits)
qed

lemma first_free_from_spec:
  "first_ok ws first \<Longrightarrow> first_ok ws (first_free_from ws first) \<and>
   (first_free_from ws first < length ws \<longrightarrow> ws ! first_free_from ws first \<noteq> 0)"
proof (induction ws first rule: first_free_from.induct)
  case (1 ws word)
  show ?case
  proof (cases "word < length ws \<and> ws ! word = 0")
    case True
    then have "first_ok ws (word + 1)" using 1(2) by (auto simp: first_ok_def less_Suc_eq)
    then show ?thesis using 1(1)[OF True] True by (subst (1 2 3) first_free_from.simps) simp
  next
    case False
    then have "first_free_from ws word = word" by (subst first_free_from.simps) auto
    then show ?thesis using 1(2) False by auto
  qed
qed

lemma wbit_zero_word: "wbit ws r \<Longrightarrow> ws ! (r div 64) \<noteq> 0"
  by (auto simp: wbit_def)

lemma wbit_clear:
  assumes "w < length ws" "b < 64"
  shows "wbit (ws[w := ws ! w AND NOT (push_bit b 1)]) r \<longleftrightarrow> wbit ws r \<and> r \<noteq> w * 64 + b"
  using assms free_slot_index[of r w b] by (auto simp: wbit_def nth_list_update bit_simps)

lemma takeLowestFreeSlot_spec:
  assumes f: "first_ok ws first"
  shows "free_slots ws = {} \<Longrightarrow> takeLowestFreeSlot ws first = (ws, length ws, None) \<and> first_ok ws (length ws)"
    and "free_slots ws \<noteq> {} \<Longrightarrow> \<exists>ws' first' s. takeLowestFreeSlot ws first = (ws', first', Some s) \<and> length ws' = length ws \<and>
      s \<in> free_slots ws \<and> (\<forall>t \<in> free_slots ws. s \<le> t) \<and> free_slots ws' = free_slots ws - {s} \<and> first_ok ws' first'"
proof -
  let ?w = "first_free_from ws first"
  have w: "first_ok ws ?w" "?w < length ws \<Longrightarrow> ws ! ?w \<noteq> 0" using first_free_from_spec[OF f] by blast+
  have below: "?w \<le> r div 64" if "wbit ws r" for r
    using w(1) wbit_zero_word[OF that] unfolding first_ok_def by (meson not_le)
  have inside: "r div 64 < length ws" if "wbit ws r" for r using that by (simp add: wbit_def)
  show "takeLowestFreeSlot ws first = (ws, length ws, None) \<and> first_ok ws (length ws)" if "free_slots ws = {}"
  proof -
    have "\<not> ?w < length ws"
    proof
      assume l: "?w < length ws"
      note tz = trailing_zeros_bit[OF w(2)[OF l]]
      have "wbit ws (?w * 64 + trailing_zeros (ws ! ?w))" using l tz by (simp add: wbit_def)
      then have "?w * 64 + trailing_zeros (ws ! ?w) + 1 \<in> free_slots ws" by (simp add: free_slots_def)
      then show False using that by simp
    qed
    then have "?w = length ws" using w(1) by (simp add: first_ok_def)
    then show ?thesis using w(1) by (simp add: takeLowestFreeSlot_def)
  qed
  show "\<exists>ws' first' s. takeLowestFreeSlot ws first = (ws', first', Some s) \<and> length ws' = length ws \<and>
      s \<in> free_slots ws \<and> (\<forall>t \<in> free_slots ws. s \<le> t) \<and> free_slots ws' = free_slots ws - {s} \<and> first_ok ws' first'"
    if "free_slots ws \<noteq> {}"
  proof -
    obtain r where "wbit ws r" using \<open>free_slots ws \<noteq> {}\<close> by (auto simp: free_slots_def)
    then have l: "?w < length ws" using below inside by (meson le_less_trans)
    let ?b = "trailing_zeros (ws ! ?w)"
    note tz = trailing_zeros_bit[OF w(2)[OF l]]
    let ?x = "ws ! ?w AND NOT (push_bit ?b 1)"
    have s: "wbit ws (?w * 64 + ?b)" using l tz by (simp add: wbit_def)
    have least: "?w * 64 + ?b \<le> r" if "wbit ws r" for r
    proof (cases "r div 64 = ?w")
      case True
      then have "\<not> r mod 64 < ?b" using tz(3) that by (auto simp: wbit_def)
      then show ?thesis using True by (metis add_left_mono div_mult_mod_eq not_less)
    next
      case False
      then have "?w + 1 \<le> r div 64" using below[OF that] by simp
      then have "(?w + 1) * 64 \<le> r div 64 * 64" by (rule mult_le_mono1)
      then have "?w * 64 + 64 \<le> r div 64 * 64" by (simp only: add_mult_distrib mult_1)
      then show ?thesis using tz(1) div_times_less_eq_dividend[of r 64] by linarith
    qed
    have "free_slots (ws[?w := ?x]) = free_slots ws - {?w * 64 + ?b + 1}"
      unfolding free_slots_def wbit_clear[OF l tz(1)] by force
    moreover have "first_ok (ws[?w := ?x]) (if ?x = 0 then ?w + 1 else ?w)"
      using w(1) l by (auto simp: first_ok_def nth_list_update less_Suc_eq)
    moreover have "\<forall>t \<in> free_slots ws. ?w * 64 + ?b + 1 \<le> t" using least by (fastforce simp: free_slots_def)
    moreover have "?w * 64 + ?b + 1 \<in> free_slots ws" using s by (simp add: free_slots_def)
    ultimately show ?thesis using l by (simp add: takeLowestFreeSlot_def Let_def)
  qed
qed

section \<open>The release lists\<close>

fun chain :: "nat list \<Rightarrow> nat \<Rightarrow> nat list \<Rightarrow> bool" where
  "chain nexts k [] \<longleftrightarrow> k = 0"
| "chain nexts k (j # js) \<longleftrightarrow> k = j + 1 \<and> j < length nexts \<and> chain nexts (nexts ! j) js"

lemma chain_update: "m \<notin> set js \<Longrightarrow> chain (nexts[m := v]) k js = chain nexts k js"
  by (induction js arbitrary: k) auto

definition released :: "bool list option \<Rightarrow> nat list \<Rightarrow> nat \<Rightarrow> nat \<Rightarrow> nat list" where
  "released alive lastUses m r = rev (filter (\<lambda>j. row_live alive j \<and> j < r \<and> lastUses ! j = r) [0..<m])"

definition uses_ok :: "bool list option \<Rightarrow> nat list \<Rightarrow> bool" where
  "uses_ok alive lastUses \<longleftrightarrow> (\<forall>row < length lastUses. row_live alive row \<longrightarrow> row \<le> lastUses ! row \<and> lastUses ! row \<le> length lastUses)"

lemma released_Suc: "released alive lastUses (Suc m) r =
    (if row_live alive m \<and> m < r \<and> lastUses ! m = r then m # released alive lastUses m r else released alive lastUses m r)"
  by (simp add: released_def)

lemma released_bound: "j \<in> set (released alive lastUses m r) \<Longrightarrow> j < m"
  by (auto simp: released_def)

definition links_ok :: "bool list option \<Rightarrow> nat list \<Rightarrow> nat \<Rightarrow> nat list \<times> nat list \<Rightarrow> bool" where
  "links_ok alive lastUses m acc \<longleftrightarrow> (case acc of (heads, nexts) \<Rightarrow>
     length heads = length lastUses \<and> length nexts = length lastUses \<and>
     (\<forall>r < length lastUses. chain nexts (heads ! r) (released alive lastUses m r)))"

lemma link_row_Ok:
  assumes u: "uses_ok alive lastUses" and m: "m < length lastUses" and l: "links_ok alive lastUses m acc"
  shows "\<exists>acc'. link_row alive lastUses m acc = Ok acc' \<and> links_ok alive lastUses (Suc m) acc'"
proof -
  obtain heads nexts where acc: "acc = (heads, nexts)" by (cases acc) auto
  let ?r = "lastUses ! m"
  have len: "length heads = length lastUses" "length nexts = length lastUses"
    and ch: "\<And>r. r < length lastUses \<Longrightarrow> chain nexts (heads ! r) (released alive lastUses m r)" using l acc by (auto simp: links_ok_def)
  show ?thesis
  proof (cases "row_live alive m \<and> m < ?r \<and> ?r < length lastUses")
    case True
    have "link_row alive lastUses m acc = Ok (heads[?r := m + 1], nexts[m := heads ! ?r])"
      using True len m by (simp add: link_row_def acc Let_def)
    moreover have "chain (nexts[m := heads ! ?r]) (heads[?r := m + 1] ! r) (released alive lastUses (Suc m) r)" if "r < length lastUses" for r
    proof -
      have c: "chain (nexts[m := heads ! ?r]) (heads ! r) (released alive lastUses m r)"
        using ch[OF that] chain_update[of m "released alive lastUses m r"] released_bound by blast
      show ?thesis
      proof (cases "r = ?r")
        case True
        then show ?thesis using c that len m \<open>row_live alive m \<and> m < ?r \<and> ?r < length lastUses\<close> by (simp add: released_Suc)
      qed (use c len that in \<open>simp add: released_Suc\<close>)
    qed
    ultimately show ?thesis using len by (simp add: links_ok_def)
  next
    case False
    then have "link_row alive lastUses m acc = Ok acc" using u m by (auto simp: link_row_def acc Let_def uses_ok_def)
    moreover have "released alive lastUses (Suc m) r = released alive lastUses m r" if "r < length lastUses" for r
      using False that by (auto simp: released_Suc)
    ultimately show ?thesis using l acc by (simp add: links_ok_def)
  qed
qed

lemma res_foldM_upt:
  assumes "P 0 s" and "\<And>m s. m < n \<Longrightarrow> P m s \<Longrightarrow> \<exists>s'. f m s = Ok s' \<and> P (Suc m) s'"
  shows "\<exists>s'. res_foldM f [0..<n] s = Ok s' \<and> P n s'"
  using assms(2)
proof (induction n)
  case (Suc n)
  then obtain s1 where "res_foldM f [0..<n] s = Ok s1" "P n s1" by (metis less_SucI)
  moreover obtain s2 where "f n s1 = Ok s2" "P (Suc n) s2" using Suc.prems[of n s1] \<open>P n s1\<close> by blast
  ultimately show ?case by (simp add: res_foldM_append)
qed (use assms(1) in simp)

lemma links_built:
  assumes "uses_ok alive lastUses"
  shows "\<exists>heads nexts. res_foldM (link_row alive lastUses) [0..<length lastUses] (replicate (length lastUses) 0, replicate (length lastUses) 0) = Ok (heads, nexts) \<and>
    links_ok alive lastUses (length lastUses) (heads, nexts)"
proof -
  have "links_ok alive lastUses 0 (replicate (length lastUses) 0, replicate (length lastUses) 0)" by (simp add: links_ok_def released_def)
  from res_foldM_upt[where P = "links_ok alive lastUses", OF this link_row_Ok[OF assms]] show ?thesis by auto
qed

text \<open>A walk over a release list frees the slots of its rows; the fuel is not used up.\<close>

lemma release_loop_Ok:
  assumes "chain nexts k js" "length js < fuel" "\<forall>j \<in> set js. j < n \<and> row_live alive j \<and> j < length (sl_dst st)"
    "distinct (map ((!) (sl_dst st)) js)" "\<forall>j \<in> set js. sl_dst st ! j \<noteq> 0 \<and> (sl_dst st ! j - 1) div 64 < length (sl_words st) \<and>
      sl_dst st ! j \<notin> free_slots (sl_words st)" "first_ok (sl_words st) (sl_first st)"
  shows "\<exists>ws first. release_loop fuel nexts alive n k st = Ok (st\<lparr>sl_words := ws, sl_first := first\<rparr>) \<and> length ws = length (sl_words st) \<and>
    free_slots ws = free_slots (sl_words st) \<union> (!) (sl_dst st) ` set js \<and> first_ok ws first"
  using assms
proof (induction js arbitrary: k fuel st)
  case Nil
  then show ?case by (cases fuel) (auto intro!: exI[of _ "sl_words st"] exI[of _ "sl_first st"])
next
  case (Cons j js)
  obtain f where f: "fuel = Suc f" using Cons.prems(2) by (cases fuel) auto
  have k: "k = j + 1" "j < length nexts" "chain nexts (nexts ! j) js" using Cons.prems(1) by auto
  obtain ws first where m: "markSlotFree (sl_words st) (sl_dst st ! j) (sl_first st) = Ok (ws, first)" "length ws = length (sl_words st)"
    "free_slots ws = insert (sl_dst st ! j) (free_slots (sl_words st))" "first_ok ws first"
    using markSlotFree_Ok[of "sl_dst st ! j" "sl_words st" "sl_first st"] Cons.prems(5,6) by auto
  let ?st = "st\<lparr>sl_words := ws, sl_first := first\<rparr>"
  have "\<exists>ws' first'. release_loop f nexts alive n (nexts ! j) ?st = Ok (?st\<lparr>sl_words := ws', sl_first := first'\<rparr>) \<and> length ws' = length (sl_words ?st) \<and>
    free_slots ws' = free_slots (sl_words ?st) \<union> (!) (sl_dst ?st) ` set js \<and> first_ok ws' first'"
  proof (rule Cons.IH[OF k(3)])
    show "\<forall>i \<in> set js. sl_dst ?st ! i \<noteq> 0 \<and> (sl_dst ?st ! i - 1) div 64 < length (sl_words ?st) \<and> sl_dst ?st ! i \<notin> free_slots (sl_words ?st)"
      using Cons.prems(4,5) m(2,3) by (auto simp: image_iff)
  qed (use Cons.prems f m in auto)
  then obtain ws' first' where "release_loop f nexts alive n (nexts ! j) ?st = Ok (st\<lparr>sl_words := ws', sl_first := first'\<rparr>)"
    "length ws' = length (sl_words st)" "free_slots ws' = insert (sl_dst st ! j) (free_slots (sl_words st)) \<union> (!) (sl_dst st) ` set js" "first_ok ws' first'"
    using m(2,3) by auto
  then show ?case using f k(1,2) m(1) Cons.prems(3) by auto
qed

section \<open>The allocation\<close>

text \<open>The rows whose values a row still has to keep: \<open>pending\<close> before and \<open>conflicting\<close> after its releases.\<close>

definition pending :: "bool list option \<Rightarrow> nat list \<Rightarrow> nat \<Rightarrow> nat set" where
  "pending alive lastUses row = {j. j < row \<and> row_live alive j \<and> row \<le> lastUses ! j}"

definition conflicting :: "bool list option \<Rightarrow> nat list \<Rightarrow> nat \<Rightarrow> nat set" where
  "conflicting alive lastUses row = {j. j < row \<and> row_live alive j \<and> row < lastUses ! j}"

definition alloc_inv :: "bool list option \<Rightarrow> nat list \<Rightarrow> nat \<Rightarrow> slot_state \<Rightarrow> bool" where
  "alloc_inv alive lastUses row st \<longleftrightarrow>
     length (sl_dst st) = length lastUses \<and> length (sl_words st) = slotWordCount (length lastUses) \<and>
     first_ok (sl_words st) (sl_first st) \<and> sl_peak st \<le> row \<and>
     inj_on ((!) (sl_dst st)) (pending alive lastUses row) \<and>
     free_slots (sl_words st) \<inter> (!) (sl_dst st) ` pending alive lastUses row = {} \<and>
     free_slots (sl_words st) \<union> (!) (sl_dst st) ` pending alive lastUses row = {1..sl_peak st} \<and>
     (\<forall>k < row. row_live alive k \<longrightarrow> 1 \<le> sl_dst st ! k \<and> sl_dst st ! k \<le> sl_peak st \<and>
        (\<forall>j \<in> conflicting alive lastUses k. sl_dst st ! j \<noteq> sl_dst st ! k)) \<and>
     (sl_peak st = 0 \<or> (\<exists>r < row. row_live alive r \<and> sl_peak st = card (conflicting alive lastUses r) + 1))"

lemma finite_conflicting [simp]: "finite (conflicting alive lastUses row)"
  by (rule finite_subset[of _ "{..<row}"]) (auto simp: conflicting_def)

lemma pending_split:
  "pending alive lastUses row = conflicting alive lastUses row \<union> {j. j < row \<and> row_live alive j \<and> lastUses ! j = row}"
  by (auto simp: pending_def conflicting_def)

lemma slotWordCount_bound: "s \<noteq> 0 \<Longrightarrow> s \<le> n \<Longrightarrow> (s - 1) div 64 < slotWordCount n"
proof -
  assume "s \<noteq> 0" "s \<le> n"
  then have "s - 1 < n" by simp
  then have "(s - 1) div 64 \<le> (n - 1) div 64" by (intro div_le_mono) simp
  moreover have "n = 64 * (n div 64) + n mod 64" by simp
  ultimately show ?thesis using \<open>s - 1 < n\<close> unfolding slotWordCount_def Let_def by (auto simp: less_Suc_eq_le)
qed

text \<open>The state after the releases of a row.\<close>

definition released_inv :: "bool list option \<Rightarrow> nat list \<Rightarrow> nat \<Rightarrow> slot_state \<Rightarrow> slot_state \<Rightarrow> bool" where
  "released_inv alive lastUses row st st' \<longleftrightarrow> sl_dst st' = sl_dst st \<and> sl_peak st' = sl_peak st \<and>
     length (sl_words st') = slotWordCount (length lastUses) \<and> first_ok (sl_words st') (sl_first st') \<and>
     inj_on ((!) (sl_dst st)) (conflicting alive lastUses row) \<and>
     free_slots (sl_words st') \<inter> (!) (sl_dst st) ` conflicting alive lastUses row = {} \<and>
     free_slots (sl_words st') \<union> (!) (sl_dst st) ` conflicting alive lastUses row = {1..sl_peak st}"

lemma release_row_Ok:
  assumes inv: "alloc_inv alive lastUses row st" and row: "row < length lastUses" and l: "links_ok alive lastUses (length lastUses) (heads, nexts)"
  shows "\<exists>st'. release_loop (length lastUses + 1) nexts alive (length lastUses) (heads ! row) st = Ok st' \<and> released_inv alive lastUses row st st'"
proof -
  let ?js = "released alive lastUses (length lastUses) row" and ?c = "conflicting alive lastUses row"
  note i = inv[unfolded alloc_inv_def]
  have js: "set ?js = {j. j < row \<and> row_live alive j \<and> lastUses ! j = row}" using row by (auto simp: released_def)
  then have sub: "set ?js \<subseteq> pending alive lastUses row" by (auto simp: pending_def)
  have d: "distinct ?js" by (simp add: released_def)
  have pend: "?c \<union> set ?js = pending alive lastUses row" "?c \<inter> set ?js = {}"
    unfolding pending_split js by (auto simp: conflicting_def)
  have slot: "sl_dst st ! j \<in> {1..sl_peak st}" if "j \<in> set ?js" for j using that sub i by blast
  have peak: "sl_peak st \<le> length lastUses" using i row by linarith
  obtain ws first where w: "release_loop (length lastUses + 1) nexts alive (length lastUses) (heads ! row) st = Ok (st\<lparr>sl_words := ws, sl_first := first\<rparr>)"
    "length ws = length (sl_words st)" "free_slots ws = free_slots (sl_words st) \<union> (!) (sl_dst st) ` set ?js" "first_ok ws first"
  proof -
    have "\<exists>ws first. release_loop (length lastUses + 1) nexts alive (length lastUses) (heads ! row) st = Ok (st\<lparr>sl_words := ws, sl_first := first\<rparr>) \<and>
      length ws = length (sl_words st) \<and> free_slots ws = free_slots (sl_words st) \<union> (!) (sl_dst st) ` set ?js \<and> first_ok ws first"
    proof (rule release_loop_Ok)
      show "chain nexts (heads ! row) ?js" using l row by (simp add: links_ok_def)
      show "length ?js < length lastUses + 1" using length_filter_le[of _ "[0..<length lastUses]"] by (simp add: released_def less_Suc_eq_le)
      show "\<forall>j \<in> set ?js. j < length lastUses \<and> row_live alive j \<and> j < length (sl_dst st)" using js row i by auto
      show "distinct (map ((!) (sl_dst st)) ?js)" using d sub i by (auto simp: distinct_map intro: inj_on_subset)
      show "\<forall>j \<in> set ?js. sl_dst st ! j \<noteq> 0 \<and> (sl_dst st ! j - 1) div 64 < length (sl_words st) \<and> sl_dst st ! j \<notin> free_slots (sl_words st)"
      proof
        fix j assume j: "j \<in> set ?js"
        have "(sl_dst st ! j - 1) div 64 < slotWordCount (length lastUses)" using slot[OF j] peak by (intro slotWordCount_bound) auto
        then show "sl_dst st ! j \<noteq> 0 \<and> (sl_dst st ! j - 1) div 64 < length (sl_words st) \<and> sl_dst st ! j \<notin> free_slots (sl_words st)"
          using slot[OF j] i sub j by auto
      qed
      show "first_ok (sl_words st) (sl_first st)" using i by simp
    qed
    then show ?thesis using that by blast
  qed
  have inj: "inj_on ((!) (sl_dst st)) (?c \<union> set ?js)" using i pend(1) by simp
  then have "(!) (sl_dst st) ` ?c \<inter> (!) (sl_dst st) ` set ?js = {}" using pend(2) by (metis image_empty inj_on_image_Int Un_upper1 Un_upper2)
  then have "released_inv alive lastUses row st (st\<lparr>sl_words := ws, sl_first := first\<rparr>)"
    using i w(2-4) inj unfolding released_inv_def pend(1)[symmetric] by (auto simp: image_Un inj_on_Un)
  then show ?thesis using w(1) by blast
qed

text \<open>The state after a slot was taken for a row: the slot is neither free nor held, and the peak grows only when
  every slot is held.\<close>

definition taken_inv :: "bool list option \<Rightarrow> nat list \<Rightarrow> nat \<Rightarrow> slot_state \<Rightarrow> slot_state \<Rightarrow> nat \<Rightarrow> bool" where
  "taken_inv alive lastUses row st st' slot \<longleftrightarrow> sl_dst st' = sl_dst st \<and>
     length (sl_words st') = slotWordCount (length lastUses) \<and> first_ok (sl_words st') (sl_first st') \<and>
     inj_on ((!) (sl_dst st)) (conflicting alive lastUses row) \<and>
     free_slots (sl_words st') \<inter> (!) (sl_dst st) ` conflicting alive lastUses row = {} \<and>
     slot \<notin> free_slots (sl_words st') \<union> (!) (sl_dst st) ` conflicting alive lastUses row \<and>
     insert slot (free_slots (sl_words st') \<union> (!) (sl_dst st) ` conflicting alive lastUses row) = {1..sl_peak st'} \<and>
     (sl_peak st' = sl_peak st \<or> sl_peak st' = card (conflicting alive lastUses row) + 1 \<and> sl_peak st' = sl_peak st + 1)"

lemma take_slot_Ok:
  assumes r: "released_inv alive lastUses row st st1" and peak: "sl_peak st < MaxUint32"
  shows "\<exists>st2 slot. take_slot st1 = Ok (st2, slot) \<and> taken_inv alive lastUses row st st2 slot"
proof -
  let ?c = "conflicting alive lastUses row" and ?d = "(!) (sl_dst st)"
  have i: "sl_dst st1 = sl_dst st" "sl_peak st1 = sl_peak st" "length (sl_words st1) = slotWordCount (length lastUses)"
    "first_ok (sl_words st1) (sl_first st1)" "free_slots (sl_words st1) \<inter> ?d ` ?c = {}" "free_slots (sl_words st1) \<union> ?d ` ?c = {1..sl_peak st}"
    and inj: "inj_on ?d ?c" using r unfolding released_inv_def by simp_all
  show ?thesis
  proof (cases "free_slots (sl_words st1) = {}")
    case True
    have t: "takeLowestFreeSlot (sl_words st1) (sl_first st1) = (sl_words st1, length (sl_words st1), None)" "first_ok (sl_words st1) (length (sl_words st1))"
      using takeLowestFreeSlot_spec(1)[OF i(4) True] by simp_all
    let ?st = "st1\<lparr>sl_words := sl_words st1, sl_first := length (sl_words st1), sl_peak := sl_peak st1 + 1\<rparr>"
    have held: "?d ` ?c = {1..sl_peak st}" using i(6) True by simp
    then have "card ?c = sl_peak st" using card_image[OF inj] by simp
    then have "taken_inv alive lastUses row st ?st (sl_peak st1 + 1)"
      using i(1-4) inj t(2) by (simp add: taken_inv_def held True atLeastAtMostSuc_conv)
    moreover have "take_slot st1 = Ok (?st, sl_peak st1 + 1)" unfolding take_slot_def t(1) Let_def using i(2) peak by simp
    ultimately show ?thesis by (intro exI conjI)
  next
    case False
    obtain ws first s where t: "takeLowestFreeSlot (sl_words st1) (sl_first st1) = (ws, first, Some s)" "length ws = length (sl_words st1)"
      "s \<in> free_slots (sl_words st1)" "free_slots ws = free_slots (sl_words st1) - {s}" "first_ok ws first"
      using takeLowestFreeSlot_spec(2)[OF i(4) False] by (elim exE conjE) simp
    have "s \<notin> ?d ` ?c" "(free_slots (sl_words st1) - {s}) \<inter> ?d ` ?c = {}"
      "insert s (free_slots (sl_words st1) - {s} \<union> ?d ` ?c) = {1..sl_peak st}" using i(5) t(3) i(6) by blast+
    then have "taken_inv alive lastUses row st (st1\<lparr>sl_words := ws, sl_first := first\<rparr>) s"
      using i(1-3) inj t(2,5) by (simp add: taken_inv_def t(4))
    moreover have "take_slot st1 = Ok (st1\<lparr>sl_words := ws, sl_first := first\<rparr>, s)" unfolding take_slot_def t(1) Let_def by simp
    ultimately show ?thesis by (intro exI conjI)
  qed
qed

lemma pending_Suc:
  "pending alive lastUses (Suc row) =
     conflicting alive lastUses row \<union> (if row_live alive row \<and> row < lastUses ! row then {row} else {})"
  by (auto simp: pending_def conflicting_def less_Suc_eq Suc_le_eq)

lemma place_inv:
  assumes inv: "alloc_inv alive lastUses row st" and row: "row < length lastUses" and alive: "row_live alive row"
    and use: "row \<le> lastUses ! row" and t: "taken_inv alive lastUses row st st2 slot"
    and st': "sl_dst st' = (sl_dst st)[row := slot]" "sl_peak st' = sl_peak st2" "length (sl_words st') = slotWordCount (length lastUses)"
      "first_ok (sl_words st') (sl_first st')"
      "free_slots (sl_words st') = (if lastUses ! row = row then insert slot (free_slots (sl_words st2)) else free_slots (sl_words st2))"
  shows "alloc_inv alive lastUses (Suc row) st'"
proof -
  let ?c = "conflicting alive lastUses row" and ?d = "(!) (sl_dst st)" and ?d' = "(!) (sl_dst st')"
  note i = inv[unfolded alloc_inv_def]
  have u: "inj_on ?d ?c" "free_slots (sl_words st2) \<inter> ?d ` ?c = {}" "slot \<notin> free_slots (sl_words st2) \<union> ?d ` ?c"
    "insert slot (free_slots (sl_words st2) \<union> ?d ` ?c) = {1..sl_peak st2}"
    "sl_peak st2 = sl_peak st \<or> sl_peak st2 = card ?c + 1 \<and> sl_peak st2 = sl_peak st + 1" using t unfolding taken_inv_def by blast+
  have len: "length (sl_dst st) = length lastUses" and lep: "sl_peak st \<le> row" using i by blast+
  have old: "?d' j = ?d j" if "j < row" for j using that st'(1) by simp
  have new: "?d' row = slot" using st'(1) row len by simp
  have below: "j < row" if "j \<in> conflicting alive lastUses k" "k \<le> row" for j k using that by (auto simp: conflicting_def)
  have img: "?d' ` ?c = ?d ` ?c" using old below[OF _ order_refl] by (intro image_cong) auto
  have inj: "inj_on ?d' ?c" using u(1) old below[OF _ order_refl] by (metis (no_types, lifting) inj_on_cong)
  have peak: "sl_peak st \<le> sl_peak st'" "sl_peak st' \<le> Suc row" using u(5) st'(2) lep by auto
  have slot: "slot \<in> {1..sl_peak st'}" using u(4) st'(2) by (metis insertI1)
  have iv: "1 \<le> ?d k" "?d k \<le> sl_peak st" "j \<in> conflicting alive lastUses k \<Longrightarrow> ?d j \<noteq> ?d k" if "k < row" "row_live alive k" for j k
    using that i by blast+
  have rows: "1 \<le> ?d' k \<and> ?d' k \<le> sl_peak st' \<and> (\<forall>j \<in> conflicting alive lastUses k. ?d' j \<noteq> ?d' k)"
    if k: "k < Suc row" "row_live alive k" for k
  proof (cases "k = row")
    case True
    have "?d' j \<noteq> slot" if "j \<in> ?c" for j using that u(3) old[OF below[OF that]] by auto
    then show ?thesis using slot new True by auto
  next
    case False
    then have kr: "k < row" using k(1) by simp
    have "?d' j \<noteq> ?d' k" if "j \<in> conflicting alive lastUses k" for j
      using iv(3)[OF kr k(2) that] old[OF kr] old[OF below[OF that]] kr by simp
    then show ?thesis using iv(1,2)[OF kr k(2)] old[OF kr] peak(1) by simp
  qed
  have pk: "sl_peak st' = 0 \<or> (\<exists>r < Suc row. row_live alive r \<and> sl_peak st' = card (conflicting alive lastUses r) + 1)"
  proof (cases "sl_peak st2 = sl_peak st")
    case True
    then show ?thesis using i st'(2) less_SucI by metis
  next
    case False
    then show ?thesis using u(5) st'(2) alive by auto
  qed
  have p: "pending alive lastUses (Suc row) = (if lastUses ! row = row then ?c else insert row ?c)" using alive use by (auto simp: pending_Suc)
  have "row \<notin> ?c" by (simp add: conflicting_def)
  then have "inj_on ?d' (pending alive lastUses (Suc row))" using inj u(3) img new unfolding p by auto
  moreover have "free_slots (sl_words st') \<inter> ?d' ` pending alive lastUses (Suc row) = {}"
    using u(2,3) img new st'(5) unfolding p by auto
  moreover have "free_slots (sl_words st') \<union> ?d' ` pending alive lastUses (Suc row) = {1..sl_peak st'}"
    using u(4) img new st'(2,5) unfolding p by auto
  moreover have "length (sl_dst st') = length lastUses" using st'(1) len by simp
  ultimately show ?thesis unfolding alloc_inv_def using st'(3,4) rows pk peak(2) by blast
qed

lemma alloc_row_Ok:
  assumes u: "uses_ok alive lastUses" and n: "length lastUses \<le> MaxUint32" and l: "links_ok alive lastUses (length lastUses) (heads, nexts)"
    and row: "row < length lastUses" and inv: "alloc_inv alive lastUses row st"
  shows "\<exists>st'. alloc_row heads nexts alive lastUses row st = Ok st' \<and> alloc_inv alive lastUses (Suc row) st'"
proof -
  have h: "idx heads row = Ok (heads ! row)" using l row by (simp add: links_ok_def)
  obtain st1 where rl: "release_loop (Suc (length lastUses)) nexts alive (length lastUses) (heads ! row) st = Ok st1"
    and r: "released_inv alive lastUses row st st1" using release_row_Ok[OF inv row l] by (elim exE conjE) (simp del: release_loop.simps)
  show ?thesis
  proof (cases "row_live alive row")
    case False
    have "pending alive lastUses (Suc row) = conflicting alive lastUses row" using False by (simp add: pending_Suc)
    then have "alloc_inv alive lastUses (Suc row) st1"
      using inv r False unfolding alloc_inv_def released_inv_def by (simp add: less_Suc_eq) (metis less_Suc_eq)
    then show ?thesis using False by (simp add: alloc_row_def Let_def h rl del: release_loop.simps)
  next
    case True
    have use: "row \<le> lastUses ! row" using u row True by (simp add: uses_ok_def)
    have len: "length (sl_dst st) = length lastUses" and peak: "sl_peak st < MaxUint32" using inv row n by (auto simp: alloc_inv_def)
    obtain st2 slot where tk: "take_slot st1 = Ok (st2, slot)" and t: "taken_inv alive lastUses row st st2 slot"
      using take_slot_Ok[OF r peak] by blast
    have t2: "sl_dst st2 = sl_dst st" "length (sl_words st2) = slotWordCount (length lastUses)" "first_ok (sl_words st2) (sl_first st2)"
      using t unfolding taken_inv_def by blast+
    have up: "upd (sl_dst st2) row slot = Ok ((sl_dst st)[row := slot])" using t2(1) len row by simp
    let ?st = "st2\<lparr>sl_dst := (sl_dst st)[row := slot]\<rparr>"
    show ?thesis
    proof (cases "lastUses ! row = row")
      case False
      have "alloc_inv alive lastUses (Suc row) ?st" using False by (intro place_inv[OF inv row True use t]) (simp_all add: t2)
      then show ?thesis using True False by (simp add: alloc_row_def Let_def h rl tk up del: release_loop.simps)
    next
      case self: True
      have s: "slot \<notin> free_slots (sl_words st2)" "slot \<in> {1..sl_peak st2}" using t unfolding taken_inv_def by blast+
      have "sl_peak st2 \<le> sl_peak st + 1" using t unfolding taken_inv_def by (elim conjE disjE) simp_all
      then have s1: "slot \<noteq> 0" "slot \<le> length lastUses" using s(2) inv row by (auto simp: alloc_inv_def)
      then have "(slot - 1) div 64 < length (sl_words st2)" using slotWordCount_bound t2(2) by simp
      from markSlotFree_Ok[OF s1(1) this s(1) t2(3)] obtain ws first where m: "markSlotFree (sl_words st2) slot (sl_first st2) = Ok (ws, first)"
        "length ws = length (sl_words st2)" "free_slots ws = insert slot (free_slots (sl_words st2))" "first_ok ws first" by blast
      have "alloc_inv alive lastUses (Suc row) (?st\<lparr>sl_words := ws, sl_first := first\<rparr>)"
        using self by (intro place_inv[OF inv row True use t]) (simp_all add: t2 m)
      then show ?thesis using True self by (simp add: alloc_row_def Let_def h rl tk up m(1) del: release_loop.simps)
    qed
  qed
qed

section \<open>Allocations\<close>

text \<open>An assignment of slots to the live rows in which no row takes the slot of a value that is still to be read.\<close>

definition assignment_ok :: "bool list option \<Rightarrow> nat list \<Rightarrow> (nat \<Rightarrow> nat) \<Rightarrow> nat \<Rightarrow> bool" where
  "assignment_ok alive lastUses f m \<longleftrightarrow> (\<forall>k < length lastUses. row_live alive k \<longrightarrow> 1 \<le> f k \<and> f k \<le> m \<and>
     (\<forall>j < k. row_live alive j \<and> k < lastUses ! j \<longrightarrow> f j \<noteq> f k))"

lemma assignment_lower_bound:
  assumes a: "assignment_ok alive lastUses f m" and r: "r < length lastUses" "row_live alive r"
  shows "card (conflicting alive lastUses r) + 1 \<le> m"
proof -
  let ?s = "insert r (conflicting alive lastUses r)"
  have s: "k < length lastUses \<and> row_live alive k" if "k \<in> ?s" for k using that r by (auto simp: conflicting_def)
  have ne: "f j \<noteq> f k" if "j \<in> ?s" "k \<in> ?s" "j < k" for j k
  proof -
    have "row_live alive j" "k < lastUses ! j" using that by (auto simp: conflicting_def)
    then show ?thesis using a s[OF that(2)] that(3) unfolding assignment_ok_def by blast
  qed
  then have "inj_on f ?s" by (metis inj_onI linorder_neqE_nat)
  moreover have "f ` ?s \<subseteq> {1..m}" using a s unfolding assignment_ok_def by force
  ultimately have "card ?s \<le> card {1..m}" by (metis card_image card_mono finite_atLeastAtMost)
  moreover have "r \<notin> conflicting alive lastUses r" by (simp add: conflicting_def)
  ultimately show ?thesis by simp
qed

theorem allocateSlots_total:
  assumes u: "uses_ok alive lastUses" and n: "length lastUses \<le> MaxUint32"
    and len: "length dst = length lastUses" "\<forall>l. alive = Some l \<longrightarrow> length l = length lastUses"
  shows "\<exists>slots peak. allocateSlots lastUses alive dst slotReuse = Ok (slots, peak) \<and> length slots = length lastUses \<and>
    assignment_ok alive lastUses ((!) slots) peak \<and> (\<forall>f m. assignment_ok alive lastUses f m \<longrightarrow> peak \<le> m)"
proof -
  let ?n = "length lastUses"
  let ?s0 = "\<lparr>sl_words = replicate (slotWordCount ?n) 0, sl_first = slotWordCount ?n, sl_peak = 0, sl_dst = dst\<rparr>"
  obtain heads nexts where k: "res_foldM (link_row alive lastUses) [0..<?n] (replicate ?n 0, replicate ?n 0) = Ok (heads, nexts)"
    "links_ok alive lastUses ?n (heads, nexts)" using links_built[OF u] by blast
  have "alloc_inv alive lastUses 0 ?s0"
    using len(1) by (simp add: alloc_inv_def first_ok_def free_slots_def pending_def wbit_def)
  from res_foldM_upt[where P = "alloc_inv alive lastUses" and f = "alloc_row heads nexts alive lastUses", OF this alloc_row_Ok[OF u n k(2)]]
  obtain st where st: "res_foldM (alloc_row heads nexts alive lastUses) [0..<?n] ?s0 = Ok st" "alloc_inv alive lastUses ?n st" by blast
  have "allocateSlots lastUses alive dst slotReuse = Ok (sl_dst st, sl_peak st)"
    unfolding allocateSlots_def Let_def using len by (simp add: k(1) st(1) split: option.splits)
  moreover have "assignment_ok alive lastUses ((!) (sl_dst st)) (sl_peak st)"
    using st(2) unfolding assignment_ok_def alloc_inv_def conflicting_def by auto
  moreover have "sl_peak st \<le> m" if "assignment_ok alive lastUses f m" for f m
    using st(2) assignment_lower_bound[OF that] unfolding alloc_inv_def by (metis le0)
  ultimately show ?thesis using st(2) unfolding alloc_inv_def by blast
qed

lemma retain_Ok:
  assumes "length dst = n" "n \<le> MaxUint32"
  shows "\<exists>slots peak. res_foldM (retain_row alive) [0..<n] (dst, 0) = Ok (slots, peak) \<and> length slots = n \<and>
    (\<forall>k < n. row_live alive k \<longrightarrow> 1 \<le> slots ! k \<and> slots ! k \<le> peak \<and> (\<forall>j < k. row_live alive j \<longrightarrow> slots ! j \<noteq> slots ! k))"
proof -
  let ?P = "\<lambda>m (slots, peak). length slots = n \<and> peak \<le> m \<and>
    (\<forall>k < m. row_live alive k \<longrightarrow> 1 \<le> slots ! k \<and> slots ! k \<le> peak \<and> (\<forall>j < k. row_live alive j \<longrightarrow> slots ! j \<noteq> slots ! k))"
  have step: "\<exists>s'. retain_row alive m s = Ok s' \<and> ?P (Suc m) s'" if m: "m < n" and s: "?P m s" for m s
  proof -
    obtain slots peak where sp: "s = (slots, peak)" by (cases s) auto
    show ?thesis
    proof (cases "row_live alive m")
      case True
      have "peak \<noteq> MaxUint32" using s m assms(2) sp by auto
      then have "retain_row alive m s = Ok (slots[m := peak + 1], peak + 1)" using True s sp m by (simp add: retain_row_def)
      moreover have "?P (Suc m) (slots[m := peak + 1], peak + 1)" using s sp m by (auto simp: less_Suc_eq nth_list_update le_SucI)
      ultimately show ?thesis by blast
    next
      case False
      then show ?thesis using s sp by (auto simp: retain_row_def less_Suc_eq)
    qed
  qed
  from res_foldM_upt[where P = ?P and f = "retain_row alive", OF _ step] assms(1) show ?thesis by fastforce
qed

theorem allocateSlots_Ok:
  assumes "uses_ok alive lastUses" "length lastUses \<le> MaxUint32"
    "length dst = length lastUses" "\<forall>l. alive = Some l \<longrightarrow> length l = length lastUses"
  shows "\<exists>slots peak. allocateSlots lastUses alive dst mode = Ok (slots, peak) \<and> length slots = length lastUses \<and>
    assignment_ok alive lastUses ((!) slots) peak \<and> (mode = slotReuse \<longrightarrow> (\<forall>f m. assignment_ok alive lastUses f m \<longrightarrow> peak \<le> m))"
proof (cases mode)
  case slotReuse
  then show ?thesis using allocateSlots_total[OF assms] by simp
next
  case slotRetainAll
  have "allocateSlots lastUses alive dst mode = res_foldM (retain_row alive) [0..<length lastUses] (dst, 0)"
    unfolding allocateSlots_def Let_def using assms(3,4) slotRetainAll by (simp split: option.splits)
  then show ?thesis using retain_Ok[OF assms(3,2), of alive] slotRetainAll unfolding assignment_ok_def by auto
qed

section \<open>The liveness passes\<close>

lemma upd_fold:
  "\<forall>x \<in> set xs. 1 \<le> x \<and> x \<le> length u \<Longrightarrow> \<exists>u'. res_foldM (\<lambda>operand u. upd u (operand - 1) v) xs u = Ok u' \<and>
     length u' = length u \<and> (\<forall>j < length u. u' ! j = (if j + 1 \<in> set xs then v else u ! j))"
proof (induction xs arbitrary: u)
  case (Cons x xs)
  have x: "x - 1 < length u" using Cons.prems by auto
  obtain u' where "res_foldM (\<lambda>operand u. upd u (operand - 1) v) xs (u[x - 1 := v]) = Ok u'" "length u' = length u"
    "\<forall>j < length u. u' ! j = (if j + 1 \<in> set xs then v else u[x - 1 := v] ! j)"
    using Cons.IH[of "u[x - 1 := v]"] Cons.prems by auto
  moreover have "j + 1 = x \<longleftrightarrow> j = x - 1" for j using Cons.prems by auto
  ultimately show ?case using x by (auto simp: nth_list_update)
qed simp

lemma validateSlotProgram_D:
  assumes "validateSlotProgram l = Ok ()"
  shows "length (p_Opcodes (lw_program l)) \<le> MaxUint32" "length (p_RootFlags (lw_program l)) = length (p_Opcodes (lw_program l))"
    "m < length (p_Opcodes (lw_program l)) \<Longrightarrow> x \<in> set (operands (lw_program l) m) \<Longrightarrow> 1 \<le> x \<and> x \<le> m"
proof -
  let ?p = "lw_program l"
  have n: "length (p_Opcodes ?p) \<le> MaxUint32" and v: "validateScheduleColumns l = Ok ()"
    and r: "list_all (slot_row_ok ?p) [0..<length (p_RootFlags ?p)]"
    using assms by (auto simp: validateSlotProgram_def Let_def rbind_Ok_iff split: if_splits)
  show "length (p_Opcodes ?p) \<le> MaxUint32" by (rule n)
  show f: "length (p_RootFlags ?p) = length (p_Opcodes ?p)"
    using v by (auto simp: validateScheduleColumns_def Let_def split: if_splits)
  show "1 \<le> x \<and> x \<le> m" if "m < length (p_Opcodes ?p)" "x \<in> set (operands ?p m)"
    using r that unfolding f slot_row_ok_def list_all_iff by (force simp: Suc_le_eq)
qed

definition uses_inv :: "program \<Rightarrow> nat \<Rightarrow> nat list \<Rightarrow> bool" where
  "uses_inv p m uses \<longleftrightarrow> length uses = length (p_Opcodes p) \<and> (\<forall>j < length (p_Opcodes p).
     j \<le> uses ! j \<and> (uses ! j = j \<or> uses ! j < m \<and> j + 1 \<in> set (operands p (uses ! j))) \<and>
     (\<forall>c < m. j + 1 \<in> set (operands p c) \<longrightarrow> c \<le> uses ! j))"

lemma last_uses_step_Ok:
  assumes v: "validateSlotProgram l = Ok ()" and m: "m < length (p_Opcodes (lw_program l))" and inv: "uses_inv (lw_program l) m uses"
  shows "\<exists>uses'. last_uses_step (lw_program l) m uses = Ok uses' \<and> uses_inv (lw_program l) (Suc m) uses'"
proof -
  let ?p = "lw_program l" and ?n = "length (p_Opcodes (lw_program l))"
  have x: "\<forall>x \<in> set (operands ?p m). 1 \<le> x \<and> x \<le> length uses"
    using validateSlotProgram_D(3)[OF v m] inv m unfolding uses_inv_def by fastforce
  obtain u where u: "last_uses_step ?p m uses = Ok u" "length u = ?n" "\<forall>j < ?n. u ! j = (if j + 1 \<in> set (operands ?p m) then m else uses ! j)"
    using upd_fold[OF x, of m] inv unfolding last_uses_step_def uses_inv_def by auto
  have lt: "j < m" if "j + 1 \<in> set (operands ?p m)" for j using validateSlotProgram_D(3)[OF v m that] by simp
  have "uses_inv ?p (Suc m) u" unfolding uses_inv_def
  proof (intro conjI allI impI)
    show "length u = ?n" by (rule u(2))
    fix j assume j: "j < ?n"
    show "j \<le> u ! j" using u(3) j lt inv unfolding uses_inv_def by (auto dest: less_imp_le)
    show "u ! j = j \<or> u ! j < Suc m \<and> j + 1 \<in> set (operands ?p (u ! j))" using u(3) j inv unfolding uses_inv_def by (auto simp: less_SucI)
    fix c assume "c < Suc m" "j + 1 \<in> set (operands ?p c)"
    then show "c \<le> u ! j" using u(3) j inv unfolding uses_inv_def by (auto simp: less_Suc_eq)
  qed
  then show ?thesis using u(1) by blast
qed

text \<open>What \<open>computeLastUses\<close> returns: the last reader of a row, or the row itself if nothing reads it, or the end for a root.\<close>

lemma computeLastUses_Ok:
  assumes v: "validateSlotProgram l = Ok ()"
  shows "\<exists>uses. computeLastUses l = Ok uses \<and> length uses = length (p_Opcodes (lw_program l)) \<and> uses_ok alive uses \<and>
    (\<forall>j < length uses. if p_RootFlags (lw_program l) ! j \<noteq> 0 then uses ! j = length uses
       else (uses ! j = j \<or> uses ! j < length uses \<and> j + 1 \<in> set (operands (lw_program l) (uses ! j))) \<and>
         (\<forall>c < length uses. j + 1 \<in> set (operands (lw_program l) c) \<longrightarrow> c \<le> uses ! j))"
proof -
  let ?p = "lw_program l" and ?n = "length (p_Opcodes (lw_program l))"
  have "uses_inv ?p 0 [0..<?n]" by (simp add: uses_inv_def)
  from res_foldM_upt[where P = "uses_inv ?p" and f = "last_uses_step ?p" and n = ?n, OF this last_uses_step_Ok[OF v]]
  obtain u where u: "res_foldM (last_uses_step ?p) [0..<?n] [0..<?n] = Ok u" "uses_inv ?p ?n u" by blast
  let ?uses = "map (\<lambda>row. if p_RootFlags ?p ! row \<noteq> 0 then ?n else u ! row) [0..<?n]"
  have "computeLastUses l = Ok ?uses" unfolding computeLastUses_def Let_def v using u(1) by simp
  moreover have "uses_ok alive ?uses" using u(2) unfolding uses_ok_def uses_inv_def by (auto simp: less_imp_le)
  ultimately show ?thesis using u(2) unfolding uses_inv_def by (intro exI[of _ ?uses]) simp
qed

text \<open>The rows whose reason plane a root needs.\<close>

inductive reason_needed :: "program \<Rightarrow> nat \<Rightarrow> bool" for p :: program where
  root: "row < length (p_Opcodes p) \<Longrightarrow> p_RootFlags p ! row \<noteq> 0 \<Longrightarrow> reason_needed p row"
| operand: "reason_needed p row \<Longrightarrow> p_Opcodes p ! row \<in> {OpcodeAll, OpcodeAny, OpcodeNot} \<Longrightarrow> x \<in> set (operands p row) \<Longrightarrow>
    reason_needed p (x - 1)"

definition reason_inv :: "program \<Rightarrow> nat \<Rightarrow> bool list \<Rightarrow> bool" where
  "reason_inv p m u \<longleftrightarrow> length u = length (p_Opcodes p) \<and>
     (\<forall>j < length (p_Opcodes p). (u ! j \<longrightarrow> reason_needed p j) \<and> (p_RootFlags p ! j \<noteq> 0 \<longrightarrow> u ! j)) \<and>
     (\<forall>j < length (p_Opcodes p). m \<le> j \<and> u ! j \<and> p_Opcodes p ! j \<in> {OpcodeAll, OpcodeAny, OpcodeNot} \<longrightarrow>
        (\<forall>x \<in> set (operands p j). u ! (x - 1)))"

lemma res_foldM_down:
  assumes "P n s" and "\<And>m s. m < n \<Longrightarrow> P (Suc m) s \<Longrightarrow> \<exists>s'. f m s = Ok s' \<and> P m s'"
  shows "\<exists>s'. res_foldM f (rev [0..<n]) s = Ok s' \<and> P 0 s'"
  using assms
proof (induction n arbitrary: s)
  case (Suc n)
  then obtain s1 where "f n s = Ok s1" "P n s1" by blast
  then show ?case using Suc.IH[of s1] Suc.prems(2) by simp
qed simp

lemma reason_live_step_Ok:
  assumes v: "validateSlotProgram l = Ok ()" and m: "m < length (p_Opcodes (lw_program l))" and inv: "reason_inv (lw_program l) (Suc m) u"
  shows "\<exists>u'. reason_live_step (lw_program l) m u = Ok u' \<and> reason_inv (lw_program l) m u'"
proof -
  let ?p = "lw_program l" and ?n = "length (p_Opcodes (lw_program l))" and ?g = "{OpcodeAll, OpcodeAny, OpcodeNot}"
  have ops: "1 \<le> x \<and> x \<le> m" if "x \<in> set (operands ?p m)" for x using validateSlotProgram_D(3)[OF v m that] .
  show ?thesis
  proof (cases "u ! m \<and> p_Opcodes ?p ! m \<in> ?g")
    case False
    then have "reason_live_step ?p m u = Ok u" by (auto simp: reason_live_step_def split: opcode.splits)
    moreover have "reason_inv ?p m u" using inv False unfolding reason_inv_def by (metis le_antisym not_less_eq_eq)
    ultimately show ?thesis by blast
  next
    case True
    have x: "\<forall>x \<in> set (operands ?p m). 1 \<le> x \<and> x \<le> length u" using ops m inv unfolding reason_inv_def by fastforce
    obtain u' where u': "res_foldM (\<lambda>operand u. upd u (operand - 1) True) (operands ?p m) u = Ok u'" "length u' = ?n"
      "\<forall>j < ?n. u' ! j = (if j + 1 \<in> set (operands ?p m) then True else u ! j)" using upd_fold[OF x, of True] inv unfolding reason_inv_def by auto
    have "reason_live_step ?p m u = Ok u'" using True u'(1) by (auto simp: reason_live_step_def)
    moreover have "reason_inv ?p m u'" unfolding reason_inv_def
    proof (intro conjI allI impI ballI)
      show "length u' = ?n" by (rule u'(2))
      have needed: "reason_needed ?p m" using inv m True unfolding reason_inv_def by blast
      fix j assume j: "j < ?n"
      show "u' ! j \<Longrightarrow> reason_needed ?p j"
        using u'(3) j inv reason_needed.operand[OF needed, of "j + 1"] True unfolding reason_inv_def by (auto split: if_splits)
      show "p_RootFlags ?p ! j \<noteq> 0 \<Longrightarrow> u' ! j" using u'(3) j inv unfolding reason_inv_def by auto
      fix x assume a: "m \<le> j \<and> u' ! j \<and> p_Opcodes ?p ! j \<in> ?g" "x \<in> set (operands ?p j)"
      have "j + 1 \<notin> set (operands ?p m)" using ops a(1) by fastforce
      then have uj: "u ! j" using u'(3) j a(1) by simp
      have xj: "1 \<le> x \<and> x \<le> j" using validateSlotProgram_D(3)[OF v j a(2)] .
      show "u' ! (x - 1)"
      proof (cases "j = m")
        case True
        then show ?thesis using u'(3)[rule_format, of "x - 1"] a(2) xj j by (simp add: less_imp_diff_less)
      next
        case False
        then have "Suc m \<le> j" using a(1) by simp
        then have "u ! (x - 1)" using inv a uj j unfolding reason_inv_def by blast
        moreover have "x - 1 < ?n" using xj j by (simp add: less_imp_diff_less)
        ultimately show ?thesis using u'(3) by simp
      qed
    qed
    ultimately show ?thesis by blast
  qed
qed

lemma computeReasonLive_Ok:
  assumes v: "validateSlotProgram l = Ok ()"
  shows "\<exists>u. computeReasonLive (lw_program l) = Ok u \<and> length u = length (p_Opcodes (lw_program l)) \<and>
    (\<forall>j < length u. u ! j \<longleftrightarrow> reason_needed (lw_program l) j)"
proof -
  let ?p = "lw_program l" and ?n = "length (p_Opcodes (lw_program l))"
  let ?s = "map (\<lambda>row. p_RootFlags ?p ! row \<noteq> 0) [0..<?n]"
  have "reason_inv ?p ?n ?s" by (auto simp: reason_inv_def intro: reason_needed.root)
  from res_foldM_down[where P = "reason_inv ?p" and f = "reason_live_step ?p" and n = ?n, OF this reason_live_step_Ok[OF v]]
  obtain u where u: "res_foldM (reason_live_step ?p) (rev [0..<?n]) ?s = Ok u" "reason_inv ?p 0 u" by blast
  have "u ! j \<and> j < ?n" if "reason_needed ?p j" for j using that
  proof induction
    case (operand row x)
    then show ?case using u(2) validateSlotProgram_D(3)[OF v _ operand(3)] unfolding reason_inv_def by fastforce
  qed (use u(2) in \<open>auto simp: reason_inv_def\<close>)
  then show ?thesis using u unfolding computeReasonLive_def Let_def reason_inv_def by auto
qed

section \<open>Plans\<close>

text \<open>The conflicts of the last uses are those of the program.\<close>

lemma assignment_slots_ok:
  assumes "validateSlotProgram l = Ok ()" "computeLastUses l = Ok uses"
  shows "assignment_ok None uses ((!) slots) m \<longleftrightarrow>
    slots_ok slots (lw_program l) \<and> (\<forall>k < length (p_Opcodes (lw_program l)). 1 \<le> slots ! k \<and> slots ! k \<le> m)"
proof -
  let ?p = "lw_program l" and ?n = "length (p_Opcodes (lw_program l))"
  have n: "length uses = ?n" and u: "\<forall>j < ?n. if p_RootFlags ?p ! j \<noteq> 0 then uses ! j = ?n
      else (uses ! j = j \<or> uses ! j < ?n \<and> j + 1 \<in> set (operands ?p (uses ! j))) \<and> (\<forall>c < ?n. j + 1 \<in> set (operands ?p c) \<longrightarrow> c \<le> uses ! j)"
    using computeLastUses_Ok[OF assms(1), of None] assms(2) by auto
  have c: "k < uses ! j \<longleftrightarrow> \<not> (p_RootFlags ?p ! j = 0 \<and> (\<forall>m. k < m \<and> m < ?n \<longrightarrow> j + 1 \<notin> set (operands ?p m)))"
    if "j < k" "k < ?n" for j k
  proof (cases "p_RootFlags ?p ! j = 0")
    case True
    then have uj: "uses ! j = j \<or> uses ! j < ?n \<and> j + 1 \<in> set (operands ?p (uses ! j))" "\<forall>c < ?n. j + 1 \<in> set (operands ?p c) \<longrightarrow> c \<le> uses ! j"
      using u that by (auto dest: spec[of _ j])
    show ?thesis
    proof
      assume "k < uses ! j"
      then show "\<not> (p_RootFlags ?p ! j = 0 \<and> (\<forall>m. k < m \<and> m < ?n \<longrightarrow> j + 1 \<notin> set (operands ?p m)))" using uj(1) that(1) by auto
    next
      assume "\<not> (p_RootFlags ?p ! j = 0 \<and> (\<forall>m. k < m \<and> m < ?n \<longrightarrow> j + 1 \<notin> set (operands ?p m)))"
      then show "k < uses ! j" using uj(2) True by (auto intro: less_le_trans)
    qed
  qed (use u that in auto)
  define B where "B k j \<longleftrightarrow> (slots ! j = slots ! k \<longrightarrow> \<not> k < uses ! j)" for k j
  have "assignment_ok None uses ((!) slots) m \<longleftrightarrow> (\<forall>k < ?n. 1 \<le> slots ! k \<and> slots ! k \<le> m \<and> (\<forall>j < k. B k j))"
    unfolding assignment_ok_def n B_def row_live_def option.case by blast
  moreover have "slots_ok slots ?p \<longleftrightarrow> (\<forall>k < ?n. \<forall>j < k. B k j)" unfolding slots_ok_iff B_def by (simp only: c not_not cong: imp_cong)
  ultimately show ?thesis by blast
qed

lemma assignSlots_plan:
  assumes v: "validateSlotProgram l = Ok ()"
  shows "\<exists>uses alive truth truthPeak reasons reasonPeak. computeLastUses l = Ok uses \<and> computeReasonLive (lw_program l) = Ok alive \<and>
    assignSlots l mode = Ok (l\<lparr>lw_program := (lw_program l)\<lparr>p_TruthSlots := truth, p_ReasonSlots := reasons,
      p_TruthSlotCount := truthPeak, p_ReasonSlotCount := reasonPeak\<rparr>\<rparr>) \<and>
    length truth = length (p_Opcodes (lw_program l)) \<and> length reasons = length (p_Opcodes (lw_program l)) \<and>
    assignment_ok None uses ((!) truth) truthPeak \<and> assignment_ok (Some alive) uses ((!) reasons) reasonPeak \<and>
    (mode = slotReuse \<longrightarrow> (\<forall>f m. assignment_ok None uses f m \<longrightarrow> truthPeak \<le> m))"
proof -
  obtain uses where u: "computeLastUses l = Ok uses" "length uses = length (p_Opcodes (lw_program l))" "uses_ok None uses"
    using computeLastUses_Ok[OF v] by blast
  obtain alive where a: "computeReasonLive (lw_program l) = Ok alive" "length alive = length (p_Opcodes (lw_program l))"
    using computeReasonLive_Ok[OF v] by blast
  have ua: "uses_ok (Some alive) uses" using u(3) by (simp add: uses_ok_def row_live_def)
  have n: "length uses \<le> MaxUint32" using validateSlotProgram_D(1)[OF v] u(2) by simp
  obtain truth peak where t: "allocateSlots uses None (replicate (length uses) 0) mode = Ok (truth, peak)" "length truth = length uses"
    "assignment_ok None uses ((!) truth) peak" "mode = slotReuse \<longrightarrow> (\<forall>f m. assignment_ok None uses f m \<longrightarrow> peak \<le> m)"
    using allocateSlots_Ok[OF u(3) n, of "replicate (length uses) 0" mode] by auto
  obtain reasons rpeak where r: "allocateSlots uses (Some alive) (replicate (length uses) 0) mode = Ok (reasons, rpeak)" "length reasons = length uses"
    "assignment_ok (Some alive) uses ((!) reasons) rpeak"
    using allocateSlots_Ok[OF ua n, of "replicate (length uses) 0" mode] a(2) u(2) by auto
  have "assignSlots l mode = Ok (l\<lparr>lw_program := (lw_program l)\<lparr>p_TruthSlots := truth, p_ReasonSlots := reasons,
      p_TruthSlotCount := peak, p_ReasonSlotCount := rpeak\<rparr>\<rparr>)"
    unfolding assignSlots_def assignTruthSlots_def Let_def using u(1) t(1) a(1) r(1) by simp
  then show ?thesis using u(1,2) a(1) t(2-4) r(2,3) by (intro exI conjI) (assumption | simp)+
qed

lemma computeLastUses_valid: "computeLastUses l = Ok uses \<Longrightarrow> validateSlotProgram l = Ok ()"
  by (auto simp: computeLastUses_def Let_def rbind_Ok_iff)

lemma assignSlots_valid: "assignSlots l mode = Ok l' \<Longrightarrow> validateSlotProgram l = Ok ()"
  by (auto simp: assignSlots_def assignTruthSlots_def Let_def rbind_Ok_iff computeLastUses_valid)

lemma validateSlotProgram_no_panic: "validateSlotProgram l \<noteq> Panic s"
  by (simp add: validateSlotProgram_def validateScheduleColumns_def Let_def)

lemma reason_needed_mono:
  assumes "reason_needed p row" "p_Opcodes q = p_Opcodes p" "p_RootFlags q = p_RootFlags p" "operands q = operands p"
  shows "reason_needed q row"
  using assms(1)
proof induction
  case (operand row x)
  then show ?case using reason_needed.operand[of q row x] assms(2-4) by simp
qed (simp add: reason_needed.root assms(2,3))

lemma reason_needed_cong:
  assumes "p_Opcodes q = p_Opcodes p" "p_RootFlags q = p_RootFlags p" "operands q = operands p"
  shows "reason_needed q = reason_needed p"
  using reason_needed_mono[of p _ q] reason_needed_mono[of q _ p] assms by auto

text \<open>A program of five rows: two comparisons, their disjunction, a test and the conjunction of both, the only root.\<close>

definition sample_lowered :: lowered where
  "sample_lowered = \<lparr>lw_program = sample_program\<lparr>
     p_Opcodes := [OpcodeEqual, OpcodeLess, OpcodeAny, OpcodeExists, OpcodeAll], p_Fields := [1, 2, 0, 2, 0], p_Values := [1, 2, 0, 0, 0],
     p_ListStarts := [0, 0, 0, 0, 0], p_ListCounts := [0, 0, 0, 0, 0], p_OperandStarts := [0, 0, 0, 2, 2], p_OperandCounts := [0, 0, 2, 0, 2],
     p_EvidenceKinds := [0, 0, 0, 0, 0], p_EvidenceStates := [0, 0, 0, 0, 0], p_RootFlags := [0, 0, 0, 0, RootAssertion],
     p_InstructionNodes := [1, 2, 3, 4, 5], p_InstructionSourceStarts := [0, 0, 0, 0, 0], p_InstructionSourceEnds := [0, 0, 0, 0, 0],
     p_Operands := [1, 2, 3, 4], p_TruthSlots := [], p_ReasonSlots := [], p_TruthSlotCount := 0, p_ReasonSlotCount := 0\<rparr>,
     lw_RunOpcodes = [], lw_RunStarts = [], lw_RunCounts = [], lw_NodeInstructionIDs = [1, 2, 3, 4, 5]\<rparr>"

definition planned_lowered :: lowered where
  "planned_lowered = sample_lowered\<lparr>lw_program := (lw_program sample_lowered)\<lparr>p_TruthSlots := [1, 2, 1, 2, 1],
     p_ReasonSlots := [1, 2, 1, 2, 1], p_TruthSlotCount := 2, p_ReasonSlotCount := 2\<rparr>\<rparr>"

lemma sample_passes:
  "computeLastUses sample_lowered = Ok [2, 2, 4, 4, 5]" "computeReasonLive (lw_program sample_lowered) = Ok [True, True, True, True, True]"
  "allocateSlots [2, 2, 4, 4, 5] None [0, 0, 0, 0, 0] slotReuse = Ok ([1, 2, 1, 2, 1], 2)"
  "allocateSlots [2, 2, 4, 4, 5] (Some [True, True, True, True, True]) [0, 0, 0, 0, 0] slotReuse = Ok ([1, 2, 1, 2, 1], 2)"
  by code_simp+

lemma sample_plan: "assignSlots sample_lowered slotReuse = Ok planned_lowered"
  using sample_passes by (simp add: assignSlots_def assignTruthSlots_def planned_lowered_def numeral_eq_Suc)

section \<open>Claims\<close>

text \<open>C14: slot planning terminates and never fails on its own. On a program that passes its structural checks it
  returns in both modes, whatever the graph of operands, and replaces only the four slot columns; otherwise it
  returns the error of the checks. No access is out of range, the walk over a release list ends within its fuel,
  no slot is freed twice, and the slot counter cannot overflow.
\<close>

theorem assignSlots_returns:
  "case validateSlotProgram l of
     Ok _ \<Rightarrow> (\<exists>truth truthPeak reasons reasonPeak. assignSlots l mode =
       Ok (l\<lparr>lw_program := (lw_program l)\<lparr>p_TruthSlots := truth, p_ReasonSlots := reasons,
         p_TruthSlotCount := truthPeak, p_ReasonSlotCount := reasonPeak\<rparr>\<rparr>))
   | Err e \<Rightarrow> assignSlots l mode = Err e
   | Panic s \<Rightarrow> False"
proof (cases "validateSlotProgram l")
  case (Ok u)
  then show ?thesis using assignSlots_plan[of l mode] by auto
next
  case (Err e)
  then show ?thesis by (simp add: assignSlots_def assignTruthSlots_def computeLastUses_def Let_def)
qed (use validateSlotProgram_no_panic in auto)

text \<open>C16: a slot plan is sound. Every row has a truth slot within the slot count. If a row takes the truth slot of an
  earlier row, the earlier row is no root and no later row reads it, which is what the evaluator relies on. A row
  whose reasons a root needs has a reason slot within its count, and where every row is needed the reason plan is
  sound in the same sense.
\<close>

theorem assignSlots_sound:
  assumes a: "assignSlots l mode = Ok l'"
  shows "let p = lw_program l' in slots_ok (p_TruthSlots p) p \<and>
    list_all (\<lambda>slot. 1 \<le> slot \<and> slot \<le> p_TruthSlotCount p) (p_TruthSlots p) \<and>
    (\<forall>row < length (p_Opcodes p). reason_needed p row \<longrightarrow> 1 \<le> p_ReasonSlots p ! row \<and> p_ReasonSlots p ! row \<le> p_ReasonSlotCount p) \<and>
    ((\<forall>row < length (p_Opcodes p). reason_needed p row) \<longrightarrow> slots_ok (p_ReasonSlots p) p)"
proof -
  let ?p = "lw_program l" and ?n = "length (p_Opcodes (lw_program l))"
  have v: "validateSlotProgram l = Ok ()" by (rule assignSlots_valid[OF a])
  obtain uses alive truth truthPeak reasons reasonPeak where plan: "computeLastUses l = Ok uses" "computeReasonLive ?p = Ok alive"
    "assignSlots l mode = Ok (l\<lparr>lw_program := ?p\<lparr>p_TruthSlots := truth, p_ReasonSlots := reasons, p_TruthSlotCount := truthPeak, p_ReasonSlotCount := reasonPeak\<rparr>\<rparr>)"
    "length truth = ?n" "assignment_ok None uses ((!) truth) truthPeak" "assignment_ok (Some alive) uses ((!) reasons) reasonPeak"
    using assignSlots_plan[OF v, of mode] by (elim exE conjE) simp
  let ?q = "?p\<lparr>p_TruthSlots := truth, p_ReasonSlots := reasons, p_TruthSlotCount := truthPeak, p_ReasonSlotCount := reasonPeak\<rparr>"
  have q: "lw_program l' = ?q" using a plan(3) by auto
  have len: "length uses = ?n" using computeLastUses_Ok[OF v, of None] plan(1) by auto
  have alive: "row_live (Some alive) row \<longleftrightarrow> reason_needed ?p row" if "row < ?n" for row
    using computeReasonLive_Ok[OF v] plan(2) that by (auto simp: row_live_def)
  have t: "slots_ok truth ?p" "\<forall>k < ?n. 1 \<le> truth ! k \<and> truth ! k \<le> truthPeak" using assignment_slots_ok[OF v plan(1)] plan(5) by blast+
  have r: "\<forall>row < ?n. reason_needed ?p row \<longrightarrow> 1 \<le> reasons ! row \<and> reasons ! row \<le> reasonPeak"
    using plan(6) alive unfolding assignment_ok_def len by blast
  have s: "slots_ok reasons ?p" if "\<forall>row < ?n. reason_needed ?p row"
  proof -
    have "assignment_ok None uses ((!) reasons) reasonPeak"
      using plan(6) alive that unfolding assignment_ok_def len by (simp add: row_live_def)
    then show ?thesis using assignment_slots_ok[OF v plan(1)] by blast
  qed
  have "slots_ok sl ?q = slots_ok sl ?p" for sl by (simp add: slots_ok_def operands_def)
  moreover have "reason_needed ?q = reason_needed ?p" by (rule reason_needed_cong) (simp_all add: operands_def fun_eq_iff)
  ultimately show ?thesis using t r s plan(4) by (simp add: q Let_def list_all_length)
qed

theorem assignSlots_sound_witness:
  "slots_ok [1, 2, 1, 2, 1] (lw_program planned_lowered) \<and> assignSlots sample_lowered slotReuse = Ok planned_lowered"
  using assignSlots_sound[OF sample_plan] sample_plan by (simp add: Let_def planned_lowered_def)

text \<open>C17: slot reuse is optimal. No sound assignment of truth slots to the rows of the program uses fewer slots than
  the plan of \<open>slotReuse\<close>.
\<close>

theorem assignSlots_minimal:
  assumes "assignSlots l slotReuse = Ok l'" "slots_ok slots (lw_program l)"
    "\<forall>row < length (p_Opcodes (lw_program l)). 1 \<le> slots ! row \<and> slots ! row \<le> m"
  shows "p_TruthSlotCount (lw_program l') \<le> m"
proof -
  have v: "validateSlotProgram l = Ok ()" by (rule assignSlots_valid[OF assms(1)])
  obtain uses where u: "computeLastUses l = Ok uses" "\<forall>f m. assignment_ok None uses f m \<longrightarrow> p_TruthSlotCount (lw_program l') \<le> m"
    using assignSlots_plan[OF v, of slotReuse] assms(1) by auto
  then show ?thesis using assignment_slots_ok[OF v u(1)] assms(2,3) by blast
qed

theorem assignSlots_minimal_witness:
  "p_TruthSlotCount (lw_program planned_lowered) \<le> 3 \<and> slots_ok [3, 2, 3, 2, 1] (lw_program sample_lowered)"
proof -
  have s: "slots_ok [3, 2, 3, 2, 1] (lw_program sample_lowered)" by code_simp
  have "\<forall>row < length (p_Opcodes (lw_program sample_lowered)). 1 \<le> [3, 2, 3, 2, 1 :: nat] ! row \<and> [3, 2, 3, 2, 1] ! row \<le> (3 :: nat)"
    by (simp add: sample_lowered_def sample_program_def All_less_Suc numeral_eq_Suc)
  then show ?thesis using assignSlots_minimal[OF sample_plan s] s by blast
qed

end
