(* ===== verification/NR_Plan.thy ===== *)
theory NR_Plan
  imports NR_Slots
begin

text \<open>
  The slot plan and the evaluator. The scratch slots of a program are no part of its meaning: no definition of the
  row-wise semantics reads them, so a program that is planned anew keeps its results, and the plan of the compiler
  meets every condition that the evaluator puts on slots.
\<close>

named_theorems plan \<open>definitions that do not read the slot columns\<close>

definition with_plan :: "program \<Rightarrow> nat list \<Rightarrow> nat list \<Rightarrow> nat \<Rightarrow> nat \<Rightarrow> program" where
  "with_plan p truth reasons tc rc = p\<lparr>p_TruthSlots := truth, p_ReasonSlots := reasons, p_TruthSlotCount := tc, p_ReasonSlotCount := rc\<rparr>"

lemma plan_columns [plan]:
  "p_Opcodes (with_plan p ts rs tc rc) = p_Opcodes p" "p_Fields (with_plan p ts rs tc rc) = p_Fields p"
  "p_Values (with_plan p ts rs tc rc) = p_Values p" "p_ListStarts (with_plan p ts rs tc rc) = p_ListStarts p"
  "p_ListCounts (with_plan p ts rs tc rc) = p_ListCounts p" "p_OperandStarts (with_plan p ts rs tc rc) = p_OperandStarts p"
  "p_OperandCounts (with_plan p ts rs tc rc) = p_OperandCounts p"
  "p_EvidenceKinds (with_plan p ts rs tc rc) = p_EvidenceKinds p"
  "p_EvidenceStates (with_plan p ts rs tc rc) = p_EvidenceStates p"
  "p_EvidenceSubjects (with_plan p ts rs tc rc) = p_EvidenceSubjects p"
  "p_EvidenceScopes (with_plan p ts rs tc rc) = p_EvidenceScopes p"
  "p_EvidenceTimings (with_plan p ts rs tc rc) = p_EvidenceTimings p"
  "p_RootFlags (with_plan p ts rs tc rc) = p_RootFlags p"
  "p_InstructionNodes (with_plan p ts rs tc rc) = p_InstructionNodes p"
  "p_InstructionSourceStarts (with_plan p ts rs tc rc) = p_InstructionSourceStarts p"
  "p_InstructionSourceEnds (with_plan p ts rs tc rc) = p_InstructionSourceEnds p"
  "p_ListValues (with_plan p ts rs tc rc) = p_ListValues p" "p_Operands (with_plan p ts rs tc rc) = p_Operands p"
  "p_SymbolBytes (with_plan p ts rs tc rc) = p_SymbolBytes p" "p_SymbolStarts (with_plan p ts rs tc rc) = p_SymbolStarts p"
  "p_SymbolLengths (with_plan p ts rs tc rc) = p_SymbolLengths p"
  "p_SymbolHashes (with_plan p ts rs tc rc) = p_SymbolHashes p" "p_SymbolIDs (with_plan p ts rs tc rc) = p_SymbolIDs p"
  "p_ValueKinds (with_plan p ts rs tc rc) = p_ValueKinds p" "p_ValueRefs (with_plan p ts rs tc rc) = p_ValueRefs p"
  "p_IntegerValues (with_plan p ts rs tc rc) = p_IntegerValues p"
  "p_BooleanValues (with_plan p ts rs tc rc) = p_BooleanValues p"
  "p_TimestampValues (with_plan p ts rs tc rc) = p_TimestampValues p"
  "p_FieldNames (with_plan p ts rs tc rc) = p_FieldNames p" "p_FieldKinds (with_plan p ts rs tc rc) = p_FieldKinds p"
  "p_FieldGroups (with_plan p ts rs tc rc) = p_FieldGroups p"
  "p_EvidenceKindNames (with_plan p ts rs tc rc) = p_EvidenceKindNames p"
  "p_EvidenceStateNames (with_plan p ts rs tc rc) = p_EvidenceStateNames p"
  "p_RequirementIDs (with_plan p ts rs tc rc) = p_RequirementIDs p"
  "p_RequirementRoots (with_plan p ts rs tc rc) = p_RequirementRoots p"
  "p_RequirementSourceNodeIDs (with_plan p ts rs tc rc) = p_RequirementSourceNodeIDs p"
  "p_RequirementClauseStarts (with_plan p ts rs tc rc) = p_RequirementClauseStarts p"
  "p_RequirementClauseCounts (with_plan p ts rs tc rc) = p_RequirementClauseCounts p"
  "p_RequirementClauseIDs (with_plan p ts rs tc rc) = p_RequirementClauseIDs p"
  "p_ClauseAssertionRoots (with_plan p ts rs tc rc) = p_ClauseAssertionRoots p"
  "p_ClauseAssertionSourceNodeIDs (with_plan p ts rs tc rc) = p_ClauseAssertionSourceNodeIDs p"
  "p_ClauseEvidenceStarts (with_plan p ts rs tc rc) = p_ClauseEvidenceStarts p"
  "p_ClauseEvidenceCounts (with_plan p ts rs tc rc) = p_ClauseEvidenceCounts p"
  "p_ClauseEvidenceIDs (with_plan p ts rs tc rc) = p_ClauseEvidenceIDs p"
  "p_ClauseEvidenceSourceNodeIDs (with_plan p ts rs tc rc) = p_ClauseEvidenceSourceNodeIDs p"
  "p_ClauseOnSatisfied (with_plan p ts rs tc rc) = p_ClauseOnSatisfied p"
  "p_ClauseOnFalse (with_plan p ts rs tc rc) = p_ClauseOnFalse p"
  "p_ClauseExplanationIDs (with_plan p ts rs tc rc) = p_ClauseExplanationIDs p"
  "p_ClauseRemediationStarts (with_plan p ts rs tc rc) = p_ClauseRemediationStarts p"
  "p_ClauseRemediationCounts (with_plan p ts rs tc rc) = p_ClauseRemediationCounts p"
  "p_ClauseRemediationIDs (with_plan p ts rs tc rc) = p_ClauseRemediationIDs p"
  "p_TemplateColumns (with_plan p ts rs tc rc) = p_TemplateColumns p"
  "p_ExplanationColumns (with_plan p ts rs tc rc) = p_ExplanationColumns p"
  "p_EvidenceIssueNodeIDs (with_plan p ts rs tc rc) = p_EvidenceIssueNodeIDs p"
  "p_EvidenceIssueTemplateIDs (with_plan p ts rs tc rc) = p_EvidenceIssueTemplateIDs p"
  "p_Templates (with_plan p ts rs tc rc) = p_Templates p" "p_Explanations (with_plan p ts rs tc rc) = p_Explanations p"
  "p_Outcomes (with_plan p ts rs tc rc) = p_Outcomes p" "p_Remediations (with_plan p ts rs tc rc) = p_Remediations p"
  "p_Resolutions (with_plan p ts rs tc rc) = p_Resolutions p" "p_resolver (with_plan p ts rs tc rc) = p_resolver p"
  "p_ApplicabilityIndex (with_plan p ts rs tc rc) = p_ApplicabilityIndex p"
  "p_FactIndexSpec (with_plan p ts rs tc rc) = p_FactIndexSpec p" "p_FieldIndex (with_plan p ts rs tc rc) = p_FieldIndex p"
  "p_ContentHash (with_plan p ts rs tc rc) = p_ContentHash p"
  "p_ProgramSymbolCount (with_plan p ts rs tc rc) = p_ProgramSymbolCount p"
  by (simp_all add: with_plan_def)

lemmas instruction_defs =
  Program_Symbol_def programPredicateValue_def program_cell_def list_cells_def leaf_holds_def leaf_truth_def leaf_reasons_def operands_ok_def predicate_ok_def
  state_reasons_def record_class_def row_classes_def evidence_truth_def evidence_reasons_def operands_def query_at_def boolean_at_def
  instr_value_def programUsesEvidence_def instr_ok_def



lemma plan_instruction [plan]:
  "instr_value (with_plan p ts rs tc rc) b row i vs = instr_value p b row i vs"
  "instr_ok (with_plan p ts rs tc rc) i = instr_ok p i" "operands (with_plan p ts rs tc rc) i = operands p i"
  unfolding instruction_defs plan by (rule refl)+

lemma plan_sem_values [plan]: "sem_values (with_plan p ts rs tc rc) b row n = sem_values p b row n"
  by (induction n) (simp_all add: plan)




lemma plan_reason_needed: "reason_needed (with_plan p ts rs tc rc) = reason_needed p"
  by (rule reason_needed_cong) (simp_all add: plan fun_eq_iff)










end
