(* ===== verification/NR_Intern.thy ===== *)
theory NR_Intern
  imports NR_Program
begin

text \<open>
  Interning of symbols: the byte arena of \<^verbatim>\<open>internal/arena/bytes.go\<close> and the open-addressing table of
  \<^verbatim>\<open>internal/schema/symbols.go\<close>.

  A nil byte slice is \<open>None\<close>, which Go's slicing keeps apart from an empty one and \<^verbatim>\<open>bytes.Equal\<close> does not. The
  capacity of slices is not modelled. A probe loop has as much fuel as the table has slots and is \<open>Panic\<close> when it
  runs out; an interner that keeps its invariant never does, since at least half of its slots are empty.

  The table refines a list of distinct symbols in the order of their first occurrence, with the position as
  identifier. The laws of such a store are a locale, interpreted on the table.
\<close>

section \<open>Byte arena\<close>

record arena_ref =
  rf_Offset :: nat
  rf_Length :: nat

record byte_arena =
  ba_buf :: "byte list option"
  ba_maxBytes :: nat

abbreviation slice_bytes :: "'a list option \<Rightarrow> 'a list" where
  "slice_bytes s \<equiv> (case s of None \<Rightarrow> [] | Some xs \<Rightarrow> xs)"

definition arena_limit :: "byte_arena \<Rightarrow> nat" where
  "arena_limit a = (if ba_maxBytes a = 0 then MaxUint32 else ba_maxBytes a)"

definition arena_New :: byte_arena where
  "arena_New = \<lparr>ba_buf = Some [], ba_maxBytes = MaxUint32\<rparr>"

definition arena_Append :: "byte_arena \<Rightarrow> byte list \<Rightarrow> (byte_arena \<times> arena_ref) res" where
  "arena_Append a p =
     (let buf = slice_bytes (ba_buf a); off = length buf mod 2 ^ 32 in
      if length p = 0 then Ok (a\<lparr>ba_buf := Some buf\<rparr>, \<lparr>rf_Offset = off, rf_Length = 0\<rparr>)
      else if length buf + length p > arena_limit a then Err ErrTooLarge
      else Ok (a\<lparr>ba_buf := Some (buf @ p)\<rparr>, \<lparr>rf_Offset = off, rf_Length = length p mod 2 ^ 32\<rparr>))"

definition arena_Bytes :: "byte_arena \<Rightarrow> arena_ref \<Rightarrow> byte list option" where
  "arena_Bytes a r =
     (if rf_Offset r + rf_Length r > length (slice_bytes (ba_buf a)) then None
      else map_option (\<lambda>buf. take (rf_Length r) (drop (rf_Offset r) buf)) (ba_buf a))"

definition arena_Len :: "byte_arena \<Rightarrow> nat" where
  "arena_Len a = length (slice_bytes (ba_buf a)) mod 2 ^ 32"

definition arena_Reset :: "byte_arena \<Rightarrow> byte_arena" where
  "arena_Reset a = a\<lparr>ba_buf := map_option (\<lambda>_. []) (ba_buf a)\<rparr>"

section \<open>Interner\<close>

record interner =
  in_arena :: "byte_arena option"
  in_ids :: "nat list"
  in_refs :: "arena_ref list"
  in_starts :: "nat list"
  in_lengths :: "nat list"
  in_count :: nat
  in_nextID :: nat

definition zero_interner :: interner where
  "zero_interner = \<lparr>in_arena = None, in_ids = [], in_refs = [], in_starts = [], in_lengths = [], in_count = 0, in_nextID = 0\<rparr>"

definition zero_ref :: arena_ref where
  "zero_ref = \<lparr>rf_Offset = 0, rf_Length = 0\<rparr>"

text \<open>The number of bits of a machine word, and \<^verbatim>\<open>nextPow2\<close> with the conversions to a signed word.\<close>

fun bits_Len :: "nat \<Rightarrow> nat" where
  "bits_Len x = (if x = 0 then 0 else Suc (bits_Len (x div 2)))"

declare bits_Len.simps [simp del]

definition wrap_int :: "int \<Rightarrow> int" where
  "wrap_int x = (x + 2 ^ 63) mod 2 ^ 64 - 2 ^ 63"

definition nextPow2 :: "int \<Rightarrow> int" where
  "nextPow2 n = (if n \<le> 1 then 1 else wrap_int (2 ^ bits_Len (nat (n - 1)) mod 2 ^ 64))"

definition NewSymbolInterner :: "int \<Rightarrow> interner" where
  "NewSymbolInterner hint =
     (let hint = (if hint < 0 then 0 else hint); n = nextPow2 (wrap_int (2 * hint)); n = (if n < 4 then 4 else n) in
      \<lparr>in_arena = Some arena_New, in_ids = replicate (nat n) 0, in_refs = replicate (nat n) zero_ref,
       in_starts = [], in_lengths = [], in_count = 0, in_nextID = 1\<rparr>)"

definition ensureArena :: "interner \<Rightarrow> interner" where
  "ensureArena t = (case in_arena t of None \<Rightarrow> t\<lparr>in_arena := Some arena_New\<rparr> | Some _ \<Rightarrow> t)"

definition Interner_Len :: "interner \<Rightarrow> nat" where
  "Interner_Len t = in_count t"

definition Interner_ByteLen :: "interner \<Rightarrow> nat" where
  "Interner_ByteLen t = (case in_arena t of None \<Rightarrow> 0 | Some a \<Rightarrow> arena_Len a)"

definition initTable :: "interner \<Rightarrow> nat \<Rightarrow> interner" where
  "initTable t n = t\<lparr>in_ids := replicate n 0, in_refs := replicate n zero_ref, in_nextID := 1\<rparr>"

text \<open>
  The slot of a hash and the probe loop: it returns the first matching identifier with its slot, or zero with the
  first empty slot.
\<close>

definition home_slot :: "nat \<Rightarrow> byte list \<Rightarrow> nat" where
  "home_slot n b = unat (HashSymbol b AND word_of_nat (n - 1))"

fun probe :: "nat \<Rightarrow> nat list \<Rightarrow> (nat \<Rightarrow> bool res) \<Rightarrow> nat \<Rightarrow> (nat \<times> nat) res" where
  "probe 0 ids matches slot = Panic ''out of fuel''"
| "probe (Suc fuel) ids matches slot =
     rbind (idx ids slot) (\<lambda>k.
     if k = 0 then Ok (0, slot)
     else rbind (matches slot) (\<lambda>eq.
       if eq then Ok (k, slot) else probe fuel ids matches ((slot + 1) AND (length ids - 1))))"

definition slot_matches :: "interner \<Rightarrow> byte list \<Rightarrow> nat \<Rightarrow> bool res" where
  "slot_matches t b slot =
     rbind (idx (in_refs t) slot) (\<lambda>ref.
     case in_arena t of None \<Rightarrow> Panic ''nil pointer dereference''
     | Some a \<Rightarrow> Ok (slice_bytes (arena_Bytes a ref) = b))"

definition grow_slot :: "byte_arena \<Rightarrow> nat \<times> arena_ref \<Rightarrow> nat list \<times> arena_ref list \<Rightarrow> (nat list \<times> arena_ref list) res" where
  "grow_slot a old acc =
     (case (old, acc) of ((k, ref), (ids, refs)) \<Rightarrow>
      if k = 0 then Ok acc
      else let b = slice_bytes (arena_Bytes a ref) in
        rbind (probe (length ids) ids (\<lambda>_. Ok False) (home_slot (length ids) b)) (\<lambda>(_, slot).
        rbind (upd ids slot k) (\<lambda>ids.
        rbind (upd refs slot ref) (\<lambda>refs. Ok (ids, refs)))))"

definition Interner_grow :: "interner \<Rightarrow> interner res" where
  "Interner_grow t =
     (let newSize = length (in_ids t) * 2 in
      case in_arena t of None \<Rightarrow> Panic ''nil pointer dereference''
      | Some a \<Rightarrow>
        rbind (res_foldM (grow_slot a) (zip (in_ids t) (in_refs t)) (replicate newSize 0, replicate newSize zero_ref)) (\<lambda>(ids, refs).
        Ok (t\<lparr>in_ids := ids, in_refs := refs\<rparr>)))"

text \<open>An attempt returns the state and the identifier, or grows the table and leaves the loop to try again.\<close>

definition add_symbol :: "interner \<Rightarrow> byte list \<Rightarrow> nat \<Rightarrow> (interner \<times> (err + nat)) res" where
  "add_symbol t b slot =
     (case in_arena t of None \<Rightarrow> Panic ''nil pointer dereference''
      | Some a \<Rightarrow>
        (case arena_Append a b of
           Err e \<Rightarrow> Ok (t, Inl e)
         | Panic s \<Rightarrow> Panic s
         | Ok (a, ref) \<Rightarrow>
             rbind (upd (in_ids t) slot (in_nextID t)) (\<lambda>ids.
             rbind (upd (in_refs t) slot ref) (\<lambda>refs.
             Ok (t\<lparr>in_arena := Some a, in_ids := ids, in_refs := refs, in_starts := in_starts t @ [rf_Offset ref],
               in_lengths := in_lengths t @ [rf_Length ref], in_count := in_count t + 1, in_nextID := (in_nextID t + 1) mod 2 ^ 32\<rparr>,
               Inr (in_nextID t))))))"

fun intern_loop :: "nat \<Rightarrow> interner \<Rightarrow> byte list \<Rightarrow> (interner \<times> (err + nat)) res" where
  "intern_loop 0 t b = Panic ''out of fuel''"
| "intern_loop (Suc fuel) t b =
     rbind (probe (length (in_ids t)) (in_ids t) (slot_matches t b) (home_slot (length (in_ids t)) b)) (\<lambda>(k, slot).
     if k \<noteq> 0 then Ok (t, Inr k)
     else if in_count t * 2 < length (in_ids t) then add_symbol t b slot
     else rbind (Interner_grow t) (\<lambda>t. intern_loop fuel t b))"

definition Intern :: "interner \<Rightarrow> byte list \<Rightarrow> (interner \<times> (err + nat)) res" where
  "Intern t b =
     (let t = (if in_ids t = [] then initTable t 4 else t); t = ensureArena t in intern_loop 2 t b)"

definition Interner_Lookup :: "interner \<Rightarrow> byte list \<Rightarrow> (nat \<times> bool) res" where
  "Interner_Lookup t b =
     (if in_ids t = [] then Ok (0, False)
      else rbind (probe (length (in_ids t)) (in_ids t) (slot_matches t b) (home_slot (length (in_ids t)) b)) (\<lambda>(k, _).
        Ok (k, k \<noteq> 0)))"

definition Interner_Bytes :: "interner \<Rightarrow> nat \<Rightarrow> byte list option res" where
  "Interner_Bytes t i =
     (case in_arena t of None \<Rightarrow> Ok None
      | Some a \<Rightarrow> if i = 0 \<or> i > length (in_starts t) then Ok None
        else rbind (idx (in_starts t) (i - 1)) (\<lambda>start.
          rbind (idx (in_lengths t) (i - 1)) (\<lambda>len. Ok (arena_Bytes a \<lparr>rf_Offset = start, rf_Length = len\<rparr>))))"

definition Interner_Reset :: "interner \<Rightarrow> interner" where
  "Interner_Reset t = t\<lparr>in_ids := map (\<lambda>_. 0) (in_ids t), in_starts := [], in_lengths := [], in_count := 0, in_nextID := 1,
     in_arena := map_option arena_Reset (in_arena t)\<rparr>"

section \<open>Probing\<close>

definition pow2 :: "nat \<Rightarrow> bool" where
  "pow2 n \<longleftrightarrow> (\<exists>k. n = 2 ^ k)"

lemma and_mask_mod: "pow2 n \<Longrightarrow> x AND (n - Suc 0) = x mod (n :: nat)"
proof -
  assume "pow2 n"
  then obtain k where k: "n = 2 ^ k" by (auto simp: pow2_def)
  then have "n - Suc 0 = mask k" by (simp add: mask_eq_exp_minus_1)
  then show ?thesis by (simp add: k take_bit_eq_mask[symmetric] take_bit_eq_mod)
qed

lemma pow2_pos: "pow2 n \<Longrightarrow> 0 < n"
  by (auto simp: pow2_def)

lemma home_slot_lt: "pow2 n \<Longrightarrow> home_slot n b < n"
proof -
  assume "pow2 n"
  then obtain k where k: "n = 2 ^ k" by (auto simp: pow2_def)
  have "word_of_nat (n - 1) = (mask k :: u64)" by (simp add: k mask_eq_exp_minus_1 of_nat_diff)
  then have "home_slot n b = unat (take_bit k (HashSymbol b))" by (simp add: home_slot_def take_bit_eq_mask)
  then show ?thesis using k by (simp add: unsigned_take_bit_eq take_bit_nat_less_exp)
qed

definition occupied_run :: "nat list \<Rightarrow> nat \<Rightarrow> nat \<Rightarrow> bool" where
  "occupied_run ids h m \<longleftrightarrow> (\<forall>d < m. ids ! ((h + d) mod length ids) \<noteq> 0)"

lemma probe_hit:
  assumes n: "pow2 (length ids)" and h: "h < length ids" and run: "occupied_run ids h m" and s: "s = (h + m) mod length ids"
    and hit: "ids ! s \<noteq> 0" "matches s = Ok True" and miss: "\<And>d. d < m \<Longrightarrow> matches ((h + d) mod length ids) = Ok False" and m: "m < fuel"
  shows "probe fuel ids matches h = Ok (ids ! s, s)"
  using assms
proof (induction m arbitrary: h fuel)
  case 0
  then show ?case by (cases fuel) auto
next
  case (Suc m)
  obtain f where f: "fuel = Suc f" using Suc.prems by (cases fuel) auto
  let ?h = "(h + 1) mod length ids"
  have shift: "(?h + d) mod length ids = (h + Suc d) mod length ids" for d by (simp add: mod_add_left_eq)
  have "ids ! h \<noteq> 0" using Suc.prems(2,3) by (auto simp: occupied_run_def dest: spec[of _ 0])
  moreover have "matches h = Ok False" using Suc.prems(7)[of 0] Suc.prems(2) by simp
  moreover have "probe f ids matches ?h = Ok (ids ! s, s)"
  proof (rule Suc.IH[OF Suc.prems(1)])
    show "?h < length ids" using Suc.prems(2) by (intro mod_less_divisor) linarith
    show "occupied_run ids ?h m" using Suc.prems(3) unfolding occupied_run_def shift by auto
    show "s = (?h + m) mod length ids" using Suc.prems(4) unfolding shift .
    show "matches ((?h + d) mod length ids) = Ok False" if "d < m" for d using Suc.prems(7)[of "Suc d"] that unfolding shift by simp
  qed (use Suc.prems f in simp_all)
  ultimately show ?case using Suc.prems(1,2) f and_mask_mod[OF Suc.prems(1)] by simp
qed

lemma probe_miss:
  assumes n: "pow2 (length ids)" and h: "h < length ids" and run: "occupied_run ids h m" and s: "s = (h + m) mod length ids"
    and empty: "ids ! s = 0" and miss: "\<And>d. d < m \<Longrightarrow> matches ((h + d) mod length ids) = Ok False" and m: "m < fuel"
  shows "probe fuel ids matches h = Ok (0, s)"
  using assms
proof (induction m arbitrary: h fuel)
  case 0
  then show ?case by (cases fuel) auto
next
  case (Suc m)
  obtain f where f: "fuel = Suc f" using Suc.prems by (cases fuel) auto
  let ?h = "(h + 1) mod length ids"
  have shift: "(?h + d) mod length ids = (h + Suc d) mod length ids" for d by (simp add: mod_add_left_eq)
  have "ids ! h \<noteq> 0" using Suc.prems(2,3) by (auto simp: occupied_run_def dest: spec[of _ 0])
  moreover have "matches h = Ok False" using Suc.prems(6)[of 0] Suc.prems(2) by simp
  moreover have "probe f ids matches ?h = Ok (0, s)"
  proof (rule Suc.IH[OF Suc.prems(1)])
    show "?h < length ids" using Suc.prems(2) by (intro mod_less_divisor) linarith
    show "occupied_run ids ?h m" using Suc.prems(3) unfolding occupied_run_def shift by auto
    show "s = (?h + m) mod length ids" using Suc.prems(4) unfolding shift .
    show "matches ((?h + d) mod length ids) = Ok False" if "d < m" for d using Suc.prems(6)[of "Suc d"] that unfolding shift by simp
  qed (use Suc.prems f in simp_all)
  ultimately show ?case using Suc.prems(1,2) f and_mask_mod[OF Suc.prems(1)] by simp
qed

lemma reach:
  assumes "s < n" "h < (n :: nat)"
  shows "\<exists>m < n. s = (h + m) mod n"
proof (cases "h \<le> s")
  case True
  then show ?thesis using assms by (intro exI[of _ "s - h"]) simp
next
  case False
  then show ?thesis using assms by (intro exI[of _ "n + s - h"]) auto
qed

lemma first_empty:
  assumes "h < length ids" "s < length ids" "ids ! s = 0"
  shows "\<exists>m < length ids. occupied_run ids h m \<and> ids ! ((h + m) mod length ids) = 0"
proof -
  let ?P = "\<lambda>m. ids ! ((h + m) mod length ids) = 0"
  obtain m where m: "m < length ids" "?P m" using reach[OF assms(2,1)] assms(3) by auto
  have "(LEAST m. ?P m) \<le> m" "?P (LEAST m. ?P m)" using m(2) by (rule Least_le, rule LeastI)
  moreover have "occupied_run ids h (LEAST m. ?P m)" unfolding occupied_run_def using not_less_Least by blast
  ultimately show ?thesis using m(1) by (meson le_less_trans)
qed

section \<open>The table of a list of symbols\<close>

definition ref_of :: "byte list list \<Rightarrow> nat \<Rightarrow> arena_ref" where
  "ref_of syms i = \<lparr>rf_Offset = length (concat (take i syms)), rf_Length = length (syms ! i)\<rparr>"

text \<open>The slots of the identifiers in a set: each in one slot, reached from the home slot of its symbol over occupied slots.\<close>

definition table_rel :: "nat list \<Rightarrow> arena_ref list \<Rightarrow> byte list list \<Rightarrow> nat set \<Rightarrow> bool" where
  "table_rel ids refs syms K \<longleftrightarrow> pow2 (length ids) \<and> length refs = length ids \<and> K = set ids - {0} \<and> K \<subseteq> {1..length syms} \<and>
     inj_on ((!) ids) {s. s < length ids \<and> ids ! s \<noteq> 0} \<and>
     (\<forall>s < length ids. ids ! s \<noteq> 0 \<longrightarrow> refs ! s = ref_of syms (ids ! s - 1) \<and>
        (\<exists>m < length ids. s = (home_slot (length ids) (syms ! (ids ! s - 1)) + m) mod length ids \<and>
           occupied_run ids (home_slot (length ids) (syms ! (ids ! s - 1))) m))"

lemma table_empty: "pow2 n \<Longrightarrow> table_rel (replicate n 0) (replicate n r) syms {}"
  by (auto simp: table_rel_def inj_on_def)

lemma table_id_range:
  assumes "table_rel ids refs syms K" "s < length ids" "ids ! s \<noteq> 0"
  shows "1 \<le> ids ! s \<and> ids ! s \<le> length syms"
proof -
  have "ids ! s \<in> set ids - {0}" using assms(2,3) by simp
  then show ?thesis using assms(1) unfolding table_rel_def by (meson atLeastAtMost_iff subsetD)
qed

lemma table_inj:
  assumes "table_rel ids refs syms K" "s < length ids" "x < length ids" "ids ! s = ids ! x" "ids ! s \<noteq> 0"
  shows "s = x"
proof -
  have "inj_on ((!) ids) {s. s < length ids \<and> ids ! s \<noteq> 0}" using assms(1) by (simp add: table_rel_def)
  then show ?thesis by (rule inj_onD) (use assms(2-5) in simp_all)
qed

lemma table_free_slot:
  assumes t: "table_rel ids refs syms K" and lt: "length syms < length ids"
  shows "\<exists>s < length ids. ids ! s = 0"
proof (rule ccontr)
  assume none: "\<not> ?thesis"
  then have "{s. s < length ids \<and> ids ! s \<noteq> 0} = {..<length ids}" by auto
  then have "card ((!) ids ` {..<length ids}) = length ids" using t by (simp add: table_rel_def card_image)
  moreover have "(!) ids ` {..<length ids} \<subseteq> {1..length syms}" using none table_id_range[OF t] by auto
  then have "card ((!) ids ` {..<length ids}) \<le> card {1..length syms}" by (rule card_mono[OF finite_atLeastAtMost])
  ultimately show False using lt by simp
qed

lemma table_more_symbols:
  assumes "table_rel ids refs syms K"
  shows "table_rel ids refs (syms @ [b]) K"
proof -
  have "(syms @ [b]) ! (k - 1) = syms ! (k - 1) \<and> ref_of (syms @ [b]) (k - 1) = ref_of syms (k - 1)" if "k \<in> set ids" "k \<noteq> 0" for k
  proof -
    have "k - 1 < length syms" using assms that by (fastforce simp: table_rel_def)
    then show ?thesis by (simp add: ref_of_def nth_append)
  qed
  then show ?thesis using assms unfolding table_rel_def by (fastforce simp: in_set_conv_nth)
qed

lemma occupied_run_update: "occupied_run ids h m \<Longrightarrow> k \<noteq> 0 \<Longrightarrow> occupied_run (ids[s := k]) h m"
  unfolding occupied_run_def by (metis length_list_update nth_list_update_eq nth_list_update_neq list_update_beyond not_le)

lemma table_insert:
  assumes t: "table_rel ids refs syms K" and k: "k \<in> {1..length syms}" "k \<notin> K"
    and run: "m < length ids" "occupied_run ids (home_slot (length ids) (syms ! (k - 1))) m"
    and s: "s = (home_slot (length ids) (syms ! (k - 1)) + m) mod length ids" "ids ! s = 0"
  shows "table_rel (ids[s := k]) (refs[s := ref_of syms (k - 1)]) syms (insert k K)"
proof -
  let ?ids = "ids[s := k]"
  have n: "length ?ids = length ids" "s < length ids" "length refs = length ids" using t s(1) run(1) by (auto simp: table_rel_def intro!: mod_less_divisor)
  have k0: "k \<noteq> 0" "k \<notin> set ids" using k t by (auto simp: table_rel_def)
  have nz: "{x. x < length ids \<and> ?ids ! x \<noteq> 0} = insert s {x. x < length ids \<and> ids ! x \<noteq> 0}"
    using n(2) k0(1) by (auto simp: nth_list_update)
  have "inj_on ((!) ?ids) (insert s {x. x < length ids \<and> ids ! x \<noteq> 0})"
    unfolding inj_on_insert
  proof
    have "inj_on ((!) ids) {x. x < length ids \<and> ids ! x \<noteq> 0}" using t by (simp add: table_rel_def)
    then show "inj_on ((!) ?ids) {x. x < length ids \<and> ids ! x \<noteq> 0}"
      by (rule inj_on_cong[THEN iffD1, rotated]) (use s(2) in \<open>metis (mono_tags, lifting) mem_Collect_eq nth_list_update_neq\<close>)
    show "?ids ! s \<notin> (!) ?ids ` ({x. x < length ids \<and> ids ! x \<noteq> 0} - {s})"
      using n(2) k0(2) by (auto simp: nth_list_update)
  qed
  moreover have "set ?ids - {0} = insert k (set ids - {0})"
  proof
    show "set ?ids - {0} \<subseteq> insert k (set ids - {0})" using set_update_subset_insert[of ids s k] by blast
    have "x \<in> set ?ids" if "x \<in> set ids" "x \<noteq> 0" for x
      using that s(2) n(1) by (metis in_set_conv_nth nth_list_update_neq)
    then show "insert k (set ids - {0}) \<subseteq> set ?ids - {0}" using set_update_memI[OF n(2)] k0(1) by blast
  qed
  moreover have "(refs[s := ref_of syms (k - 1)]) ! x = ref_of syms (?ids ! x - 1) \<and>
      (\<exists>m < length ids. x = (home_slot (length ids) (syms ! (?ids ! x - 1)) + m) mod length ids \<and>
         occupied_run ?ids (home_slot (length ids) (syms ! (?ids ! x - 1))) m)"
    if x: "x < length ids" "?ids ! x \<noteq> 0" for x
  proof (cases "x = s")
    case True
    then show ?thesis using n run s(1) occupied_run_update[OF run(2) k0(1)] by auto
  next
    case False
    then have eq: "?ids ! x = ids ! x" "refs[s := ref_of syms (k - 1)] ! x = refs ! x" by simp_all
    then obtain d where "refs ! x = ref_of syms (ids ! x - 1)" "d < length ids" "x = (home_slot (length ids) (syms ! (ids ! x - 1)) + d) mod length ids"
      "occupied_run ids (home_slot (length ids) (syms ! (ids ! x - 1))) d" using t x unfolding table_rel_def by auto
    then show ?thesis unfolding eq using occupied_run_update[OF _ k0(1)] by blast
  qed
  moreover have "pow2 (length ids)" "K = set ids - {0}" "insert k K \<subseteq> {1..length syms}" using t k(1) by (auto simp: table_rel_def)
  ultimately show ?thesis using n(3) unfolding table_rel_def n(1) nz by simp
qed

section \<open>The interner\<close>

definition intern_rel :: "interner \<Rightarrow> byte list list \<Rightarrow> bool" where
  "intern_rel t syms \<longleftrightarrow>
     (if in_ids t = [] then in_arena t = None \<and> in_refs t = [] \<and> in_starts t = [] \<and> in_lengths t = [] \<and> in_count t = 0 \<and> syms = []
      else in_arena t = Some \<lparr>ba_buf = Some (concat syms), ba_maxBytes = MaxUint32\<rparr> \<and> length (concat syms) \<le> MaxUint32 \<and> distinct syms \<and>
        in_starts t = map (rf_Offset \<circ> ref_of syms) [0..<length syms] \<and> in_lengths t = map (rf_Length \<circ> ref_of syms) [0..<length syms] \<and>
        in_count t = length syms \<and> in_nextID t = length syms + 1 \<and> 4 \<le> length (in_ids t) \<and> 2 * length syms \<le> length (in_ids t) \<and>
        table_rel (in_ids t) (in_refs t) syms {1..length syms})"

lemma sym_bytes:
  "i < length syms \<Longrightarrow> arena_Bytes \<lparr>ba_buf = Some (concat syms), ba_maxBytes = m\<rparr> (ref_of syms i) = Some (syms ! i)"
proof -
  assume i: "i < length syms"
  have "concat syms = concat (take i syms) @ syms ! i @ concat (drop (Suc i) syms)"
    by (subst id_take_nth_drop[OF i]) simp
  then show ?thesis by (simp add: arena_Bytes_def ref_of_def)
qed

lemma slot_matches_rel:
  assumes t: "table_rel (in_ids t) (in_refs t) syms K" and a: "in_arena t = Some \<lparr>ba_buf = Some (concat syms), ba_maxBytes = m\<rparr>"
    and s: "s < length (in_ids t)" "in_ids t ! s \<noteq> 0"
  shows "slot_matches t b s = Ok (syms ! (in_ids t ! s - 1) = b)"
proof -
  have r: "in_refs t ! s = ref_of syms (in_ids t ! s - 1)" "s < length (in_refs t)" using t s by (auto simp: table_rel_def)
  have "in_ids t ! s - 1 < length syms" using table_id_range[OF t s] by linarith
  then show ?thesis using r by (simp add: slot_matches_def a sym_bytes)
qed

lemma probe_known:
  assumes t: "table_rel (in_ids t) (in_refs t) syms K" and a: "in_arena t = Some \<lparr>ba_buf = Some (concat syms), ba_maxBytes = m\<rparr>"
    and d: "distinct syms" and i: "i < length syms" "i + 1 \<in> K"
  shows "\<exists>s. probe (length (in_ids t)) (in_ids t) (slot_matches t (syms ! i)) (home_slot (length (in_ids t)) (syms ! i)) = Ok (i + 1, s)"
proof -
  let ?ids = "in_ids t" and ?n = "length (in_ids t)"
  have "i + 1 \<in> set ?ids" using t i(2) by (simp add: table_rel_def)
  then obtain s where s: "s < ?n" "?ids ! s = i + 1" by (auto simp: in_set_conv_nth)
  have p: "pow2 ?n" using t by (simp add: table_rel_def)
  have "\<exists>m < ?n. s = (home_slot ?n (syms ! (?ids ! s - 1)) + m) mod ?n \<and> occupied_run ?ids (home_slot ?n (syms ! (?ids ! s - 1))) m"
    using t s unfolding table_rel_def by (metis Suc_eq_plus1 nat.distinct(1))
  then obtain m where m: "m < ?n" "s = (home_slot ?n (syms ! i) + m) mod ?n" "occupied_run ?ids (home_slot ?n (syms ! i)) m"
    using s(2) by auto
  obtain m0 where m0: "m0 \<le> m" "s = (home_slot ?n (syms ! i) + m0) mod ?n" "\<forall>d < m0. s \<noteq> (home_slot ?n (syms ! i) + d) mod ?n"
    using ex_least_nat_le[of "\<lambda>d. s = (home_slot ?n (syms ! i) + d) mod ?n" m] m(2) by blast
  have "slot_matches t (syms ! i) ((home_slot ?n (syms ! i) + d) mod ?n) = Ok False" if "d < m0" for d
  proof -
    let ?x = "(home_slot ?n (syms ! i) + d) mod ?n"
    have x: "?x < ?n" "?ids ! ?x \<noteq> 0" "?x \<noteq> s" using pow2_pos[OF p] m(3) m0 that by (auto simp: occupied_run_def)
    then have "?ids ! ?x \<noteq> i + 1" using table_inj[OF t x(1) s(1)] s(2) by metis
    moreover have "1 \<le> ?ids ! ?x \<and> ?ids ! ?x \<le> length syms" by (rule table_id_range[OF t x(1,2)])
    ultimately have "?ids ! ?x - 1 \<noteq> i" "?ids ! ?x - 1 < length syms" by linarith+
    then have "syms ! (?ids ! ?x - 1) \<noteq> syms ! i" using nth_eq_iff_index_eq[OF d _ i(1)] by blast
    then show ?thesis by (simp add: slot_matches_rel[OF t a x(1,2)])
  qed
  moreover have "occupied_run ?ids (home_slot ?n (syms ! i)) m0" using m(3) m0(1) by (simp add: occupied_run_def)
  moreover have "slot_matches t (syms ! i) s = Ok True" using slot_matches_rel[OF t a s(1)] s(2) by simp
  ultimately have "probe ?n ?ids (slot_matches t (syms ! i)) (home_slot ?n (syms ! i)) = Ok (?ids ! s, s)"
    using m(1) m0(1) s(2) by (intro probe_hit[OF p home_slot_lt[OF p] _ m0(2)]) simp_all
  then show ?thesis using s(2) by auto
qed

lemma probe_unknown:
  assumes t: "table_rel ids refs syms K" and lt: "length syms < length ids"
    and miss: "\<And>s. s < length ids \<Longrightarrow> ids ! s \<noteq> 0 \<Longrightarrow> matches s = Ok False" and h: "h < length ids"
  shows "\<exists>m < length ids. occupied_run ids h m \<and> ids ! ((h + m) mod length ids) = 0 \<and>
    probe (length ids) ids matches h = Ok (0, (h + m) mod length ids)"
proof -
  have p: "pow2 (length ids)" using t by (simp add: table_rel_def)
  obtain m where m: "m < length ids" "occupied_run ids h m" "ids ! ((h + m) mod length ids) = 0"
    using first_empty[OF h] table_free_slot[OF t lt] by blast
  have "probe (length ids) ids matches h = Ok (0, (h + m) mod length ids)"
    by (rule probe_miss[OF p h m(2) refl m(3) _ m(1)]) (rule miss, use m(2) pow2_pos[OF p] in \<open>simp_all add: occupied_run_def\<close>)
  then show ?thesis using m by blast
qed

lemma grow_slot_Ok:
  assumes t: "table_rel ids refs syms K" and lt: "length syms < length ids" and k: "k \<in> {1..length syms}" "k \<notin> K"
  shows "\<exists>ids' refs'. grow_slot \<lparr>ba_buf = Some (concat syms), ba_maxBytes = m\<rparr> (k, ref_of syms (k - 1)) (ids, refs) = Ok (ids', refs') \<and>
    length ids' = length ids \<and> table_rel ids' refs' syms (insert k K)"
proof -
  let ?h = "home_slot (length ids) (syms ! (k - 1))"
  have n: "pow2 (length ids)" "length refs = length ids" using t by (simp_all add: table_rel_def)
  have b: "slice_bytes (arena_Bytes \<lparr>ba_buf = Some (concat syms), ba_maxBytes = m\<rparr> (ref_of syms (k - 1))) = syms ! (k - 1)"
    using k(1) by (subst sym_bytes) auto
  obtain d where d: "d < length ids" "occupied_run ids ?h d" "ids ! ((?h + d) mod length ids) = 0"
    "probe (length ids) ids (\<lambda>_. Ok False) ?h = Ok (0, (?h + d) mod length ids)"
    using probe_unknown[OF t lt _ home_slot_lt[OF n(1)], of "\<lambda>_. Ok False"] by blast
  have "(?h + d) mod length ids < length ids" using pow2_pos[OF n(1)] by simp
  then have "grow_slot \<lparr>ba_buf = Some (concat syms), ba_maxBytes = m\<rparr> (k, ref_of syms (k - 1)) (ids, refs) =
      Ok (ids[(?h + d) mod length ids := k], refs[(?h + d) mod length ids := ref_of syms (k - 1)])"
    unfolding grow_slot_def Let_def prod.case b d(4) using k(1) n(2) by simp
  then show ?thesis using table_insert[OF t k d(1,2) refl d(3)] by simp
qed

lemma grow_fold_Ok:
  assumes "table_rel ids refs syms K" "length syms < length ids" "distinct (filter (\<lambda>k. k \<noteq> 0) (map fst olds))"
    "\<forall>(k, r) \<in> set olds. k \<noteq> 0 \<longrightarrow> k \<in> {1..length syms} \<and> k \<notin> K \<and> r = ref_of syms (k - 1)"
  shows "\<exists>ids' refs'. res_foldM (grow_slot \<lparr>ba_buf = Some (concat syms), ba_maxBytes = m\<rparr>) olds (ids, refs) = Ok (ids', refs') \<and>
    length ids' = length ids \<and> table_rel ids' refs' syms (K \<union> (fst ` set olds - {0}))"
  using assms
proof (induction olds arbitrary: ids refs K)
  case (Cons old olds)
  obtain k r where old: "old = (k, r)" by (cases old) auto
  show ?case
  proof (cases "k = 0")
    case True
    have "grow_slot \<lparr>ba_buf = Some (concat syms), ba_maxBytes = m\<rparr> old (ids, refs) = Ok (ids, refs)" by (simp add: grow_slot_def old True)
    moreover have "K \<union> (fst ` set (old # olds) - {0}) = K \<union> (fst ` set olds - {0})" by (auto simp: old True)
    ultimately show ?thesis using Cons.IH[OF Cons.prems(1,2)] Cons.prems(3,4) by (simp add: old True)
  next
    case False
    then have k: "k \<in> {1..length syms}" "k \<notin> K" "r = ref_of syms (k - 1)" using Cons.prems(4) old by auto
    obtain ids1 refs1 where g: "grow_slot \<lparr>ba_buf = Some (concat syms), ba_maxBytes = m\<rparr> old (ids, refs) = Ok (ids1, refs1)"
      "length ids1 = length ids" "table_rel ids1 refs1 syms (insert k K)"
      using grow_slot_Ok[OF Cons.prems(1,2) k(1,2), of m] old k(3) by blast
    have "k \<notin> fst ` set olds" using Cons.prems(3) False by (auto simp: old)
    then have "\<forall>(j, r) \<in> set olds. j \<noteq> 0 \<longrightarrow> j \<in> {1..length syms} \<and> j \<notin> insert k K \<and> r = ref_of syms (j - 1)" using Cons.prems(4) by force
    then obtain ids2 refs2 where "res_foldM (grow_slot \<lparr>ba_buf = Some (concat syms), ba_maxBytes = m\<rparr>) olds (ids1, refs1) = Ok (ids2, refs2)"
      "length ids2 = length ids1" "table_rel ids2 refs2 syms (insert k K \<union> (fst ` set olds - {0}))"
      using Cons.IH[OF g(3)] Cons.prems(2,3) g(2) False by (auto simp: old)
    moreover have "insert k K \<union> (fst ` set olds - {0}) = K \<union> (fst ` set (old # olds) - {0})" using False by (auto simp: old)
    ultimately show ?thesis using g(1,2) by simp
  qed
qed simp

lemma distinct_nonzero:
  assumes "inj_on ((!) ids) {s. s < length ids \<and> ids ! s \<noteq> (0 :: nat)}"
  shows "distinct (filter (\<lambda>k. k \<noteq> 0) ids)"
proof -
  have "filter (\<lambda>k. k \<noteq> 0) (map ((!) ids) [0..<length ids]) = map ((!) ids) (filter (\<lambda>s. ids ! s \<noteq> 0) [0..<length ids])"
    by (simp only: filter_map o_def)
  then have "filter (\<lambda>k. k \<noteq> 0) ids = map ((!) ids) (filter (\<lambda>s. ids ! s \<noteq> 0) [0..<length ids])" by (simp only: map_nth)
  moreover have "set (filter (\<lambda>s. ids ! s \<noteq> 0) [0..<length ids]) = {s. s < length ids \<and> ids ! s \<noteq> 0}" by auto
  ultimately show ?thesis using assms by (simp add: distinct_map)
qed

lemma Interner_grow_Ok:
  assumes t: "intern_rel t syms" and ids: "in_ids t \<noteq> []"
  shows "\<exists>ids' refs'. Interner_grow t = Ok (t\<lparr>in_ids := ids', in_refs := refs'\<rparr>) \<and> length ids' = 2 * length (in_ids t) \<and>
    intern_rel (t\<lparr>in_ids := ids', in_refs := refs'\<rparr>) syms"
proof -
  let ?n = "length (in_ids t)" and ?z = "zip (in_ids t) (in_refs t)"
  have r: "table_rel (in_ids t) (in_refs t) syms {1..length syms}" and a: "in_arena t = Some \<lparr>ba_buf = Some (concat syms), ba_maxBytes = MaxUint32\<rparr>"
    and c: "2 * length syms \<le> ?n" using t ids by (simp_all add: intern_rel_def)
  have p: "pow2 (?n * 2)" using r by (auto simp: table_rel_def pow2_def) (metis mult.commute power_Suc)
  have len: "length (in_refs t) = ?n" "0 < ?n" using r ids by (simp_all add: table_rel_def)
  have fst: "map fst ?z = in_ids t" using len by simp
  have "k \<in> {1..length syms} \<and> ref = ref_of syms (k - 1)" if z: "(k, ref) \<in> set ?z" "k \<noteq> 0" for k ref
  proof -
    obtain s where s: "s < ?n" "k = in_ids t ! s" "ref = in_refs t ! s" using z(1) by (auto simp: set_zip)
    then show ?thesis using table_id_range[OF r s(1)] z(2) r unfolding table_rel_def by auto
  qed
  then have old: "\<forall>(k, ref) \<in> set ?z. k \<noteq> 0 \<longrightarrow> k \<in> {1..length syms} \<and> k \<notin> {} \<and> ref = ref_of syms (k - 1)" by blast
  have dist: "distinct (filter (\<lambda>k. k \<noteq> 0) (map fst ?z))" unfolding fst by (rule distinct_nonzero) (use r in \<open>simp add: table_rel_def\<close>)
  have lt: "length syms < length (replicate (?n * 2) (0 :: nat))" unfolding length_replicate using c len(2) by linarith
  obtain ids' refs' where g: "res_foldM (grow_slot \<lparr>ba_buf = Some (concat syms), ba_maxBytes = MaxUint32\<rparr>) ?z
      (replicate (?n * 2) 0, replicate (?n * 2) zero_ref) = Ok (ids', refs')" "length ids' = length (replicate (?n * 2) (0 :: nat))"
      "table_rel ids' refs' syms ({} \<union> (fst ` set ?z - {0}))"
    using grow_fold_Ok[OF table_empty[OF p] lt dist old, where m = MaxUint32] by blast
  have "fst ` set ?z = set (in_ids t)" using fst by (metis set_map)
  then have "{} \<union> (fst ` set ?z - {0}) = {1..length syms}" using r by (simp add: table_rel_def)
  moreover have "ids' \<noteq> []" "length ids' = ?n * 2" using g(2) len(2) by auto
  ultimately have "intern_rel (t\<lparr>in_ids := ids', in_refs := refs'\<rparr>) syms" using g(3) t ids by (simp add: intern_rel_def)
  moreover have "Interner_grow t = Ok (t\<lparr>in_ids := ids', in_refs := refs'\<rparr>)" by (simp add: Interner_grow_def a g(1) Let_def)
  ultimately show ?thesis using g(2) by (intro exI[of _ ids'] exI[of _ refs']) simp
qed

text \<open>Distinct symbols need bytes: at most 257 of them are shorter than two, so 32-bit identifiers never wrap.\<close>

lemma symbol_count_bound:
  assumes d: "distinct (syms :: byte list list)" and b: "length (concat syms) \<le> MaxUint32"
  shows "length syms + 2 < 2 ^ 32"
proof -
  let ?short = "filter (\<lambda>b. length b < 2) syms"
  have "set ?short \<subseteq> insert [] ((\<lambda>c. [c]) ` UNIV)"
  proof
    fix x assume "x \<in> set ?short"
    then have "length x = 0 \<or> length x = 1" by (auto simp: less_2_cases_iff)
    then show "x \<in> insert [] ((\<lambda>c :: byte. [c]) ` UNIV)" by (auto simp: length_Suc_conv)
  qed
  moreover have "card (insert [] ((\<lambda>c :: byte. [c]) ` UNIV)) \<le> 257"
    by (subst card_insert_disjoint) (auto simp: card_image inj_on_def card_word)
  ultimately have "card (set ?short) \<le> 257" using card_mono[of "insert [] ((\<lambda>c :: byte. [c]) ` UNIV)" "set ?short"] by (simp add: finite_code)
  then have short: "length ?short \<le> 257" using distinct_card[OF distinct_filter[OF d, of "\<lambda>b. length b < 2"]] by linarith
  have "2 * length xs \<le> length (concat xs) + 2 * length (filter (\<lambda>b. length b < 2) xs)" for xs :: "byte list list"
    by (induction xs) auto
  from this[of syms] show ?thesis using short b by simp
qed

definition adds :: "byte list list \<Rightarrow> byte list \<Rightarrow> bool" where
  "adds syms b \<longleftrightarrow> b \<notin> set syms \<and> length (concat syms) + length b \<le> MaxUint32"

lemma ref_of_append: "i < length syms \<Longrightarrow> ref_of (syms @ [b]) i = ref_of syms i"
  by (simp add: ref_of_def nth_append)

lemma add_symbol_Ok:
  assumes t: "intern_rel t syms" and ids: "in_ids t \<noteq> []" and room: "in_count t * 2 < length (in_ids t)" and new: "b \<notin> set syms"
    and run: "m < length (in_ids t)" "occupied_run (in_ids t) (home_slot (length (in_ids t)) b) m"
    and s: "s = (home_slot (length (in_ids t)) b + m) mod length (in_ids t)" "in_ids t ! s = 0"
  shows "if adds syms b then \<exists>t'. add_symbol t b s = Ok (t', Inr (length syms + 1)) \<and> in_ids t' \<noteq> [] \<and> intern_rel t' (syms @ [b])
    else add_symbol t b s = Ok (t, Inl ErrTooLarge)"
proof -
  let ?a = "\<lparr>ba_buf = Some (concat syms), ba_maxBytes = MaxUint32\<rparr>" and ?n = "length (in_ids t)" and ?syms = "syms @ [b]"
  note i = t[unfolded intern_rel_def if_not_P[OF ids]]
  have r: "table_rel (in_ids t) (in_refs t) syms {1..length syms}" and a: "in_arena t = Some ?a" and d: "distinct syms"
    and c: "in_count t = length syms" "in_nextID t = length syms + 1" and le: "length (concat syms) \<le> MaxUint32" using i by blast+
  have sn: "s < ?n" "length (in_refs t) = ?n" using s(1) run(1) r by (auto simp: table_rel_def intro!: mod_less_divisor)
  show ?thesis
  proof (cases "adds syms b")
    case False
    then have "length b \<noteq> 0" "length (concat syms) + length b > MaxUint32" using new le by (auto simp: adds_def)
    then have "arena_Append ?a b = Err ErrTooLarge" by (simp add: arena_Append_def arena_limit_def)
    then show ?thesis using False by (simp add: add_symbol_def a)
  next
    case True
    have bytes: "length (concat ?syms) \<le> MaxUint32" using True by (simp add: adds_def)
    have ref: "ref_of ?syms (length syms) = \<lparr>rf_Offset = length (concat syms), rf_Length = length b\<rparr>" by (simp add: ref_of_def)
    have "arena_Append ?a b = Ok (\<lparr>ba_buf = Some (concat ?syms), ba_maxBytes = MaxUint32\<rparr>, ref_of ?syms (length syms))"
      using bytes unfolding ref arena_Append_def arena_limit_def Let_def by (cases b) simp_all
    moreover have "table_rel ((in_ids t)[s := length syms + 1]) ((in_refs t)[s := ref_of ?syms (length syms)]) ?syms {1..length ?syms}"
    proof -
      have "table_rel (in_ids t) (in_refs t) ?syms {1..length syms}" by (rule table_more_symbols[OF r])
      from table_insert[OF this, of "length syms + 1" m s] show ?thesis using run s by (simp add: atLeastAtMostSuc_conv)
    qed
    moreover have "(length syms + 1 + 1) mod 2 ^ 32 = length ?syms + 1" using symbol_count_bound[OF d le] by simp
    moreover have "2 * length ?syms \<le> ?n"
    proof -
      obtain k where "?n = 2 ^ k" using r by (auto simp: table_rel_def pow2_def)
      moreover have "k \<noteq> 0" using i calculation by (cases k) auto
      ultimately obtain h where "?n = 2 * h" by (cases k) auto
      then show ?thesis using room c(1) by simp
    qed
    moreover have "map (rf_Offset \<circ> ref_of ?syms) [0..<length syms] = in_starts t" "map (rf_Length \<circ> ref_of ?syms) [0..<length syms] = in_lengths t"
      using i by (simp_all add: ref_of_append)
    ultimately show ?thesis using True i ids new sn bytes ref by (simp add: add_symbol_def a c intern_rel_def)
  qed
qed

lemma intern_known:
  assumes t: "intern_rel t syms" and i: "i < length syms"
  shows "intern_loop (Suc f) t (syms ! i) = Ok (t, Inr (i + 1))" "Interner_Lookup t (syms ! i) = Ok (i + 1, True)"
proof -
  have ids: "in_ids t \<noteq> []" using t i by (auto simp: intern_rel_def split: if_splits)
  have r: "table_rel (in_ids t) (in_refs t) syms {1..length syms}" and d: "distinct syms"
    and a: "in_arena t = Some \<lparr>ba_buf = Some (concat syms), ba_maxBytes = MaxUint32\<rparr>" using t ids by (simp_all add: intern_rel_def)
  obtain s where "probe (length (in_ids t)) (in_ids t) (slot_matches t (syms ! i)) (home_slot (length (in_ids t)) (syms ! i)) = Ok (i + 1, s)"
    using probe_known[OF r a d i] i by auto
  then show "intern_loop (Suc f) t (syms ! i) = Ok (t, Inr (i + 1))" "Interner_Lookup t (syms ! i) = Ok (i + 1, True)"
    using ids by (simp_all add: Interner_Lookup_def)
qed

lemma intern_probe_new:
  assumes t: "intern_rel t syms" and ids: "in_ids t \<noteq> []" and new: "b \<notin> set syms"
  shows "\<exists>m < length (in_ids t). occupied_run (in_ids t) (home_slot (length (in_ids t)) b) m \<and>
    in_ids t ! ((home_slot (length (in_ids t)) b + m) mod length (in_ids t)) = 0 \<and>
    probe (length (in_ids t)) (in_ids t) (slot_matches t b) (home_slot (length (in_ids t)) b) =
      Ok (0, (home_slot (length (in_ids t)) b + m) mod length (in_ids t))"
proof -
  have r: "table_rel (in_ids t) (in_refs t) syms {1..length syms}" and c: "2 * length syms \<le> length (in_ids t)" "4 \<le> length (in_ids t)"
    and a: "in_arena t = Some \<lparr>ba_buf = Some (concat syms), ba_maxBytes = MaxUint32\<rparr>" using t ids by (simp_all add: intern_rel_def)
  have miss: "slot_matches t b s = Ok False" if s: "s < length (in_ids t)" "in_ids t ! s \<noteq> 0" for s
  proof -
    have "in_ids t ! s - 1 < length syms" using table_id_range[OF r s] by linarith
    then show ?thesis using slot_matches_rel[OF r a s] new nth_mem by metis
  qed
  have p: "pow2 (length (in_ids t))" using r by (simp add: table_rel_def)
  have "length syms < length (in_ids t)" using c by linarith
  from probe_unknown[OF r this miss home_slot_lt[OF p]] show ?thesis .
qed

lemma intern_loop_new:
  assumes t: "intern_rel t syms" and ids: "in_ids t \<noteq> []" and new: "b \<notin> set syms" and room: "in_count t * 2 < length (in_ids t)"
  shows "if adds syms b then \<exists>t'. intern_loop (Suc f) t b = Ok (t', Inr (length syms + 1)) \<and> intern_rel t' (syms @ [b])
    else intern_loop (Suc f) t b = Ok (t, Inl ErrTooLarge)"
proof -
  obtain m where m: "m < length (in_ids t)" "occupied_run (in_ids t) (home_slot (length (in_ids t)) b) m"
    "in_ids t ! ((home_slot (length (in_ids t)) b + m) mod length (in_ids t)) = 0"
    "probe (length (in_ids t)) (in_ids t) (slot_matches t b) (home_slot (length (in_ids t)) b) =
      Ok (0, (home_slot (length (in_ids t)) b + m) mod length (in_ids t))" using intern_probe_new[OF t ids new] by blast
  have "intern_loop (Suc f) t b = add_symbol t b ((home_slot (length (in_ids t)) b + m) mod length (in_ids t))"
    using room by (simp add: m(4))
  then show ?thesis using add_symbol_Ok[OF t ids room new m(1,2) refl m(3)] by auto
qed

lemma intern_unknown:
  assumes t: "intern_rel t syms" and ids: "in_ids t \<noteq> []" and new: "b \<notin> set syms"
  shows "if adds syms b then \<exists>t'. intern_loop 2 t b = Ok (t', Inr (length syms + 1)) \<and> intern_rel t' (syms @ [b])
    else \<exists>t'. intern_loop 2 t b = Ok (t', Inl ErrTooLarge) \<and> intern_rel t' syms"
proof (cases "in_count t * 2 < length (in_ids t)")
  case True
  then show ?thesis using intern_loop_new[OF t ids new True, of "Suc 0"] t by (auto simp: numeral_2_eq_2 split: if_splits)
next
  case False
  obtain ids' refs' where g: "Interner_grow t = Ok (t\<lparr>in_ids := ids', in_refs := refs'\<rparr>)" "length ids' = 2 * length (in_ids t)"
    "intern_rel (t\<lparr>in_ids := ids', in_refs := refs'\<rparr>) syms" using Interner_grow_Ok[OF t ids] by blast
  let ?t = "t\<lparr>in_ids := ids', in_refs := refs'\<rparr>"
  have c: "in_count t = length syms" "2 * length syms \<le> length (in_ids t)" "0 < length (in_ids t)" using t ids by (simp_all add: intern_rel_def)
  have "in_ids ?t \<noteq> []" using g(2) c(3) by auto
  moreover have "length syms * 2 < length ids'" using g(2) c(2,3) by linarith
  then have "in_count ?t * 2 < length (in_ids ?t)" using c(1) by simp
  moreover obtain s where "probe (length (in_ids t)) (in_ids t) (slot_matches t b) (home_slot (length (in_ids t)) b) = Ok (0, s)"
    using intern_probe_new[OF t ids new] by blast
  then have "intern_loop 2 t b = intern_loop (Suc 0) ?t b" using False g(1) by (simp add: numeral_2_eq_2)
  ultimately show ?thesis using intern_loop_new[OF g(3) _ new, of 0] g(3) by (auto split: if_splits)
qed

lemma prepared_rel:
  assumes "intern_rel t syms"
  defines "u \<equiv> ensureArena (if in_ids t = [] then initTable t 4 else t)"
  shows "intern_rel u syms \<and> in_ids u \<noteq> []"
proof (cases "in_ids t = []")
  case True
  have "table_rel (replicate 4 0) (replicate 4 zero_ref) [] {}" by (rule table_empty) (auto simp: pow2_def intro!: exI[of _ 2])
  then show ?thesis using assms True by (simp add: intern_rel_def initTable_def ensureArena_def arena_New_def)
next
  case False
  then show ?thesis using assms by (simp add: intern_rel_def ensureArena_def)
qed

lemma Intern_Ok:
  assumes t: "intern_rel t syms"
  shows "i < length syms \<Longrightarrow> \<exists>t'. Intern t (syms ! i) = Ok (t', Inr (i + 1)) \<and> intern_rel t' syms"
    and "adds syms b \<Longrightarrow> \<exists>t'. Intern t b = Ok (t', Inr (length syms + 1)) \<and> intern_rel t' (syms @ [b])"
    and "b \<notin> set syms \<Longrightarrow> \<not> adds syms b \<Longrightarrow> \<exists>t'. Intern t b = Ok (t', Inl ErrTooLarge) \<and> intern_rel t' syms"
proof -
  let ?u = "ensureArena (if in_ids t = [] then initTable t 4 else t)"
  have u: "intern_rel ?u syms" "in_ids ?u \<noteq> []" using prepared_rel[OF t] by blast+
  have e: "Intern t b = intern_loop 2 ?u b" for b by (simp add: Intern_def Let_def)
  show "\<exists>t'. Intern t (syms ! i) = Ok (t', Inr (i + 1)) \<and> intern_rel t' syms" if "i < length syms"
    using intern_known(1)[OF u(1) that, of "Suc 0"] u(1) unfolding e numeral_2_eq_2 by blast
  show "\<exists>t'. Intern t b = Ok (t', Inr (length syms + 1)) \<and> intern_rel t' (syms @ [b])" if "adds syms b"
    using intern_unknown[OF u, of b] that unfolding e by (simp add: adds_def)
  show "\<exists>t'. Intern t b = Ok (t', Inl ErrTooLarge) \<and> intern_rel t' syms" if "b \<notin> set syms" "\<not> adds syms b"
    using intern_unknown[OF u that(1)] that(2) unfolding e by simp
qed

lemma Interner_Lookup_unknown:
  assumes t: "intern_rel t syms" and new: "b \<notin> set syms"
  shows "Interner_Lookup t b = Ok (0, False)"
proof (cases "in_ids t = []")
  case False
  then show ?thesis using intern_probe_new[OF t False new] by (auto simp: Interner_Lookup_def)
qed (simp add: Interner_Lookup_def)

lemma Interner_Bytes_Ok:
  assumes t: "intern_rel t syms"
  shows "Interner_Bytes t k = Ok (if k \<in> {1..length syms} then Some (syms ! (k - 1)) else None)"
proof (cases "in_ids t = []")
  case True
  then show ?thesis using t by (simp add: intern_rel_def Interner_Bytes_def)
next
  case False
  have eta: "\<lparr>rf_Offset = rf_Offset (ref_of syms i), rf_Length = rf_Length (ref_of syms i)\<rparr> = ref_of syms i" for i by (simp add: ref_of_def)
  show ?thesis using t False by (auto simp: intern_rel_def Interner_Bytes_def eta sym_bytes)
qed

lemma Interner_Reset_Ok:
  assumes "intern_rel t syms"
  shows "intern_rel (Interner_Reset t) []"
proof (cases "in_ids t = []")
  case False
  have "table_rel (map (\<lambda>_. 0) (in_ids t)) (in_refs t) [] {}" using assms False by (auto simp: intern_rel_def table_rel_def inj_on_def)
  then show ?thesis using assms False by (simp add: intern_rel_def Interner_Reset_def arena_Reset_def)
qed (use assms in \<open>simp add: intern_rel_def Interner_Reset_def\<close>)

lemma zero_interner_Ok: "intern_rel zero_interner []"
  by (simp add: intern_rel_def zero_interner_def)

lemma bits_Len_le: "x < 2 ^ k \<Longrightarrow> bits_Len x \<le> k"
proof (induction x arbitrary: k rule: bits_Len.induct)
  case (1 x)
  show ?case
  proof (cases "x = 0")
    case False
    then obtain j where j: "k = Suc j" using 1(2) by (cases k) auto
    then have "bits_Len (x div 2) \<le> j" using 1 False by simp
    then show ?thesis using j by (subst bits_Len.simps) (simp add: False)
  qed (simp add: bits_Len.simps)
qed

lemma NewSymbolInterner_Ok: "intern_rel (NewSymbolInterner hint) []"
proof -
  define h where "h = wrap_int (2 * (if hint < 0 then 0 else hint))"
  have "h < 2 ^ 63" by (simp add: h_def wrap_int_def)
  then have k: "bits_Len (nat (h - 1)) \<le> 63" by (intro bits_Len_le) (simp add: nat_less_iff)
  have "\<exists>k. nat (if nextPow2 h < 4 then 4 else nextPow2 h) = 2 ^ k"
  proof (cases "nextPow2 h < 4")
    case True
    then show ?thesis by (auto intro!: exI[of _ 2])
  next
    case False
    then have "1 < h" by (auto simp: nextPow2_def split: if_splits)
    then have e: "nextPow2 h = wrap_int (2 ^ bits_Len (nat (h - 1)) mod 2 ^ 64)" by (simp add: nextPow2_def)
    have "bits_Len (nat (h - 1)) \<noteq> 63" using False e by (auto simp: wrap_int_def)
    then have lt: "bits_Len (nat (h - 1)) < 63" using k by simp
    then have "(2 :: int) ^ bits_Len (nat (h - 1)) < 2 ^ 63" by (intro power_strict_increasing) simp_all
    then have "nextPow2 h = 2 ^ bits_Len (nat (h - 1))" unfolding e wrap_int_def by simp
    then show ?thesis using False by (auto simp: nat_power_eq)
  qed
  then obtain k where n: "nat (if nextPow2 h < 4 then 4 else nextPow2 h) = 2 ^ k" by blast
  have "4 \<le> nat (if nextPow2 h < 4 then 4 else nextPow2 h)" by (simp add: le_nat_iff)
  then show ?thesis unfolding NewSymbolInterner_def Let_def h_def[symmetric] n
    using table_empty[of "2 ^ k" zero_ref "[]"] by (auto simp: intern_rel_def arena_New_def pow2_def)
qed

section \<open>Symbol stores\<close>

text \<open>
  The contract of a symbol store over a list of distinct symbols, and what a client that interns several symbols
  gets: an identifier per symbol, stable under later calls, equal exactly for equal symbols.
\<close>

locale symbol_store =
  fixes rel :: "'t \<Rightarrow> byte list list \<Rightarrow> bool"
    and intern :: "'t \<Rightarrow> byte list \<Rightarrow> ('t \<times> (err + nat)) res"
    and lookup :: "'t \<Rightarrow> byte list \<Rightarrow> (nat \<times> bool) res"
    and bytes :: "'t \<Rightarrow> nat \<Rightarrow> byte list option res"
  assumes intern_old: "rel t syms \<Longrightarrow> i < length syms \<Longrightarrow> \<exists>t'. intern t (syms ! i) = Ok (t', Inr (i + 1)) \<and> rel t' syms"
    and intern_new: "rel t syms \<Longrightarrow> adds syms b \<Longrightarrow> \<exists>t'. intern t b = Ok (t', Inr (length syms + 1)) \<and> rel t' (syms @ [b])"
    and intern_full: "rel t syms \<Longrightarrow> b \<notin> set syms \<Longrightarrow> \<not> adds syms b \<Longrightarrow> \<exists>t'. intern t b = Ok (t', Inl ErrTooLarge) \<and> rel t' syms"
    and lookup_old: "rel t syms \<Longrightarrow> i < length syms \<Longrightarrow> lookup t (syms ! i) = Ok (i + 1, True)"
    and lookup_new: "rel t syms \<Longrightarrow> b \<notin> set syms \<Longrightarrow> lookup t b = Ok (0, False)"
    and bytes_old: "rel t syms \<Longrightarrow> bytes t k = Ok (if k \<in> {1..length syms} then Some (syms ! (k - 1)) else None)"
    and distinct_symbols: "rel t syms \<Longrightarrow> distinct syms"
begin

lemma intern_cases:
  assumes "rel t syms"
  obtains (old) i t' where "i < length syms" "syms ! i = b" "intern t b = Ok (t', Inr (i + 1))" "rel t' syms"
  | (new) t' where "adds syms b" "intern t b = Ok (t', Inr (length syms + 1))" "rel t' (syms @ [b])"
  | (full) t' where "b \<notin> set syms" "\<not> adds syms b" "intern t b = Ok (t', Inl ErrTooLarge)" "rel t' syms"
  using intern_old[OF assms] intern_new[OF assms] intern_full[OF assms] by (metis in_set_conv_nth)

lemma intern_result:
  assumes r: "rel t syms" and i: "intern t b = Ok (t', Inr k)"
  shows "\<exists>more. rel t' (syms @ more) \<and> k \<in> {1..length (syms @ more)} \<and> (syms @ more) ! (k - 1) = b"
  using r
proof (cases rule: intern_cases[where b = b])
  case (old i t1)
  then show ?thesis using i by (intro exI[of _ "[]"]) auto
next
  case (new t1)
  then show ?thesis using i by (intro exI[of _ "[b]"]) auto
next
  case (full t1)
  then show ?thesis using i by simp
qed

lemma lookup_found:
  assumes "rel t syms" "k \<in> {1..length syms}" "syms ! (k - 1) = b"
  shows "lookup t b = Ok (k, True)"
proof -
  have "k - 1 < length syms" "k - 1 + 1 = k" using assms(2) by auto
  then show ?thesis using lookup_old[OF assms(1), of "k - 1"] assms(3) by simp
qed

lemma intern_roundtrip:
  assumes r: "rel t syms" and i: "intern t b = Ok (t', Inr k)"
  shows "lookup t' b = Ok (k, True) \<and> bytes t' k = Ok (Some b) \<and>
    (\<forall>j c. bytes t j = Ok (Some c) \<longrightarrow> bytes t' j = Ok (Some c) \<and> lookup t' c = Ok (j, True))"
proof -
  obtain more where m: "rel t' (syms @ more)" "k \<in> {1..length (syms @ more)}" "(syms @ more) ! (k - 1) = b"
    using intern_result[OF r i] by blast
  have "bytes t' j = Ok (Some c) \<and> lookup t' c = Ok (j, True)" if "bytes t j = Ok (Some c)" for j c
  proof -
    have j: "j \<in> {1..length syms}" "syms ! (j - 1) = c" using that bytes_old[OF r, of j] by (auto split: if_splits)
    then have "j \<in> {1..length (syms @ more)}" "(syms @ more) ! (j - 1) = c" by (auto simp: nth_append)
    then show ?thesis using bytes_old[OF m(1), of j] lookup_found[OF m(1)] by simp
  qed
  then show ?thesis using m bytes_old[OF m(1), of k] lookup_found[OF m] by simp
qed

end

interpretation symbol_table: symbol_store intern_rel Intern Interner_Lookup Interner_Bytes
proof
  fix t syms b k i assume r: "intern_rel t syms"
  show "i < length syms \<Longrightarrow> \<exists>t'. Intern t (syms ! i) = Ok (t', Inr (i + 1)) \<and> intern_rel t' syms" by (rule Intern_Ok(1)[OF r])
  show "adds syms b \<Longrightarrow> \<exists>t'. Intern t b = Ok (t', Inr (length syms + 1)) \<and> intern_rel t' (syms @ [b])" by (rule Intern_Ok(2)[OF r])
  show "b \<notin> set syms \<Longrightarrow> \<not> adds syms b \<Longrightarrow> \<exists>t'. Intern t b = Ok (t', Inl ErrTooLarge) \<and> intern_rel t' syms" by (rule Intern_Ok(3)[OF r])
  show "i < length syms \<Longrightarrow> Interner_Lookup t (syms ! i) = Ok (i + 1, True)" by (rule intern_known(2)[OF r])
  show "b \<notin> set syms \<Longrightarrow> Interner_Lookup t b = Ok (0, False)" by (rule Interner_Lookup_unknown[OF r])
  show "Interner_Bytes t k = Ok (if k \<in> {1..length syms} then Some (syms ! (k - 1)) else None)" by (rule Interner_Bytes_Ok[OF r])
  show "distinct syms" using r by (auto simp: intern_rel_def split: if_splits)
qed

section \<open>Claims\<close>

text \<open>The interners a program can build, and the symbols one holds, read off its columns.\<close>

inductive interner_reachable :: "interner \<Rightarrow> bool" where
  zero: "interner_reachable zero_interner"
| new: "interner_reachable (NewSymbolInterner hint)"
| intern: "interner_reachable t \<Longrightarrow> Intern t b = Ok (t', r) \<Longrightarrow> interner_reachable t'"
| reset: "interner_reachable t \<Longrightarrow> interner_reachable (Interner_Reset t)"

definition symbols_of :: "interner \<Rightarrow> byte list list" where
  "symbols_of t = (case in_arena t of None \<Rightarrow> []
     | Some a \<Rightarrow> map (\<lambda>i. take (in_lengths t ! i) (drop (in_starts t ! i) (slice_bytes (ba_buf a)))) [0..<in_count t])"

lemma intern_step_rel:
  assumes "intern_rel t syms" "Intern t b = Ok (t', r)"
  shows "\<exists>syms'. intern_rel t' syms'"
  using assms(1) by (cases rule: symbol_table.intern_cases[where b = b]) (use assms(2) in auto)

lemma reachable_rel: "interner_reachable t \<Longrightarrow> \<exists>syms. intern_rel t syms"
  by (induction rule: interner_reachable.induct) (use zero_interner_Ok NewSymbolInterner_Ok intern_step_rel Interner_Reset_Ok in blast)+

lemma symbols_of_rel: "intern_rel t syms \<Longrightarrow> symbols_of t = syms"
proof (cases "in_ids t = []")
  case False
  assume r: "intern_rel t syms"
  have "take (length (syms ! i)) (drop (length (concat (take i syms))) (concat syms)) = syms ! i" if "i < length syms" for i
    using sym_bytes[OF that, of 0] by (simp add: arena_Bytes_def ref_of_def split: if_splits)
  then show ?thesis using r False by (auto simp: intern_rel_def symbols_of_def ref_of_def intro!: nth_equalityI)
qed (simp add: intern_rel_def symbols_of_def)

text \<open>C18: an interner is a list of distinct symbols. Whatever calls led to it, \<open>Intern\<close> returns: a known symbol
  gives its position and changes nothing, a new one is appended and gets the next identifier, and one that does
  not fit the arena is refused with the symbols unchanged. It never panics, its probe loops end, and the 32-bit
  identifiers never wrap.\<close>

theorem interner_refines_list:
  assumes "interner_reachable t"
  shows "distinct (symbols_of t) \<and>
    (case Intern t b of
       Ok (t', Inr k) \<Rightarrow> interner_reachable t' \<and>
         (if b \<in> set (symbols_of t) then symbols_of t' = symbols_of t \<and> 1 \<le> k \<and> k \<le> length (symbols_of t) \<and> symbols_of t ! (k - 1) = b
          else symbols_of t' = symbols_of t @ [b] \<and> k = length (symbols_of t) + 1)
     | Ok (t', Inl e) \<Rightarrow> interner_reachable t' \<and> e = ErrTooLarge \<and> symbols_of t' = symbols_of t \<and> b \<notin> set (symbols_of t) \<and>
         length (concat (symbols_of t)) + length b > MaxUint32
     | _ \<Rightarrow> False)"
proof -
  obtain syms where r: "intern_rel t syms" using reachable_rel[OF assms] by blast
  note e = symbols_of_rel[OF r] and reach = interner_reachable.intern[OF assms]
  from r have "case Intern t b of
       Ok (t', Inr k) \<Rightarrow> interner_reachable t' \<and>
         (if b \<in> set syms then symbols_of t' = syms \<and> 1 \<le> k \<and> k \<le> length syms \<and> syms ! (k - 1) = b else symbols_of t' = syms @ [b] \<and> k = length syms + 1)
     | Ok (t', Inl e) \<Rightarrow> interner_reachable t' \<and> e = ErrTooLarge \<and> symbols_of t' = syms \<and> b \<notin> set syms \<and> length (concat syms) + length b > MaxUint32
     | _ \<Rightarrow> False"
  proof (cases rule: symbol_table.intern_cases[where b = b])
    case (old i t')
    then show ?thesis using symbols_of_rel[OF old(4)] reach[OF old(3)] by (auto simp: Suc_le_eq)
  next
    case (new t')
    then show ?thesis using symbols_of_rel[OF new(3)] reach[OF new(2)] by (auto simp: adds_def)
  next
    case (full t')
    then show ?thesis using symbols_of_rel[OF full(4)] reach[OF full(3)] by (auto simp: adds_def)
  qed
  then show ?thesis unfolding e using symbol_table.distinct_symbols[OF r] by blast
qed

definition sample_interner :: interner where
  "sample_interner = (case Intern zero_interner [97] of Ok (t, _) \<Rightarrow> t | _ \<Rightarrow> zero_interner)"

lemma sample_intern: "Intern zero_interner [97] = Ok (sample_interner, Inr 1)"
  by code_simp

theorem interner_refines_list_witness: "interner_reachable sample_interner \<and> distinct (symbols_of sample_interner)"
  using interner_refines_list[of sample_interner] interner_reachable.intern[OF interner_reachable.zero sample_intern] by blast

text \<open>C19: interning round trip. After a symbol was interned, looking it up gives its identifier and the identifier gives
  back its bytes, also for the empty symbol; every identifier given out before still names the same symbol.\<close>

theorem intern_lookup_roundtrip:
  assumes "interner_reachable t" "Intern t b = Ok (t', Inr k)"
  shows "Interner_Lookup t' b = Ok (k, True) \<and> Interner_Bytes t' k = Ok (Some b) \<and>
    (\<forall>j c. Interner_Bytes t j = Ok (Some c) \<longrightarrow> Interner_Bytes t' j = Ok (Some c) \<and> Interner_Lookup t' c = Ok (j, True))"
  using reachable_rel[OF assms(1)] symbol_table.intern_roundtrip[OF _ assms(2)] by blast

theorem intern_lookup_roundtrip_witness:
  "Interner_Lookup sample_interner [97] = Ok (1, True) \<and> Interner_Bytes sample_interner 1 = Ok (Some [97])"
  using intern_lookup_roundtrip[OF interner_reachable.zero sample_intern] by blast

end
