(* ===== verification/NR_Symbols.thy ===== *)
theory NR_Symbols
  imports NR_Intern NR_Sample
begin

text \<open>
  The frozen symbol table of a program: \<^verbatim>\<open>Builder.validateProgramSymbols\<close> of \<^verbatim>\<open>internal/eval/builder.go\<close> and
  \<^verbatim>\<open>Program.LookupSymbol\<close>.

  The check walks the slots once, starting behind an empty one, and keeps the start of the current cluster. It
  accepts only tables in which a lookup finds every symbol. The scratch bitmap of seen identifiers is local to the
  check.
\<close>

section \<open>The check\<close>

fun symbol_ranges_ok :: "nat \<Rightarrow> nat \<Rightarrow> nat list \<Rightarrow> nat list \<Rightarrow> bool" where
  "symbol_ranges_ok bytes pos [] lens \<longleftrightarrow> pos = bytes"
| "symbol_ranges_ok bytes pos (start # starts) lens \<longleftrightarrow>
     (if start \<noteq> pos then False
      else let pos = pos + hd lens in if pos > bytes then False else symbol_ranges_ok bytes pos starts (tl lens))"

text \<open>One slot of the walk: the seen identifiers, the start of the cluster and the number of identifiers, or a refusal.\<close>

definition cluster_step :: "program \<Rightarrow> nat \<Rightarrow> nat \<Rightarrow> u64 list \<times> nat \<times> nat \<Rightarrow> (u64 list \<times> nat \<times> nat) option res" where
  "cluster_step p start logical st =
     (case st of (seen, clusterStart, nonzero) \<Rightarrow>
      let mask = length (p_SymbolIDs p) - 1; slot = (start + logical) AND mask; sid = p_SymbolIDs p ! slot in
      if sid = 0 then (if p_SymbolHashes p ! slot \<noteq> 0 then Ok None else Ok (Some (seen, logical + 1, nonzero)))
      else let id0 = sid - 1 in
      if id0 \<ge> p_ProgramSymbolCount p then Ok None
      else rbind (idx seen (id0 div 64)) (\<lambda>w.
        if w AND row_bit id0 \<noteq> 0 then Ok None
        else rbind (upd seen (id0 div 64) (w OR row_bit id0)) (\<lambda>seen.
          let valueStart = p_SymbolStarts p ! id0 in
          rbind (subslice (p_SymbolBytes p) valueStart (valueStart + p_SymbolLengths p ! id0)) (\<lambda>v.
          let hash = HashSymbol v in
          if p_SymbolHashes p ! slot \<noteq> hash then Ok None
          else let home = hash AND word_of_nat mask; homeLogical = unat (home - word_of_nat start AND word_of_nat mask) in
          if homeLogical < clusterStart \<or> homeLogical > logical then Ok None
          else Ok (Some (seen, clusterStart, nonzero + 1))))))"

primrec cluster_loop :: "program \<Rightarrow> nat \<Rightarrow> nat list \<Rightarrow> u64 list \<times> nat \<times> nat \<Rightarrow> bool res" where
  "cluster_loop p start [] st = Ok (snd (snd st) = p_ProgramSymbolCount p)"
| "cluster_loop p start (logical # ls) st =
     rbind (cluster_step p start logical st) (\<lambda>r. case r of None \<Rightarrow> Ok False | Some st \<Rightarrow> cluster_loop p start ls st)"

definition validateProgramSymbols :: "program \<Rightarrow> bool res" where
  "validateProgramSymbols p =
     (let count = p_ProgramSymbolCount p; slots = length (p_SymbolIDs p) in
      if count \<noteq> length (p_SymbolStarts p) \<or> count \<noteq> length (p_SymbolLengths p) \<or>
         length (p_SymbolHashes p) \<noteq> length (p_SymbolIDs p) \<or> length (p_SymbolBytes p) > MaxUint32 then Ok False
      else if \<not> symbol_ranges_ok (length (p_SymbolBytes p)) 0 (p_SymbolStarts p) (p_SymbolLengths p) then Ok False
      else if slots = 0 then Ok (count = 0)
      else if slots AND (slots - 1) \<noteq> 0 \<or> slots < 2 * count then Ok False
      else let seen = replicate ((count + 63) div 64) 0 in
      if count = 0 then Ok (list_all (\<lambda>slot. p_SymbolIDs p ! slot = 0 \<and> p_SymbolHashes p ! slot = 0) [0..<slots])
      else (case List.find (\<lambda>slot. p_SymbolIDs p ! slot = 0) [0..<slots] of
          None \<Rightarrow> Ok False
        | Some free \<Rightarrow> cluster_loop p ((free + 1) AND (slots - 1)) [0..<slots] (seen, 0, 0)))"

section \<open>Powers of two\<close>

lemma and_pred_pow2: "(n :: nat) \<noteq> 0 \<Longrightarrow> n AND (n - 1) = 0 \<Longrightarrow> pow2 n"
proof (induction n rule: less_induct)
  case (less n)
  show ?case
  proof (cases "even n")
    case True
    then obtain m where m: "n = 2 * m" by blast
    then have "m \<noteq> 0" using less.prems(1) by simp
    then have "n - 1 = 2 * (m - 1) + 1" using m by simp
    then have "n AND (n - 1) = 2 * (m AND (m - 1))" unfolding m by (subst and_nat_rec) simp
    then have "pow2 m" using less.IH[of m] less.prems m \<open>m \<noteq> 0\<close> by simp
    then show ?thesis using m by (auto simp: pow2_def) (metis power_Suc)
  next
    case False
    then obtain m where m: "n = 2 * m + 1" by (elim oddE)
    have "n AND (n - 1) = 2 * (m AND m)" unfolding m by (subst and_nat_rec) simp
    then have "m = 0" using less.prems(2) by simp
    then show ?thesis using m by (auto simp: pow2_def intro: exI[of _ 0])
  qed
qed

text \<open>The logical distance of a home slot from the start, in wrapping 64-bit arithmetic, leads back to the slot.\<close>

lemma home_logical:
  assumes n: "n = 2 ^ k" "n \<le> 2 ^ 63" and m: "mk = (word_of_nat (n - 1) :: u64)"
  shows "(start + unat ((h AND mk) - word_of_nat start AND mk)) mod n = unat h mod n"
proof -
  have mk: "mk = mask k" unfolding m n(1) by (simp add: mask_eq_exp_minus_1 of_nat_diff)
  have k: "k \<le> 63" by (rule power_le_imp_le_exp[OF _ n(2)[unfolded n(1)]]) simp
  let ?N = "2 ^ 64 :: nat" and ?s = "word_of_nat start :: u64" and ?a = "unat h mod n"
  have and_mk: "unat (w AND mk) = unat w mod n" for w
    unfolding mk n(1) take_bit_eq_mask[symmetric] unsigned_take_bit_eq by (rule take_bit_eq_mod)
  have s: "unat ?s = start mod ?N" by (simp add: unat_of_nat)
  have q: "start = ?N * (start div ?N) + start mod ?N" by simp
  have dvd: "(?N * x + y) mod n = y mod n" for x y
  proof -
    have "n dvd ?N * x" unfolding n(1) by (rule dvd_mult2, rule le_imp_power_dvd) (use k in simp)
    then obtain z where "?N * x = n * z" by (rule dvdE)
    then show ?thesis by (simp only: mod_mult_self4)
  qed
  have "(start + unat ((h AND mk) - ?s)) mod n = ?a mod n"
  proof (cases "start mod ?N \<le> ?a")
    case True
    then have "unat ((h AND mk) - ?s) = ?a - start mod ?N" by (simp add: unat_sub_if' and_mk s)
    then have "start + unat ((h AND mk) - ?s) = ?N * (start div ?N) + ?a" using q True by linarith
    then show ?thesis by (simp only: dvd)
  next
    case False
    have "start mod ?N < ?N" by simp
    moreover have "unat ((h AND mk) - ?s) = ?a + ?N - start mod ?N" using False by (simp add: unat_sub_if' and_mk s)
    ultimately have "start + unat ((h AND mk) - ?s) = ?N * (start div ?N) + (?N * 1 + ?a)" using q by linarith
    then show ?thesis by (simp only: dvd)
  qed
  then show ?thesis by (simp add: and_mk mod_add_right_eq)
qed

section \<open>What the check establishes\<close>

definition program_symbol :: "program \<Rightarrow> nat \<Rightarrow> byte list" where
  "program_symbol p i = take (p_SymbolLengths p ! i) (drop (p_SymbolStarts p ! i) (p_SymbolBytes p))"

lemma symbol_ranges_ok_D:
  "symbol_ranges_ok n pos starts lens \<Longrightarrow> length lens = length starts \<Longrightarrow> i < length starts \<Longrightarrow> starts ! i + lens ! i \<le> n"
proof (induction starts arbitrary: pos lens i)
  case (Cons a starts)
  obtain b bs where "lens = b # bs" using Cons.prems(2) by (cases lens) auto
  then show ?case using Cons by (cases i) (auto simp: Let_def split: if_splits)
qed simp

text \<open>A table in which every symbol has a slot with its hash, reached from its home slot over occupied slots.\<close>

definition symbols_placed :: "program \<Rightarrow> bool" where
  "symbols_placed p \<longleftrightarrow> (let n = length (p_SymbolIDs p); count = p_ProgramSymbolCount p in
     length (p_SymbolHashes p) = n \<and> count = length (p_SymbolStarts p) \<and> count = length (p_SymbolLengths p) \<and>
     (\<forall>i < count. p_SymbolStarts p ! i + p_SymbolLengths p ! i \<le> length (p_SymbolBytes p)) \<and> (n = 0 \<longrightarrow> count = 0) \<and> (n \<noteq> 0 \<longrightarrow> pow2 n) \<and>
     (\<forall>i < count. \<exists>m < n. occupied_run (p_SymbolIDs p) (unat (HashSymbol (program_symbol p i)) mod n) m \<and>
        p_SymbolIDs p ! ((unat (HashSymbol (program_symbol p i)) mod n + m) mod n) = i + 1 \<and>
        p_SymbolHashes p ! ((unat (HashSymbol (program_symbol p i)) mod n + m) mod n) = HashSymbol (program_symbol p i)) \<and>
     (\<forall>s < n. p_SymbolIDs p ! s \<le> count))"

definition cluster_good :: "program \<Rightarrow> nat \<Rightarrow> nat \<Rightarrow> bool" where
  "cluster_good p start l \<longleftrightarrow> (let n = length (p_SymbolIDs p); sid = p_SymbolIDs p ! ((start + l) mod n); h = HashSymbol (program_symbol p (sid - 1)) in
     sid \<noteq> 0 \<longrightarrow> sid \<le> p_ProgramSymbolCount p \<and> p_SymbolHashes p ! ((start + l) mod n) = h \<and>
       (\<exists>hl \<le> l. (start + hl) mod n = unat h mod n \<and> (\<forall>x. hl \<le> x \<and> x \<le> l \<longrightarrow> p_SymbolIDs p ! ((start + x) mod n) \<noteq> 0)))"

definition seen_ids :: "program \<Rightarrow> nat \<Rightarrow> nat \<Rightarrow> nat set" where
  "seen_ids p start l = {p_SymbolIDs p ! ((start + x) mod length (p_SymbolIDs p)) - 1 | x. x < l \<and> p_SymbolIDs p ! ((start + x) mod length (p_SymbolIDs p)) \<noteq> 0}"

definition cluster_inv :: "program \<Rightarrow> nat \<Rightarrow> nat \<Rightarrow> u64 list \<times> nat \<times> nat \<Rightarrow> bool" where
  "cluster_inv p start l st \<longleftrightarrow> (case st of (seen, cs, nz) \<Rightarrow>
     length seen = word_count (p_ProgramSymbolCount p) \<and> cs \<le> l \<and>
     (\<forall>x. cs \<le> x \<and> x < l \<longrightarrow> p_SymbolIDs p ! ((start + x) mod length (p_SymbolIDs p)) \<noteq> 0) \<and>
     (\<forall>x < l. cluster_good p start x) \<and> {i. wbit seen i} = seen_ids p start l \<and> seen_ids p start l \<subseteq> {..<p_ProgramSymbolCount p} \<and>
     nz = card (seen_ids p start l))"

lemma seen_ids_Suc: "seen_ids p start (Suc l) =
   (let sid = p_SymbolIDs p ! ((start + l) mod length (p_SymbolIDs p)) in if sid = 0 then seen_ids p start l else insert (sid - 1) (seen_ids p start l))"
  unfolding seen_ids_def Let_def by (auto simp: less_Suc_eq)

lemma cluster_step_inv:
  assumes inv: "cluster_inv p start l st" and n: "pow2 (length (p_SymbolIDs p))" "length (p_SymbolIDs p) \<le> 2 ^ 63"
    and r: "\<forall>i < p_ProgramSymbolCount p. p_SymbolStarts p ! i + p_SymbolLengths p ! i \<le> length (p_SymbolBytes p)"
  shows "cluster_step p start l st = Ok None \<or> (\<exists>st'. cluster_step p start l st = Ok (Some st') \<and> cluster_inv p start (Suc l) st')"
proof -
  obtain seen cs nz where st: "st = (seen, cs, nz)" by (cases st) auto
  let ?n = "length (p_SymbolIDs p)" and ?count = "p_ProgramSymbolCount p"
  define slot where "slot = (start + l) mod ?n"
  define sid where "sid = p_SymbolIDs p ! slot"
  have s: "(start + l) AND (?n - 1) = slot" using and_mask_mod[OF n(1)] by (simp add: slot_def)
  note i = inv[unfolded cluster_inv_def st prod.case]
  note step = cluster_step_def[of p start l st, unfolded st prod.case s Let_def sid_def[symmetric]]
  show ?thesis
  proof (cases "sid = 0")
    case True
    have "cluster_inv p start (Suc l) (seen, l + 1, nz)"
      using i True unfolding cluster_inv_def seen_ids_Suc Let_def slot_def[symmetric] sid_def[symmetric]
      by (auto simp: less_Suc_eq cluster_good_def slot_def[symmetric] sid_def[symmetric])
    then show ?thesis unfolding st step using True by auto
  next
    case False
    define v where "v = program_symbol p (sid - 1)"
    define hl where "hl = unat ((HashSymbol v AND word_of_nat (?n - 1)) - word_of_nat start AND word_of_nat (?n - 1))"
    show ?thesis
    proof (cases "sid - 1 < ?count")
      case lt: True
      have w: "(sid - 1) div 64 < length seen" using i lt by simp
      have sub: "subslice (p_SymbolBytes p) (p_SymbolStarts p ! (sid - 1)) (p_SymbolStarts p ! (sid - 1) + p_SymbolLengths p ! (sid - 1)) = Ok v"
        using r lt by (simp add: v_def program_symbol_def)
      let ?seen = "seen[(sid - 1) div 64 := seen ! ((sid - 1) div 64) OR row_bit (sid - 1)]"
      have e: "cluster_step p start l st =
          (if seen ! ((sid - 1) div 64) AND row_bit (sid - 1) \<noteq> 0 \<or> p_SymbolHashes p ! slot \<noteq> HashSymbol v \<or> hl < cs \<or> hl > l then Ok None
           else Ok (Some (?seen, cs, nz + 1)))"
        unfolding st step using False lt w sub by (simp add: hl_def)
      show ?thesis
      proof (cases "seen ! ((sid - 1) div 64) AND row_bit (sid - 1) \<noteq> 0 \<or> p_SymbolHashes p ! slot \<noteq> HashSymbol v \<or> hl < cs \<or> hl > l")
        case ok: False
        have new: "sid - 1 \<notin> seen_ids p start l" using ok i w by (auto simp: and_row_bit_eq_0 wbit_def)
        have bits: "{i. wbit ?seen i} = insert (sid - 1) (seen_ids p start l)" using i wbit_list_update_or[OF w] by auto
        have ids: "seen_ids p start (Suc l) = insert (sid - 1) (seen_ids p start l)"
          using False by (simp add: seen_ids_Suc slot_def[symmetric] sid_def[symmetric])
        have "finite (seen_ids p start l)" using i finite_subset by blast
        then have card: "card (seen_ids p start (Suc l)) = nz + 1" using new i by (simp add: ids)
        have run: "p_SymbolIDs p ! ((start + x) mod ?n) \<noteq> 0" if "cs \<le> x" "x \<le> l" for x
          using i that False by (cases "x = l") (auto simp: sid_def slot_def)
        obtain k where k: "?n = 2 ^ k" using n(1) by (auto simp: pow2_def)
        have "(start + hl) mod ?n = unat (HashSymbol v) mod ?n" unfolding hl_def by (rule home_logical[OF k n(2) refl])
        then have good: "cluster_good p start l"
          using ok lt run unfolding cluster_good_def Let_def slot_def[symmetric] sid_def[symmetric] v_def[symmetric] by (auto intro!: exI[of _ hl])
        have "cluster_inv p start (Suc l) (?seen, cs, nz + 1)"
          using i run good bits card lt unfolding cluster_inv_def prod.case ids by (auto simp: less_Suc_eq less_Suc_eq_le)
        then show ?thesis using e ok by auto
      qed (use e in auto)
    next
      case lt: False
      then show ?thesis unfolding st step using False by simp
    qed
  qed
qed

lemma cluster_loop_inv:
  assumes n: "pow2 (length (p_SymbolIDs p))" "length (p_SymbolIDs p) \<le> 2 ^ 63"
    and r: "\<forall>i < p_ProgramSymbolCount p. p_SymbolStarts p ! i + p_SymbolLengths p ! i \<le> length (p_SymbolBytes p)"
    and inv: "cluster_inv p start l st" and l: "l \<le> m"
  shows "cluster_loop p start [l..<m] st = Ok False \<or>
    (cluster_loop p start [l..<m] st = Ok True \<and> (\<exists>seen cs. cluster_inv p start m (seen, cs, p_ProgramSymbolCount p)))"
  using inv l
proof (induction "m - l" arbitrary: l st)
  case 0
  then show ?case by (cases st) auto
next
  case (Suc d)
  have e: "[l..<m] = l # [Suc l..<m]" using Suc.hyps(2) by (simp add: upt_conv_Cons)
  from cluster_step_inv[OF Suc.prems(1) n r] show ?case
  proof
    assume "cluster_step p start l st = Ok None"
    then show ?thesis by (simp add: e)
  next
    assume "\<exists>st'. cluster_step p start l st = Ok (Some st') \<and> cluster_inv p start (Suc l) st'"
    then obtain st' where st': "cluster_step p start l st = Ok (Some st')" "cluster_inv p start (Suc l) st'" by blast
    have "cluster_loop p start [l..<m] st = cluster_loop p start [Suc l..<m] st'" by (simp add: e st'(1))
    then show ?thesis using Suc.hyps(1)[of "Suc l" st'] Suc.hyps(2) st'(2) by simp
  qed
qed

lemma cluster_placed:
  assumes n: "n = length (p_SymbolIDs p)" "0 < n" and inv: "cluster_inv p start n (seen, cs, p_ProgramSymbolCount p)" and i: "i < p_ProgramSymbolCount p"
  shows "\<exists>m < n. occupied_run (p_SymbolIDs p) (unat (HashSymbol (program_symbol p i)) mod n) m \<and>
    p_SymbolIDs p ! ((unat (HashSymbol (program_symbol p i)) mod n + m) mod n) = i + 1 \<and>
    p_SymbolHashes p ! ((unat (HashSymbol (program_symbol p i)) mod n + m) mod n) = HashSymbol (program_symbol p i)"
proof -
  have c: "seen_ids p start n \<subseteq> {..<p_ProgramSymbolCount p}" "card (seen_ids p start n) = p_ProgramSymbolCount p"
    and good: "\<forall>x < n. cluster_good p start x" using inv unfolding cluster_inv_def by auto
  have "seen_ids p start n = {..<p_ProgramSymbolCount p}" using card_subset_eq[OF _ c(1)] c(2) by simp
  then have "i \<in> seen_ids p start n" using i by simp
  then obtain l where l: "l < n" "p_SymbolIDs p ! ((start + l) mod n) \<noteq> 0" "i = p_SymbolIDs p ! ((start + l) mod n) - 1"
    unfolding seen_ids_def n(1) by blast
  then have sid: "p_SymbolIDs p ! ((start + l) mod n) = i + 1" by simp
  let ?h = "unat (HashSymbol (program_symbol p i)) mod n"
  have "cluster_good p start l" using good l(1) by blast
  then have "p_SymbolHashes p ! ((start + l) mod n) = HashSymbol (program_symbol p i) \<and>
      (\<exists>hl \<le> l. (start + hl) mod n = ?h \<and> (\<forall>x. hl \<le> x \<and> x \<le> l \<longrightarrow> p_SymbolIDs p ! ((start + x) mod n) \<noteq> 0))"
    unfolding cluster_good_def Let_def n(1)[symmetric] sid by simp
  then obtain hl where hl: "hl \<le> l" "(start + hl) mod n = ?h" "\<forall>x. hl \<le> x \<and> x \<le> l \<longrightarrow> p_SymbolIDs p ! ((start + x) mod n) \<noteq> 0"
    and hash: "p_SymbolHashes p ! ((start + l) mod n) = HashSymbol (program_symbol p i)" by blast
  have shift: "(?h + d) mod n = (start + (hl + d)) mod n" for d using hl(2) by (metis add.assoc mod_add_left_eq mod_mod_trivial)
  have "(?h + (l - hl)) mod n = (start + l) mod n" using shift[of "l - hl"] hl(1) by simp
  moreover have "occupied_run (p_SymbolIDs p) ?h (l - hl)" unfolding occupied_run_def n(1)[symmetric] shift using hl(1,3) by auto
  ultimately show ?thesis using sid hash l(1) hl(1) by (intro exI[of _ "l - hl"]) auto
qed

lemma cluster_ids_bound:
  assumes n: "n = length (p_SymbolIDs p)" "start < n" and inv: "cluster_inv p start n st" and s: "s < n"
  shows "p_SymbolIDs p ! s \<le> p_ProgramSymbolCount p"
proof -
  obtain l where l: "l < n" "s = (start + l) mod n" using reach[OF s n(2)] by blast
  then have "cluster_good p start l" using inv unfolding cluster_inv_def by (auto split: prod.splits)
  then show ?thesis using l(2) unfolding cluster_good_def Let_def n(1)[symmetric] by auto
qed

lemma cluster_inv_start: "cluster_inv p start 0 (replicate (word_count (p_ProgramSymbolCount p)) 0, 0, 0)"
  by (simp add: cluster_inv_def seen_ids_def)

text \<open>An accepted table is placed; the check itself never panics.\<close>

lemma validateProgramSymbols_placed:
  assumes n: "length (p_SymbolIDs p) \<le> 2 ^ 63"
  shows "validateProgramSymbols p = Ok False \<or> validateProgramSymbols p = Ok True \<and> symbols_placed p"
proof (cases "validateProgramSymbols p = Ok False")
  case False
  let ?n = "length (p_SymbolIDs p)" and ?count = "p_ProgramSymbolCount p"
  note v = False[unfolded validateProgramSymbols_def Let_def]
  have c: "?count = length (p_SymbolStarts p)" "?count = length (p_SymbolLengths p)" "length (p_SymbolHashes p) = ?n"
    and ranges: "symbol_ranges_ok (length (p_SymbolBytes p)) 0 (p_SymbolStarts p) (p_SymbolLengths p)"
    using v by (auto split: if_splits)
  have r: "\<forall>i < ?count. p_SymbolStarts p ! i + p_SymbolLengths p ! i \<le> length (p_SymbolBytes p)"
    using symbol_ranges_ok_D[OF ranges] c by simp
  show ?thesis
  proof (cases "?count = 0 \<or> ?n = 0")
    case True
    have "?n \<noteq> 0 \<Longrightarrow> ?n AND (?n - 1) = 0" using v by (auto split: if_splits)
    moreover have "?count = 0" using v True by (auto split: if_splits)
    moreover have "p_SymbolIDs p ! s = 0" if "s < ?n" for s using v c(1,2) \<open>?count = 0\<close> that by (auto simp: list_all_iff split: if_splits)
    ultimately show ?thesis using c v and_pred_pow2[of ?n] unfolding symbols_placed_def validateProgramSymbols_def Let_def
      by (auto simp: list_all_iff split: if_splits)
  next
    case nz: False
    have p2: "pow2 ?n" using v nz by (intro and_pred_pow2) (auto split: if_splits)
    obtain free where f: "List.find (\<lambda>slot. p_SymbolIDs p ! slot = 0) [0..<?n] = Some free" using v nz by (auto split: if_splits option.splits)
    define start where "start = (free + 1) AND (?n - 1)"
    have st: "start < ?n" using and_mask_mod[OF p2] nz by (simp add: start_def)
    have e: "validateProgramSymbols p = cluster_loop p start [0..<?n] (replicate (word_count ?count) 0, 0, 0)"
      using v nz f unfolding validateProgramSymbols_def Let_def start_def word_count_def by (auto split: if_splits)
    from cluster_loop_inv[OF p2 n r cluster_inv_start, of ?n start] e False
    obtain seen cs where k: "validateProgramSymbols p = Ok True" "cluster_inv p start ?n (seen, cs, ?count)" by auto
    have "symbols_placed p" unfolding symbols_placed_def Let_def
      using c r nz p2 cluster_placed[OF refl _ k(2)] cluster_ids_bound[OF refl st k(2)] by simp
    then show ?thesis using k(1) by blast
  qed
qed simp

section \<open>Lookup\<close>

lemma probe_symbol_sound: "probe_symbol fuel p v h slot = Some k \<Longrightarrow> k \<noteq> 0 \<and> Program_Symbol p k = Some v"
  by (induction fuel arbitrary: slot) (auto simp: Let_def split: if_splits)

lemma probe_symbol_run:
  assumes n: "length (p_SymbolHashes p) = length (p_SymbolIDs p)" and h: "h < length (p_SymbolIDs p)" and run: "occupied_run (p_SymbolIDs p) h m"
    and hit: "s = (h + m) mod length (p_SymbolIDs p)" "p_SymbolIDs p ! s \<noteq> 0" "p_SymbolHashes p ! s = hash" "Program_Symbol p (p_SymbolIDs p ! s) = Some v"
    and m: "m < fuel"
  shows "\<exists>k. probe_symbol fuel p v hash h = Some k"
  using assms
proof (induction m arbitrary: h fuel)
  case 0
  then obtain f where "fuel = Suc f" by (cases fuel) auto
  then show ?case using 0 by (simp add: Let_def)
next
  case (Suc m)
  obtain f where f: "fuel = Suc f" using Suc.prems by (cases fuel) auto
  let ?n = "length (p_SymbolIDs p)"
  have shift: "((h + 1) mod ?n + d) mod ?n = (h + Suc d) mod ?n" for d by (simp add: mod_add_left_eq)
  have "p_SymbolIDs p ! h \<noteq> 0" using Suc.prems(2,3) by (auto simp: occupied_run_def dest: spec[of _ 0])
  moreover have "\<exists>k. probe_symbol f p v hash ((h + 1) mod ?n) = Some k"
  proof (rule Suc.IH[OF n])
    show "(h + 1) mod ?n < ?n" using Suc.prems(2) by (intro mod_less_divisor) linarith
    show "occupied_run (p_SymbolIDs p) ((h + 1) mod ?n) m" using Suc.prems(3) unfolding occupied_run_def shift by auto
    show "s = ((h + 1) mod ?n + m) mod ?n" using Suc.prems(4) unfolding shift .
  qed (use Suc.prems f in simp_all)
  ultimately show ?case using f n by (auto simp: Let_def)
qed

lemma Program_Symbol_placed:
  assumes "symbols_placed p"
  shows "Program_Symbol p k = (if 1 \<le> k \<and> k \<le> p_ProgramSymbolCount p then Some (program_symbol p (k - 1)) else None)"
proof -
  have c: "length (p_SymbolStarts p) = p_ProgramSymbolCount p" "length (p_SymbolLengths p) = p_ProgramSymbolCount p"
    and r: "\<forall>i < p_ProgramSymbolCount p. p_SymbolStarts p ! i + p_SymbolLengths p ! i \<le> length (p_SymbolBytes p)"
    using assms by (auto simp: symbols_placed_def Let_def)
  show ?thesis
  proof (cases "1 \<le> k \<and> k \<le> p_ProgramSymbolCount p")
    case True
    then have k: "k - 1 < p_ProgramSymbolCount p" "k \<noteq> 0" by linarith+
    then show ?thesis using True c r by (simp add: Program_Symbol_def program_symbol_def Let_def not_less)
  next
    case False
    then have "k = 0 \<or> p_ProgramSymbolCount p \<le> k - 1" by linarith
    then show ?thesis using False c by (auto simp: Program_Symbol_def Let_def)
  qed
qed

lemma LookupSymbol_placed:
  assumes p: "symbols_placed p" and i: "i < p_ProgramSymbolCount p"
  shows "\<exists>k. LookupSymbol p (program_symbol p i) = Some k"
proof -
  let ?n = "length (p_SymbolIDs p)" and ?h = "unat (HashSymbol (program_symbol p i)) mod length (p_SymbolIDs p)"
  have n: "?n \<noteq> 0" "length (p_SymbolHashes p) = ?n" "pow2 ?n" using p i by (auto simp: symbols_placed_def Let_def)
  obtain m where m: "m < ?n" "occupied_run (p_SymbolIDs p) ?h m" "p_SymbolIDs p ! ((?h + m) mod ?n) = i + 1"
    "p_SymbolHashes p ! ((?h + m) mod ?n) = HashSymbol (program_symbol p i)" using p i unfolding symbols_placed_def Let_def by blast
  have "?h < ?n" using n(1) by simp
  moreover have "Program_Symbol p (p_SymbolIDs p ! ((?h + m) mod ?n)) = Some (program_symbol p i)"
    using i m(3) by (simp add: Program_Symbol_placed[OF p])
  ultimately obtain k where "probe_symbol ?n p (program_symbol p i) (HashSymbol (program_symbol p i)) ?h = Some k"
    using probe_symbol_run[OF n(2) _ m(2) refl _ m(4) _ m(1)] m(3) by auto
  moreover have "?n AND (?n - 1) = 0" using and_mask_mod[OF n(3)] by simp
  ultimately show ?thesis using n(1,2) by (simp add: LookupSymbol_def Let_def)
qed

lemma LookupSymbol_sound: "LookupSymbol p v = Some k \<Longrightarrow> k \<noteq> 0 \<and> Program_Symbol p k = Some v"
  by (auto simp: LookupSymbol_def Let_def split: if_splits dest: probe_symbol_sound)

section \<open>Claims\<close>

text \<open>C20: the symbol table of an accepted program is exact. The check either refuses a program or returns; for an
  accepted one, with a table of at most $2^{63}$ slots, a lookup finds a value exactly if the program has it as a
  symbol, and then returns an identifier, within the symbol count, whose bytes are the value.\<close>

theorem accepted_symbols_exact:
  assumes "length (p_SymbolIDs p) \<le> 2 ^ 63"
  shows "validateProgramSymbols p \<in> {Ok True, Ok False} \<and>
    (validateProgramSymbols p = Ok True \<longrightarrow>
      (\<forall>v. LookupSymbol p v = None \<longleftrightarrow> (\<forall>k. Program_Symbol p k \<noteq> Some v)) \<and>
      (\<forall>v k. LookupSymbol p v = Some k \<longrightarrow> Program_Symbol p k = Some v \<and> 1 \<le> k \<and> k \<le> p_ProgramSymbolCount p))"
proof -
  have complete: "LookupSymbol p v \<noteq> None" if "symbols_placed p" "Program_Symbol p k = Some v" for v k
  proof -
    have "k - 1 < p_ProgramSymbolCount p" "v = program_symbol p (k - 1)"
      using that(2) unfolding Program_Symbol_placed[OF that(1)] by (auto split: if_splits)
    then show ?thesis using LookupSymbol_placed[OF that(1)] by auto
  qed
  have sound: "Program_Symbol p k = Some v \<and> 1 \<le> k \<and> k \<le> p_ProgramSymbolCount p" if "symbols_placed p" "LookupSymbol p v = Some k" for v k
    using LookupSymbol_sound[OF that(2)] Program_Symbol_placed[OF that(1), of k] by (auto split: if_splits)
  from validateProgramSymbols_placed[OF assms] show ?thesis
  proof
    assume "validateProgramSymbols p = Ok False"
    then show ?thesis by simp
  next
    assume v: "validateProgramSymbols p = Ok True \<and> symbols_placed p"
    then have "LookupSymbol p v = None \<longleftrightarrow> (\<forall>k. Program_Symbol p k \<noteq> Some v)" for v using complete sound by (metis option.exhaust)
    then show ?thesis using v sound by blast
  qed
qed

text \<open>The sample program with a hash table of four slots for its two symbols.\<close>

definition sample_table :: program where
  "sample_table = sample_program\<lparr>p_SymbolHashes := [12638187200555641996, 12638190499090526629, 0, 0], p_SymbolIDs := [1, 2, 0, 0]\<rparr>"

lemma sample_table_accepted: "validateProgramSymbols sample_table = Ok True \<and> length (p_SymbolIDs sample_table) = 4"
  by code_simp

theorem accepted_symbols_exact_witness:
  "validateProgramSymbols sample_table = Ok True \<and> (\<forall>v. LookupSymbol sample_table v = None \<longleftrightarrow> (\<forall>k. Program_Symbol sample_table k \<noteq> Some v))"
  using accepted_symbols_exact[of sample_table] sample_table_accepted by simp

end
