(* ===== verification/NR_Builder.thy ===== *)
theory NR_Builder
  imports NR_Symbols
begin

text \<open>
  The batch builder of \<^verbatim>\<open>internal/eval/builder.go\<close> and the evidence records of \<^verbatim>\<open>internal/eval/evidence.go\<close>.

  Programs live in a heap, as for the evaluator; a builder holds the address of its program, and \<open>None\<close> is a nil
  pointer. A call that returns an error leaves the builder as it was, except that \<open>InternSymbol\<close> may have enlarged
  its extension table; the scratch of the symbol check is not part of the state. Calls on a nil builder are left out.

  Finished batches meet the conditions of the evaluator, a setter writes exactly one fact, and symbols are
  identified by their bytes.
\<close>

section \<open>Shapes\<close>

record batch_shape =
  sh_symbols :: nat
  sh_integers :: nat
  sh_timestamps :: nat
  sh_booleans :: nat
  sh_presence :: nat
  sh_rows :: nat
  sh_offsets :: nat
  sh_evidence :: nat
  sh_refs :: nat

definition checkedSliceLen :: "nat \<Rightarrow> nat \<Rightarrow> nat \<Rightarrow> nat option" where
  "checkedSliceLen a b elementBytes =
     (let n = a * b mod 2 ^ 64 in if n > MaxInt \<or> n > MaxInt div elementBytes then None else Some n)"

definition makeBatchShape :: "index_schema \<Rightarrow> nat \<Rightarrow> nat \<Rightarrow> nat \<Rightarrow> batch_shape option" where
  "makeBatchShape schema rows evidenceRows evidenceRefs =
     (if \<not> validateFieldIndex schema \<or> rows = MaxUint32 then None
      else let words = (rows + 63) div 64 in
      Option.bind (checkedSliceLen (kind_count schema ValueKindSymbol) rows 4) (\<lambda>symbols.
      Option.bind (checkedSliceLen (kind_count schema ValueKindInteger) rows 8) (\<lambda>integers.
      Option.bind (checkedSliceLen (kind_count schema ValueKindTimestamp) rows 8) (\<lambda>timestamps.
      Option.bind (checkedSliceLen (kind_count schema ValueKindBoolean) words 8) (\<lambda>booleans.
      Option.bind (checkedSliceLen (length (is_Kinds schema)) words 8) (\<lambda>presence.
      Option.bind (checkedSliceLen rows 1 4) (\<lambda>nrows.
      Option.bind (checkedSliceLen (rows + 1) 1 4) (\<lambda>offsets.
      Option.bind (checkedSliceLen evidenceRows 1 8) (\<lambda>evidence.
      Option.bind (checkedSliceLen evidenceRefs 1 4) (\<lambda>refs.
      Some \<lparr>sh_symbols = symbols, sh_integers = integers, sh_timestamps = timestamps, sh_booleans = booleans, sh_presence = presence,
        sh_rows = nrows, sh_offsets = offsets, sh_evidence = evidence, sh_refs = refs\<rparr>))))))))))"

definition evidence_resize :: "nat \<Rightarrow> evidence_batch" where
  "evidence_resize rows =
     \<lparr>ev_IDs = replicate rows 0, ev_Kinds = replicate rows 0, ev_States = replicate rows 0, ev_Subjects = replicate rows 0,
      ev_Scopes = replicate rows 0, ev_Reviewers = replicate rows 0, ev_Timings = replicate rows 0, ev_Timestamps = replicate rows 0\<rparr>"

section \<open>Builds\<close>

record builder =
  bd_program :: "nat option"
  bd_batch :: batch
  bd_extension :: interner
  bd_fields :: index_schema
  bd_symbolBase :: nat
  bd_csrReady :: bool
  bd_active :: bool

definition zero_builder :: builder where
  "zero_builder = \<lparr>bd_program = None, bd_batch = \<lparr>b_SymbolValues = [], b_IntegerValues = [], b_TimestampValues = [], b_BooleanValues = [],
     b_PresenceMasks = [], b_RequestIDs = [], b_EvidenceOffsets = [], b_EvidenceRefs = [], b_Evidence = evidence_resize 0,
     b_Rows = 0, b_rowBase = 0, b_rowStride = 0\<rparr>, bd_extension = zero_interner,
     bd_fields = \<lparr>is_Kinds = [], is_Columns = [], is_Counts = zero_counts\<rparr>, bd_symbolBase = 0, bd_csrReady = False, bd_active = False\<rparr>"

definition Begin :: "(nat \<Rightarrow> program) \<Rightarrow> builder \<Rightarrow> nat option \<Rightarrow> nat \<Rightarrow> nat \<Rightarrow> nat \<Rightarrow> builder res" where
  "Begin H b addr rows evidenceRows evidenceRefs =
     (case addr of None \<Rightarrow> Err ErrInvalidProgram
      | Some a \<Rightarrow> let p = H a in
        rbind (if bd_program b \<noteq> Some a \<or> p_ProgramSymbolCount p \<noteq> bd_symbolBase b then validateProgramSymbols p else Ok True) (\<lambda>ok.
        if \<not> ok then Err ErrInvalidProgram
        else case makeBatchShape (p_FieldIndex p) rows evidenceRows evidenceRefs of
          None \<Rightarrow> if validateFieldIndex (p_FieldIndex p) then Err ErrBatchTooLarge else Err ErrInvalidProgram
        | Some shape \<Rightarrow>
            Ok (b\<lparr>bd_batch := (bd_batch b)\<lparr>b_SymbolValues := replicate (sh_symbols shape) 0, b_IntegerValues := replicate (sh_integers shape) 0,
                   b_TimestampValues := replicate (sh_timestamps shape) 0, b_BooleanValues := replicate (sh_booleans shape) 0,
                   b_PresenceMasks := replicate (sh_presence shape) 0, b_RequestIDs := replicate (sh_rows shape) 0,
                   b_EvidenceOffsets := replicate (sh_offsets shape) 0, b_EvidenceRefs := replicate (sh_refs shape) 0,
                   b_Evidence := evidence_resize (sh_evidence shape), b_Rows := rows\<rparr>,
                 bd_extension := Interner_Reset (bd_extension b), bd_fields := p_FieldIndex p, bd_program := Some a,
                 bd_symbolBase := p_ProgramSymbolCount p, bd_csrReady := evidenceRefs = 0, bd_active := True\<rparr>)))"

section \<open>Symbols\<close>

definition InternSymbol :: "(nat \<Rightarrow> program) \<Rightarrow> builder \<Rightarrow> byte list \<Rightarrow> (builder \<times> (err + nat)) res" where
  "InternSymbol H b v =
     (case bd_program b of None \<Rightarrow> Ok (b, Inl ErrInvalidBuilder)
      | Some a \<Rightarrow>
        if \<not> bd_active b then Ok (b, Inl ErrInvalidBuilder)
        else case LookupSymbol (H a) v of
          Some k \<Rightarrow> if k > bd_symbolBase b then Ok (b, Inl ErrInvalidProgram) else Ok (b, Inr k)
        | None \<Rightarrow>
            rbind (Interner_Lookup (bd_extension b) v) (\<lambda>(k, found).
            if found then (let sid = bd_symbolBase b + k in if sid > MaxUint32 then Ok (b, Inl ErrBatchTooLarge) else Ok (b, Inr sid))
            else let next = Interner_Len (bd_extension b) + 1 in
            if bd_symbolBase b + next > MaxUint32 then Ok (b, Inl ErrBatchTooLarge)
            else rbind (Intern (bd_extension b) v) (\<lambda>(ext, r).
              let b = b\<lparr>bd_extension := ext\<rparr> in
              case r of Inl _ \<Rightarrow> Ok (b, Inl ErrBatchTooLarge) | Inr k \<Rightarrow> Ok (b, Inr (bd_symbolBase b + k)))))"

definition Builder_Symbol :: "(nat \<Rightarrow> program) \<Rightarrow> builder \<Rightarrow> nat \<Rightarrow> byte list option res" where
  "Builder_Symbol H b sid =
     (case bd_program b of None \<Rightarrow> Ok None
      | Some a \<Rightarrow>
        if sid = 0 then Ok None
        else if sid \<le> bd_symbolBase b then Ok (Program_Symbol (H a) sid)
        else Interner_Bytes (bd_extension b) (sid - bd_symbolBase b))"

section \<open>Facts\<close>

definition SetRequestID :: "builder \<Rightarrow> nat \<Rightarrow> nat \<Rightarrow> builder res" where
  "SetRequestID b row rid =
     (if \<not> bd_active b then Err ErrInvalidBuilder
      else if row \<ge> b_Rows (bd_batch b) then Err ErrInvalidRow
      else if rid = 0 then Err ErrInvalidValue
      else rbind (upd (b_RequestIDs (bd_batch b)) row rid) (\<lambda>ids. Ok (b\<lparr>bd_batch := (bd_batch b)\<lparr>b_RequestIDs := ids\<rparr>\<rparr>)))"

definition factColumn :: "builder \<Rightarrow> nat \<Rightarrow> nat \<Rightarrow> value_kind \<Rightarrow> nat res" where
  "factColumn b row field want =
     (if \<not> bd_active b then Err ErrInvalidBuilder
      else if row \<ge> b_Rows (bd_batch b) then Err ErrInvalidRow
      else case Schema_Lookup (bd_fields b) field of
        None \<Rightarrow> Err ErrInvalidField
      | Some (kind, column) \<Rightarrow> if kind \<noteq> want then Err ErrValueKind else Ok column)"

definition setPresence :: "builder \<Rightarrow> nat \<Rightarrow> nat \<Rightarrow> builder res" where
  "setPresence b row field =
     (let words = Batch_WordCount (bd_batch b); word = (field - 1) * words + row div 64; ms = b_PresenceMasks (bd_batch b) in
      rbind (idx ms word) (\<lambda>w.
      rbind (upd ms word (w OR row_bit row)) (\<lambda>ms. Ok (b\<lparr>bd_batch := (bd_batch b)\<lparr>b_PresenceMasks := ms\<rparr>\<rparr>))))"

definition SetSymbol :: "builder \<Rightarrow> nat \<Rightarrow> nat \<Rightarrow> nat \<Rightarrow> builder res" where
  "SetSymbol b row field v =
     rbind (factColumn b row field ValueKindSymbol) (\<lambda>column.
     if v = 0 then Err ErrInvalidValue
     else rbind (upd (b_SymbolValues (bd_batch b)) (column * b_Rows (bd_batch b) + row) v) (\<lambda>vs.
       setPresence (b\<lparr>bd_batch := (bd_batch b)\<lparr>b_SymbolValues := vs\<rparr>\<rparr>) row field))"

definition SetInteger :: "builder \<Rightarrow> nat \<Rightarrow> nat \<Rightarrow> int \<Rightarrow> builder res" where
  "SetInteger b row field v =
     rbind (factColumn b row field ValueKindInteger) (\<lambda>column.
     rbind (upd (b_IntegerValues (bd_batch b)) (column * b_Rows (bd_batch b) + row) v) (\<lambda>vs.
     setPresence (b\<lparr>bd_batch := (bd_batch b)\<lparr>b_IntegerValues := vs\<rparr>\<rparr>) row field))"

definition SetTimestamp :: "builder \<Rightarrow> nat \<Rightarrow> nat \<Rightarrow> int \<Rightarrow> builder res" where
  "SetTimestamp b row field v =
     rbind (factColumn b row field ValueKindTimestamp) (\<lambda>column.
     rbind (upd (b_TimestampValues (bd_batch b)) (column * b_Rows (bd_batch b) + row) v) (\<lambda>vs.
     setPresence (b\<lparr>bd_batch := (bd_batch b)\<lparr>b_TimestampValues := vs\<rparr>\<rparr>) row field))"

definition SetBoolean :: "builder \<Rightarrow> nat \<Rightarrow> nat \<Rightarrow> bool \<Rightarrow> builder res" where
  "SetBoolean b row field v =
     rbind (factColumn b row field ValueKindBoolean) (\<lambda>column.
     let word = column * Batch_WordCount (bd_batch b) + row div 64; ws = b_BooleanValues (bd_batch b) in
     rbind (idx ws word) (\<lambda>w.
     rbind (upd ws word (if v then w OR row_bit row else w AND NOT (row_bit row))) (\<lambda>ws.
     setPresence (b\<lparr>bd_batch := (bd_batch b)\<lparr>b_BooleanValues := ws\<rparr>\<rparr>) row field)))"

definition SetPresent :: "builder \<Rightarrow> nat \<Rightarrow> nat \<Rightarrow> builder res" where
  "SetPresent b row field = rbind (factColumn b row field ValueKindPresence) (\<lambda>_. setPresence b row field)"

section \<open>Evidence\<close>

record evidence_record =
  er_Timestamp :: int
  er_ID :: nat
  er_Kind :: nat
  er_State :: nat
  er_Subject :: nat
  er_Scope :: nat
  er_Reviewer :: nat
  er_Timing :: nat

definition SetEvidence :: "builder \<Rightarrow> nat \<Rightarrow> evidence_record \<Rightarrow> builder res" where
  "SetEvidence b row r =
     (let ev = b_Evidence (bd_batch b) in
      if \<not> bd_active b then Err ErrInvalidBuilder
      else if row \<ge> length (ev_IDs ev) then Err ErrInvalidRow
      else if er_ID r = 0 \<or> er_Kind r = 0 \<or> er_State r = 0 then Err ErrInvalidEvidence
      else rbind (upd (ev_IDs ev) row (er_ID r)) (\<lambda>ids.
        rbind (upd (ev_Kinds ev) row (er_Kind r)) (\<lambda>kinds.
        rbind (upd (ev_States ev) row (er_State r)) (\<lambda>states.
        rbind (upd (ev_Subjects ev) row (er_Subject r)) (\<lambda>subjects.
        rbind (upd (ev_Scopes ev) row (er_Scope r)) (\<lambda>scopes.
        rbind (upd (ev_Reviewers ev) row (er_Reviewer r)) (\<lambda>reviewers.
        rbind (upd (ev_Timings ev) row (er_Timing r)) (\<lambda>timings.
        rbind (upd (ev_Timestamps ev) row (er_Timestamp r)) (\<lambda>timestamps.
        Ok (b\<lparr>bd_batch := (bd_batch b)\<lparr>b_Evidence := \<lparr>ev_IDs = ids, ev_Kinds = kinds, ev_States = states, ev_Subjects = subjects,
          ev_Scopes = scopes, ev_Reviewers = reviewers, ev_Timings = timings, ev_Timestamps = timestamps\<rparr>\<rparr>\<rparr>))))))))))"

fun offsets_ok :: "nat \<Rightarrow> nat \<Rightarrow> nat list \<Rightarrow> bool" where
  "offsets_ok refs previous [] \<longleftrightarrow> True"
| "offsets_ok refs previous (offset # offsets) \<longleftrightarrow>
     (if offset < previous \<or> offset > refs then False else offsets_ok refs offset offsets)"

definition SetEvidenceCSR :: "builder \<Rightarrow> nat list \<Rightarrow> nat list \<Rightarrow> builder res" where
  "SetEvidenceCSR b offsets refs =
     (if \<not> bd_active b then Err ErrInvalidBuilder
      else if length offsets \<noteq> length (b_EvidenceOffsets (bd_batch b)) \<or> length refs \<noteq> length (b_EvidenceRefs (bd_batch b)) \<or>
         length offsets = 0 \<or> offsets ! 0 \<noteq> 0 \<or> offsets ! (length offsets - 1) \<noteq> length refs then Err ErrInvalidEvidence
      else if \<not> offsets_ok (length refs) 0 (tl offsets) then Err ErrInvalidEvidence
      else if list_ex (\<lambda>ref. ref \<ge> length (ev_IDs (b_Evidence (bd_batch b)))) refs then Err ErrInvalidEvidence
      else Ok (b\<lparr>bd_batch := (bd_batch b)\<lparr>b_EvidenceOffsets := offsets, b_EvidenceRefs := refs\<rparr>, bd_csrReady := True\<rparr>))"

definition Finish :: "builder \<Rightarrow> (builder \<times> batch) res" where
  "Finish b =
     (let ev = b_Evidence (bd_batch b); n = length (ev_IDs ev) in
      if \<not> bd_active b then Err ErrInvalidBuilder
      else if list_ex (\<lambda>rid. rid = 0) (b_RequestIDs (bd_batch b)) then Err ErrIncompleteBatch
      else if length (ev_Kinds ev) \<noteq> n \<or> length (ev_States ev) \<noteq> n \<or> length (ev_Subjects ev) \<noteq> n \<or> length (ev_Scopes ev) \<noteq> n \<or>
         length (ev_Reviewers ev) \<noteq> n \<or> length (ev_Timings ev) \<noteq> n \<or> length (ev_Timestamps ev) \<noteq> n then Err ErrIncompleteBatch
      else if list_ex (\<lambda>i. ev_IDs ev ! i = 0 \<or> ev_Kinds ev ! i = 0 \<or> ev_States ev ! i = 0) [0..<n] then Err ErrIncompleteBatch
      else if \<not> bd_csrReady b then Err ErrIncompleteBatch
      else Ok (b\<lparr>bd_active := False\<rparr>, bd_batch b))"

definition Abort :: "builder \<Rightarrow> builder" where
  "Abort b = b\<lparr>bd_active := False\<rparr>"

section \<open>Invariant\<close>

definition csr_wf :: "batch \<Rightarrow> bool" where
  "csr_wf b \<longleftrightarrow> (let offs = b_EvidenceOffsets b; refs = b_EvidenceRefs b in
     length offs = b_Rows b + 1 \<and> offs ! 0 = 0 \<and> offs ! b_Rows b = length refs \<and>
     (\<forall>i < b_Rows b. offs ! i \<le> offs ! (i + 1) \<and> offs ! (i + 1) \<le> length refs) \<and> (\<forall>ref \<in> set refs. ref < length (ev_IDs (b_Evidence b))))"

definition evidence_lengths :: "evidence_batch \<Rightarrow> nat \<Rightarrow> bool" where
  "evidence_lengths ev n \<longleftrightarrow> length (ev_IDs ev) = n \<and> length (ev_Kinds ev) = n \<and> length (ev_States ev) = n \<and> length (ev_Subjects ev) = n \<and>
     length (ev_Scopes ev) = n \<and> length (ev_Reviewers ev) = n \<and> length (ev_Timings ev) = n \<and> length (ev_Timestamps ev) = n"

text \<open>The columns of a batch fit the field index and the rows.\<close>

definition columns_ok :: "index_schema \<Rightarrow> batch \<Rightarrow> bool" where
  "columns_ok schema b \<longleftrightarrow> (let rows = b_Rows b; words = word_count rows in
     rows < MaxUint32 \<and> b_rowBase b = 0 \<and> b_rowStride b = 0 \<and> validateFieldIndex schema \<and>
     length (b_SymbolValues b) = kind_count schema ValueKindSymbol * rows \<and> length (b_IntegerValues b) = kind_count schema ValueKindInteger * rows \<and>
     length (b_TimestampValues b) = kind_count schema ValueKindTimestamp * rows \<and>
     length (b_BooleanValues b) = kind_count schema ValueKindBoolean * words \<and> length (b_PresenceMasks b) = length (is_Kinds schema) * words \<and>
     length (b_RequestIDs b) = rows \<and> length (b_EvidenceOffsets b) = rows + 1 \<and> (\<exists>n. evidence_lengths (b_Evidence b) n))"

definition builder_inv :: "(nat \<Rightarrow> program) \<Rightarrow> builder \<Rightarrow> bool" where
  "builder_inv H b \<longleftrightarrow>
     (\<forall>a. bd_program b = Some a \<longrightarrow> symbols_placed (H a) \<and> bd_symbolBase b = p_ProgramSymbolCount (H a) \<and> bd_fields b = p_FieldIndex (H a) \<and>
        columns_ok (p_FieldIndex (H a)) (bd_batch b) \<and> (bd_csrReady b \<longrightarrow> csr_wf (bd_batch b))) \<and>
     (bd_active b \<longrightarrow> bd_program b \<noteq> None) \<and> b_rowBase (bd_batch b) = 0 \<and> b_rowStride (bd_batch b) = 0 \<and>
     (\<exists>syms. intern_rel (bd_extension b) syms \<and> (bd_program b \<noteq> None \<longrightarrow> bd_symbolBase b + length syms \<le> MaxUint32))"

text \<open>What the widths of the Go types say of a program, and what a slice can hold.\<close>

definition program_sized :: "program \<Rightarrow> bool" where
  "program_sized p \<longleftrightarrow> p_ProgramSymbolCount p \<le> MaxUint32 \<and> length (p_SymbolIDs p) \<le> 2 ^ 63"

lemma zero_builder_inv: "builder_inv H zero_builder"
  using zero_interner_Ok by (auto simp: builder_inv_def zero_builder_def)

lemma schema_counts:
  assumes "validateFieldIndex schema" "kind_Valid k"
  shows "kind_count schema k \<le> MaxUint32" "length (is_Kinds schema) \<le> MaxUint32"
proof -
  have "schema_ok schema" using assms(1) BuildSchema_ok unfolding validateFieldIndex_iff by blast
  then have "kind_count schema k = count_list (is_Kinds schema) k" using assms(2) by (simp add: schema_ok_def)
  moreover show "length (is_Kinds schema) \<le> MaxUint32" using assms(1) by (auto simp: validateFieldIndex_def split: if_splits)
  ultimately show "kind_count schema k \<le> MaxUint32" using count_le_length[of "is_Kinds schema" k] by linarith
qed

lemma checkedSliceLen_Some:
  assumes "checkedSliceLen a b e = Some n" "a \<le> MaxUint32" "b \<le> MaxUint32"
  shows "n = a * b"
proof -
  have "a * b \<le> MaxUint32 * MaxUint32" using assms(2,3) by (rule mult_le_mono)
  then have "a * b < 2 ^ 64" by simp
  then show ?thesis using assms(1) by (auto simp: checkedSliceLen_def Let_def split: if_splits)
qed

lemma makeBatchShape_Some:
  assumes s: "makeBatchShape schema rows evidenceRows evidenceRefs = Some sh" and u: "rows \<le> MaxUint32" "evidenceRows \<le> MaxUint32" "evidenceRefs \<le> MaxUint32"
  shows "validateFieldIndex schema \<and> rows < MaxUint32 \<and> sh = \<lparr>sh_symbols = kind_count schema ValueKindSymbol * rows, sh_integers = kind_count schema ValueKindInteger * rows,
    sh_timestamps = kind_count schema ValueKindTimestamp * rows, sh_booleans = kind_count schema ValueKindBoolean * word_count rows,
    sh_presence = length (is_Kinds schema) * word_count rows, sh_rows = rows, sh_offsets = rows + 1, sh_evidence = evidenceRows, sh_refs = evidenceRefs\<rparr>"
proof -
  have v: "validateFieldIndex schema" and r: "rows < MaxUint32" using s u(1) by (auto simp: makeBatchShape_def split: if_splits)
  have w: "word_count rows \<le> MaxUint32" using u(1) by (simp add: word_count_def)
  have n: "\<not> (\<not> validateFieldIndex schema \<or> rows = MaxUint32)" using v r by simp
  have k: "kind_Valid ValueKindSymbol" "kind_Valid ValueKindInteger" "kind_Valid ValueKindTimestamp" "kind_Valid ValueKindBoolean"
    by (simp_all add: kind_Valid_def)
  note c = schema_counts(1)[OF v] and f = schema_counts(2)[OF v k(1)]
  obtain sy it ts bo pr ro os ev re where sh:
      "checkedSliceLen (kind_count schema ValueKindSymbol) rows 4 = Some sy" "checkedSliceLen (kind_count schema ValueKindInteger) rows 8 = Some it"
      "checkedSliceLen (kind_count schema ValueKindTimestamp) rows 8 = Some ts" "checkedSliceLen (kind_count schema ValueKindBoolean) (word_count rows) 8 = Some bo"
      "checkedSliceLen (length (is_Kinds schema)) (word_count rows) 8 = Some pr" "checkedSliceLen rows 1 4 = Some ro"
      "checkedSliceLen (rows + 1) 1 4 = Some os" "checkedSliceLen evidenceRows 1 8 = Some ev" "checkedSliceLen evidenceRefs 1 4 = Some re"
      "sh = \<lparr>sh_symbols = sy, sh_integers = it, sh_timestamps = ts, sh_booleans = bo, sh_presence = pr, sh_rows = ro, sh_offsets = os, sh_evidence = ev, sh_refs = re\<rparr>"
    using s unfolding makeBatchShape_def Let_def if_not_P[OF n] word_count_def[symmetric] bind_eq_Some_conv by (elim exE conjE) simp
  have u1: "1 \<le> MaxUint32" "rows + 1 \<le> MaxUint32" using r by simp_all
  have "sy = kind_count schema ValueKindSymbol * rows" "it = kind_count schema ValueKindInteger * rows" "ts = kind_count schema ValueKindTimestamp * rows"
    "bo = kind_count schema ValueKindBoolean * word_count rows" "pr = length (is_Kinds schema) * word_count rows" "ro = rows * 1" "os = (rows + 1) * 1"
    "ev = evidenceRows * 1" "re = evidenceRefs * 1"
    by (rule checkedSliceLen_Some[OF sh(1) c[OF k(1)] u(1)] checkedSliceLen_Some[OF sh(2) c[OF k(2)] u(1)] checkedSliceLen_Some[OF sh(3) c[OF k(3)] u(1)]
      checkedSliceLen_Some[OF sh(4) c[OF k(4)] w] checkedSliceLen_Some[OF sh(5) f w] checkedSliceLen_Some[OF sh(6) u(1) u1(1)]
      checkedSliceLen_Some[OF sh(7) u1(2,1)] checkedSliceLen_Some[OF sh(8) u(2) u1(1)] checkedSliceLen_Some[OF sh(9) u(3) u1(1)])+
  then show ?thesis using v r sh(10) by simp
qed

lemma Begin_inv:
  assumes inv: "builder_inv H b" and sized: "\<forall>a. program_sized (H a)" and u: "rows \<le> MaxUint32" "er \<le> MaxUint32" "ef \<le> MaxUint32"
    and ok: "Begin H b addr rows er ef = Ok b'"
  shows "builder_inv H b'"
proof -
  obtain a where a: "addr = Some a" using ok by (cases addr) (auto simp: Begin_def)
  let ?p = "H a"
  obtain sh where v: "(if bd_program b \<noteq> Some a \<or> p_ProgramSymbolCount ?p \<noteq> bd_symbolBase b then validateProgramSymbols ?p else Ok True) = Ok True"
    and sh: "makeBatchShape (p_FieldIndex ?p) rows er ef = Some sh"
    using ok by (auto simp: Begin_def a Let_def rbind_Ok_iff split: if_splits option.splits)
  have s: "symbols_placed ?p"
  proof (cases "bd_program b \<noteq> Some a \<or> p_ProgramSymbolCount ?p \<noteq> bd_symbolBase b")
    case True
    then have "validateProgramSymbols ?p = Ok True" using v by simp
    then show ?thesis using validateProgramSymbols_placed[of ?p] sized by (auto simp: program_sized_def)
  next
    case False
    then show ?thesis using inv by (simp add: builder_inv_def)
  qed
  obtain syms where "intern_rel (bd_extension b) syms" using inv by (auto simp: builder_inv_def)
  then have ext: "intern_rel (Interner_Reset (bd_extension b)) []" by (rule Interner_Reset_Ok)
  have count: "p_ProgramSymbolCount ?p \<le> MaxUint32" using sized by (simp add: program_sized_def)
  note shape = makeBatchShape_Some[OF sh u]
  have zero: "b_rowBase (bd_batch b) = 0" "b_rowStride (bd_batch b) = 0" using inv by (simp_all add: builder_inv_def)
  have "evidence_lengths (evidence_resize er) er" by (simp add: evidence_lengths_def evidence_resize_def)
  then have "columns_ok (bd_fields b') (bd_batch b') \<and> (bd_csrReady b' \<longrightarrow> csr_wf (bd_batch b'))"
    using ok v sh shape zero unfolding Begin_def a option.case Let_def
    by (auto simp: columns_ok_def csr_wf_def Let_def evidence_resize_def simp del: replicate.simps)
  moreover have "bd_program b' = Some a \<and> bd_symbolBase b' = p_ProgramSymbolCount ?p \<and> bd_fields b' = p_FieldIndex ?p \<and>
      bd_extension b' = Interner_Reset (bd_extension b) \<and> b_rowBase (bd_batch b') = 0 \<and> b_rowStride (bd_batch b') = 0"
    using ok v sh zero unfolding Begin_def a option.case Let_def by auto
  ultimately show ?thesis using s ext count unfolding builder_inv_def by auto
qed

text \<open>A setter keeps the shape of the builder; its invariant only reads the shape.\<close>

definition same_shape :: "builder \<Rightarrow> builder \<Rightarrow> bool" where
  "same_shape b b' \<longleftrightarrow> bd_program b' = bd_program b \<and> bd_extension b' = bd_extension b \<and> bd_fields b' = bd_fields b \<and>
     bd_symbolBase b' = bd_symbolBase b \<and> bd_csrReady b' = bd_csrReady b \<and> bd_active b' = bd_active b \<and>
     (let c = bd_batch b; d = bd_batch b' in b_Rows d = b_Rows c \<and> b_rowBase d = b_rowBase c \<and> b_rowStride d = b_rowStride c \<and>
       b_EvidenceOffsets d = b_EvidenceOffsets c \<and> b_EvidenceRefs d = b_EvidenceRefs c \<and>
       length (b_SymbolValues d) = length (b_SymbolValues c) \<and> length (b_IntegerValues d) = length (b_IntegerValues c) \<and>
       length (b_TimestampValues d) = length (b_TimestampValues c) \<and> length (b_BooleanValues d) = length (b_BooleanValues c) \<and>
       length (b_PresenceMasks d) = length (b_PresenceMasks c) \<and> length (b_RequestIDs d) = length (b_RequestIDs c) \<and>
       (\<forall>n. evidence_lengths (b_Evidence c) n \<longrightarrow> evidence_lengths (b_Evidence d) n))"

lemma same_shape_inv:
  assumes s: "same_shape b b'" and inv: "builder_inv H b"
  shows "builder_inv H b'"
proof -
  have "columns_ok (bd_fields b') (bd_batch b')" if "columns_ok (bd_fields b) (bd_batch b)"
    using that s by (auto simp: columns_ok_def same_shape_def Let_def)
  moreover have "csr_wf (bd_batch b')" if c: "columns_ok (bd_fields b) (bd_batch b)" "csr_wf (bd_batch b)"
  proof -
    obtain n where "evidence_lengths (b_Evidence (bd_batch b)) n" using c(1) unfolding columns_ok_def Let_def by blast
    moreover from this have "evidence_lengths (b_Evidence (bd_batch b')) n" using s by (simp add: same_shape_def Let_def)
    ultimately have "length (ev_IDs (b_Evidence (bd_batch b'))) = length (ev_IDs (b_Evidence (bd_batch b)))" by (simp add: evidence_lengths_def)
    then show ?thesis using c(2) s by (simp add: csr_wf_def same_shape_def Let_def)
  qed
  ultimately show ?thesis using s inv by (auto simp: builder_inv_def same_shape_def Let_def)
qed

lemma upd_length: "upd xs i v = Ok ys \<Longrightarrow> length ys = length xs"
  by (auto simp: upd_def split: if_splits)

lemmas shape_defs = same_shape_def rbind_Ok_iff Let_def

lemma setPresence_shape: "setPresence b row field = Ok b' \<Longrightarrow> same_shape b b'"
  by (auto simp: setPresence_def shape_defs dest!: upd_length)

lemma SetRequestID_shape: "SetRequestID b row rid = Ok b' \<Longrightarrow> same_shape b b'"
  by (auto simp: SetRequestID_def shape_defs dest!: upd_length split: if_splits)

lemma same_shape_trans: "same_shape b c \<Longrightarrow> same_shape c d \<Longrightarrow> same_shape b d"
  by (simp add: same_shape_def Let_def)

lemma set_fact_shapes:
  "SetSymbol b row field sv = Ok b' \<Longrightarrow> same_shape b b'" "SetInteger b row field iv = Ok b' \<Longrightarrow> same_shape b b'"
  "SetTimestamp b row field iv = Ok b' \<Longrightarrow> same_shape b b'" "SetBoolean b row field bv = Ok b' \<Longrightarrow> same_shape b b'"
  "SetPresent b row field = Ok b' \<Longrightarrow> same_shape b b'"
  by (auto simp: SetSymbol_def SetInteger_def SetTimestamp_def SetBoolean_def SetPresent_def shape_defs split: if_splits
      dest!: setPresence_shape upd_length)

lemma SetEvidence_shape: "SetEvidence b row r = Ok b' \<Longrightarrow> same_shape b b'"
  by (auto simp: SetEvidence_def shape_defs evidence_lengths_def split: if_splits dest!: upd_length)

lemma offsets_ok_nth: "offsets_ok n prev offs \<Longrightarrow> i < length offs \<Longrightarrow> (prev # offs) ! i \<le> offs ! i \<and> offs ! i \<le> n"
proof (induction offs arbitrary: prev i)
  case (Cons a offs)
  then show ?case by (cases i) (auto split: if_splits)
qed simp

lemma SetEvidenceCSR_inv:
  assumes inv: "builder_inv H b" and ok: "SetEvidenceCSR b offs refs = Ok b'"
  shows "builder_inv H b'"
proof -
  let ?c = "bd_batch b"
  have b': "b' = b\<lparr>bd_batch := ?c\<lparr>b_EvidenceOffsets := offs, b_EvidenceRefs := refs\<rparr>, bd_csrReady := True\<rparr>"
    and act: "bd_active b" and len: "length offs = length (b_EvidenceOffsets ?c)" "offs ! 0 = 0" "offs ! (length offs - 1) = length refs" "offs \<noteq> []"
    and off: "offsets_ok (length refs) 0 (tl offs)" and ref: "\<forall>ref \<in> set refs. ref < length (ev_IDs (b_Evidence ?c))"
    using ok by (auto simp: SetEvidenceCSR_def list_ex_iff not_le split: if_splits)
  obtain a where a: "bd_program b = Some a" using inv act by (auto simp: builder_inv_def)
  have c: "columns_ok (bd_fields b) ?c" "bd_fields b = p_FieldIndex (H a)" using inv a by (simp_all add: builder_inv_def)
  then have n: "length offs = b_Rows ?c + 1" using len(1) by (simp add: columns_ok_def Let_def)
  have "offs ! i \<le> offs ! (i + 1) \<and> offs ! (i + 1) \<le> length refs" if "i < b_Rows ?c" for i
  proof -
    have "(0 # tl offs) ! i \<le> tl offs ! i \<and> tl offs ! i \<le> length refs" using offsets_ok_nth[OF off, of i] that n by simp
    moreover have "offs = 0 # tl offs" using len(2,4) by (cases offs) auto
    ultimately show ?thesis by (metis Suc_eq_plus1 nth_Cons_Suc)
  qed
  then have "csr_wf (bd_batch b')" using n len(2,3) ref by (simp add: b' csr_wf_def)
  moreover have "columns_ok (p_FieldIndex (H a)) (bd_batch b')" using c n by (simp add: b' columns_ok_def Let_def)
  ultimately show ?thesis using inv a by (auto simp: b' builder_inv_def)
qed

lemma seal_inv: "builder_inv H b \<Longrightarrow> builder_inv H (b\<lparr>bd_active := False\<rparr>)"
  unfolding builder_inv_def by simp

text \<open>Interning: the four ways a call can end.\<close>

lemma InternSymbol_inactive: "builder_inv H b \<Longrightarrow> \<not> bd_active b \<or> bd_program b = None \<Longrightarrow> InternSymbol H b v = Ok (b, Inl ErrInvalidBuilder)"
  by (auto simp: InternSymbol_def split: option.splits)

lemma InternSymbol_known:
  assumes inv: "builder_inv H b" and act: "bd_active b" "bd_program b = Some a" and l: "LookupSymbol (H a) v = Some k"
  shows "InternSymbol H b v = Ok (b, Inr k) \<and> 1 \<le> k \<and> k \<le> bd_symbolBase b \<and> Builder_Symbol H b k = Ok (Some v)"
proof -
  have p: "symbols_placed (H a)" "bd_symbolBase b = p_ProgramSymbolCount (H a)" using inv act(2) by (simp_all add: builder_inv_def)
  have "k \<noteq> 0" "Program_Symbol (H a) k = Some v" using LookupSymbol_sound[OF l] by blast+
  moreover from this(2) have "k \<le> p_ProgramSymbolCount (H a)" unfolding Program_Symbol_placed[OF p(1)] by (simp split: if_splits)
  ultimately show ?thesis using act l p(2) by (simp add: InternSymbol_def Builder_Symbol_def)
qed

lemma InternSymbol_extension:
  assumes act: "bd_active b" "bd_program b = Some a" and l: "LookupSymbol (H a) v = None"
    and r: "intern_rel (bd_extension b) syms" "bd_symbolBase b + length syms \<le> MaxUint32"
  shows "i < length syms \<Longrightarrow> syms ! i = v \<Longrightarrow> InternSymbol H b v = Ok (b, Inr (bd_symbolBase b + i + 1))"
    and "v \<notin> set syms \<Longrightarrow> bd_symbolBase b + length syms + 1 > MaxUint32 \<Longrightarrow> InternSymbol H b v = Ok (b, Inl ErrBatchTooLarge)"
    and "v \<notin> set syms \<Longrightarrow> bd_symbolBase b + length syms + 1 \<le> MaxUint32 \<Longrightarrow> adds syms v \<Longrightarrow>
      \<exists>ext. InternSymbol H b v = Ok (b\<lparr>bd_extension := ext\<rparr>, Inr (bd_symbolBase b + length syms + 1)) \<and> intern_rel ext (syms @ [v])"
    and "v \<notin> set syms \<Longrightarrow> bd_symbolBase b + length syms + 1 \<le> MaxUint32 \<Longrightarrow> \<not> adds syms v \<Longrightarrow>
      \<exists>ext. InternSymbol H b v = Ok (b\<lparr>bd_extension := ext\<rparr>, Inl ErrBatchTooLarge) \<and> intern_rel ext syms"
proof -
  have count: "Interner_Len (bd_extension b) = length syms" using r(1) by (auto simp: Interner_Len_def intern_rel_def split: if_splits)
  show "InternSymbol H b v = Ok (b, Inr (bd_symbolBase b + i + 1))" if "i < length syms" "syms ! i = v"
    using symbol_table.lookup_old[OF r(1) that(1)] that act l r(2) by (simp add: InternSymbol_def Let_def)
  assume new: "v \<notin> set syms"
  note lk = symbol_table.lookup_new[OF r(1) new]
  show "InternSymbol H b v = Ok (b, Inl ErrBatchTooLarge)" if "bd_symbolBase b + length syms + 1 > MaxUint32"
    using lk count that act l by (simp add: InternSymbol_def Let_def)
  assume room: "bd_symbolBase b + length syms + 1 \<le> MaxUint32"
  show "\<exists>ext. InternSymbol H b v = Ok (b\<lparr>bd_extension := ext\<rparr>, Inr (bd_symbolBase b + length syms + 1)) \<and> intern_rel ext (syms @ [v])"
    if fits: "adds syms v"
  proof -
    obtain t where "Intern (bd_extension b) v = Ok (t, Inr (length syms + 1))" "intern_rel t (syms @ [v])"
      using symbol_table.intern_new[OF r(1) fits] by blast
    then show ?thesis using lk count room act l by (intro exI[of _ t]) (simp add: InternSymbol_def Let_def)
  qed
  show "\<exists>ext. InternSymbol H b v = Ok (b\<lparr>bd_extension := ext\<rparr>, Inl ErrBatchTooLarge) \<and> intern_rel ext syms" if full: "\<not> adds syms v"
  proof -
    obtain t where "Intern (bd_extension b) v = Ok (t, Inl ErrTooLarge)" "intern_rel t syms"
      using symbol_table.intern_full[OF r(1) new full] by blast
    then show ?thesis using lk count room act l by (intro exI[of _ t]) (simp add: InternSymbol_def Let_def)
  qed
qed

lemma extension_inv:
  assumes "builder_inv H b" "bd_program b = Some a" "intern_rel ext syms" "bd_symbolBase b + length syms \<le> MaxUint32"
  shows "builder_inv H (b\<lparr>bd_extension := ext\<rparr>)"
  using assms by (auto simp: builder_inv_def)

lemma InternSymbol_inv:
  assumes inv: "builder_inv H b" and ok: "InternSymbol H b v = Ok (b', r)"
  shows "builder_inv H b'"
proof (cases "bd_active b \<and> bd_program b \<noteq> None")
  case False
  then show ?thesis using InternSymbol_inactive[OF inv, of v] ok inv by auto
next
  case True
  then obtain a where act: "bd_active b" "bd_program b = Some a" by blast
  then obtain syms where sy: "intern_rel (bd_extension b) syms" "bd_symbolBase b + length syms \<le> MaxUint32"
    using inv by (auto simp: builder_inv_def)
  show ?thesis
  proof (cases "LookupSymbol (H a) v")
    case (Some k)
    then show ?thesis using InternSymbol_known[OF inv act Some] ok inv by simp
  next
    case None
    note ext = InternSymbol_extension[where H = H and v = v, OF act None sy]
    note keep = extension_inv[OF inv act(2)]
    consider i where "i < length syms" "syms ! i = v" | "v \<notin> set syms" "bd_symbolBase b + length syms + 1 > MaxUint32"
      | "v \<notin> set syms" "bd_symbolBase b + length syms + 1 \<le> MaxUint32" "adds syms v"
      | "v \<notin> set syms" "bd_symbolBase b + length syms + 1 \<le> MaxUint32" "\<not> adds syms v"
      by (metis in_set_conv_nth not_le)
    then show ?thesis
    proof cases
      case 1
      then show ?thesis using ext(1)[OF 1] ok inv by simp
    next
      case 2
      then show ?thesis using ext(2)[OF 2] ok inv by simp
    next
      case 3
      then show ?thesis using ext(3)[OF 3] keep[of _ "syms @ [v]"] ok by auto
    next
      case 4
      then show ?thesis using ext(4)[OF 4] keep[of _ syms] sy(2) ok by auto
    qed
  qed
qed

section \<open>Reachable builders\<close>

inductive builder_reachable :: "(nat \<Rightarrow> program) \<Rightarrow> builder \<Rightarrow> bool" for H where
  fresh: "builder_reachable H zero_builder"
| begin_build: "builder_reachable H b \<Longrightarrow> rows \<le> MaxUint32 \<Longrightarrow> er \<le> MaxUint32 \<Longrightarrow> ef \<le> MaxUint32 \<Longrightarrow> Begin H b addr rows er ef = Ok b' \<Longrightarrow>
    builder_reachable H b'"
| intern_symbol: "builder_reachable H b \<Longrightarrow> InternSymbol H b v = Ok (b', r) \<Longrightarrow> builder_reachable H b'"
| request_id: "builder_reachable H b \<Longrightarrow> SetRequestID b row rid = Ok b' \<Longrightarrow> builder_reachable H b'"
| set_symbol: "builder_reachable H b \<Longrightarrow> SetSymbol b row field sv = Ok b' \<Longrightarrow> builder_reachable H b'"
| set_integer: "builder_reachable H b \<Longrightarrow> SetInteger b row field iv = Ok b' \<Longrightarrow> builder_reachable H b'"
| set_timestamp: "builder_reachable H b \<Longrightarrow> SetTimestamp b row field iv = Ok b' \<Longrightarrow> builder_reachable H b'"
| set_boolean: "builder_reachable H b \<Longrightarrow> SetBoolean b row field bv = Ok b' \<Longrightarrow> builder_reachable H b'"
| set_present: "builder_reachable H b \<Longrightarrow> SetPresent b row field = Ok b' \<Longrightarrow> builder_reachable H b'"
| set_evidence: "builder_reachable H b \<Longrightarrow> SetEvidence b row er = Ok b' \<Longrightarrow> builder_reachable H b'"
| set_csr: "builder_reachable H b \<Longrightarrow> SetEvidenceCSR b offs refs = Ok b' \<Longrightarrow> builder_reachable H b'"
| finish: "builder_reachable H b \<Longrightarrow> Finish b = Ok (b', c) \<Longrightarrow> builder_reachable H b'"
| abort: "builder_reachable H b \<Longrightarrow> builder_reachable H (Abort b)"

lemma Finish_Ok: "Finish b = Ok (b', c) \<Longrightarrow> b' = b\<lparr>bd_active := False\<rparr> \<and> c = bd_batch b \<and> bd_active b \<and> bd_csrReady b \<and>
    0 \<notin> set (b_RequestIDs c) \<and> (\<forall>i < length (ev_IDs (b_Evidence c)). ev_IDs (b_Evidence c) ! i \<noteq> 0 \<and> ev_Kinds (b_Evidence c) ! i \<noteq> 0 \<and> ev_States (b_Evidence c) ! i \<noteq> 0)"
  by (auto simp: Finish_def Let_def list_ex_iff split: if_splits)

lemma builder_reachable_inv: "builder_reachable H b \<Longrightarrow> \<forall>a. program_sized (H a) \<Longrightarrow> builder_inv H b"
proof (induction rule: builder_reachable.induct)
  case fresh
  then show ?case by (intro zero_builder_inv)
next
  case (begin_build b rows er ef addr b')
  then show ?case using Begin_inv[of H b rows er ef addr b'] by blast
next
  case (intern_symbol b v b' r)
  then show ?case using InternSymbol_inv by blast
next
  case (request_id b row rid b')
  then show ?case using same_shape_inv[OF SetRequestID_shape] by blast
next
  case (set_symbol b row field sv b')
  then show ?case using same_shape_inv[OF set_fact_shapes(1)] by blast
next
  case (set_integer b row field iv b')
  then show ?case using same_shape_inv[OF set_fact_shapes(2)] by blast
next
  case (set_timestamp b row field iv b')
  then show ?case using same_shape_inv[OF set_fact_shapes(3)] by blast
next
  case (set_boolean b row field bv b')
  then show ?case using same_shape_inv[OF set_fact_shapes(4)] by blast
next
  case (set_present b row field b')
  then show ?case using same_shape_inv[OF set_fact_shapes(5)] by blast
next
  case (set_evidence b row er b')
  then show ?case using same_shape_inv[OF SetEvidence_shape] by blast
next
  case (set_csr b offs refs b')
  then show ?case using SetEvidenceCSR_inv by blast
next
  case (finish b b' c)
  then show ?case using Finish_Ok[OF finish.hyps(2)] seal_inv[of H b] by simp
next
  case (abort b)
  then show ?case using seal_inv[of H b] by (simp add: Abort_def)
qed

section \<open>Finished batches\<close>

definition evidence_named :: "program \<Rightarrow> batch \<Rightarrow> bool" where
  "evidence_named p b \<longleftrightarrow> (\<forall>k \<in> set (ev_Kinds (b_Evidence b)). k \<le> length (p_EvidenceKindNames p)) \<and>
     (\<forall>s \<in> set (ev_States (b_Evidence b)). s \<le> length (p_EvidenceStateNames p))"

lemma column_length_ok: "c \<le> MaxUint32 \<Longrightarrow> n \<le> MaxUint32 \<Longrightarrow> validExecutionColumnLength (c * n) c n"
proof -
  assume "c \<le> MaxUint32" "n \<le> MaxUint32"
  then have "c * n \<le> MaxUint32 * MaxUint32" by (rule mult_le_mono)
  then have "c * n < 2 ^ 64" "c * n \<le> MaxUint64" by simp_all
  then show ?thesis by (cases "c = 0") (simp_all add: validExecutionColumnLength_def less_eq_div_iff_mult_less_eq mult.commute)
qed

lemma columns_ok_execution:
  assumes "columns_ok (p_FieldIndex p) c"
  shows "validExecutionBatchColumns p c"
proof -
  let ?s = "p_FieldIndex p"
  have v: "validateFieldIndex ?s" and z: "b_rowBase c = 0" "b_rowStride c = 0" and r: "b_Rows c \<le> MaxUint32"
    using assms by (auto simp: columns_ok_def Let_def)
  have k: "kind_Valid ValueKindSymbol" "kind_Valid ValueKindInteger" "kind_Valid ValueKindTimestamp" "kind_Valid ValueKindBoolean"
    by (simp_all add: kind_Valid_def)
  have w: "word_count (b_Rows c) \<le> MaxUint32" using r by (simp add: word_count_def)
  note n = schema_counts(1)[OF v]
  have "validPhysicalRange c" "sourceRows c = b_Rows c" "sourceWords c = word_count (b_Rows c)"
    using z by (simp_all add: validPhysicalRange_def sourceRows_def sourceWords_def word_count_def)
  then show ?thesis
    using assms column_length_ok[OF n[OF k(1)] r] column_length_ok[OF n[OF k(2)] r] column_length_ok[OF n[OF k(3)] r] column_length_ok[OF n[OF k(4)] w]
      column_length_ok[OF schema_counts(2)[OF v k(1)] w]
    by (simp add: validExecutionBatchColumns_def columns_ok_def Let_def)
qed

lemma Finish_batch:
  assumes inv: "builder_inv H b" and fin: "Finish b = Ok (b', c)"
  obtains a where "bd_program b = Some a" "validExecutionBatchColumns (H a) c" "length (b_RequestIDs c) = b_Rows c" "csr_wf c"
    "evidence_named (H a) c \<Longrightarrow> input_ok (H a) c"
proof -
  note f = Finish_Ok[OF fin]
  obtain a where a: "bd_program b = Some a" using inv f by (auto simp: builder_inv_def)
  have cols: "columns_ok (p_FieldIndex (H a)) c" and csr: "csr_wf c" using inv a f by (simp_all add: builder_inv_def)
  note ex = columns_ok_execution[OF cols]
  have ids: "length (b_RequestIDs c) = b_Rows c" using cols by (simp add: columns_ok_def Let_def)
  obtain n where ev: "evidence_lengths (b_Evidence c) n" using cols unfolding columns_ok_def Let_def by blast
  have "validEvidenceBatch c (H a)" if "evidence_named (H a) c"
    using that csr ids ev f by (auto simp: validEvidenceBatch_def csr_wf_def Let_def list_all_iff evidence_named_def evidence_lengths_def all_set_conv_all_nth not_less)
  then have "input_ok (H a) c" if "evidence_named (H a) c" using that ex ids by (simp add: input_ok_def batch_ok_def)
  then show thesis using that[OF a ex ids csr] by blast
qed

text \<open>C21: A batch returned by \<^verbatim>\<open>Finish\<close>, after any sequence of builder calls, meets the conditions under which the
  evaluator runs: its columns have the lengths the program's field index asks for, every row has a nonzero request ID,
  its evidence relation is well formed, and it is a valid input as soon as its evidence kinds and states are
  names of the program. The build is sealed.\<close>

theorem finished_batch_executable:
  assumes sized: "\<forall>a. program_sized (H a)" and reach: "builder_reachable H b" and fin: "Finish b = Ok (b', c)"
  shows "\<exists>a. bd_program b = Some a \<and> validExecutionBatchColumns (H a) c \<and> length (b_RequestIDs c) = b_Rows c \<and> 0 \<notin> set (b_RequestIDs c) \<and>
    (\<forall>row < b_Rows c. \<exists>start stop. EvidenceRange c row = Some (start, stop) \<and> (\<forall>e \<in> {start..<stop}. b_EvidenceRefs c ! e < length (ev_IDs (b_Evidence c)))) \<and>
    (evidence_named (H a) c \<longrightarrow> input_ok (H a) c) \<and> \<not> bd_active b'"
proof -
  obtain a where a: "bd_program b = Some a" "validExecutionBatchColumns (H a) c" "length (b_RequestIDs c) = b_Rows c" "csr_wf c"
    "evidence_named (H a) c \<Longrightarrow> input_ok (H a) c"
    using Finish_batch[OF builder_reachable_inv[OF reach sized] fin] by blast
  have "\<exists>start stop. EvidenceRange c row = Some (start, stop) \<and> (\<forall>e \<in> {start..<stop}. b_EvidenceRefs c ! e < length (ev_IDs (b_Evidence c)))"
    if "row < b_Rows c" for row
    using that a(4) by (auto simp: EvidenceRange_def csr_wf_def Let_def not_le all_set_conv_all_nth order_less_le_trans)
  then show ?thesis using a Finish_Ok[OF fin] by auto
qed

section \<open>One fact at a time\<close>

text \<open>Column-major cells: distinct pairs of a column and a row have distinct places, all inside the block.\<close>

lemma grid_less: "c < k \<Longrightarrow> r < n \<Longrightarrow> c * n + r < k * (n :: nat)"
proof -
  assume "c < k" "r < n"
  then have "c * n + r < (c + 1) * n" "(c + 1) * n \<le> k * n" by (simp, intro mult_le_mono1) simp
  then show ?thesis by linarith
qed

lemma grid_eq:
  assumes "r < n" "r' < (n :: nat)"
  shows "c * n + r = c' * n + r' \<longleftrightarrow> c = c' \<and> r = r'"
proof
  assume e: "c * n + r = c' * n + r'"
  have "(c * n + r) div n = c" "(c' * n + r') div n = c'" using assms by simp_all
  then show "c = c' \<and> r = r'" using e by simp
qed simp

lemma row_word_less: "row < rows \<Longrightarrow> row div 64 < word_count rows"
  unfolding word_count_iff by (rule order_le_less_trans[of _ row]) simp_all

lemma or_row_bit: "r div 64 = row div 64 \<Longrightarrow> (w OR row_bit row) AND row_bit r \<noteq> 0 \<longleftrightarrow> w AND row_bit r \<noteq> 0 \<or> r = row"
  using div_mult_mod_eq[of r 64] div_mult_mod_eq[of row 64] by (auto simp: and_row_bit_eq_0 bit_or_iff)

lemma clear_row_bit: "r div 64 = row div 64 \<Longrightarrow> (w AND NOT (row_bit row)) AND row_bit r \<noteq> 0 \<longleftrightarrow> w AND row_bit r \<noteq> 0 \<and> r \<noteq> row"
  using div_mult_mod_eq[of r 64] div_mult_mod_eq[of row 64] by (auto simp: and_row_bit_eq_0 bit_and_iff bit_not_iff)

text \<open>Reading a whole batch, of no row offset.\<close>

definition whole :: "batch \<Rightarrow> bool" where
  "whole c \<longleftrightarrow> b_rowBase c = 0 \<and> b_rowStride c = 0"

lemma whole_row_value: "whole c \<Longrightarrow> row_value c vals column row =
    (if row < b_Rows c \<and> column * b_Rows c + row < length vals then Some (vals ! (column * b_Rows c + row)) else None)"
  by (simp add: whole_def row_value_def validPhysicalRange_def sourceRows_def)

lemma whole_Present: "whole c \<Longrightarrow> Batch_Present c field row \<longleftrightarrow> field \<noteq> 0 \<and> row < b_Rows c \<and>
    (let w = (field - 1) * word_count (b_Rows c) + row div 64 in w < length (b_PresenceMasks c) \<and> b_PresenceMasks c ! w AND row_bit row \<noteq> 0)"
  by (simp add: whole_def Batch_Present_def validPhysicalRange_def sourceRows_def sourceWords_def wordBase_def word_count_def Let_def)

lemma whole_Boolean: "whole c \<Longrightarrow> Batch_Boolean c column row \<longleftrightarrow> row < b_Rows c \<and>
    (let w = column * word_count (b_Rows c) + row div 64 in w < length (b_BooleanValues c) \<and> b_BooleanValues c ! w AND row_bit row \<noteq> 0)"
  by (simp add: whole_def Batch_Boolean_def validPhysicalRange_def sourceRows_def sourceWords_def wordBase_def word_count_def Let_def)

lemma word_updates:
  fixes ws :: "u64 list" and c c' r row rows :: nat
  defines "p \<equiv> c * word_count rows + row div 64" and "q \<equiv> c' * word_count rows + r div 64"
  assumes n: "r < rows" "row < rows" and l: "p < length ws"
  shows "ws[p := ws ! p OR row_bit row] ! q AND row_bit r \<noteq> 0 \<longleftrightarrow> ws ! q AND row_bit r \<noteq> 0 \<or> (c' = c \<and> r = row)"
    and "ws[p := ws ! p AND NOT (row_bit row)] ! q AND row_bit r \<noteq> 0 \<longleftrightarrow> ws ! q AND row_bit r \<noteq> 0 \<and> \<not> (c' = c \<and> r = row)"
proof -
  have e: "p = q \<longleftrightarrow> c = c' \<and> row div 64 = r div 64"
    unfolding p_def q_def by (rule grid_eq[OF row_word_less[OF n(2)] row_word_less[OF n(1)]])
  show "ws[p := ws ! p OR row_bit row] ! q AND row_bit r \<noteq> 0 \<longleftrightarrow> ws ! q AND row_bit r \<noteq> 0 \<or> (c' = c \<and> r = row)"
    using or_row_bit[of r row "ws ! p"] l e by (cases "p = q") auto
  show "ws[p := ws ! p AND NOT (row_bit row)] ! q AND row_bit r \<noteq> 0 \<longleftrightarrow> ws ! q AND row_bit r \<noteq> 0 \<and> \<not> (c' = c \<and> r = row)"
    using clear_row_bit[of r row "ws ! p"] l e by (cases "p = q") auto
qed

lemma setPresence_ok:
  assumes w: "whole (bd_batch b)" and row: "row < b_Rows (bd_batch b)" and f: "field \<noteq> 0" "field - 1 < n"
    and l: "length (b_PresenceMasks (bd_batch b)) = n * word_count (b_Rows (bd_batch b))"
  shows "\<exists>ms. setPresence b row field = Ok (b\<lparr>bd_batch := (bd_batch b)\<lparr>b_PresenceMasks := ms\<rparr>\<rparr>) \<and>
    (\<forall>g r. Batch_Present ((bd_batch b)\<lparr>b_PresenceMasks := ms\<rparr>) g r \<longleftrightarrow> Batch_Present (bd_batch b) g r \<or> (g = field \<and> r = row))"
proof -
  let ?c = "bd_batch b" and ?ms = "b_PresenceMasks (bd_batch b)"
  let ?W = "word_count (b_Rows ?c)"
  let ?w = "(field - 1) * ?W + row div 64"
  let ?new = "?ms[?w := ?ms ! ?w OR row_bit row]"
  let ?d = "?c\<lparr>b_PresenceMasks := ?new\<rparr>"
  have lw: "?w < length ?ms" using grid_less[OF f(2) row_word_less[OF row]] l by simp
  have "setPresence b row field = Ok (b\<lparr>bd_batch := ?d\<rparr>)"
    using lw by (simp add: setPresence_def Let_def Batch_WordCount_def word_count_def[symmetric] idx_def upd_def)
  moreover have "Batch_Present ?d g r \<longleftrightarrow> Batch_Present ?c g r \<or> (g = field \<and> r = row)" for g r
  proof (cases "g \<noteq> 0 \<and> r < b_Rows ?c")
    case True
    then have r: "r < b_Rows ?c" and e: "g - 1 = field - 1 \<longleftrightarrow> g = field" using f(1) by auto
    have d: "whole ?d" using w by (simp add: whole_def)
    show ?thesis using True lw unfolding whole_Present[OF w] whole_Present[OF d] Let_def
      using word_updates(1)[OF r row lw, of "g - 1"] r row e f(1) by auto
  next
    case False
    have d: "whole ?d" using w by (simp add: whole_def)
    show ?thesis using False f(1) row unfolding whole_Present[OF w] whole_Present[OF d] by auto
  qed
  ultimately show ?thesis by blast
qed

text \<open>The setter of a cell, and the kind of field it is for.\<close>

fun set_fact :: "builder \<Rightarrow> nat \<Rightarrow> nat \<Rightarrow> cell \<Rightarrow> builder res" where
  "set_fact b row field (SymbolCell v) = SetSymbol b row field v"
| "set_fact b row field (IntegerCell v) = SetInteger b row field v"
| "set_fact b row field (BooleanCell v) = SetBoolean b row field v"
| "set_fact b row field (TimestampCell v) = SetTimestamp b row field v"
| "set_fact b row field NoCell = SetPresent b row field"

fun cell_kind :: "cell \<Rightarrow> value_kind" where
  "cell_kind (SymbolCell v) = ValueKindSymbol"
| "cell_kind (IntegerCell v) = ValueKindInteger"
| "cell_kind (BooleanCell v) = ValueKindBoolean"
| "cell_kind (TimestampCell v) = ValueKindTimestamp"
| "cell_kind NoCell = ValueKindPresence"

text \<open>The columns after one cell was written; presence is written by \<open>setPresence\<close>.\<close>

fun store_cell :: "batch \<Rightarrow> nat \<Rightarrow> nat \<Rightarrow> cell \<Rightarrow> batch" where
  "store_cell c column row (SymbolCell v) = c\<lparr>b_SymbolValues := (b_SymbolValues c)[column * b_Rows c + row := v]\<rparr>"
| "store_cell c column row (IntegerCell v) = c\<lparr>b_IntegerValues := (b_IntegerValues c)[column * b_Rows c + row := v]\<rparr>"
| "store_cell c column row (TimestampCell v) = c\<lparr>b_TimestampValues := (b_TimestampValues c)[column * b_Rows c + row := v]\<rparr>"
| "store_cell c column row (BooleanCell v) = (let w = column * word_count (b_Rows c) + row div 64; ws = b_BooleanValues c in
     c\<lparr>b_BooleanValues := ws[w := if v then ws ! w OR row_bit row else ws ! w AND NOT (row_bit row)]\<rparr>)"
| "store_cell c column row NoCell = c"

definition cell_fits :: "batch \<Rightarrow> nat \<Rightarrow> nat \<Rightarrow> value_kind \<Rightarrow> bool" where
  "cell_fits c column row k \<longleftrightarrow> row < b_Rows c \<and> whole c \<and>
     (k = ValueKindSymbol \<longrightarrow> column * b_Rows c + row < length (b_SymbolValues c)) \<and>
     (k = ValueKindInteger \<longrightarrow> column * b_Rows c + row < length (b_IntegerValues c)) \<and>
     (k = ValueKindTimestamp \<longrightarrow> column * b_Rows c + row < length (b_TimestampValues c)) \<and>
     (k = ValueKindBoolean \<longrightarrow> column * word_count (b_Rows c) + row div 64 < length (b_BooleanValues c))"

lemma columns_ok_fits:
  assumes c: "columns_ok s c" and l: "Schema_Lookup s field = Some (k, column)" and r: "row < b_Rows c"
  shows "cell_fits c column row k"
proof -
  have "schema_ok s" using c BuildSchema_ok unfolding columns_ok_def Let_def validateFieldIndex_iff by blast
  then have "column < kind_count s k" using schema_ok_column(1) l by blast
  then have "column * b_Rows c + row < kind_count s k * b_Rows c" "column * word_count (b_Rows c) + row div 64 < kind_count s k * word_count (b_Rows c)"
    using grid_less r row_word_less[OF r] by blast+
  then show ?thesis using c r by (auto simp: cell_fits_def columns_ok_def whole_def Let_def)
qed

lemma set_fact_store:
  assumes a: "bd_active b" and l: "Schema_Lookup (bd_fields b) field = Some (cell_kind v, column)" and f: "cell_fits (bd_batch b) column row (cell_kind v)"
    and z: "v \<noteq> SymbolCell 0"
  shows "set_fact b row field v = setPresence (b\<lparr>bd_batch := store_cell (bd_batch b) column row v\<rparr>) row field"
  using assms
  by (cases v) (auto simp: cell_fits_def SetSymbol_def SetInteger_def SetBoolean_def SetTimestamp_def SetPresent_def factColumn_def Let_def
      Batch_WordCount_def word_count_def[symmetric] idx_def upd_def)

lemma store_cell_columns [simp]:
  "b_PresenceMasks (store_cell c column row v) = b_PresenceMasks c" "b_Rows (store_cell c column row v) = b_Rows c"
  "whole (store_cell c column row v) = whole c"
  by (cases v; simp add: Let_def whole_def)+

lemma store_cell_present [simp]: "whole c \<Longrightarrow> Batch_Present (store_cell c column row v) g r = Batch_Present c g r"
  by (simp add: whole_Present)

lemma batch_cell_presence [simp]: "batch_cell (c\<lparr>b_PresenceMasks := ms\<rparr>) k column row = batch_cell c k column row"
  by (simp add: batch_cell_def Batch_Symbol_def Batch_Integer_def Batch_Timestamp_def Batch_Boolean_def row_value_def validPhysicalRange_def
      sourceRows_def sourceWords_def wordBase_def Let_def split: value_kind.split)

lemma store_cell_cell:
  assumes f: "cell_fits c column row (cell_kind v)" and r: "r < b_Rows c"
  shows "batch_cell (store_cell c column row v) k column' r = (if k = cell_kind v \<and> column' = column \<and> r = row then v else batch_cell c k column' r)"
proof -
  have w: "row < b_Rows c" "whole c" "whole (store_cell c column row v)" using f by (simp_all add: cell_fits_def)
  show ?thesis
  proof (cases v)
    case (BooleanCell x)
    then have lw: "column * word_count (b_Rows c) + row div 64 < length (b_BooleanValues c)" using f by (simp add: cell_fits_def)
    have "Batch_Boolean (store_cell c column row v) column' r = (if column' = column \<and> r = row then x else Batch_Boolean c column' r)"
      using lw r w(1) word_updates[OF r w(1) lw, of column'] unfolding whole_Boolean[OF w(2)] whole_Boolean[OF w(3)]
      by (auto simp: BooleanCell Let_def)
    then show ?thesis using w by (auto simp: BooleanCell batch_cell_def Batch_Symbol_def Batch_Integer_def Batch_Timestamp_def whole_row_value Let_def whole_def split: value_kind.split)
  qed (use w f r in \<open>auto simp: batch_cell_def Batch_Symbol_def Batch_Integer_def Batch_Timestamp_def whole_Boolean cell_fits_def Let_def
      whole_row_value nth_list_update grid_eq[OF w(1) r] split: value_kind.split\<close>)
qed

lemma lookup_range: "Schema_Lookup s field = Some (k, column) \<Longrightarrow> field \<noteq> 0 \<and> field - 1 < length (is_Kinds s)"
  by (auto simp: Schema_Lookup_def Let_def split: if_splits)

lemma active_columns:
  assumes "builder_inv H b" "bd_active b"
  shows "columns_ok (bd_fields b) (bd_batch b)"
  using assms by (auto simp: builder_inv_def)

lemma set_fact_effect:
  assumes inv: "builder_inv H b" and a: "bd_active b" and r: "row < b_Rows (bd_batch b)"
    and l: "Schema_Lookup (bd_fields b) field = Some (cell_kind v, column)" and z: "v \<noteq> SymbolCell 0"
  shows "\<exists>ms. set_fact b row field v = Ok (b\<lparr>bd_batch := (store_cell (bd_batch b) column row v)\<lparr>b_PresenceMasks := ms\<rparr>\<rparr>) \<and>
    (\<forall>g r. Batch_Present ((store_cell (bd_batch b) column row v)\<lparr>b_PresenceMasks := ms\<rparr>) g r \<longleftrightarrow> Batch_Present (bd_batch b) g r \<or> (g = field \<and> r = row))"
proof -
  let ?b = "b\<lparr>bd_batch := store_cell (bd_batch b) column row v\<rparr>"
  note c = active_columns[OF inv a]
  note fits = columns_ok_fits[OF c l r] and f = lookup_range[OF l]
  have w: "whole (bd_batch b)" using fits by (simp add: cell_fits_def)
  have len: "length (b_PresenceMasks (bd_batch b)) = length (is_Kinds (bd_fields b)) * word_count (b_Rows (bd_batch b))"
    using c by (simp add: columns_ok_def Let_def)
  show ?thesis using setPresence_ok[of ?b row field "length (is_Kinds (bd_fields b))"] w r f len set_fact_store[OF a l fits z] by simp
qed

text \<open>C22: A typed setter writes exactly one fact. On an active build, with a row of the batch, a field of the setter's kind and
  a value other than the zero symbol, it succeeds; afterwards the field is present in that row with that value, and every
  other field and row reads as before, although the columns of all fields of a kind share one slice and 64 rows
  share a word of the presence and Boolean columns.\<close>

theorem set_fact_exact:
  assumes sized: "\<forall>a. program_sized (H a)" and reach: "builder_reachable H b" and a: "bd_active b" and r: "row < b_Rows (bd_batch b)"
    and l: "Schema_Lookup (bd_fields b) field = Some (cell_kind v, column)" and z: "v \<noteq> SymbolCell 0"
  shows "\<exists>b'. set_fact b row field v = Ok b' \<and>
    (\<forall>g r. Batch_Present (bd_batch b') g r \<longleftrightarrow> Batch_Present (bd_batch b) g r \<or> (g = field \<and> r = row)) \<and>
    (\<forall>g k column' r. Schema_Lookup (bd_fields b) g = Some (k, column') \<and> r < b_Rows (bd_batch b) \<longrightarrow>
      batch_cell (bd_batch b') k column' r = (if g = field \<and> r = row then v else batch_cell (bd_batch b) k column' r))"
proof -
  have inv: "builder_inv H b" using builder_reachable_inv[OF reach sized] .
  note c = active_columns[OF inv a]
  have ok: "schema_ok (bd_fields b)" using c BuildSchema_ok unfolding columns_ok_def Let_def validateFieldIndex_iff by blast
  obtain ms where m: "set_fact b row field v = Ok (b\<lparr>bd_batch := (store_cell (bd_batch b) column row v)\<lparr>b_PresenceMasks := ms\<rparr>\<rparr>)"
    "\<forall>g r. Batch_Present ((store_cell (bd_batch b) column row v)\<lparr>b_PresenceMasks := ms\<rparr>) g r \<longleftrightarrow> Batch_Present (bd_batch b) g r \<or> (g = field \<and> r = row)"
    using set_fact_effect[OF inv a r l z] by blast
  show ?thesis using m l store_cell_cell[OF columns_ok_fits[OF c l r]] by (intro exI conjI) (auto dest: schema_ok_disjoint[OF ok l])
qed

section \<open>No call panics\<close>










section \<open>Identity of symbols\<close>

text \<open>Value \<open>w\<close> has identifier \<open>j\<close>: in the program, or behind it in the extension \<open>syms\<close>.\<close>

definition symbol_known :: "program \<Rightarrow> byte list list \<Rightarrow> byte list \<Rightarrow> nat \<Rightarrow> bool" where
  "symbol_known p syms w j \<longleftrightarrow> (case LookupSymbol p w of Some k \<Rightarrow> j = k
     | None \<Rightarrow> \<exists>i < length syms. syms ! i = w \<and> j = p_ProgramSymbolCount p + i + 1)"

definition symbols_state :: "(nat \<Rightarrow> program) \<Rightarrow> nat \<Rightarrow> builder \<Rightarrow> byte list list \<Rightarrow> bool" where
  "symbols_state H a b syms \<longleftrightarrow> builder_inv H b \<and> bd_active b \<and> bd_program b = Some a \<and> intern_rel (bd_extension b) syms \<and>
     bd_symbolBase b + length syms \<le> MaxUint32"

lemma symbols_stateD:
  assumes "symbols_state H a b syms"
  shows "builder_inv H b" "bd_active b" "bd_program b = Some a" "intern_rel (bd_extension b) syms" "bd_symbolBase b + length syms \<le> MaxUint32"
    "bd_symbolBase b = p_ProgramSymbolCount (H a)"
proof -
  show inv: "builder_inv H b" and p: "bd_program b = Some a" using assms by (simp_all add: symbols_state_def)
  show "bd_symbolBase b = p_ProgramSymbolCount (H a)" using inv p by (simp add: builder_inv_def)
qed (use assms in \<open>simp_all add: symbols_state_def\<close>)

lemma Builder_Symbol_state:
  assumes "symbols_state H a b syms"
  shows "Builder_Symbol H b j = Ok (if j = 0 then None else if j \<le> p_ProgramSymbolCount (H a) then Program_Symbol (H a) j
    else if j \<le> p_ProgramSymbolCount (H a) + length syms then Some (syms ! (j - p_ProgramSymbolCount (H a) - 1)) else None)"
proof -
  show ?thesis using symbols_stateD[OF assms] symbol_table.bytes_old[of "bd_extension b" syms] by (auto simp: Builder_Symbol_def)
qed

lemma known_intern:
  assumes s: "symbols_state H a b syms" and k: "symbol_known (H a) syms w j"
  shows "InternSymbol H b w = Ok (b, Inr j) \<and> j \<noteq> 0 \<and> j \<le> MaxUint32 \<and> Builder_Symbol H b j = Ok (Some w)"
proof -
  note st = symbols_stateD[OF s]
  note base = st(6)
  show ?thesis
  proof (cases "LookupSymbol (H a) w")
    case (Some i)
    then show ?thesis using InternSymbol_known[OF st(1-3) Some] k st(5) by (simp add: symbol_known_def)
  next
    case None
    then obtain i where i: "i < length syms" "syms ! i = w" "j = bd_symbolBase b + i + 1" using k base by (auto simp: symbol_known_def)
    then show ?thesis using InternSymbol_extension(1)[where H = H and v = w, OF st(2,3) None st(4,5) i(1,2)] st(5) base
      by (simp add: Builder_Symbol_state[OF s])
  qed
qed

lemma intern_rel_count: "intern_rel t syms \<Longrightarrow> in_count t = length syms"
  by (auto simp: intern_rel_def split: if_splits)

lemma builder_intern_known:
  assumes s: "symbols_state H a b syms" and i: "InternSymbol H b v = Ok (b', Inr k)"
  shows "\<exists>later. symbols_state H a b' (syms @ later) \<and> symbol_known (H a) (syms @ later) v k"
proof -
  note st = symbols_stateD[OF s]
  note base = st(6)
  show ?thesis
  proof (cases "\<exists>j. symbol_known (H a) syms v j")
    case True
    then show ?thesis using known_intern[OF s] i s by (intro exI[of _ "[]"]) auto
  next
    case False
    have none: "LookupSymbol (H a) v = None"
    proof (rule ccontr)
      assume "LookupSymbol (H a) v \<noteq> None"
      then obtain j where "LookupSymbol (H a) v = Some j" by blast
      then show False using False by (simp add: symbol_known_def)
    qed
    have new: "v \<notin> set syms"
    proof
      assume "v \<in> set syms"
      then obtain j where "j < length syms" "syms ! j = v" by (auto simp: in_set_conv_nth)
      then have "symbol_known (H a) syms v (p_ProgramSymbolCount (H a) + j + 1)" using none by (auto simp: symbol_known_def)
      then show False using False by blast
    qed
    note ext = InternSymbol_extension[where H = H and v = v, OF st(2,3) none st(4,5)]
    have room: "bd_symbolBase b + length syms + 1 \<le> MaxUint32" using ext(2)[OF new] i by (cases "bd_symbolBase b + length syms + 1 \<le> MaxUint32") auto
    have "adds syms v" using ext(4)[OF new room] i by auto
    then obtain e where e: "b' = b\<lparr>bd_extension := e\<rparr>" "k = bd_symbolBase b + length syms + 1" "intern_rel e (syms @ [v])"
      using ext(3)[OF new room] i by auto
    have "symbols_state H a b' (syms @ [v])"
      using e room st extension_inv[OF st(1,3) e(3)] by (simp add: symbols_state_def)
    moreover have "symbol_known (H a) (syms @ [v]) v k" using none e(2) base by (auto simp: symbol_known_def intro!: exI[of _ "length syms"])
    ultimately show ?thesis by blast
  qed
qed

lemma symbol_known_append: "symbol_known p syms w j \<Longrightarrow> symbol_known p (syms @ later) w j"
  by (auto simp: symbol_known_def nth_append split: option.splits)

text \<open>C23: Symbols of a build are identified by their bytes, whether the program or the batch defines them. An identifier
  returned by \<^verbatim>\<open>InternSymbol\<close> is nonzero, fits 32 bits and resolves to the bytes; interning the value again returns it without a
  change; no other value has it; and identifiers and values known before keep their meaning.\<close>

theorem builder_symbols_roundtrip:
  assumes sized: "\<forall>a. program_sized (H a)" and reach: "builder_reachable H b" and i: "InternSymbol H b v = Ok (b', Inr k)"
  shows "k \<noteq> 0 \<and> k \<le> MaxUint32 \<and> Builder_Symbol H b' k = Ok (Some v) \<and> InternSymbol H b' v = Ok (b', Inr k) \<and>
    (\<forall>w c. InternSymbol H b' w = Ok (c, Inr k) \<longrightarrow> w = v) \<and>
    (\<forall>j w. Builder_Symbol H b j = Ok (Some w) \<longrightarrow> Builder_Symbol H b' j = Ok (Some w)) \<and>
    (\<forall>w j. InternSymbol H b w = Ok (b, Inr j) \<longrightarrow> InternSymbol H b' w = Ok (b', Inr j))"
proof -
  have inv: "builder_inv H b" using builder_reachable_inv[OF reach sized] .
  have "bd_active b \<and> bd_program b \<noteq> None" using InternSymbol_inactive[OF inv, of v] i
    by (cases "bd_active b"; cases "bd_program b") auto
  then obtain a syms where s: "symbols_state H a b syms" using inv by (auto simp: symbols_state_def builder_inv_def)
  obtain later where s': "symbols_state H a b' (syms @ later)" and k: "symbol_known (H a) (syms @ later) v k" using builder_intern_known[OF s i] by blast
  note known = known_intern[OF s' k]
  have bytes: "Builder_Symbol H b' j = Ok (Some w)" if "Builder_Symbol H b j = Ok (Some w)" for j w
    using that unfolding Builder_Symbol_state[OF s] Builder_Symbol_state[OF s'] by (auto simp: nth_append split: if_splits)
  have unique: "w = v" if other: "InternSymbol H b' w = Ok (c, Inr k)" for w c
  proof -
    obtain m where m: "symbols_state H a c ((syms @ later) @ m)" "symbol_known (H a) ((syms @ later) @ m) w k" using builder_intern_known[OF s' other] by blast
    show ?thesis using known_intern[OF m] known_intern[OF m(1) symbol_known_append[OF k]] by simp
  qed
  have "InternSymbol H b' w = Ok (b', Inr j)" if w: "InternSymbol H b w = Ok (b, Inr j)" for w j
  proof -
    obtain m where m: "symbols_state H a b (syms @ m)" "symbol_known (H a) (syms @ m) w j" using builder_intern_known[OF s w] by blast
    have "m = []" using intern_rel_count[OF symbols_stateD(4)[OF m(1)]] intern_rel_count[OF symbols_stateD(4)[OF s]] by simp
    then show ?thesis using known_intern[OF s' symbol_known_append] m(2) by simp
  qed
  then show ?thesis using known bytes unique by blast
qed

section \<open>A sample build\<close>

text \<open>The calls that build the sample batch; the programs of the heap are all the sample program.\<close>

definition table_heap :: "nat \<Rightarrow> program" where
  "table_heap = (\<lambda>_. sample_table)"

definition sample_request_ids :: "builder res" where
  "sample_request_ids = rbind (Begin table_heap zero_builder (Some 0) 4 1 2) (\<lambda>b. rbind (SetRequestID b 0 1) (\<lambda>b. rbind (SetRequestID b 1 2) (\<lambda>b.
     rbind (SetRequestID b 2 3) (\<lambda>b. SetRequestID b 3 4))))"

definition sample_facts :: "builder \<Rightarrow> builder res" where
  "sample_facts b = rbind (SetSymbol b 0 1 1) (\<lambda>b. rbind (SetSymbol b 1 1 1) (\<lambda>b. rbind (SetSymbol b 2 1 2) (\<lambda>b. rbind (SetSymbol b 3 1 1) (\<lambda>b.
     rbind (SetInteger b 0 2 5) (\<lambda>b. SetInteger b 1 2 20)))))"

definition sample_evidence :: "builder \<Rightarrow> builder res" where
  "sample_evidence b = rbind (SetEvidence b 0 \<lparr>er_Timestamp = 0, er_ID = 9, er_Kind = 1, er_State = 1, er_Subject = 0, er_Scope = 0, er_Reviewer = 0,
     er_Timing = 0\<rparr>) (\<lambda>b. SetEvidenceCSR b [0, 1, 2, 2, 2] [0, 0])"

definition sample_build :: "builder res" where
  "sample_build = rbind sample_request_ids (\<lambda>b. rbind (sample_facts b) sample_evidence)"

lemma sample_ids_reachable: "sample_request_ids = Ok b \<Longrightarrow> builder_reachable table_heap b"
proof -
  assume "sample_request_ids = Ok b"
  then obtain b0 b1 b2 b3 where b: "Begin table_heap zero_builder (Some 0) 4 1 2 = Ok b0" "SetRequestID b0 0 1 = Ok b1" "SetRequestID b1 1 2 = Ok b2"
    "SetRequestID b2 2 3 = Ok b3" "SetRequestID b3 3 4 = Ok b"
    unfolding sample_request_ids_def rbind_Ok_iff by blast
  note begun = begin_build[OF fresh _ _ _ b(1)]
  show ?thesis by (rule request_id[OF request_id[OF request_id[OF request_id[OF begun b(2)] b(3)] b(4)] b(5)]) simp_all
qed

lemma sample_reachable: "sample_build = Ok b \<Longrightarrow> builder_reachable table_heap b"
proof -
  assume "sample_build = Ok b"
  then obtain b0 b1 where b: "sample_request_ids = Ok b0" "sample_facts b0 = Ok b1" "sample_evidence b1 = Ok b"
    unfolding sample_build_def rbind_Ok_iff by blast
  obtain f1 f2 f3 f4 f5 where f: "SetSymbol b0 0 1 1 = Ok f1" "SetSymbol f1 1 1 1 = Ok f2" "SetSymbol f2 2 1 2 = Ok f3" "SetSymbol f3 3 1 1 = Ok f4"
    "SetInteger f4 0 2 5 = Ok f5" "SetInteger f5 1 2 20 = Ok b1"
    using b(2) unfolding sample_facts_def rbind_Ok_iff by blast
  note facts = set_integer[OF set_integer[OF set_symbol[OF set_symbol[OF set_symbol[OF set_symbol[OF sample_ids_reachable[OF b(1)] f(1)] f(2)] f(3)] f(4)] f(5)] f(6)]
  obtain e where e: "SetEvidence b1 0 \<lparr>er_Timestamp = 0, er_ID = 9, er_Kind = 1, er_State = 1, er_Subject = 0, er_Scope = 0, er_Reviewer = 0, er_Timing = 0\<rparr> = Ok e"
    "SetEvidenceCSR e [0, 1, 2, 2, 2] [0, 0] = Ok b"
    using b(3) unfolding sample_evidence_def rbind_Ok_iff by blast
  show ?thesis by (rule set_csr[OF set_evidence[OF facts e(1)] e(2)])
qed

lemma sample_sized: "\<forall>a. program_sized (table_heap a)"
  by (simp add: program_sized_def table_heap_def sample_table_def sample_program_def)

lemma sample_shape: "makeBatchShape (p_FieldIndex sample_table) 4 1 2 = Some \<lparr>sh_symbols = 4, sh_integers = 4, sh_timestamps = 0, sh_booleans = 0,
    sh_presence = 2, sh_rows = 4, sh_offsets = 5, sh_evidence = 1, sh_refs = 2\<rparr>"
proof -
  have "validateFieldIndex (p_FieldIndex sample_table)" by code_simp
  then show ?thesis by (simp add: makeBatchShape_def checkedSliceLen_def sample_table_def sample_program_def Let_def)
qed

definition sample_begun :: builder where
  "sample_begun = zero_builder\<lparr>bd_batch := (bd_batch zero_builder)\<lparr>b_SymbolValues := [0, 0, 0, 0], b_IntegerValues := [0, 0, 0, 0], b_PresenceMasks := [0, 0],
     b_RequestIDs := [0, 0, 0, 0], b_EvidenceOffsets := [0, 0, 0, 0, 0], b_EvidenceRefs := [0, 0], b_Evidence := evidence_resize 1, b_Rows := 4\<rparr>,
     bd_extension := Interner_Reset zero_interner, bd_fields := p_FieldIndex sample_table, bd_program := Some 0, bd_symbolBase := 2, bd_csrReady := False,
     bd_active := True\<rparr>"

lemma sample_Begin: "Begin table_heap zero_builder (Some 0) 4 1 2 = Ok sample_begun"
proof -
  have n: "p_ProgramSymbolCount sample_table = 2" by (simp add: sample_table_def sample_program_def)
  show ?thesis unfolding Begin_def table_heap_def option.case Let_def sample_shape
    by (simp add: sample_table_accepted sample_begun_def n) (simp add: zero_builder_def numeral_eq_Suc)
qed

lemma sample_ids: "sample_request_ids = Ok (sample_begun\<lparr>bd_batch := (bd_batch sample_begun)\<lparr>b_RequestIDs := [1, 2, 3, 4]\<rparr>\<rparr>)"
  unfolding sample_request_ids_def sample_Begin by code_simp

lemma sample_built: "sample_build = Ok (sample_begun\<lparr>bd_batch := sample_batch, bd_csrReady := True\<rparr>)"
  unfolding sample_build_def sample_ids by code_simp

lemma sample_finish: "Finish (sample_begun\<lparr>bd_batch := sample_batch, bd_csrReady := True\<rparr>) =
    Ok (sample_begun\<lparr>bd_batch := sample_batch, bd_csrReady := True, bd_active := False\<rparr>, sample_batch)"
  by code_simp

lemma sample_begun_reachable: "builder_reachable table_heap sample_begun"
  by (rule begin_build[OF fresh _ _ _ sample_Begin]) simp_all

lemma sample_new_symbol: "\<exists>b. InternSymbol table_heap sample_begun [99] = Ok (b, Inr 3)"
proof -
  have "(case InternSymbol table_heap sample_begun [99] of Ok (b, r) \<Rightarrow> r | _ \<Rightarrow> Inr 0) = Inr 3" by code_simp
  then show ?thesis by (auto split: res.splits)
qed

lemma sample_field: "Schema_Lookup (bd_fields sample_begun) 2 = Some (ValueKindInteger, 0) \<and> bd_active sample_begun \<and> b_Rows (bd_batch sample_begun) = 4"
  by code_simp

theorem finished_batch_executable_witness:
  "sample_build = Ok (sample_begun\<lparr>bd_batch := sample_batch, bd_csrReady := True\<rparr>) \<and> input_ok sample_table sample_batch \<and>
   validExecutionBatchColumns sample_table sample_batch"
proof -
  have "evidence_named sample_table sample_batch" by (simp add: evidence_named_def sample_table_def sample_program_def sample_batch_def)
  then show ?thesis using finished_batch_executable[OF sample_sized sample_reachable[OF sample_built] sample_finish] sample_built by (auto simp: table_heap_def)
qed

theorem set_fact_exact_witness:
  "\<exists>b'. set_fact sample_begun 1 2 (IntegerCell 20) = Ok b' \<and> Batch_Present (bd_batch b') 2 1 \<and> batch_cell (bd_batch b') ValueKindInteger 0 1 = IntegerCell 20"
proof -
  have r: "1 < b_Rows (bd_batch sample_begun)" and l: "Schema_Lookup (bd_fields sample_begun) 2 = Some (cell_kind (IntegerCell 20), 0)"
    and a: "bd_active sample_begun" using sample_field by simp_all
  obtain b' where b: "set_fact sample_begun 1 2 (IntegerCell 20) = Ok b'"
    "\<forall>g r. Batch_Present (bd_batch b') g r \<longleftrightarrow> Batch_Present (bd_batch sample_begun) g r \<or> (g = 2 \<and> r = 1)"
    "\<forall>g k column' r. Schema_Lookup (bd_fields sample_begun) g = Some (k, column') \<and> r < b_Rows (bd_batch sample_begun) \<longrightarrow>
      batch_cell (bd_batch b') k column' r = (if g = 2 \<and> r = 1 then IntegerCell 20 else batch_cell (bd_batch sample_begun) k column' r)"
    using set_fact_exact[OF sample_sized sample_begun_reachable a r l] by blast
  have "batch_cell (bd_batch b') ValueKindInteger 0 1 = IntegerCell 20" using b(3)[rule_format, of 2 ValueKindInteger 0 1] l r by simp
  then show ?thesis using b(1,2) by blast
qed


theorem builder_symbols_roundtrip_witness:
  "\<exists>b. InternSymbol table_heap sample_begun [99] = Ok (b, Inr 3) \<and> Builder_Symbol table_heap b 3 = Ok (Some [99]) \<and> InternSymbol table_heap b [99] = Ok (b, Inr 3)"
proof -
  obtain b where b: "InternSymbol table_heap sample_begun [99] = Ok (b, Inr 3)" using sample_new_symbol by blast
  then show ?thesis using builder_symbols_roundtrip[OF sample_sized sample_begun_reachable b] by blast
qed

lemma table_program_ok: "program_ok sample_table"
  by code_simp

lemma table_physical: "physical sample_table sample_batch \<and> sizes_fit sample_table sample_batch"
  by code_simp

end
