(* ===== verification/Spec2Isabelle.thy ===== *)
theory Spec2Isabelle
  imports NR_SchedInv NR_Plan NR_Builder
begin

text \<open>
  A verification development for NornRune, a policy compiler and columnar evaluator written in Go. Paths are
  relative to \<^verbatim>\<open>src/\<close>.

  \<^bold>\<open>The program.\<close> Policies are parsed by the frontends and adapters, validated and normalised by
  \<^verbatim>\<open>internal/compile\<close>, and lowered to an immutable \<^verbatim>\<open>program.Program\<close>: columns of instructions in
  topological order, symbol and value tables, requirements with their clauses, and result tables. An adapter fills
  a request batch through \<^verbatim>\<open>eval.Builder\<close>. The executor of \<^verbatim>\<open>internal/eval\<close> evaluates the instructions over whole
  columns, as pairs of bit-planes with reason planes in scratch slots, resolves the active clauses of every row to
  an outcome, and writes a \<^verbatim>\<open>result.Batch\<close> of compressed columns. The scheduler partitions large batches into
  shards, evaluates them on worker contexts lent by an arena, and merges the results.

  \<^bold>\<open>Conventions.\<close> \<open>NR_Prelude\<close> has the result type \<open>res\<close> (\<open>Ok\<close>, \<open>Err\<close> for a returned error, \<open>Panic\<close> for a Go
  panic), bounds-checked slice operations, and bitmaps of rows over 64-bit words. Identifiers, counts and offsets
  are natural numbers; where the code can wrap, the modulus is written out or a machine word is used. A pointer to a
  program is an address in a heap \<open>H\<close>; programs are immutable once published. Slice capacities, which only decide
  whether memory is reused, are not modelled: a resized and cleared slice is a fresh zero slice.

  \<^bold>\<open>Values and indexes.\<close>
  \<^item> \<open>NR_Truth\<close> (\<^verbatim>\<open>internal/truth\<close>): four-valued truth as two planes; the plane operations are the row-wise ones.
  \<^item> \<open>NR_Simdops\<close> (\<^verbatim>\<open>internal/simdops\<close>): the portable kernels. Locale \<open>simd_contract\<close> is what the evaluator needs of a
    backend; the portable kernels interpret it, the third-party vector library is a parameter.
  \<^item> \<open>NR_Schema\<close> (\<^verbatim>\<open>internal/schema\<close>, \<^verbatim>\<open>internal/index/schema.go\<close>): field tables and kind-local columns.
  \<^item> \<open>NR_Intern\<close> (\<^verbatim>\<open>internal/arena\<close>, \<^verbatim>\<open>internal/schema/symbols.go\<close>): the byte arena and the open-addressing interner,
    which refines a list of distinct symbols. Locale \<open>symbol_store\<close> is that contract.
  \<^item> \<open>NR_Symbols\<close> (\<^verbatim>\<open>internal/eval/builder.go\<close>, \<^verbatim>\<open>internal/program/program.go\<close>): the check of a frozen symbol table
    and the exactness of lookups in an accepted one.
  \<^item> \<open>NR_Builder\<close> (\<^verbatim>\<open>internal/eval/builder.go\<close>, \<^verbatim>\<open>evidence.go\<close>): the reusable batch builder. Reachable builders keep
    an invariant and never panic, a setter writes exactly one fact, symbols of program and batch are identified by
    their bytes, and a finished batch is one the evaluator accepts.
  \<^item> \<open>NR_PolicyIndex\<close>, \<open>NR_FactIndex\<close> (\<^verbatim>\<open>internal/index\<close>): the applicability index with its queries and the
    per-batch fact index, both exact.
  \<^item> \<open>NR_Result\<close>, \<open>NR_Templates\<close> (\<^verbatim>\<open>internal/result\<close>): outcome, remediation and resolution tables, the resolver,
    explanation templates and their validation.

  \<^bold>\<open>Evaluator.\<close>
  \<^item> \<open>NR_Program\<close>, \<open>NR_Batch\<close>: the program and the batch records with their accessors (\<^verbatim>\<open>internal/program\<close>,
    \<^verbatim>\<open>internal/eval/batch.go\<close>).
  \<^item> \<open>NR_Predicate\<close>, \<open>NR_Leaf\<close>, \<open>NR_Evidence\<close>: leaf instructions on the scalar, vector and index paths
    (\<^verbatim>\<open>predicate.go\<close>, \<^verbatim>\<open>simd.go\<close>, \<^verbatim>\<open>batch_index.go\<close>, \<^verbatim>\<open>evidence_eval.go\<close>); the three paths agree.
  \<^item> \<open>NR_Schedule\<close>, \<open>NR_Executor\<close>: the schedule over scratch slots, clause resolution and the result builder
    (\<^verbatim>\<open>executor.go\<close>, \<^verbatim>\<open>result/batch.go\<close>).
  \<^item> \<open>NR_Semantics\<close>: the reference semantics, one row at a time, without slots, planes or indexes. \<open>NR_Execution\<close> and
    \<open>NR_Range\<close> prove that executions of batches and of aligned row ranges return exactly its results.
  \<^item> \<open>NR_Sample\<close>: a small policy and batch on which hypotheses are evaluated.

  \<^bold>\<open>Compiler.\<close>
  \<^item> \<open>NR_Slots\<close> (\<^verbatim>\<open>internal/compile/liveness.go\<close>, the column check of \<^verbatim>\<open>schedule.go\<close>): last uses, live reason planes
    and the slot allocation, which terminates, is sound and is optimal.
  \<^item> \<open>NR_Plan\<close>: a planned program meets the evaluator's conditions on slots and keeps its results.

  \<^bold>\<open>Scheduler.\<close>
  \<^item> \<open>NR_Shard\<close> (\<^verbatim>\<open>internal/scheduler/shard.go\<close>): partition and merge are inverse.
  \<^item> \<open>NR_Arena\<close> (\<^verbatim>\<open>arena.go\<close>, \<^verbatim>\<open>context.go\<close>): leases with generations and output claims; every atomic access that
    a race can separate is a step of its own.
  \<^item> \<open>NR_Scheduler\<close>, \<open>NR_SchedInv\<close> (\<^verbatim>\<open>scheduler.go\<close>, \<^verbatim>\<open>worker.go\<close>): callers, workers, cancellation and shutdown as a
    transition system, its invariant and a decreasing measure.

  This theory has the properties that span components: executions are exact, reusable and well formed, and the
  scheduler returns exact results, makes progress and conserves its tokens, contexts and workers.

  \<^bold>\<open>Hypotheses.\<close> \<open>program_ok\<close> is what the compiler establishes and the executor does not check again; \<open>physical\<close> and
  \<open>program_u32\<close>, and \<open>program_sized\<close> for the builder, bound values by the widths of their Go types and slices by what can be allocated. Each property with
  hypotheses is applied to a concrete input by its witness.

  \<^bold>\<open>Loops.\<close> Loops over a slice are folds or structural recursion. The walk over a release list (\<open>release_loop\<close>) has one
  unit of fuel per row and one more; the probe loops of the interner (\<open>probe\<close>) one per slot, and its outer loop
  (\<open>intern_loop\<close>) two, since a table that was just grown has room. Running out of fuel is \<open>Panic\<close>, and the lemmas show
  that it does not happen. \<open>first_free_from\<close> has a termination proof.

  \<^bold>\<open>Not modelled.\<close>
  \<^item> Parsing, printing and transport: \<^verbatim>\<open>frontend\<close>, \<^verbatim>\<open>internal/adapters\<close>, \<^verbatim>\<open>internal/frontend\<close>, \<^verbatim>\<open>internal/jsonstrict\<close>,
    \<^verbatim>\<open>api/gen\<close>, \<^verbatim>\<open>internal/server\<close> and the commands under \<^verbatim>\<open>cmd\<close>. They are input and output around the modelled core, and
    rest on third-party parsers, databases and generated code.
  \<^item> The compiler passes before slot planning: validation of documents, normalisation, lowering, instruction
    scheduling and the extraction of index constraints. What they establish is named in \<open>program_ok\<close>.
  \<^item> Explanation rendering, differences between policies, the debugger, graph views, the WebAssembly target,
    persistence, telemetry, security and configuration. No modelled part calls them.
  \<^item> Wall-clock time, memory exhaustion, the Go runtime and the memory model below single atomic accesses.
\<close>

section \<open>Execution\<close>

text \<open>C1: An execution of a compiled program on a batch, in any mode and on any vector backend that meets
  its contract, whatever the executor and the destination held before, returns the reference result: an
  invalid batch is refused, a batch whose result would not fit its 32-bit offsets or whose scratch would
  not fit a slice is refused as too large, and every other batch gives exactly the result of the
  row-by-row semantics. The executor is left ready for its next use.\<close>

theorem execution_exact:
  assumes "simd_contract K" "program_ok (H a)" "physical (H a) b" "executor_inv H e"
  shows "snd (executeMode K H e dst a b mode) = execution_spec (H a) b \<and> executor_inv H (fst (executeMode K H e dst a b mode))"
  by (rule simd_contract.executeMode_spec[OF assms])

theorem execution_exact_witness:
  "snd (executeMode purego_backend sample_heap new_executor empty_result 0 sample_batch executionIndex) =
     Ok (result_of sample_program sample_batch)"
  using execution_exact[of purego_backend sample_heap 0 sample_batch new_executor empty_result executionIndex]
    purego.simd_contract_axioms sample_program_ok sample_physical sample_input by (simp add: execution_spec_def)



text \<open>C5: A range of rows evaluates to the rows of the whole batch: an aligned range returns, for its
  row \<open>k\<close>, the result of row \<open>start + k\<close> of the batch.\<close>

theorem range_execution_exact:
  assumes "simd_contract K" "program_ok (H a)" "physical (H a) b" "input_ok (H a) b" "sizes_fit (H a) b" "executor_inv H e"
    and "range_ok b start end" "length evidenceOffsets = end - start + 1"
  shows "\<exists>e'. executeRangeMode K H e dst a b start end evidenceOffsets mode =
      (e', Ok (rows_batch (end - start) (\<lambda>k. row_spec (H a) b (start + k)))) \<and> executor_inv H e'"
  by (rule simd_contract.executeRangeMode_Ok[OF assms])

theorem range_execution_exact_witness:
  "\<exists>e'. executeRangeMode purego_backend sample_heap new_executor empty_result 0 sample_batch 0 4 [0, 0, 0, 0, 0] executionAuto =
      (e', Ok (rows_batch 4 (\<lambda>k. row_spec sample_program sample_batch (0 + k)))) \<and> executor_inv sample_heap e'"
proof -
  have "range_ok sample_batch 0 4" by (simp add: range_ok_def sample_batch_def)
  then show ?thesis
    using range_execution_exact[of purego_backend sample_heap 0 sample_batch new_executor 0 4 "[0, 0, 0, 0, 0]"]
      purego.simd_contract_axioms sample_program_ok sample_physical sample_input by simp
qed

text \<open>C6: Executions on one executor do not influence each other: any sequence of executions, over any
  programs, batches, modes and destinations, starting from a fresh executor, gives the list of the
  reference results of the single executions.\<close>

theorem executor_reuse:
  assumes "simd_contract K" "\<forall>(dst, a, b, mode) \<in> set rs. program_ok (H a) \<and> physical (H a) b"
  shows "run_executor K H new_executor rs = map (\<lambda>(dst, a, b, mode). execution_spec (H a) b) rs"
proof -
  have "run_executor K H e rs = map (\<lambda>(dst, a, b, mode). execution_spec (H a) b) rs" if "executor_inv H e" for e
    using that assms(2)
  proof (induction rs arbitrary: e)
    case (Cons r rs)
    obtain dst a b mode where r: "r = (dst, a, b, mode)" by (cases r) auto
    have "snd (executeMode K H e dst a b mode) = execution_spec (H a) b" "executor_inv H (fst (executeMode K H e dst a b mode))"
      using simd_contract.executeMode_spec[OF assms(1), of H a b e dst mode] Cons.prems r by auto
    then show ?case using Cons r by (cases "executeMode K H e dst a b mode") auto
  qed simp
  then show ?thesis by simp
qed

theorem executor_reuse_witness:
  "run_executor purego_backend sample_heap new_executor
     [(empty_result, 3, sample_batch, executionSIMD), (empty_result, 5, sample_batch, executionScalar)] =
   [execution_spec sample_program sample_batch, execution_spec sample_program sample_batch]"
  using executor_reuse[of purego_backend
      "[(empty_result, 3, sample_batch, executionSIMD), (empty_result, 5, sample_batch, executionScalar)]" sample_heap]
    purego.simd_contract_axioms sample_program_ok sample_physical by simp

text \<open>C7: The outcome of a row is the best by the policy's precedence among the candidates of its clauses,
  and a row has no outcome only if no requirement applies to it.\<close>

theorem row_outcome_best:
  assumes "simd_contract K" "program_ok (H a)" "physical (H a) b" "executor_inv H e"
    and "snd (executeMode K H e dst a b mode) = Ok r" "row < b_Rows b"
  shows "(rb_OutcomeIDs r ! row = 0 \<longleftrightarrow> considered (H a) b row = []) \<and>
    (rb_OutcomeIDs r ! row \<noteq> 0 \<longrightarrow> (\<exists>c \<in> set (row_candidates (H a) b row). rb_OutcomeIDs r ! row = cd_outcome c)) \<and>
    (\<forall>c \<in> set (row_candidates (H a) b row). \<not> better (p_Outcomes (H a)) (cd_outcome c) (rb_OutcomeIDs r ! row))"
proof -
  let ?cs = "row_candidates (H a) b row" and ?t = "p_Outcomes (H a)"
  have i: "input_ok (H a) b" and r: "r = result_of (H a) b"
    using simd_contract.executeMode_spec[OF assms(1-4), of dst mode] assms(5) by (auto simp: execution_spec_def split: if_splits)
  have b: "batch_ok (H a) b" and v: "validExecutionSemantics (H a) = Ok True" using i assms(2) by (simp_all add: input_ok_def program_ok_def)
  have o: "rb_OutcomeIDs r ! row = cd_outcome (best_candidate ?t ?cs)"
    using assms(6) r by (simp add: result_of_def rows_batch_def row_spec_def Let_def)
  show ?thesis
  proof (cases "?cs = []")
    case True
    then have "considered (H a) b row = []" using row_candidates_empty[OF v] by blast
    then show ?thesis unfolding o True by (simp add: best_candidate_def pick_best_def no_candidate_def)
  next
    case False
    then show ?thesis using o row_candidates_empty[OF v] best_candidate_best(1)[OF False, of ?t] best_candidate_best(2)[OF False, of _ ?t] candidate_outcome[OF assms(2) b] by auto
  qed
qed

theorem row_outcome_best_witness:
  "rb_OutcomeIDs (result_of sample_program sample_batch) ! 0 = 0 \<longleftrightarrow> considered sample_program sample_batch 0 = []"
proof -
  have "simd_contract purego_backend" by (rule purego.simd_contract_axioms)
  moreover have "snd (executeMode purego_backend sample_heap new_executor empty_result 0 sample_batch executionAuto) =
      Ok (result_of sample_program sample_batch)"
    using simd_contract.executeMode_spec[OF calculation, of sample_heap 0 sample_batch new_executor empty_result executionAuto]
      sample_program_ok sample_physical sample_input by (simp add: execution_spec_def)
  ultimately show ?thesis
    using row_outcome_best[of purego_backend sample_heap 0 sample_batch new_executor empty_result executionAuto _ 0]
      sample_program_ok sample_physical by (simp add: sample_batch_def)
qed

text \<open>C8: Every result is well formed: each compressed column has one offset per row and one more, from
  zero, in order, to the number of its edges, the edge columns of one group have one length, and every
  offset fits 32 bits, so the conversion of a length to \<^verbatim>\<open>uint32\<close> never wraps.\<close>

theorem execution_result_well_formed:
  assumes "simd_contract K" "program_ok (H a)" "physical (H a) b" "executor_inv H e"
    and "snd (executeMode K H e dst a b mode) = Ok r"
  shows "result_ok r \<and> rb_Rows r = b_Rows b"
proof -
  have i: "batch_ok (H a) b" "sizes_fit (H a) b" and r: "r = result_of (H a) b"
    using simd_contract.executeMode_spec[OF assms(1-4), of dst mode] assms(5) by (auto simp: execution_spec_def input_ok_def split: if_splits)
  show ?thesis using rows_batch_ok[OF row_spec_edges_fit[OF assms(2) i]] r by (simp add: result_of_def rows_batch_def)
qed

theorem execution_result_well_formed_witness:
  "result_ok (result_of sample_program sample_batch) \<and> rb_Rows (result_of sample_program sample_batch) = b_Rows sample_batch"
proof -
  have k: "simd_contract purego_backend" by (rule purego.simd_contract_axioms)
  have "snd (executeMode purego_backend sample_heap new_executor empty_result 0 sample_batch executionAuto) =
      Ok (result_of sample_program sample_batch)"
    using simd_contract.executeMode_spec[OF k, of sample_heap 0 sample_batch new_executor empty_result executionAuto]
      sample_program_ok sample_physical sample_input by (simp add: execution_spec_def)
  from execution_result_well_formed[OF k _ _ _ this] show ?thesis using sample_program_ok sample_physical by simp
qed

text \<open>C9: A program that fails the semantic checks is refused before the executor changes.\<close>

theorem invalid_program_refused:
  assumes "executor_inv H e" "validExecutionSemantics (H a) = Ok False"
  shows "executeMode K H e dst a b mode = (e, Err ErrInvalidProgram)"
proof -
  have "ex_program e \<noteq> Some a" using assms by (auto simp: executor_inv_def)
  then show ?thesis using assms(2) by (simp add: executeMode_def prepareExecution_def check_execution_def)
qed

theorem invalid_program_refused_witness:
  "executeMode purego_backend (\<lambda>_. sample_program\<lparr>p_Opcodes := []\<rparr>) new_executor empty_result 0 sample_batch executionAuto =
     (new_executor, Err ErrInvalidProgram)"
proof -
  have "validExecutionSemantics (sample_program\<lparr>p_Opcodes := []\<rparr>) = Ok False"
    by (simp add: validExecutionSemantics_def validExecutionSchedule_def)
  then show ?thesis
    using invalid_program_refused[of "\<lambda>_. sample_program\<lparr>p_Opcodes := []\<rparr>" new_executor 0 purego_backend] by simp
qed

section \<open>The scheduler\<close>












end
